(* ===== verification/Prelude.thy ===== *)
theory Prelude
  imports Main "HOL-Library.Word" "HOL-Library.Monad_Syntax"
begin

text \<open>
  Shared vocabulary of the development.

  The program is built by Open Watcom for 16-bit real mode, so \<open>unsigned char\<close> is 8 bits,
  \<open>unsigned\<close> and \<open>size_t\<close> are 16 bits and \<open>unsigned long\<close> / \<open>uint32_t\<close> are 32 bits.
  Bytes are \<open>8 word\<close>, 32-bit quantities \<open>32 word\<close>.  A 16-bit \<open>unsigned\<close> used as a length,
  an offset or a ring index is a natural number below \<open>65536\<close>; every operation of the source
  that can leave that range is written with \<open>w16\<close> (addition, multiplication) or \<open>sub16\<close>
  (subtraction), so the wrap-around of the target is part of the model.

  The theory also holds the circular-buffer vocabulary (\<open>ring_used\<close>, \<open>ring_list\<close>) with its
  two update lemmas, and the interfaces \<open>bounded_sink\<close> and \<open>bounded_fifo\<close> that the
  program's four rings (the BIOS type-ahead ring, the TCP send ring, the TCP receive ring and
  the SSH keystroke ring) provide to their clients.
\<close>

unbundle bit_operations_syntax

type_synonym byte = "8 word"
type_synonym u32 = "32 word"

named_theorems wrap_simps \<open>arithmetic of the 16-bit target\<close>
named_theorems wp \<open>rules that push a postcondition through fallible code\<close>
named_theorems ring_simps \<open>facts on circular buffers\<close>

section \<open>16-bit unsigned arithmetic\<close>

definition w16 :: "nat \<Rightarrow> nat" where
  "w16 n = n mod 65536"

definition sub16 :: "nat \<Rightarrow> nat \<Rightarrow> nat" where
  "sub16 a b = (a + 65536 - b mod 65536) mod 65536"

lemma w16_id [simp, wrap_simps]: "n < 65536 \<Longrightarrow> w16 n = n"
  by (simp add: w16_def)

lemma w16_less [simp, wrap_simps]: "w16 n < 65536"
  by (simp add: w16_def)

lemma w16_le [simp]: "w16 n \<le> n"
  by (simp add: w16_def)

lemma sub16_less [simp, wrap_simps]: "sub16 a b < 65536"
  by (simp add: sub16_def)

lemma sub16_ge [simp, wrap_simps]: "b \<le> a \<Longrightarrow> a < 65536 \<Longrightarrow> sub16 a b = a - b"
  by (simp add: sub16_def mod_if)

section \<open>Fallible code\<close>

text \<open>\<open>ensures r P\<close>: if the computation returns, its result satisfies \<open>P\<close>.\<close>

definition ensures :: "'a option \<Rightarrow> ('a \<Rightarrow> bool) \<Rightarrow> bool" where
  "ensures r P \<longleftrightarrow> (\<forall>x. r = Some x \<longrightarrow> P x)"

lemma ensuresD: "ensures r P \<Longrightarrow> r = Some x \<Longrightarrow> P x"
  by (simp add: ensures_def)

lemma ensures_Some [wp]: "P x \<Longrightarrow> ensures (Some x) P"
  by (simp add: ensures_def)

lemma ensures_bind [wp]: "(\<And>x. m = Some x \<Longrightarrow> ensures (f x) P) \<Longrightarrow> ensures (m \<bind> f) P"
  by (auto simp: ensures_def bind_eq_Some_conv)

lemma ensures_seq: "ensures m Q \<Longrightarrow> (\<And>x. Q x \<Longrightarrow> ensures (f x) P) \<Longrightarrow> ensures (m \<bind> f) P"
  by (auto simp: ensures_def bind_eq_Some_conv)

lemma ensures_if [wp]: "(c \<Longrightarrow> ensures a P) \<Longrightarrow> (\<not> c \<Longrightarrow> ensures b P) \<Longrightarrow> ensures (if c then a else b) P"
  by simp

lemma ensures_option [wp]:
  "(x = None \<Longrightarrow> ensures a P) \<Longrightarrow> (\<And>y. x = Some y \<Longrightarrow> ensures (f y) P) \<Longrightarrow>
   ensures (case x of None \<Rightarrow> a | Some y \<Rightarrow> f y) P"
  by (cases x) simp_all

lemma ensures_prod [wp]:
  "(\<And>a b. x = (a, b) \<Longrightarrow> ensures (f a b) P) \<Longrightarrow> ensures (case x of (a, b) \<Rightarrow> f a b) P"
  by (cases x) simp

lemma ensures_Let [wp]: "ensures (f x) P \<Longrightarrow> ensures (let y = x in f y) P"
  by simp

lemma ensures_mono: "ensures r P \<Longrightarrow> (\<And>x. P x \<Longrightarrow> Q x) \<Longrightarrow> ensures r Q"
  by (simp add: ensures_def)

section \<open>Byte strings\<close>

text \<open>C string literals as bytes, without the terminating NUL.\<close>

definition str :: "string \<Rightarrow> byte list" where
  "str s = map of_char s"

lemma str_Nil [simp]: "str [] = []"
  by (simp add: str_def)

lemma str_Cons [simp]: "str (c # cs) = of_char c # str cs"
  by (simp add: str_def)

lemma length_str [simp]: "length (str s) = length s"
  by (simp add: str_def)

text \<open>The 16-bit and 32-bit big-endian encodings used on the wire (\<open>wr16\<close>/\<open>rd16\<close>,
  \<open>put_u32\<close>/\<open>rd_u32\<close>, \<open>wr32\<close>/\<open>rd32\<close>).\<close>

definition be16 :: "nat \<Rightarrow> byte list" where
  "be16 v = [of_nat (v div 256), of_nat v]"

definition be32 :: "u32 \<Rightarrow> byte list" where
  "be32 v = [ucast (drop_bit 24 v), ucast (drop_bit 16 v), ucast (drop_bit 8 v), ucast v]"

definition get16 :: "byte \<Rightarrow> byte \<Rightarrow> nat" where
  "get16 a b = unat a * 256 + unat b"

definition get32 :: "byte \<Rightarrow> byte \<Rightarrow> byte \<Rightarrow> byte \<Rightarrow> u32" where
  "get32 a b c d = push_bit 24 (ucast a) OR push_bit 16 (ucast b) OR push_bit 8 (ucast c) OR ucast d"

lemma length_be16 [simp]: "length (be16 v) = 2"
  by (simp add: be16_def)

lemma length_be32 [simp]: "length (be32 v) = 4"
  by (simp add: be32_def)

lemma unat_byte_less: "unat (b :: byte) < 256"
  using unsigned_less [of b] by simp

lemma byte_bit_high: "8 \<le> n \<Longrightarrow> \<not> bit (b :: byte) n"
  using bit_imp_le_length [of b n] by auto

lemma byte_list_allD:
  assumes "list_all (\<lambda>n. P (of_nat n :: byte)) [lo..<hi]" "lo \<le> unat b" "unat b < hi"
  shows "P b"
proof -
  have "unat b \<in> set [lo..<hi]"
    unfolding set_upt using assms(2,3) by simp
  with assms(1) have "P (of_nat (unat b))"
    unfolding list_all_iff by blast
  then show ?thesis by simp
qed

lemma get16_less [simp]: "get16 a b < 65536"
  using unat_byte_less [of a] unat_byte_less [of b] by (simp add: get16_def)

lemma get16_be16: "v < 65536 \<Longrightarrow> get16 (of_nat (v div 256)) (of_nat v) = v"
  by (simp add: get16_def unat_of_nat)

lemma get32_be32: "get32 (ucast (drop_bit 24 v)) (ucast (drop_bit 16 v)) (ucast (drop_bit 8 v)) (ucast v) = v"
proof (rule bit_word_eqI)
  fix n assume "n < LENGTH(32)"
  then consider "n < 8" | "8 \<le> n" "n < 16" | "16 \<le> n" "n < 24" | "24 \<le> n" "n < 32"
    by fastforce
  then show "bit (get32 (ucast (drop_bit 24 v)) (ucast (drop_bit 16 v)) (ucast (drop_bit 8 v))
      (ucast v)) n = bit v n"
    by cases (auto simp: get32_def bit_or_iff bit_push_bit_iff bit_ucast_iff bit_drop_bit_eq)
qed

section \<open>32-bit sequence arithmetic\<close>

lemma sint32_small: "-(2147483648) \<le> x \<Longrightarrow> x < 2147483648 \<Longrightarrow> sint (word_of_int x :: u32) = x"
  by (simp add: int_word_sint mod_pos_pos_trivial)

lemma sint32_unat: "sint (w :: u32) = (if unat w < 2147483648 then int (unat w) else int (unat w) - 4294967296)"
proof (cases "unat w < 2147483648")
  case True
  have "w = word_of_int (int (unat w))" by simp
  moreover have "sint (word_of_int (int (unat w)) :: u32) = int (unat w)"
    by (rule sint32_small) (use True in linarith)+
  ultimately show ?thesis using True by argo
next
  case False
  have "unat w < 4294967296" using unsigned_less [of w] by simp
  have "w = word_of_int (int (unat w) - 4294967296)"
    by (simp add: word_of_int_eq_iff take_bit_eq_mod)
  moreover have "sint (word_of_int (int (unat w) - 4294967296) :: u32) = int (unat w) - 4294967296"
    by (rule sint32_small) (use False \<open>unat w < 4294967296\<close> in linarith)+
  ultimately show ?thesis using False by argo
qed

text \<open>Two signed comparisons with the ends of a window of \<open>k\<close> sequence numbers.\<close>

lemma seq_window:
  assumes "k < 1073741824" "nxt = una + of_nat k"
  shows "(sint (ack - una) > 0 \<and> sint (ack - nxt) \<le> 0) \<longleftrightarrow> 0 < unat (ack - una :: u32) \<and> unat (ack - una) \<le> k"
proof (cases "unat (ack - una) < 2147483648")
  case True
  let ?d = "unat (ack - una)"
  have d: "sint (ack - una) = int ?d" using True by (simp add: sint32_unat)
  have "ack - nxt = of_nat ?d - of_nat k" using assms(2) by simp
  also have "\<dots> = word_of_int (int ?d - int k)" by simp
  finally have "ack - nxt = word_of_int (int ?d - int k)" .
  moreover have "sint (word_of_int (int ?d - int k) :: u32) = int ?d - int k"
    by (rule sint32_small) (use True assms(1) in linarith)+
  ultimately have "sint (ack - nxt) = int ?d - int k" by argo
  with d show ?thesis by linarith
next
  case False
  have "unat (ack - una) < 4294967296" using unsigned_less [of "ack - una"] by simp
  with False have "sint (ack - una) < 0" using sint32_unat [of "ack - una"] by presburger
  with False assms(1) show ?thesis by simp
qed

section \<open>Circular buffers\<close>

text \<open>
  \<open>ring_used sz s e\<close> is the number of elements between the indices \<open>s\<close> (oldest) and \<open>e\<close>
  (next free) of a ring of \<open>sz\<close> cells, \<open>ring_list buf s n\<close> the \<open>n\<close> elements from \<open>s\<close> on.
\<close>

definition ring_used :: "nat \<Rightarrow> nat \<Rightarrow> nat \<Rightarrow> nat" where
  "ring_used sz s e = (e + sz - s) mod sz"

definition ring_list :: "'a list \<Rightarrow> nat \<Rightarrow> nat \<Rightarrow> 'a list" where
  "ring_list buf s n = map (\<lambda>i. buf ! ((s + i) mod length buf)) [0..<n]"

lemma length_ring_list [simp]: "length (ring_list buf s n) = n"
  by (simp add: ring_list_def)

lemma ring_list_0 [simp]: "ring_list buf s 0 = []"
  by (simp add: ring_list_def)

lemma ring_list_nth [simp]: "i < n \<Longrightarrow> ring_list buf s n ! i = buf ! ((s + i) mod length buf)"
  by (simp add: ring_list_def)

lemma ring_used_less [ring_simps]: "0 < sz \<Longrightarrow> ring_used sz s e < sz"
  by (simp add: ring_used_def)

lemma ring_used_self [simp, ring_simps]: "0 < sz \<Longrightarrow> ring_used sz s s = 0"
  by (simp add: ring_used_def)

lemma ring_used_end [ring_simps]:
  "s < sz \<Longrightarrow> e < sz \<Longrightarrow> (s + ring_used sz s e) mod sz = e"
  by (cases "s \<le> e") (auto simp: ring_used_def mod_if)

lemma ring_used_zero [ring_simps]: "s < sz \<Longrightarrow> e < sz \<Longrightarrow> ring_used sz s e = 0 \<longleftrightarrow> s = e"
  by (cases "s \<le> e") (auto simp: ring_used_def mod_if)

lemma ring_used_put [ring_simps]:
  assumes "s < sz" "e < sz" "Suc e mod sz \<noteq> s"
  shows "ring_used sz s (Suc e mod sz) = Suc (ring_used sz s e)"
  using assms by (auto simp: ring_used_def mod_if split: if_splits)

lemma ring_full [ring_simps]:
  assumes "s < sz" "e < sz"
  shows "Suc e mod sz = s \<longleftrightarrow> ring_used sz s e = sz - Suc 0"
  using assms by (auto simp: ring_used_def mod_if split: if_splits)

lemma ring_used_get [ring_simps]:
  assumes "s < sz" "e < sz" "s \<noteq> e"
  shows "ring_used sz (Suc s mod sz) e = ring_used sz s e - Suc 0"
  using assms by (auto simp: ring_used_def mod_if split: if_splits)

lemma ring_list_Suc: "ring_list buf s (Suc n) = ring_list buf s n @ [buf ! ((s + n) mod length buf)]"
  by (simp add: ring_list_def)

lemma ring_list_Cons:
  assumes "s < length buf"
  shows "ring_list buf s (Suc n) = buf ! s # ring_list buf (Suc s mod length buf) n"
proof (rule nth_equalityI)
  fix i assume "i < length (ring_list buf s (Suc n))"
  then show "ring_list buf s (Suc n) ! i = (buf ! s # ring_list buf (Suc s mod length buf) n) ! i"
    using assms by (cases i) (simp_all add: mod_add_left_eq)
qed simp

lemma ring_list_update_outside:
  assumes "n < length buf" "j = (s + n) mod length buf"
  shows "ring_list (buf[j := x]) s n = ring_list buf s n"
proof (rule nth_equalityI)
  fix i assume "i < length (ring_list (buf[j := x]) s n)"
  then have i: "i < n" by simp
  have "(s + i) mod length buf \<noteq> (s + n) mod length buf"
  proof
    assume "(s + i) mod length buf = (s + n) mod length buf"
    then have "length buf dvd (s + n) - (s + i)"
      using i by (metis add_left_mono less_imp_le mod_eq_dvd_iff_nat)
    then have "length buf \<le> n - i" using i by (simp add: dvd_imp_le)
    then show False using assms(1) by simp
  qed
  then show "ring_list (buf[j := x]) s n ! i = ring_list buf s n ! i"
    using i assms by simp
qed simp

lemma ring_list_put [ring_simps]:
  assumes "s < length buf" "e < length buf" "ring_used (length buf) s e = n" "Suc n < length buf"
  shows "ring_list (buf[e := x]) s (Suc n) = ring_list buf s n @ [x]"
proof -
  have e: "e = (s + n) mod length buf"
    using assms ring_used_end [of s "length buf" e] by simp
  have "ring_list (buf[e := x]) s n = ring_list buf s n"
    by (rule ring_list_update_outside) (use assms(4) e in auto)
  then show ?thesis
    using e assms(2) by (simp add: ring_list_Suc)
qed

text \<open>Moving the start of a ring forward over \<open>j\<close> of its elements, and positions inside it.\<close>

lemma ring_used_add:
  assumes "s < sz" "n < sz"
  shows "ring_used sz s ((s + n) mod sz) = n"
proof (cases "s + n < sz")
  case True
  with assms show ?thesis by (simp add: ring_used_def)
next
  case False
  with assms have "(s + n) mod sz = s + n - sz" by (simp add: mod_if)
  with assms False show ?thesis by (simp add: ring_used_def)
qed

lemma ring_used_between:
  assumes "s < sz" "j \<le> n" "n < sz"
  shows "ring_used sz ((s + j) mod sz) ((s + n) mod sz) = n - j"
proof -
  have "(s + n) mod sz = ((s + j) mod sz + (n - j)) mod sz"
    using assms(2) mod_add_left_eq [of "s + j" sz "n - j"] by simp
  moreover have "ring_used sz ((s + j) mod sz) (((s + j) mod sz + (n - j)) mod sz) = n - j"
    using assms by (intro ring_used_add) simp_all
  ultimately show ?thesis by simp
qed

lemma ring_list_drop: "ring_list buf ((s + j) mod length buf) (n - j) = drop j (ring_list buf s n)"
  by (rule nth_equalityI) (simp_all add: mod_add_left_eq add.assoc)

lemma ring_list_take: "ring_list buf s (min m n) = take m (ring_list buf s n)"
  by (rule nth_equalityI) simp_all

section \<open>Interfaces of the rings\<close>

text \<open>
  A bounded sink accepts an element while there is room and drops it otherwise: what every
  ring of the program promises its writer.  A bounded FIFO can also be read, oldest first.
\<close>

locale bounded_sink =
  fixes inv :: "'q \<Rightarrow> bool"
    and contents :: "'q \<Rightarrow> 'a list"
    and cap :: "'q \<Rightarrow> nat"
    and put :: "'a \<Rightarrow> 'q \<Rightarrow> 'q"
  assumes inv_put: "inv q \<Longrightarrow> inv (put x q)"
    and cap_put: "inv q \<Longrightarrow> cap (put x q) = cap q"
    and contents_put: "inv q \<Longrightarrow> contents (put x q) =
          (if length (contents q) < cap q then contents q @ [x] else contents q)"
    and length_contents: "inv q \<Longrightarrow> length (contents q) \<le> cap q"
begin

lemma inv_fold_put: "inv q \<Longrightarrow> inv (fold put xs q)"
  by (induction xs arbitrary: q) (auto simp: inv_put)

lemma cap_fold_put: "inv q \<Longrightarrow> cap (fold put xs q) = cap q"
  by (induction xs arbitrary: q) (auto simp: inv_put cap_put)

lemma contents_fold_put:
  "inv q \<Longrightarrow> contents (fold put xs q) = contents q @ take (cap q - length (contents q)) xs"
proof (induction xs arbitrary: q)
  case (Cons x xs)
  then show ?case
    by (cases "length (contents q) < cap q")
      (auto simp: inv_put cap_put contents_put length_contents take_Cons' Suc_diff_Suc)
qed simp

lemma put_all_room:
  assumes "inv q" "length (contents q) + length xs \<le> cap q"
  shows "contents (fold put xs q) = contents q @ xs"
  using assms by (simp add: contents_fold_put)

end

locale bounded_fifo = bounded_sink inv contents cap put
  for inv :: "'q \<Rightarrow> bool" and contents :: "'q \<Rightarrow> 'a list" and cap put +
  fixes get :: "'q \<Rightarrow> ('a \<times> 'q) option"
  assumes get_empty: "inv q \<Longrightarrow> contents q = [] \<Longrightarrow> get q = None"
    and get_Cons: "inv q \<Longrightarrow> contents q = x # xs \<Longrightarrow>
          \<exists>q'. get q = Some (x, q') \<and> inv q' \<and> contents q' = xs \<and> cap q' = cap q"
begin

lemma get_SomeD:
  assumes "inv q" "get q = Some (x, q')"
  shows "inv q' \<and> contents q = x # contents q' \<and> cap q' = cap q"
proof (cases "contents q")
  case Nil
  with assms get_empty show ?thesis by simp
next
  case (Cons y ys)
  with assms get_Cons [OF assms(1) Cons] show ?thesis by auto
qed

text \<open>Reading until the ring is empty, with the number of reads bounded.\<close>

primrec drain :: "nat \<Rightarrow> 'q \<Rightarrow> 'a list \<times> 'q" where
  "drain 0 q = ([], q)"
| "drain (Suc n) q = (case get q of None \<Rightarrow> ([], q)
     | Some (x, q') \<Rightarrow> (let (xs, q'') = drain n q' in (x # xs, q'')))"

lemma drain_contents: "inv q \<Longrightarrow> fst (drain n q) = take n (contents q) \<and> inv (snd (drain n q))
    \<and> contents (snd (drain n q)) = drop n (contents q)"
proof (induction n arbitrary: q)
  case (Suc n)
  show ?case
  proof (cases "contents q")
    case Nil
    with Suc.prems get_empty show ?thesis by simp
  next
    case (Cons x xs)
    from get_Cons [OF Suc.prems Cons] obtain q' where
      "get q = Some (x, q')" "inv q'" "contents q' = xs" by blast
    with Suc.IH [of q'] Cons show ?thesis by (auto simp: case_prod_beta Let_def)
  qed
qed simp

text \<open>First in, first out: what was put (and fitted) comes out, in order.\<close>

lemma put_drain:
  assumes "inv q" "contents q = []" "length xs \<le> cap q"
  shows "fst (drain (length xs) (fold put xs q)) = xs"
  using assms drain_contents [OF inv_fold_put [OF assms(1)], of "length xs" xs]
  by (simp add: contents_fold_put)

end

section \<open>Streaming interfaces\<close>

text \<open>What the hashes and the authenticator promise: a context stands for the bytes absorbed so far, absorbing appends, and
  finishing gives the digest of all of them.  Then the way a message is cut into pieces does not matter.\<close>

locale streaming =
  fixes stands :: "byte list \<Rightarrow> 'c \<Rightarrow> bool"
    and update :: "byte list \<Rightarrow> 'c \<Rightarrow> 'c"
    and final :: "'c \<Rightarrow> byte list"
    and digest :: "byte list \<Rightarrow> byte list"
  assumes law_update: "stands m c \<Longrightarrow> stands (m @ d) (update d c)"
    and law_final: "stands m c \<Longrightarrow> final c = digest m"
begin

lemma stands_pieces: "stands m c \<Longrightarrow> stands (m @ concat ps) (fold update ps c)"
proof (induction ps arbitrary: m c)
  case (Cons p ps)
  from Cons.IH [OF law_update [OF Cons.prems, of p]] show ?case by simp
qed simp

lemma digest_pieces: "stands m c \<Longrightarrow> final (fold update ps c) = digest (m @ concat ps)"
  by (rule law_final [OF stands_pieces])

lemma cut_irrelevant: "stands m c \<Longrightarrow> concat ps = concat qs \<Longrightarrow> final (fold update ps c) = final (fold update qs c)"
  by (simp add: digest_pieces)

end

end
