(* ===== verification/Ansikey.thy ===== *)
theory Ansikey
  imports Prelude
begin

text \<open>
  \<open>dosshd/ansikey.c\<close>: raw terminal bytes to BIOS keystrokes.  The file's statics (the two
  scancode tables, the escape-sequence buffer \<open>pend\<close> with its length and age, the CR-swallow
  flag and the reboot-sentinel counter) are the fields of the record \<open>ansikey\<close>; one
  definition per C function.  The two callbacks into \<open>dosshd.c\<close>, \<open>inject_key\<close> and
  \<open>request_reboot\<close>, are the events an operation returns, in call order; \<open>Keyboard\<close> performs
  them on the machine.

  Shown here: the buffer invariant and that both entry points keep it; every printable byte
  gives exactly one keystroke; the escape sequences of the navigation and function keys are
  recognised for every parameter; a reboot is requested exactly after the sentinel; line ends
  give one Enter; a lone ESC is delivered by the second tick.
\<close>

section \<open>State and events\<close>

datatype key_event = InjectKey byte byte | RequestReboot

record ansikey =
  scan :: "byte list"
  unshift :: "byte list"
  pend :: "byte list"
  pendlen :: nat
  pend_age :: nat
  swallow :: bool
  rb_state :: nat

definition ansikey_zero :: ansikey where
  "ansikey_zero = \<lparr>scan = replicate 128 0, unshift = replicate 128 0, pend = replicate 12 0,
     pendlen = 0, pend_age = 0, swallow = False, rb_state = 0\<rparr>"

section \<open>Scancode tables\<close>

definition key_rows :: "(byte list \<times> byte) list" where
  "key_rows = [(str ''1234567890-='', 0x02), (str ''qwertyuiop[]'', 0x10),
     (str ''asdfghjkl;'' @ [39, 96], 0x1E), (92 # str ''zxcvbnm,./'', 0x2B)]"

definition key_sh :: "byte list" where
  "key_sh = str ''!@#$%^&*()_+{}:'' @ [34] @ str ''~<>?|''"

definition key_ba :: "byte list" where
  "key_ba = str ''1234567890-=[];'' @ [39, 96] @ str '',./'' @ [92]"

fun fill_row :: "byte list \<Rightarrow> byte \<Rightarrow> nat \<Rightarrow> byte list \<Rightarrow> byte list" where
  "fill_row [] base i tab = tab"
| "fill_row (ch # row) base i tab = fill_row row base (Suc i) (tab[unat ch := base + of_nat i])"

fun fill_unshift :: "byte list \<Rightarrow> byte list \<Rightarrow> byte list \<Rightarrow> byte list" where
  "fill_unshift (s # sh) (b # ba) tab = fill_unshift sh ba (tab[unat s := b])"
| "fill_unshift _ _ tab = tab"

definition ansi_key_init :: "ansikey \<Rightarrow> ansikey" where
  "ansi_key_init k =
     (let sc = fold (\<lambda>(row, base) tab. fill_row row base 0 tab) key_rows (scan k);
          sc = sc[unat (32 :: byte) := 0x39]
      in k\<lparr>scan := sc, unshift := fill_unshift key_sh key_ba (unshift k)\<rparr>)"

section \<open>Single bytes and extended keys\<close>

definition map_byte :: "ansikey \<Rightarrow> byte \<Rightarrow> key_event list" where
  "map_byte k b =
     (if b = 0x0D \<or> b = 0x0A then [InjectKey 0x1C 0x0D]
      else if b = 0x09 then [InjectKey 0x0F 0x09]
      else if b = 0x7F \<or> b = 0x08 then [InjectKey 0x0E 0x08]
      else if 32 \<le> b \<and> b < 127 then
        (let base = unshift k ! unat b;
             base = (if base = 0 then (if 65 \<le> b \<and> b \<le> 90 then b + 32 else b) else base);
             sc = scan k ! unat base
         in if sc \<noteq> 0 then [InjectKey sc b] else [])
      else if 1 \<le> b \<and> b \<le> 26 then
        (let sc = scan k ! (unat b + 96) in if sc \<noteq> 0 then [InjectKey sc b] else [])
      else [])"

definition csi_final :: "byte \<Rightarrow> byte" where
  "csi_final f =
     (if f = 65 then 0x48 else if f = 66 then 0x50
      else if f = 67 then 0x4D else if f = 68 then 0x4B
      else if f = 72 then 0x47 else if f = 70 then 0x4F else 0)"

definition csi_tilde :: "nat \<Rightarrow> byte" where
  "csi_tilde n =
     (if n = 1 then 0x47 else if n = 2 then 0x52 else if n = 3 then 0x53
      else if n = 4 then 0x4F else if n = 5 then 0x49 else if n = 6 then 0x51
      else if n = 11 then 0x3B else if n = 12 then 0x3C else if n = 13 then 0x3D
      else if n = 14 then 0x3E else if n = 15 then 0x3F else if n = 17 then 0x40
      else if n = 18 then 0x41 else if n = 19 then 0x42 else if n = 20 then 0x43
      else if n = 21 then 0x44 else if n = 23 then 0x57 else if n = 24 then 0x58 else 0)"

definition ss3_final :: "byte \<Rightarrow> byte" where
  "ss3_final f =
     (if f = 80 then 0x3B else if f = 81 then 0x3C else if f = 82 then 0x3D
      else if f = 83 then 0x3E else if f = 72 then 0x47 else if f = 70 then 0x4F else 0)"

section \<open>Escape-sequence assembly\<close>

definition is_digit :: "byte \<Rightarrow> bool" where
  "is_digit b \<longleftrightarrow> 48 \<le> b \<and> b \<le> 57"

text \<open>The parameter loop of \<open>finish_csi\<close>, over \<open>pend[2..pendlen)\<close>; \<open>n\<close> is a 16-bit \<open>unsigned\<close>.\<close>

fun csi_param :: "byte list \<Rightarrow> nat \<Rightarrow> nat" where
  "csi_param [] n = n"
| "csi_param (d # ds) n = (if is_digit d then csi_param ds (w16 (n * 10 + (unat d - 48))) else n)"

definition finish_csi :: "ansikey \<Rightarrow> byte \<Rightarrow> key_event list" where
  "finish_csi k final =
     (let sc = (if final = 126 then csi_tilde (csi_param (drop 2 (take (pendlen k) (pend k))) 0)
                else csi_final final)
      in if sc \<noteq> 0 then [InjectKey sc 0] else [])"

function ansi_key_byte :: "ansikey \<Rightarrow> byte \<Rightarrow> ansikey \<times> key_event list" where
  "ansi_key_byte k b =
     (if b = 0x1E then
        ((if rb_state k < 3 then k\<lparr>rb_state := rb_state k + 1\<rparr> else k), [])
      else if rb_state k \<ge> 3 \<and> (b = 89 \<or> b = 121) then (k\<lparr>rb_state := 0\<rparr>, [RequestReboot])
      else
        (let k = k\<lparr>rb_state := 0\<rparr>; sw = swallow k; k = k\<lparr>swallow := False\<rparr>
         in if sw \<and> (b = 0x0A \<or> b = 0x00) then (k, [])
         else if pendlen k = 0 then
           (if b = 0x1B then (k\<lparr>pend := (pend k)[0 := 0x1B], pendlen := 1, pend_age := 0\<rparr>, [])
            else if b = 0x0D then (k\<lparr>swallow := True\<rparr>, [InjectKey 0x1C 0x0D])
            else (k, map_byte k b))
         else
           (let k = k\<lparr>pend_age := 0\<rparr>
            in if pendlen k = 1 then
              (if b = 91 \<or> b = 79 then (k\<lparr>pend := (pend k)[1 := b], pendlen := 2\<rparr>, [])
               else (let (k', ev) = ansi_key_byte (k\<lparr>pendlen := 0\<rparr>) b
                     in (k', InjectKey 0x01 0x1B # ev)))
            else if pend k ! 1 = 91 then
              (if is_digit b \<or> b = 59 then
                 ((if pendlen k < 12 then k\<lparr>pend := (pend k)[pendlen k := b],
                                                pendlen := pendlen k + 1\<rparr> else k), [])
               else (k\<lparr>pendlen := 0\<rparr>, finish_csi k b))
            else if pend k ! 1 = 79 then
              (let sc = ss3_final b
               in (k\<lparr>pendlen := 0\<rparr>, if sc \<noteq> 0 then [InjectKey sc 0] else []))
            else (k\<lparr>pendlen := 0\<rparr>, []))))"
  by pat_completeness auto
termination
  by (relation "measure (\<lambda>(k, b). pendlen k)") auto

declare ansi_key_byte.simps [simp del]

definition ansi_key_tick :: "ansikey \<Rightarrow> ansikey \<times> key_event list" where
  "ansi_key_tick k =
     (if pendlen k > 0 then
        (let k = k\<lparr>pend_age := pend_age k + 1\<rparr>
         in if pend_age k \<ge> 2 then
              (k\<lparr>pendlen := 0\<rparr>, if pendlen k = 1 then [InjectKey 0x01 0x1B] else [])
            else (k, []))
      else (k, []))"

text \<open>Feeding a stream of bytes.\<close>

fun ansi_key_bytes :: "ansikey \<Rightarrow> byte list \<Rightarrow> ansikey \<times> key_event list" where
  "ansi_key_bytes k [] = (k, [])"
| "ansi_key_bytes k (b # bs) =
     (let (k, ev) = ansi_key_byte k b; (k, evs) = ansi_key_bytes k bs in (k, ev @ evs))"

lemma ansi_key_bytes_append:
  "ansi_key_bytes k (xs @ ys) =
     (let (k1, e1) = ansi_key_bytes k xs; (k2, e2) = ansi_key_bytes k1 ys in (k2, e1 @ e2))"
  by (induction xs arbitrary: k) (auto simp: Let_def case_prod_beta)

section \<open>The tables\<close>

definition ansikey0 :: ansikey where
  "ansikey0 = ansi_key_init ansikey_zero"

text \<open>The tables as literals: \<open>ansi_key_init\<close> on the zero-initialised statics computes them.\<close>

definition scan_table :: "byte list" where
  "scan_table = [
    0, 0, 0, 0, 0, 0, 0, 0, 0, 0, 0, 0, 0, 0, 0, 0, 0, 0, 0, 0, 0, 0, 0, 0, 0, 0, 0, 0, 0, 0,
    0, 0, 57, 0, 0, 0, 0, 0, 0, 40, 0, 0, 0, 0, 51, 12, 52, 53, 11, 2, 3, 4, 5, 6, 7, 8, 9,
    10, 0, 39, 0, 13, 0, 0, 0, 0, 0, 0, 0, 0, 0, 0, 0, 0, 0, 0, 0, 0, 0, 0, 0, 0, 0, 0, 0, 0,
    0, 0, 0, 0, 0, 26, 43, 27, 0, 0, 41, 30, 48, 46, 32, 18, 33, 34, 35, 23, 36, 37, 38, 50,
    49, 24, 25, 16, 19, 31, 20, 22, 47, 17, 45, 21, 44, 0, 0, 0, 0, 0
  ]"

definition unshift_table :: "byte list" where
  "unshift_table = [
    0, 0, 0, 0, 0, 0, 0, 0, 0, 0, 0, 0, 0, 0, 0, 0, 0, 0, 0, 0, 0, 0, 0, 0, 0, 0, 0, 0, 0, 0,
    0, 0, 0, 49, 39, 51, 52, 53, 55, 0, 57, 48, 56, 61, 0, 0, 0, 0, 0, 0, 0, 0, 0, 0, 0, 0, 0,
    0, 59, 0, 44, 0, 46, 47, 50, 0, 0, 0, 0, 0, 0, 0, 0, 0, 0, 0, 0, 0, 0, 0, 0, 0, 0, 0, 0,
    0, 0, 0, 0, 0, 0, 0, 0, 0, 54, 45, 0, 0, 0, 0, 0, 0, 0, 0, 0, 0, 0, 0, 0, 0, 0, 0, 0, 0,
    0, 0, 0, 0, 0, 0, 0, 0, 0, 91, 92, 93, 96, 0
  ]"

lemma scan_ansikey0: "scan ansikey0 = scan_table"
  by code_simp

lemma unshift_ansikey0: "unshift ansikey0 = unshift_table"
  by code_simp

text \<open>The scancode \<open>map_byte\<close> looks up for a printable byte.\<close>

definition key_base :: "byte \<Rightarrow> byte" where
  "key_base b = (let u = unshift_table ! unat b
     in if u = 0 then (if 65 \<le> b \<and> b \<le> 90 then b + 32 else b) else u)"

definition key_scan :: "byte \<Rightarrow> byte" where
  "key_scan b = scan_table ! unat (key_base b)"

lemma key_scan_table: "list_all (\<lambda>n. key_scan (of_nat n) \<noteq> 0) [32..<127]"
  by code_simp

lemma key_scan_printable: "32 \<le> b \<Longrightarrow> b < 127 \<Longrightarrow> key_scan b \<noteq> 0"
  by (rule byte_list_allD [OF key_scan_table]) (simp_all add: word_le_nat_alt word_less_nat_alt)

section \<open>The invariant\<close>

definition ak_inv :: "ansikey \<Rightarrow> bool" where
  "ak_inv k \<longleftrightarrow> scan k = scan_table \<and> unshift k = unshift_table \<and> length (pend k) = 12
     \<and> pendlen k \<le> 12 \<and> pend_age k \<le> 2 \<and> (pendlen k > 0 \<longrightarrow> pend_age k \<le> 1)
     \<and> rb_state k \<le> 3 \<and> (swallow k \<longrightarrow> pendlen k = 0)
     \<and> (pendlen k \<ge> 1 \<longrightarrow> pend k ! 0 = 0x1B)
     \<and> (pendlen k \<ge> 2 \<longrightarrow> pend k ! 1 = 91 \<or> pend k ! 1 = 79 \<and> pendlen k = 2)
     \<and> (\<forall>i \<in> {2..<pendlen k}. is_digit (pend k ! i) \<or> pend k ! i = 59)"

lemma ak_inv_ansikey0: "ak_inv ansikey0"
  by (simp add: ak_inv_def scan_ansikey0 unshift_ansikey0)
    (simp add: ansikey0_def ansi_key_init_def ansikey_zero_def Let_def)

lemma ansi_key_byte_inv_aux:
  "ak_inv k \<Longrightarrow> pendlen k = 0 \<Longrightarrow> ak_inv (fst (ansi_key_byte k b))"
  by (subst ansi_key_byte.simps) (auto simp: ak_inv_def Let_def)

text \<open>The equations of \<open>ansi_key_byte\<close> on its four regimes: the reboot sentinel, just after
  ESC (a sequence introducer, or any other byte: a lone ESC, then the byte afresh), inside a
  CSI sequence and inside an SS3 sequence.\<close>

definition sentinel_byte :: "ansikey \<Rightarrow> byte \<Rightarrow> bool" where
  "sentinel_byte k b \<longleftrightarrow> b = 0x1E \<or> rb_state k \<ge> 3 \<and> (b = 89 \<or> b = 121)"

definition settle :: "ansikey \<Rightarrow> ansikey" where
  "settle k = k\<lparr>rb_state := 0, swallow := False, pend_age := 0\<rparr>"

lemma settle_simps [simp]:
  "pendlen (settle k) = pendlen k" "pend (settle k) = pend k" "scan (settle k) = scan k"
  "unshift (settle k) = unshift k" "rb_state (settle k) = 0" "\<not> swallow (settle k)"
  by (simp_all add: settle_def)

lemma no_swallow: "ak_inv k \<Longrightarrow> 0 < pendlen k \<Longrightarrow> \<not> swallow k"
  by (auto simp: ak_inv_def)

lemma ansi_key_byte_sentinel:
  "sentinel_byte k b \<Longrightarrow> ansi_key_byte k b =
     (if b = 0x1E then ((if rb_state k < 3 then k\<lparr>rb_state := rb_state k + 1\<rparr> else k), [])
      else (k\<lparr>rb_state := 0\<rparr>, [RequestReboot]))"
  by (subst ansi_key_byte.simps) (auto simp: sentinel_byte_def)

lemma ansi_key_byte_intro:
  assumes "ak_inv k" "pendlen k = 1" "b = 91 \<or> b = 79"
  shows "ansi_key_byte k b = ((settle k)\<lparr>pend := (pend k)[1 := b], pendlen := 2\<rparr>, [])"
  using assms no_swallow [OF assms(1)]
  by (subst ansi_key_byte.simps) (auto simp add: Let_def settle_def)

lemma ansi_key_byte_esc_other:
  assumes "ak_inv k" "pendlen k = 1" "\<not> sentinel_byte k b" "b \<noteq> 91" "b \<noteq> 79"
  shows "ansi_key_byte k b = (fst (ansi_key_byte ((settle k)\<lparr>pendlen := 0\<rparr>) b),
           InjectKey 0x01 0x1B # snd (ansi_key_byte ((settle k)\<lparr>pendlen := 0\<rparr>) b))"
  using assms no_swallow [OF assms(1)]
  by (subst ansi_key_byte.simps) (simp add: Let_def case_prod_beta settle_def sentinel_byte_def)

lemma ansi_key_byte_csi:
  assumes "ak_inv k" "2 \<le> pendlen k" "pend k ! 1 = 91" "\<not> sentinel_byte k b"
  shows "ansi_key_byte k b =
     (if is_digit b \<or> b = 59 then
        ((if pendlen k < 12 then (settle k)\<lparr>pend := (pend k)[pendlen k := b],
            pendlen := pendlen k + 1\<rparr> else settle k), [])
      else ((settle k)\<lparr>pendlen := 0\<rparr>, finish_csi k b))"
  using assms no_swallow [OF assms(1)]
  by (subst ansi_key_byte.simps) (auto simp add: Let_def settle_def sentinel_byte_def finish_csi_def)

lemma ansi_key_byte_ss3:
  assumes "ak_inv k" "2 \<le> pendlen k" "pend k ! 1 = 79" "\<not> sentinel_byte k b"
  shows "ansi_key_byte k b = ((settle k)\<lparr>pendlen := 0\<rparr>,
     if ss3_final b \<noteq> 0 then [InjectKey (ss3_final b) 0] else [])"
  using assms no_swallow [OF assms(1)]
  by (subst ansi_key_byte.simps) (auto simp add: Let_def settle_def sentinel_byte_def)

lemma ak_inv_settle [simp]: "ak_inv k \<Longrightarrow> ak_inv (settle k)"
  by (simp add: ak_inv_def settle_def)

lemma ak_inv_reset [simp]: "ak_inv k \<Longrightarrow> ak_inv (k\<lparr>pendlen := 0\<rparr>)"
  by (simp add: ak_inv_def)

lemma ak_inv_push:
  assumes "ak_inv k" "2 \<le> pendlen k" "pendlen k < 12" "pend k ! 1 = 91" "is_digit b \<or> b = 59"
  shows "ak_inv (k\<lparr>pend := (pend k)[pendlen k := b], pendlen := Suc (pendlen k)\<rparr>)"
  using assms by (auto simp: ak_inv_def nth_list_update less_Suc_eq)

lemma ak_inv_introducer:
  assumes "ak_inv k" "pendlen k = 1" "b = 91 \<or> b = 79"
  shows "ak_inv (k\<lparr>pend := (pend k)[Suc 0 := b], pendlen := 2\<rparr>)"
  using assms by (auto simp: ak_inv_def)

lemma ansi_key_byte_inv:
  assumes k: "ak_inv k"
  shows "ak_inv (fst (ansi_key_byte k b))"
proof -
  consider "sentinel_byte k b" | "pendlen k = 0" | "\<not> sentinel_byte k b" "pendlen k = 1"
    | "\<not> sentinel_byte k b" "2 \<le> pendlen k" by linarith
  then show ?thesis
  proof cases
    case 1
    with k show ?thesis by (auto simp: ansi_key_byte_sentinel ak_inv_def)
  next
    case 2
    with k show ?thesis by (rule ansi_key_byte_inv_aux)
  next
    case 3
    have "ak_inv (fst (ansi_key_byte ((settle k)\<lparr>pendlen := 0\<rparr>) b))"
      by (rule ansi_key_byte_inv_aux) (simp_all add: k)
    with k 3 ak_inv_introducer [of "settle k" b] show ?thesis
      by (cases "b = 91 \<or> b = 79")
        (simp_all add: ansi_key_byte_intro ansi_key_byte_esc_other)
  next
    case 4
    then consider "pend k ! 1 = 91" | "pend k ! 1 = 79" using k by (auto simp: ak_inv_def)
    then show ?thesis
      using k 4 ak_inv_push [of "settle k" b]
      by cases (auto simp: ansi_key_byte_csi ansi_key_byte_ss3)
  qed
qed

lemma ansi_key_tick_inv: "ak_inv k \<Longrightarrow> ak_inv (fst (ansi_key_tick k))"
  by (auto simp: ansi_key_tick_def ak_inv_def Let_def)

lemma ansi_key_bytes_inv: "ak_inv k \<Longrightarrow> ak_inv (fst (ansi_key_bytes k bs))"
  by (induction bs arbitrary: k) (auto simp: Let_def case_prod_beta ansi_key_byte_inv)

section \<open>Properties\<close>

text \<open>An idle mapper: no pending sequence, no swallowed line end.\<close>

definition ak_idle :: "ansikey \<Rightarrow> bool" where
  "ak_idle k \<longleftrightarrow> ak_inv k \<and> pendlen k = 0 \<and> \<not> swallow k \<and> rb_state k = 0"

lemma ansi_key_byte_idle:
  assumes "ak_idle k" "b \<noteq> 0x1E" "b \<noteq> 0x1B" "b \<noteq> 0x0D"
  shows "ansi_key_byte k b = (k, map_byte k b)"
  using assms by (subst ansi_key_byte.simps) (auto simp: ak_idle_def Let_def map_byte_def)

lemma map_byte_printable:
  assumes "ak_inv k" "32 \<le> b" "b < 127"
  shows "map_byte k b = [InjectKey (key_scan b) b]"
proof -
  have "b \<noteq> 0x0D" "b \<noteq> 0x0A" "b \<noteq> 0x09" "b \<noteq> 0x08" "b \<noteq> 0x7F"
    using assms(2,3) by auto
  moreover have "key_scan b \<noteq> 0" using assms(2,3) by (rule key_scan_printable)
  ultimately show ?thesis
    using assms by (simp add: map_byte_def ak_inv_def Let_def key_scan_def key_base_def)
qed

text \<open>Every printable ASCII byte (32..126) that reaches an idle mapper is turned into exactly
  one keystroke, with a nonzero scancode and the byte itself as the ASCII code, and leaves the
  mapper idle: no printable key is ever dropped or doubled.\<close>

theorem ansi_key_byte_printable:
  assumes "ak_idle k" "32 \<le> b" "b < 127"
  shows "\<exists>sc. sc \<noteq> 0 \<and> ansi_key_byte k b = (k, [InjectKey sc b])"
proof -
  have "b \<noteq> 0x1E" "b \<noteq> 0x1B" "b \<noteq> 0x0D" using assms(2,3) by auto
  then have "ansi_key_byte k b = (k, [InjectKey (key_scan b) b])"
    using assms by (simp add: ansi_key_byte_idle map_byte_printable ak_idle_def)
  then show ?thesis using assms key_scan_printable by blast
qed

lemma ak_idle_ansikey0: "ak_idle ansikey0"
  by (simp add: ak_idle_def ak_inv_ansikey0)
    (simp add: ansikey0_def ansi_key_init_def ansikey_zero_def Let_def)

theorem ansi_key_byte_printable_witness:
  "\<exists>sc. sc \<noteq> 0 \<and> ansi_key_byte ansikey0 97 = (ansikey0, [InjectKey sc 97])"
  by (rule ansi_key_byte_printable [OF ak_idle_ansikey0]) simp_all

subsection \<open>The reboot sentinel\<close>

text \<open>The mapper is driven by bytes and, between them, by timer ticks.\<close>

datatype ak_input = KByte byte | KTick

fun ak_step :: "ansikey \<Rightarrow> ak_input \<Rightarrow> ansikey \<times> key_event list" where
  "ak_step k (KByte b) = ansi_key_byte k b"
| "ak_step k KTick = ansi_key_tick k"

fun ak_run :: "ansikey \<Rightarrow> ak_input list \<Rightarrow> ansikey \<times> key_event list" where
  "ak_run k [] = (k, [])"
| "ak_run k (i # is) = (let (k, ev) = ak_step k i; (k, evs) = ak_run k is in (k, ev @ evs))"

lemma ak_run_append:
  "ak_run k (xs @ ys) = (let (k1, e1) = ak_run k xs; (k2, e2) = ak_run k1 ys in (k2, e1 @ e2))"
  by (induction xs arbitrary: k) (auto simp: Let_def case_prod_beta)

lemma ak_run_inv: "ak_inv k \<Longrightarrow> ak_inv (fst (ak_run k is))"
proof (induction "is" arbitrary: k)
  case (Cons i "is")
  then show ?case
    by (cases i) (auto simp: Let_def case_prod_beta ansi_key_byte_inv ansi_key_tick_inv)
qed simp

definition input_bytes :: "ak_input list \<Rightarrow> byte list" where
  "input_bytes is = concat (map (\<lambda>i. case i of KByte b \<Rightarrow> [b] | KTick \<Rightarrow> []) is)"

lemma map_byte_no_reboot: "RequestReboot \<notin> set (map_byte k b)"
  by (auto simp: map_byte_def Let_def)

lemma reboot_fresh:
  "pendlen k = 0 \<Longrightarrow> RequestReboot \<in> set (snd (ansi_key_byte k b)) \<longleftrightarrow> rb_state k \<ge> 3 \<and> (b = 89 \<or> b = 121)"
  by (subst ansi_key_byte.simps) (auto simp: Let_def map_byte_no_reboot)

lemma rb_state_fresh:
  "pendlen k = 0 \<Longrightarrow> rb_state (fst (ansi_key_byte k b)) =
     (if b = 0x1E then (if rb_state k < 3 then rb_state k + 1 else rb_state k) else 0)"
  by (subst ansi_key_byte.simps) (auto simp: Let_def)

lemma reboot_step:
  assumes "ak_inv k"
  shows "(RequestReboot \<in> set (snd (ansi_key_byte k b)) \<longleftrightarrow> rb_state k \<ge> 3 \<and> (b = 89 \<or> b = 121))
    \<and> rb_state (fst (ansi_key_byte k b)) = (if b = 0x1E then min 3 (Suc (rb_state k)) else 0)"
proof -
  have le: "rb_state k \<le> 3" using assms by (simp add: ak_inv_def)
  consider "sentinel_byte k b" | "pendlen k = 0" | "\<not> sentinel_byte k b" "pendlen k = 1"
    | "\<not> sentinel_byte k b" "2 \<le> pendlen k" by linarith
  then show ?thesis
  proof cases
    case 1
    with le show ?thesis by (auto simp: ansi_key_byte_sentinel sentinel_byte_def)
  next
    case 2
    with le show ?thesis by (auto simp: reboot_fresh rb_state_fresh)
  next
    case 3
    then have "b \<noteq> 0x1E" "\<not> (rb_state k \<ge> 3 \<and> (b = 89 \<or> b = 121))"
      by (auto simp: sentinel_byte_def)
    with assms 3 show ?thesis
      by (cases "b = 91 \<or> b = 79")
        (auto simp: ansi_key_byte_intro ansi_key_byte_esc_other reboot_fresh rb_state_fresh)
  next
    case 4
    then have n: "b \<noteq> 0x1E" "\<not> (rb_state k \<ge> 3 \<and> (b = 89 \<or> b = 121))"
      by (auto simp: sentinel_byte_def)
    from 4 consider "pend k ! 1 = 91" | "pend k ! 1 = 79" using assms by (auto simp: ak_inv_def)
    then show ?thesis
      using assms 4 n
      by cases (auto simp: ansi_key_byte_csi ansi_key_byte_ss3 finish_csi_def Let_def)
  qed
qed

lemma tick_no_reboot: "RequestReboot \<notin> set (snd (ansi_key_tick k))"
  "rb_state (fst (ansi_key_tick k)) = rb_state k"
  by (auto simp: ansi_key_tick_def Let_def)

text \<open>The number of sentinel bytes the byte stream ends with.\<close>

definition trailing_1E :: "byte list \<Rightarrow> nat" where
  "trailing_1E bs = length (takeWhile ((=) 0x1E) (rev bs))"

lemma trailing_1E_snoc [simp]:
  "trailing_1E [] = 0"
  "trailing_1E (bs @ [b]) = (if b = 0x1E then Suc (trailing_1E bs) else 0)"
  by (auto simp: trailing_1E_def)

lemma rb_state_run: "rb_state (fst (ak_run ansikey0 is)) = min 3 (trailing_1E (input_bytes is))"
proof (induction "is" rule: rev_induct)
  case Nil
  then show ?case using ak_idle_ansikey0 by (simp add: input_bytes_def ak_idle_def)
next
  case (snoc i "is")
  then show ?case
    using reboot_step [OF ak_run_inv [OF ak_inv_ansikey0, of "is"]]
    by (cases i) (auto simp: ak_run_append Let_def case_prod_beta input_bytes_def tick_no_reboot)
qed

lemma trailing_1E_3: "3 \<le> trailing_1E bs \<longleftrightarrow> (\<exists>pre. bs = pre @ [0x1E, 0x1E, 0x1E])"
proof
  assume "3 \<le> trailing_1E bs"
  then obtain a b c rest where r: "rev bs = a # b # c # rest" "a = 0x1E" "b = 0x1E" "c = 0x1E"
    by (cases "rev bs" rule: remdups_adj.cases; cases "tl (tl (rev bs))")
      (auto simp: trailing_1E_def split: if_splits)
  then have "bs = rev rest @ [0x1E, 0x1E, 0x1E]"
    by (metis append_Cons append_Nil append_assoc rev.simps(2) rev_rev_ident)
  then show "\<exists>pre. bs = pre @ [0x1E, 0x1E, 0x1E]" by blast
next
  assume "\<exists>pre. bs = pre @ [0x1E, 0x1E, 0x1E]"
  then show "3 \<le> trailing_1E bs" by (auto simp: trailing_1E_def)
qed

text \<open>C19. The warm-reboot sentinel is exact.  After any history of input bytes and timer ticks
  since installation, the next byte requests a reboot if and only if it is Y or y and the last
  three bytes received were all Ctrl-caret (1E hex); nothing else on the wire can reboot the
  machine.\<close>

theorem reboot_sentinel_exact:
  "RequestReboot \<in> set (snd (ak_step (fst (ak_run ansikey0 is)) i)) \<longleftrightarrow>
     (i = KByte 89 \<or> i = KByte 121) \<and> (\<exists>pre. input_bytes is = pre @ [0x1E, 0x1E, 0x1E])"
proof (cases i)
  case (KByte b)
  have "3 \<le> rb_state (fst (ak_run ansikey0 is)) \<longleftrightarrow> (\<exists>pre. input_bytes is = pre @ [0x1E, 0x1E, 0x1E])"
    by (simp add: rb_state_run trailing_1E_3)
  then show ?thesis
    using KByte reboot_step [OF ak_run_inv [OF ak_inv_ansikey0, of "is"], of b] by auto
qed (simp add: tick_no_reboot)

subsection \<open>Escape sequences\<close>

text \<open>The decimal value of a parameter string.\<close>

definition dec_value :: "byte list \<Rightarrow> nat" where
  "dec_value ds = fold (\<lambda>d n. n * 10 + (unat d - 48)) ds 0"

lemma csi_param_fold:
  "list_all is_digit ds \<Longrightarrow> csi_param ds (w16 n) = w16 (fold (\<lambda>d n. n * 10 + (unat d - 48)) ds n)"
proof (induction ds arbitrary: n)
  case (Cons d ds)
  have "w16 (w16 n * 10 + (unat d - 48)) = w16 (n * 10 + (unat d - 48))"
    unfolding w16_def by (metis mod_add_left_eq mod_mult_left_eq)
  with Cons show ?case by simp
qed simp

lemma csi_param_value: "list_all is_digit ds \<Longrightarrow> csi_param ds 0 = w16 (dec_value ds)"
  using csi_param_fold [of ds 0] by (simp add: dec_value_def)

text \<open>Feeding digits inside a CSI sequence collects them.\<close>

lemma csi_digits:
  assumes "ak_inv k" "2 \<le> pendlen k" "pend k ! 1 = 91" "list_all is_digit ds"
    "pendlen k + length ds \<le> 12" "rb_state k = 0"
  shows "\<exists>k'. ansi_key_bytes k ds = (k', []) \<and> ak_inv k' \<and> pendlen k' = pendlen k + length ds
     \<and> pend k' ! 1 = 91 \<and> rb_state k' = 0
     \<and> drop 2 (take (pendlen k') (pend k')) = drop 2 (take (pendlen k) (pend k)) @ ds"
  using assms
proof (induction ds arbitrary: k)
  case (Cons d ds)
  let ?k = "(settle k)\<lparr>pend := (pend k)[pendlen k := d], pendlen := Suc (pendlen k)\<rparr>"
  have d: "is_digit d" "d \<noteq> 0x1E" using Cons.prems(4) by (auto simp: is_digit_def)
  have len: "length (pend k) = 12" using Cons.prems(1) by (simp add: ak_inv_def)
  have step: "ansi_key_byte k d = (?k, [])"
    using Cons.prems d by (simp add: ansi_key_byte_csi sentinel_byte_def)
  have inv: "ak_inv ?k"
    using ak_inv_push [of "settle k" d] Cons.prems d by simp
  have "take (Suc (pendlen k)) ((pend k)[pendlen k := d]) = take (pendlen k) (pend k) @ [d]"
    using len Cons.prems(5) by (simp add: take_Suc_conv_app_nth)
  then have "drop 2 (take (pendlen ?k) (pend ?k)) = drop 2 (take (pendlen k) (pend k)) @ [d]"
    using Cons.prems(2,5) len by simp
  with Cons.IH [of ?k] Cons.prems inv step len show ?case
    by (simp add: Let_def case_prod_beta)
qed simp

lemma csi_opening:
  assumes "ak_idle k"
  shows "\<exists>k2. ansi_key_bytes k [0x1B, 91] = (k2, []) \<and> ak_inv k2 \<and> pendlen k2 = 2
     \<and> pend k2 ! 1 = 91 \<and> rb_state k2 = 0"
proof -
  let ?k1 = "k\<lparr>rb_state := 0, swallow := False, pend := (pend k)[0 := 0x1B], pendlen := 1, pend_age := 0\<rparr>"
  have step: "ansi_key_byte k 0x1B = (?k1, [])"
    using assms by (subst ansi_key_byte.simps) (simp add: ak_idle_def Let_def)
  have inv: "ak_inv ?k1"
    using ansi_key_byte_inv [where k = k and b = "0x1B"] assms step by (simp add: ak_idle_def)
  moreover have "length (pend k) = 12" using assms by (simp add: ak_idle_def ak_inv_def)
  moreover have "ak_inv (fst (ansi_key_byte ?k1 91))"
    using inv by (rule ansi_key_byte_inv)
  ultimately show ?thesis
    using step by (simp add: Let_def ansi_key_byte_intro)
qed

text \<open>A complete control sequence ESC [ digits ~ (the navigation and function keys), with up to
  ten digits, fed to an idle mapper byte by byte, injects exactly the extended key of its
  decimal parameter (taken in the 16-bit arithmetic of the target) with ASCII code 0, injects
  nothing when the parameter names no key, and leaves the mapper ready for the next key.\<close>

theorem csi_tilde_sequence:
  assumes "ak_idle k" "list_all is_digit ds" "length ds \<le> 10"
  shows "\<exists>k'. pendlen k' = 0 \<and> ak_inv k' \<and> ansi_key_bytes k ([0x1B, 91] @ ds @ [126]) =
     (k', let sc = csi_tilde (dec_value ds mod 65536) in if sc \<noteq> 0 then [InjectKey sc 0] else [])"
proof -
  from csi_opening [OF assms(1)] obtain k2 where k2: "ansi_key_bytes k [0x1B, 91] = (k2, [])"
    "ak_inv k2" "pendlen k2 = 2" "pend k2 ! 1 = 91" "rb_state k2 = 0" by blast
  from csi_digits [of k2 ds] k2 assms obtain k3 where k3: "ansi_key_bytes k2 ds = (k3, [])"
    "ak_inv k3" "pendlen k3 = 2 + length ds" "pend k3 ! 1 = 91" "rb_state k3 = 0"
    "drop 2 (take (pendlen k3) (pend k3)) = ds" by auto
  have "ansi_key_byte k3 126 = ((settle k3)\<lparr>pendlen := 0\<rparr>, finish_csi k3 126)"
    using k3 by (simp add: ansi_key_byte_csi sentinel_byte_def is_digit_def)
  moreover have "finish_csi k3 126 =
     (let sc = csi_tilde (dec_value ds mod 65536) in if sc \<noteq> 0 then [InjectKey sc 0] else [])"
    using k3(6) csi_param_value [OF assms(2)] by (simp add: finish_csi_def w16_def)
  ultimately have "ansi_key_bytes k ([0x1B, 91] @ ds @ [126]) = ((settle k3)\<lparr>pendlen := 0\<rparr>,
     let sc = csi_tilde (dec_value ds mod 65536) in if sc \<noteq> 0 then [InjectKey sc 0] else [])"
    unfolding ansi_key_bytes_append using k2(1) k3(1) by simp
  then show ?thesis using k3(2) by (intro exI [of _ "(settle k3)\<lparr>pendlen := 0\<rparr>"]) simp
qed

theorem csi_tilde_sequence_witness:
  "\<exists>k'. pendlen k' = 0 \<and> ak_inv k' \<and>
     ansi_key_bytes ansikey0 ([0x1B, 91] @ [50, 52] @ [126]) = (k', [InjectKey 0x58 0])"
  using csi_tilde_sequence [OF ak_idle_ansikey0, of "[50, 52]"]
  by (simp add: is_digit_def dec_value_def csi_tilde_def)

subsection \<open>Typed text and line ends\<close>

text \<open>The keystroke of a printable byte, the Enter key, and the four line-end conventions.\<close>

definition text_key :: "byte \<Rightarrow> key_event" where
  "text_key b = InjectKey (key_scan b) b"

definition enter_key :: key_event where
  "enter_key = InjectKey 0x1C 0x0D"

definition line_ends :: "byte list list" where
  "line_ends = [[0x0D, 0x0A], [0x0D, 0x00], [0x0A], [0x0D]]"

definition typed_text :: "(byte list \<times> byte list) list \<Rightarrow> byte list" where
  "typed_text ls = concat (map (\<lambda>(l, eol). l @ eol) ls)"

text \<open>Text whose lines can be told apart: a bare CR is not followed by an LF or a NUL, which would make
  one line end of the two.\<close>

fun lines_ok :: "(byte list \<times> byte list) list \<Rightarrow> bool" where
  "lines_ok [] \<longleftrightarrow> True"
| "lines_ok ((l, eol) # ls) \<longleftrightarrow> list_all (\<lambda>b. 32 \<le> b \<and> b < 127) l \<and> eol \<in> set line_ends
     \<and> (eol = [0x0D] \<longrightarrow> take 1 (typed_text ls) \<notin> {[0x0A], [0x00]}) \<and> lines_ok ls"

lemma printable_run:
  assumes "ak_idle k" "list_all (\<lambda>b. 32 \<le> b \<and> b < 127) xs"
  shows "ansi_key_bytes k xs = (k, map text_key xs)"
  using assms(2)
proof (induction xs)
  case (Cons b xs)
  then have "b \<noteq> 0x1E" "b \<noteq> 0x1B" "b \<noteq> 0x0D" by auto
  with Cons assms(1) show ?case
    by (simp add: ansi_key_byte_idle map_byte_printable ak_idle_def text_key_def)
qed simp

lemma line_end_run:
  assumes "ak_idle k" "eol \<in> set line_ends"
  shows "ansi_key_bytes k eol = (k\<lparr>swallow := (eol = [0x0D])\<rparr>, [enter_key])"
proof -
  have cr: "ansi_key_byte k 0x0D = (k\<lparr>swallow := True\<rparr>, [enter_key])"
    using assms(1) by (subst ansi_key_byte.simps) (simp add: ak_idle_def Let_def enter_key_def)
  have sw: "ansi_key_byte (k\<lparr>swallow := True\<rparr>) b = (k, [])" if "b = 0x0A \<or> b = 0x00" for b
    using assms(1) that by (subst ansi_key_byte.simps) (auto simp: ak_idle_def Let_def)
  have "ansi_key_byte k 0x0A = (k, [enter_key])"
    using assms(1) by (simp add: ansi_key_byte_idle map_byte_def enter_key_def)
  moreover have "k\<lparr>swallow := False\<rparr> = k" using assms(1) by (simp add: ak_idle_def)
  ultimately show ?thesis using cr sw assms(2) by (auto simp: line_ends_def)
qed

text \<open>After a bare CR, a byte other than LF and NUL is handled as if nothing were pending.\<close>

lemma swallow_other:
  assumes "ak_idle k" "b \<notin> {0x0A, 0x00, 0x1E}"
  shows "ansi_key_bytes (k\<lparr>swallow := True\<rparr>) (b # bs) = ansi_key_bytes k (b # bs)"
proof -
  have "k\<lparr>swallow := False\<rparr> = k" using assms(1) by (simp add: ak_idle_def)
  then have "ansi_key_byte (k\<lparr>swallow := True\<rparr>) b = ansi_key_byte k b"
    using assms by (subst (1 2) ansi_key_byte.simps) (simp add: ak_idle_def Let_def)
  then show ?thesis by simp
qed

text \<open>The first byte of a text is a printable byte, CR or LF.\<close>

lemma typed_first: "lines_ok ls \<Longrightarrow> typed_text ls = b # bs \<Longrightarrow> b \<noteq> 0x1E"
proof (cases ls)
  case (Cons p ls')
  moreover obtain l eol where "p = (l, eol)" by (cases p)
  moreover assume "lines_ok ls" "typed_text ls = b # bs"
  ultimately show ?thesis by (cases l) (auto simp: typed_text_def line_ends_def)
qed (simp add: typed_text_def)

lemma typed_empty: "lines_ok ls \<Longrightarrow> typed_text ls = [] \<longleftrightarrow> ls = []"
  by (cases ls) (auto simp: typed_text_def line_ends_def)

text \<open>C22. Typing text works with every line-end convention of the protocol.  For any list of lines of
  printable bytes, each ended by CR LF, CR NUL, a bare CR or a bare LF (in any mixture, only that a
  bare CR is not followed by an LF or NUL, as the two bytes are one line end), the mapper emits
  exactly one keystroke per character and exactly one Enter per line, in order, and is then
  idle again, or waits for the second byte of a line end if the text ended in a bare CR.\<close>

theorem typed_lines:
  assumes "ak_idle k" "lines_ok ls"
  shows "ansi_key_bytes k (typed_text ls) =
     (k\<lparr>swallow := (ls \<noteq> [] \<and> snd (last ls) = [0x0D])\<rparr>, concat (map (\<lambda>(l, eol). map text_key l @ [enter_key]) ls))"
  using assms(2)
proof (induction ls)
  case Nil
  with assms(1) show ?case by (simp add: typed_text_def ak_idle_def)
next
  case (Cons p ls)
  obtain l eol where p: "p = (l, eol)" by (cases p)
  have k: "k\<lparr>swallow := False\<rparr> = k" using assms(1) by (simp add: ak_idle_def)
  have t: "typed_text (p # ls) = l @ eol @ typed_text ls" by (simp add: typed_text_def p)
  have ok: "lines_ok ls" "eol = [0x0D] \<longrightarrow> take 1 (typed_text ls) \<notin> {[0x0A], [0x00]}" using Cons.prems p by simp_all
  have "ansi_key_bytes (k\<lparr>swallow := (eol = [0x0D])\<rparr>) (typed_text ls) = ansi_key_bytes k (typed_text ls)" if ne: "ls \<noteq> []"
  proof -
    obtain b bs where b: "typed_text ls = b # bs" using ne typed_empty [OF ok(1)] by (cases "typed_text ls") auto
    show ?thesis
      using swallow_other [OF assms(1), of b bs] typed_first [OF ok(1) b] ok(2) k unfolding b by (cases "eol = [0x0D]") auto
  qed
  with printable_run [OF assms(1), of l] line_end_run [OF assms(1), of eol] Cons.IH [OF ok(1)] Cons.prems p t show ?case
    by (cases "ls = []") (simp_all add: ansi_key_bytes_append Let_def typed_text_def)
qed

theorem typed_lines_witness:
  "ansi_key_bytes ansikey0 (typed_text [([68, 73, 82], [0x0D, 0x0A]), ([], [0x0A]), ([89], [0x0D])]) =
     (ansikey0\<lparr>swallow := True\<rparr>, [text_key 68, text_key 73, text_key 82, enter_key, enter_key, text_key 89, enter_key])"
  using typed_lines [OF ak_idle_ansikey0, of "[([68, 73, 82], [0x0D, 0x0A]), ([], [0x0A]), ([89], [0x0D])]"]
  by (simp add: line_ends_def typed_text_def [of "[]"])

text \<open>A lone ESC is delivered by the timer: an ESC byte that reaches an idle mapper produces
  nothing at first; if no byte follows, the first tick still waits, the second tick injects the
  Esc key exactly once, and the mapper is then free of the pending sequence.\<close>

theorem lone_escape_ticks:
  assumes "ak_idle k"
  shows "\<exists>k'. ak_run k [KByte 0x1B, KTick] = (k', []) \<and> pendlen k' = 1
     \<and> snd (ansi_key_tick k') = [InjectKey 0x01 0x1B] \<and> pendlen (fst (ansi_key_tick k')) = 0
     \<and> snd (ansi_key_tick (fst (ansi_key_tick k'))) = []"
proof -
  let ?k1 = "k\<lparr>rb_state := 0, swallow := False, pend := (pend k)[0 := 0x1B], pendlen := 1, pend_age := 0\<rparr>"
  have "ansi_key_byte k 0x1B = (?k1, [])"
    using assms by (subst ansi_key_byte.simps) (simp add: ak_idle_def Let_def)
  then show ?thesis by (simp add: ansi_key_tick_def Let_def)
qed

theorem lone_escape_ticks_witness:
  "\<exists>k'. ak_run ansikey0 [KByte 0x1B, KTick] = (k', []) \<and> pendlen k' = 1
     \<and> snd (ansi_key_tick k') = [InjectKey 0x01 0x1B] \<and> pendlen (fst (ansi_key_tick k')) = 0
     \<and> snd (ansi_key_tick (fst (ansi_key_tick k'))) = []"
  by (rule lone_escape_ticks [OF ak_idle_ansikey0])

end
