(* ===== verification/Keyboard.thy ===== *)
theory Keyboard
  imports Ansikey
begin

text \<open>
  The machine side of the keyboard (\<open>inject_key\<close> and \<open>request_reboot\<close> of
  \<open>dosshd/dosshd.c\<close>): the BIOS type-ahead ring of segment 40h.  The record \<open>kbd\<close> holds the four
  BIOS data area words the function reads (head, tail and the ring bounds), the words of the ring
  by their offset in the segment, and the reboot flag.  The ring provides the interface
  \<open>bounded_sink\<close>; the events of \<open>Ansikey\<close> are performed on it.
\<close>

record kbd =
  kb_head :: nat
  kb_tail :: nat
  kb_start :: nat
  kb_end :: nat
  kb_mem :: "nat \<Rightarrow> nat"
  g_reboot :: bool

text \<open>The ring bounds in force: pre-AT BIOSes leave the two bound words unset.\<close>

definition kb_bounds :: "kbd \<Rightarrow> nat \<times> nat" where
  "kb_bounds k = (if kb_start k < 0x1E \<or> kb_end k \<le> kb_start k then (0x1E, 0x3E)
     else (kb_start k, kb_end k))"

definition inject_key :: "byte \<Rightarrow> byte \<Rightarrow> kbd \<Rightarrow> kbd" where
  "inject_key sc ascii k =
     (let (bstart, bend) = kb_bounds k;
          nxt = w16 (kb_tail k + 2);
          nxt = (if nxt \<ge> bend then bstart else nxt)
      in if nxt \<noteq> kb_head k
         then k\<lparr>kb_mem := (kb_mem k)(kb_tail k := get16 sc ascii), kb_tail := nxt\<rparr>
         else k)"

definition request_reboot :: "kbd \<Rightarrow> kbd" where
  "request_reboot k = k\<lparr>g_reboot := True\<rparr>"

fun perform :: "key_event \<Rightarrow> kbd \<Rightarrow> kbd" where
  "perform (InjectKey sc a) k = inject_key sc a k"
| "perform RequestReboot k = request_reboot k"

section \<open>The ring as a bounded sink\<close>

definition kb_cells :: "kbd \<Rightarrow> nat" where
  "kb_cells k = (let (s, e) = kb_bounds k in (e - s) div 2)"

definition kb_index :: "kbd \<Rightarrow> nat \<Rightarrow> nat" where
  "kb_index k p = (p - fst (kb_bounds k)) div 2"

definition kb_words :: "kbd \<Rightarrow> nat list" where
  "kb_words k = map (\<lambda>j. kb_mem k (fst (kb_bounds k) + 2 * j)) [0..<kb_cells k]"

definition kb_inv :: "kbd \<Rightarrow> bool" where
  "kb_inv k \<longleftrightarrow> (let (s, e) = kb_bounds k in
     s < e \<and> e < 65536 \<and> even (e - s) \<and>
     s \<le> kb_head k \<and> kb_head k < e \<and> even (kb_head k - s) \<and>
     s \<le> kb_tail k \<and> kb_tail k < e \<and> even (kb_tail k - s))"

definition kb_contents :: "kbd \<Rightarrow> nat list" where
  "kb_contents k = ring_list (kb_words k) (kb_index k (kb_head k))
     (ring_used (kb_cells k) (kb_index k (kb_head k)) (kb_index k (kb_tail k)))"

text \<open>The injection of one (scancode, ASCII) pair, in the shape of the interface.\<close>

definition kb_put :: "byte \<times> byte \<Rightarrow> kbd \<Rightarrow> kbd" where
  "kb_put ev k = inject_key (fst ev) (snd ev) k"

text \<open>A state in coordinates: \<open>n\<close> cells from \<open>s\<close>, head cell \<open>h\<close>, tail cell \<open>t\<close>.\<close>

lemma kb_inv_coords:
  assumes "kb_inv k"
  obtains s n h t where "kb_bounds k = (s, s + 2 * n)" "h < n" "t < n" "s + 2 * n < 65536"
    "kb_head k = s + 2 * h" "kb_tail k = s + 2 * t" "kb_cells k = n"
    "kb_index k (kb_head k) = h" "kb_index k (kb_tail k) = t"
proof -
  obtain s e where b: "kb_bounds k = (s, e)" by (cases "kb_bounds k")
  with assms have i: "s < e" "e < 65536" "even (e - s)" "s \<le> kb_head k" "kb_head k < e"
    "even (kb_head k - s)" "s \<le> kb_tail k" "kb_tail k < e" "even (kb_tail k - s)"
    by (auto simp: kb_inv_def)
  from i(3) obtain n where "e - s = 2 * n" by (rule evenE)
  moreover from i(6) obtain h where "kb_head k - s = 2 * h" by (rule evenE)
  moreover from i(9) obtain t where "kb_tail k - s = 2 * t" by (rule evenE)
  ultimately have "e - s = 2 * n" "kb_head k - s = 2 * h" "kb_tail k - s = 2 * t" .
  with i have "e = s + 2 * n" "kb_head k = s + 2 * h" "kb_tail k = s + 2 * t" by arith+
  with i b show thesis
    by (intro that [of s n h t]) (auto simp: kb_cells_def kb_index_def)
qed

text \<open>One injection in coordinates.\<close>

lemma inject_key_coords:
  assumes "kb_bounds k = (s, s + 2 * n)" "h < n" "t < n" "s + 2 * n < 65536"
    "kb_head k = s + 2 * h" "kb_tail k = s + 2 * t"
  shows "inject_key sc a k = (if Suc t mod n = h then k
     else k\<lparr>kb_mem := (kb_mem k)(s + 2 * t := get16 sc a), kb_tail := s + 2 * (Suc t mod n)\<rparr>)"
proof -
  have nxt: "(if w16 (kb_tail k + 2) \<ge> s + 2 * n then s else w16 (kb_tail k + 2)) = s + 2 * (Suc t mod n)"
    using assms by (cases "Suc t = n") auto
  show ?thesis
    unfolding inject_key_def Let_def assms(1) prod.case nxt using assms(5,6) by simp
qed

lemma kb_words_update:
  assumes "kb_bounds k = (s, s + 2 * n)" "kb_cells k = n" "t < n"
  shows "kb_words (k\<lparr>kb_mem := (kb_mem k)(s + 2 * t := v), kb_tail := p\<rparr>) = (kb_words k)[t := v]"
proof (rule nth_equalityI)
  show "length (kb_words (k\<lparr>kb_mem := (kb_mem k)(s + 2 * t := v), kb_tail := p\<rparr>)) =
      length ((kb_words k)[t := v])"
    by (simp add: kb_words_def kb_cells_def kb_bounds_def)
qed (use assms in \<open>auto simp: kb_words_def kb_cells_def kb_bounds_def nth_list_update\<close>)

lemma kb_bounds_inject [simp]: "kb_bounds (inject_key sc a k) = kb_bounds k"
  by (auto simp: inject_key_def Let_def kb_bounds_def split: prod.splits)

lemma kb_cells_inject [simp]: "kb_cells (inject_key sc a k) = kb_cells k"
  by (simp add: kb_cells_def)

lemma kb_inject:
  assumes "kb_inv k"
  shows "kb_inv (inject_key sc a k) \<and> kb_contents (inject_key sc a k) =
     (if length (kb_contents k) < kb_cells k - Suc 0 then kb_contents k @ [get16 sc a] else kb_contents k)"
proof -
  from assms obtain s n h t where c: "kb_bounds k = (s, s + 2 * n)" "h < n" "t < n"
    "s + 2 * n < 65536" "kb_head k = s + 2 * h" "kb_tail k = s + 2 * t" "kb_cells k = n"
    "kb_index k (kb_head k) = h" "kb_index k (kb_tail k) = t" by (rule kb_inv_coords)
  have len: "length (kb_words k) = n" using c by (simp add: kb_words_def)
  show ?thesis
  proof (cases "Suc t mod n = h")
    case True
    with assms c show ?thesis
      by (simp add: inject_key_coords kb_contents_def ring_full)
  next
    case False
    let ?k = "k\<lparr>kb_mem := (kb_mem k)(s + 2 * t := get16 sc a), kb_tail := s + 2 * (Suc t mod n)\<rparr>"
    have k': "inject_key sc a k = ?k" using c False by (simp add: inject_key_coords)
    have b: "kb_bounds ?k = (s, s + 2 * n)" using c(1) k' kb_bounds_inject [of sc a k] by simp
    have cells: "kb_cells ?k = n" using b by (simp add: kb_cells_def)
    have idx: "kb_index ?k (kb_head ?k) = h" "kb_index ?k (kb_tail ?k) = Suc t mod n"
      using b c by (simp_all add: kb_index_def)
    have "Suc t mod n < n" using c by simp
    then have inv: "kb_inv ?k" using b c(2-6) by (simp add: kb_inv_def)
    have used: "Suc (ring_used n h t) < n"
      using c False ring_used_less [of n h t] ring_full [of h n t] by auto
    have "kb_contents ?k = kb_contents k @ [get16 sc a]"
      unfolding kb_contents_def idx cells kb_words_update [OF c(1,7,3)]
      using c used len False ring_list_put [of h "kb_words k" t "ring_used n h t" "get16 sc a"]
        ring_used_put [of h n t]
      by simp
    with used inv k' c show ?thesis by (simp add: kb_contents_def)
  qed
qed

text \<open>The keys waiting in the ring, oldest first, as INT 16h reports them (scancode, ASCII).\<close>

definition key_of_word :: "nat \<Rightarrow> byte \<times> byte" where
  "key_of_word w = (of_nat (w div 256), of_nat w)"

definition kb_keys :: "kbd \<Rightarrow> (byte \<times> byte) list" where
  "kb_keys k = map key_of_word (kb_contents k)"

lemma key_of_get16 [simp]: "key_of_word (get16 sc a) = (sc, a)"
proof -
  have "(of_nat (unat sc * 256 + unat a) :: byte) = of_nat (unat sc) * of_nat 256 + a"
    by simp
  also have "(of_nat 256 :: byte) = 0" by simp
  finally have "(of_nat (unat sc * 256 + unat a) :: byte) = a" by simp
  moreover have "(unat sc * 256 + unat a) div 256 = unat sc"
    using unat_byte_less [of a] by simp
  ultimately show ?thesis
    unfolding key_of_word_def get16_def by simp
qed

lemma length_kb_contents:
  assumes "kb_inv k"
  shows "length (kb_contents k) \<le> kb_cells k - Suc 0"
proof -
  from assms obtain n where "0 < n" "kb_cells k = n" by (rule kb_inv_coords) auto
  then show ?thesis
    using ring_used_less [of n "kb_index k (kb_head k)" "kb_index k (kb_tail k)"]
    by (simp add: kb_contents_def)
qed

interpretation kbsink: bounded_sink kb_inv kb_keys "\<lambda>k. kb_cells k - Suc 0" kb_put
proof (unfold_locales, goal_cases)
  case (1 q x)
  then show ?case by (simp add: kb_put_def kb_inject)
next
  case (2 q x)
  then show ?case by (simp add: kb_put_def)
next
  case (3 q x)
  then show ?case by (simp add: kb_put_def kb_keys_def kb_inject)
next
  case (4 q)
  then show ?case by (simp add: kb_keys_def length_kb_contents)
qed

section \<open>Performing the mapper's events\<close>

definition event_key :: "key_event \<Rightarrow> (byte \<times> byte) list" where
  "event_key e = (case e of InjectKey sc a \<Rightarrow> [(sc, a)] | RequestReboot \<Rightarrow> [])"

lemma kb_inv_reboot [simp]: "kb_inv (request_reboot k) = kb_inv k"
  "kb_keys (request_reboot k) = kb_keys k" "kb_cells (request_reboot k) = kb_cells k"
  by (simp_all add: request_reboot_def kb_inv_def kb_bounds_def kb_keys_def kb_contents_def
      kb_words_def kb_index_def kb_cells_def)

lemma perform_events:
  assumes "kb_inv k"
  shows "kb_inv (fold perform evs k) \<and> kb_cells (fold perform evs k) = kb_cells k
    \<and> kb_keys (fold perform evs k) = kb_keys k
        @ take (kb_cells k - Suc 0 - length (kb_keys k)) (concat (map event_key evs))"
  using assms
proof (induction evs arbitrary: k)
  case (Cons e evs)
  show ?case
  proof (cases e)
    case (InjectKey sc a)
    have "kb_keys (inject_key sc a k) = (if length (kb_keys k) < kb_cells k - Suc 0
        then kb_keys k @ [(sc, a)] else kb_keys k)"
      using kbsink.contents_put [OF Cons.prems, of "(sc, a)"] by (simp add: kb_put_def)
    with InjectKey Cons.IH [of "inject_key sc a k"] kb_inject [OF Cons.prems] show ?thesis
      by (auto simp: event_key_def take_Cons' Suc_diff_Suc)
  qed (use Cons in \<open>simp add: event_key_def\<close>)
qed simp

text \<open>Keystrokes reach DOS in order and are never corrupted.  Whatever events the key mapper
  produces, performing them on a well-formed BIOS type-ahead ring keeps the ring well-formed,
  leaves the keys already waiting in place, and appends the injected (scancode, ASCII) pairs in
  order, dropping only those that do not fit the ring's capacity of one cell less than its size.\<close>

theorem keys_reach_ring:
  assumes "kb_inv k" "ansi_key_bytes m bs = (m', evs)"
  shows "kb_inv (fold perform evs k) \<and> kb_keys (fold perform evs k) =
     kb_keys k @ take (kb_cells k - Suc 0 - length (kb_keys k)) (concat (map event_key evs))"
  using perform_events [OF assms(1), of evs] by simp

definition kbd_at :: kbd where
  "kbd_at = \<lparr>kb_head = 0x1E, kb_tail = 0x1E, kb_start = 0x1E, kb_end = 0x3E,
     kb_mem = (\<lambda>_. 0), g_reboot = False\<rparr>"

theorem keys_reach_ring_witness:
  "kb_keys (fold perform (snd (ansi_key_bytes ansikey0 [68, 0x0D])) kbd_at) =
     [(key_scan 68, 68), (0x1C, 0x0D)]"
proof -
  have i: "kb_inv kbd_at" by (simp add: kb_inv_def kbd_at_def kb_bounds_def)
  have e: "ansi_key_bytes ansikey0 [68, 0x0D] =
      (ansikey0\<lparr>swallow := True\<rparr>, [InjectKey (key_scan 68) 68, InjectKey 0x1C 0x0D])"
    using ak_idle_ansikey0
    by (subst ansi_key_bytes.simps, subst ansi_key_byte_idle)
      (simp_all add: ansi_key_byte.simps [of ansikey0 13] map_byte_printable ak_idle_def Let_def)
  show ?thesis
    unfolding e snd_conv using keys_reach_ring [OF i e]
    by (simp del: perform.simps fold.simps add: event_key_def kb_cells_def kb_bounds_def kb_keys_def kb_contents_def
        kb_index_def ring_used_def kbd_at_def)
qed

end
