(* ===== verification/Telnet.thy ===== *)
theory Telnet
  imports Prelude
begin

text \<open>
  \<open>dosshd/telnet.c\<close>: the per-slot telnet machine (IAC stripping, option negotiation, NAWS
  collection) and the password gate.  The parallel per-slot arrays of the file are the fields of
  the record \<open>tslot\<close>; the configured password and the /EOF flag are the record \<open>tconf\<close>.
  The calls into \<open>net.c\<close>, \<open>render.c\<close> and \<open>ansikey.c\<close>, none of whose results the file reads,
  are the effects an operation returns, in call order.

  Shown here: the buffer invariant; that the decoder delivers exactly the data bytes of any
  well-formed telnet stream; that the gate admits a slot exactly when one of the first three completed
  lines equals the password, that nothing reaches the keyboard or the broadcast before, and when the
  connection is cut; the three-strikes rule;
  and that after the opening hello no affirmative answer is ever sent again.
\<close>

section \<open>State and effects\<close>

datatype tn_effect =
    TxPutc nat byte          \<comment> \<open>\<open>net_tx_putc_slot(i, c)\<close>\<close>
  | SlotReady nat            \<comment> \<open>\<open>net_slot_ready(i, 1)\<close>\<close>
  | SlotDrop nat             \<comment> \<open>\<open>net_slot_drop(i)\<close>\<close>
  | KeyByte byte             \<comment> \<open>\<open>ansi_key_byte(b)\<close>\<close>
  | RenderReset              \<comment> \<open>\<open>render_reset()\<close>\<close>

datatype au = AU_OK | AU_PW

record tslot =
  iac :: nat
  verb :: byte
  willed :: byte
  doed :: byte
  sb_buf :: "byte list"
  sb_len :: nat
  naws_w :: nat
  naws_h :: nat
  au_state :: au
  au_buf :: "byte list"
  au_len :: nat
  au_tries :: nat

definition tslot0 :: tslot where
  "tslot0 = \<lparr>iac = 0, verb = 0, willed = 0, doed = 0, sb_buf = replicate 8 0, sb_len = 0,
     naws_w = 0, naws_h = 0, au_state = AU_OK, au_buf = replicate 32 0, au_len = 0, au_tries = 0\<rparr>"

record tconf =
  g_password :: "byte list"
  g_eof_exit :: bool

definition tconf0 :: tconf where
  "tconf0 = \<lparr>g_password = replicate 32 0, g_eof_exit = False\<rparr>"

definition IAC :: byte where "IAC = 255"
definition SE :: byte where "SE = 240"
definition SB :: byte where "SB = 250"
definition WILL :: byte where "WILL = 251"
definition WONT :: byte where "WONT = 252"
definition DO :: byte where "DO = 253"
definition DONT :: byte where "DONT = 254"
definition OPT_BINARY :: byte where "OPT_BINARY = 0"
definition OPT_ECHO :: byte where "OPT_ECHO = 1"
definition OPT_SGA :: byte where "OPT_SGA = 3"
definition OPT_NAWS :: byte where "OPT_NAWS = 31"

lemmas tn_codes = IAC_def SE_def SB_def WILL_def WONT_def DO_def DONT_def
  OPT_BINARY_def OPT_ECHO_def OPT_SGA_def OPT_NAWS_def

section \<open>Output helpers, reset and hello\<close>

definition put3 :: "nat \<Rightarrow> byte \<Rightarrow> byte \<Rightarrow> byte \<Rightarrow> tn_effect list" where
  "put3 i a b c = [TxPutc i a, TxPutc i b, TxPutc i c]"

definition telnet_reset :: "tslot \<Rightarrow> tslot" where
  "telnet_reset s = s\<lparr>iac := 0, willed := 0, doed := 0, sb_len := 0, naws_w := 0, naws_h := 0\<rparr>"

definition telnet_hello :: "nat \<Rightarrow> tslot \<Rightarrow> tslot \<times> tn_effect list" where
  "telnet_hello i s =
     (s\<lparr>willed := push_bit 1 1 OR push_bit 3 1 OR push_bit 0 1, doed := push_bit 3 1 OR push_bit 0 1\<rparr>,
      put3 i IAC WILL OPT_ECHO @ put3 i IAC WILL OPT_SGA @ put3 i IAC DO OPT_SGA
      @ put3 i IAC WILL OPT_BINARY @ put3 i IAC DO OPT_BINARY @ put3 i IAC DO OPT_NAWS)"

text \<open>The copy loop of \<open>telnet_set_password\<close> over a NUL-terminated string \<open>pw\<close> (its bytes
  before the NUL), from index \<open>k\<close>.\<close>

fun copy_pw :: "byte list \<Rightarrow> nat \<Rightarrow> byte list \<Rightarrow> byte list" where
  "copy_pw [] k g = g[k := 0]"
| "copy_pw (c # pw) k g = (if k < 31 then copy_pw pw (Suc k) (g[k := c]) else g[k := 0])"

definition telnet_set_password :: "byte list \<Rightarrow> tconf \<Rightarrow> tconf" where
  "telnet_set_password pw c = c\<lparr>g_password := copy_pw pw 0 (g_password c)\<rparr>"

definition au_say :: "nat \<Rightarrow> byte list \<Rightarrow> tn_effect list" where
  "au_say i s = map (TxPutc i) s"

section \<open>The password gate\<close>

text \<open>A C string held in an array: the bytes before the first NUL.\<close>

definition cstr :: "byte list \<Rightarrow> byte list" where
  "cstr a = takeWhile (\<lambda>c. c \<noteq> 0) a"

definition msg_denied :: "byte list" where
  "msg_denied = [13, 10] @ str ''Access denied.'' @ [13, 10]"

definition msg_wrong :: "byte list" where
  "msg_wrong = [13, 10] @ str ''Wrong password.'' @ [13, 10] @ str ''Password: ''"

definition au_check :: "tconf \<Rightarrow> nat \<Rightarrow> tslot \<Rightarrow> tslot \<times> tn_effect list" where
  "au_check c i s =
     (let s = s\<lparr>au_buf := (au_buf s)[au_len s := 0]\<rparr>
      in if cstr (au_buf s) = cstr (g_password c)
         then (s\<lparr>au_state := AU_OK, au_len := 0\<rparr>, [SlotReady i, RenderReset])
         else
           (let s = s\<lparr>au_len := 0, au_tries := (au_tries s + 1) mod 256\<rparr>
            in if au_tries s \<ge> 3 then (s, au_say i msg_denied @ [SlotDrop i])
               else (s, au_say i msg_wrong)))"

definition feed_data :: "tconf \<Rightarrow> nat \<Rightarrow> tslot \<Rightarrow> byte \<Rightarrow> tslot \<times> tn_effect list" where
  "feed_data c i s b =
     (if au_state s = AU_OK then
        (if g_eof_exit c \<and> b = 0x04 then (s, [SlotDrop i]) else (s, [KeyByte b]))
      else if b = 13 then au_check c i s
      else if b = 10 \<or> b = 0 then (s, [])
      else if b = 8 \<or> b = 127 then
        ((if au_len s > 0 then s\<lparr>au_len := au_len s - 1\<rparr> else s), [])
      else if au_len s < 31 then
        (s\<lparr>au_buf := (au_buf s)[au_len s := b], au_len := au_len s + 1\<rparr>, [])
      else (s, []))"

definition telnet_begin :: "tconf \<Rightarrow> nat \<Rightarrow> tslot \<Rightarrow> tslot \<times> tn_effect list" where
  "telnet_begin c i s =
     (let (s, hello) = telnet_hello i (telnet_reset s);
          size = au_say i ([27] @ str ''[8;25;80t'');
          s = s\<lparr>au_len := 0, au_tries := 0\<rparr>
      in if g_password c ! 0 \<noteq> 0
         then (s\<lparr>au_state := AU_PW\<rparr>, hello @ size @ au_say i ([13, 10] @ str ''Password: ''))
         else (s\<lparr>au_state := AU_OK\<rparr>, hello @ size @ [SlotReady i, RenderReset]))"

section \<open>Negotiation\<close>

definition ours :: "byte \<Rightarrow> bool" where
  "ours opt \<longleftrightarrow> opt = OPT_ECHO \<or> opt = OPT_SGA \<or> opt = OPT_BINARY"

definition respond :: "nat \<Rightarrow> tslot \<Rightarrow> byte \<Rightarrow> byte \<Rightarrow> tslot \<times> tn_effect list" where
  "respond i s v opt =
     (let bt = (if opt < 8 then push_bit (unat opt) 1 else 0)
      in if v = DO then
           (if ours opt then
              (if willed s AND bt = 0 then (s\<lparr>willed := willed s OR bt\<rparr>, put3 i IAC WILL opt)
               else (s, []))
            else (s, put3 i IAC WONT opt))
         else if v = WILL then
           (if opt = OPT_SGA \<or> opt = OPT_BINARY then
              (if doed s AND bt = 0 then (s\<lparr>doed := doed s OR bt\<rparr>, put3 i IAC DO opt)
               else (s, []))
            else if opt = OPT_NAWS then (s, [])
            else (s, put3 i IAC DONT opt))
         else if v = WONT then (s, put3 i IAC DONT opt)
         else if v = DONT then (s, put3 i IAC WONT opt)
         else (s, []))"

definition sb_push :: "tslot \<Rightarrow> byte \<Rightarrow> tslot" where
  "sb_push s b = (if sb_len s < 8 then s\<lparr>sb_buf := (sb_buf s)[sb_len s := b], sb_len := sb_len s + 1\<rparr>
     else s)"

definition sb_done :: "tslot \<Rightarrow> tslot \<times> tn_effect list" where
  "sb_done s =
     (if sb_len s \<ge> 5 \<and> sb_buf s ! 0 = OPT_NAWS then
        (let w = get16 (sb_buf s ! 1) (sb_buf s ! 2); h = get16 (sb_buf s ! 3) (sb_buf s ! 4)
         in if w \<noteq> naws_w s \<or> h \<noteq> naws_h s then
              (let had = (naws_w s \<noteq> 0 \<or> naws_h s \<noteq> 0);
                   s = s\<lparr>naws_w := w, naws_h := h\<rparr>
               in (s, if had \<and> au_state s = AU_OK then [RenderReset] else []))
            else (s, []))
      else (s, []))"

section \<open>The inbound machine\<close>

definition telnet_in :: "tconf \<Rightarrow> nat \<Rightarrow> tslot \<Rightarrow> byte \<Rightarrow> tslot \<times> tn_effect list" where
  "telnet_in c i s b =
     (if iac s = 0 then
        (if b = IAC then (s\<lparr>iac := 1\<rparr>, []) else feed_data c i s b)
      else if iac s = 1 then
        (if b = IAC then (let (s, ev) = feed_data c i s IAC in (s\<lparr>iac := 0\<rparr>, ev))
         else if b = SB then (s\<lparr>sb_len := 0, iac := 3\<rparr>, [])
         else if WILL \<le> b \<and> b \<le> DONT then (s\<lparr>verb := b, iac := 2\<rparr>, [])
         else (s\<lparr>iac := 0\<rparr>, []))
      else if iac s = 2 then
        (let (s, ev) = respond i s (verb s) b in (s\<lparr>iac := 0\<rparr>, ev))
      else if iac s = 3 then
        (if b = IAC then (s\<lparr>iac := 4\<rparr>, []) else (sb_push s b, []))
      else if iac s = 4 then
        (if b = SE then (let (s, ev) = sb_done s in (s\<lparr>iac := 0\<rparr>, ev))
         else if b = IAC then ((sb_push s IAC)\<lparr>iac := 3\<rparr>, [])
         else (s\<lparr>iac := 3\<rparr>, []))
      else (s, []))"

fun telnet_ins :: "tconf \<Rightarrow> nat \<Rightarrow> tslot \<Rightarrow> byte list \<Rightarrow> tslot \<times> tn_effect list" where
  "telnet_ins c i s [] = (s, [])"
| "telnet_ins c i s (b # bs) =
     (let (s, ev) = telnet_in c i s b; (s, evs) = telnet_ins c i s bs in (s, ev @ evs))"

lemma telnet_ins_append:
  "telnet_ins c i s (xs @ ys) =
     (let (s1, e1) = telnet_ins c i s xs; (s2, e2) = telnet_ins c i s1 ys in (s2, e1 @ e2))"
  by (induction xs arbitrary: s) (auto simp: Let_def case_prod_beta)

text \<open>One connection as \<open>net_tick\<close> serves it: a \<open>net_slot_drop\<close> resets the slot and empties its
  receive ring, so no byte received after it reaches \<open>telnet_in\<close> (\<open>Tntick.drop_ends_stream\<close>).\<close>

fun telnet_session :: "tconf \<Rightarrow> nat \<Rightarrow> tslot \<Rightarrow> byte list \<Rightarrow> tslot \<times> tn_effect list" where
  "telnet_session c i s [] = (s, [])"
| "telnet_session c i s (b # bs) =
     (let (s, ev) = telnet_in c i s b
      in if SlotDrop i \<in> set ev then (s, ev)
         else (let (s, evs) = telnet_session c i s bs in (s, ev @ evs)))"

section \<open>Buffer invariant\<close>

definition tslot_inv :: "tslot \<Rightarrow> bool" where
  "tslot_inv s \<longleftrightarrow> iac s \<le> 4 \<and> length (sb_buf s) = 8 \<and> sb_len s \<le> 8 \<and> length (au_buf s) = 32
     \<and> au_len s \<le> 31 \<and> naws_w s < 65536 \<and> naws_h s < 65536 \<and> (\<forall>k < au_len s. au_buf s ! k \<noteq> 0)"

lemma feed_data_inv: "tslot_inv s \<Longrightarrow> tslot_inv (fst (feed_data c i s b))"
  by (auto simp: tslot_inv_def feed_data_def au_check_def Let_def nth_list_update less_Suc_eq)

lemma respond_frame:
  "iac (fst (respond i s v opt)) = iac s" "tslot_inv (fst (respond i s v opt)) = tslot_inv s"
  "au_state (fst (respond i s v opt)) = au_state s"
  by (auto simp: tslot_inv_def respond_def Let_def)

lemma sb_push_inv: "tslot_inv s \<Longrightarrow> tslot_inv (sb_push s b)"
  by (auto simp: tslot_inv_def sb_push_def)

lemma sb_done_inv: "tslot_inv s \<Longrightarrow> tslot_inv (fst (sb_done s))"
  by (auto simp: tslot_inv_def sb_done_def Let_def)

lemma tslot_inv_iac: "tslot_inv s \<Longrightarrow> n \<le> 4 \<Longrightarrow> tslot_inv (s\<lparr>iac := n\<rparr>)"
  by (simp add: tslot_inv_def)

lemma telnet_in_inv: "tslot_inv s \<Longrightarrow> tslot_inv (fst (telnet_in c i s b))"
  unfolding telnet_in_def
  using feed_data_inv [of s c i] respond_frame(2) [of i s "verb s" b] sb_push_inv [of s] sb_done_inv [of s]
  by (auto simp: Let_def case_prod_beta tslot_inv_iac) (simp_all add: tslot_inv_def)

lemma telnet_begin_inv: "tslot_inv s \<Longrightarrow> tslot_inv (fst (telnet_begin c i s))"
  by (auto simp: tslot_inv_def telnet_begin_def telnet_hello_def telnet_reset_def Let_def)

lemma telnet_ins_inv: "tslot_inv s \<Longrightarrow> tslot_inv (fst (telnet_ins c i s bs))"
  by (induction bs arbitrary: s) (auto simp: Let_def case_prod_beta telnet_in_inv)

section \<open>Abstract view: the stripped stream and the gate\<close>

text \<open>What a telnet stream carries: the data bytes left when the IAC sequences are removed,
  from decoder state \<open>n\<close> (0 data, 1 after IAC, 2 verb, 3 inside SB, 4 IAC inside SB).\<close>

fun strip :: "nat \<Rightarrow> byte list \<Rightarrow> byte list" where
  "strip n [] = []"
| "strip n (b # bs) =
     (if n = 0 then (if b = IAC then strip 1 bs else b # strip 0 bs)
      else if n = 1 then
        (if b = IAC then IAC # strip 0 bs else if b = SB then strip 3 bs
         else if WILL \<le> b \<and> b \<le> DONT then strip 2 bs else strip 0 bs)
      else if n = 2 then strip 0 bs
      else if n = 3 then (if b = IAC then strip 4 bs else strip 3 bs)
      else (if b = SE then strip 0 bs else strip 3 bs))"

text \<open>The line editor of the password prompt, the lines completed by CR, and what follows the
  first line equal to the password.\<close>

definition edit_line :: "byte list \<Rightarrow> byte \<Rightarrow> byte list" where
  "edit_line l b = (if b = 10 \<or> b = 0 then l else if b = 8 \<or> b = 127 then butlast l
     else if length l < 31 then l @ [b] else l)"

fun entered :: "byte list \<Rightarrow> byte list \<Rightarrow> byte list list" where
  "entered l [] = []"
| "entered l (b # bs) = (if b = 13 then l # entered [] bs else entered (edit_line l b) bs)"

fun after_password :: "byte list \<Rightarrow> byte list \<Rightarrow> byte list \<Rightarrow> byte list" where
  "after_password pw l [] = []"
| "after_password pw l (b # bs) =
     (if b = 13 then (if l = pw then bs else after_password pw [] bs)
      else after_password pw (edit_line l b) bs)"

definition keys_of :: "tn_effect list \<Rightarrow> byte list" where
  "keys_of evs = concat (map (\<lambda>e. case e of KeyByte b \<Rightarrow> [b] | _ \<Rightarrow> []) evs)"

definition drops_of :: "tn_effect list \<Rightarrow> nat" where
  "drops_of evs = length (filter (\<lambda>e. case e of SlotDrop _ \<Rightarrow> True | _ \<Rightarrow> False) evs)"

lemma keys_of_simps [simp]:
  "keys_of [] = []" "keys_of (xs @ ys) = keys_of xs @ keys_of ys" "keys_of (au_say i m) = []"
  "keys_of (put3 i a b c) = []" "keys_of [KeyByte k] = [k]" "keys_of [SlotReady i, RenderReset] = []"
  "keys_of [SlotDrop i] = []" "keys_of (RenderReset # es) = keys_of es"
  "keys_of (SlotReady i # es) = keys_of es" "keys_of (KeyByte k # es) = k # keys_of es"
  by (simp_all add: keys_of_def au_say_def put3_def)

lemma drops_of_simps [simp]:
  "drops_of [] = 0" "drops_of (xs @ ys) = drops_of xs + drops_of ys" "drops_of (au_say i m) = 0"
  "drops_of (put3 i a b c) = 0" "drops_of [KeyByte k] = 0" "drops_of [SlotReady i, RenderReset] = 0"
  "drops_of [SlotDrop i] = 1" "drops_of [RenderReset] = 0"
  by (simp_all add: drops_of_def au_say_def put3_def)

lemma no_ready_simps [simp]: "SlotReady j \<notin> set (au_say i m)" "SlotReady j \<notin> set (put3 i a b c)"
  "SlotDrop j \<notin> set (au_say i m)"
  by (auto simp: au_say_def put3_def)

lemma no_drop: "drops_of evs = 0 \<Longrightarrow> SlotDrop i \<notin> set evs"
  by (auto simp: drops_of_def filter_empty_conv)

lemma tn_distinct [simp]: "SB \<noteq> IAC" "IAC \<noteq> SB" "SE \<noteq> IAC" "IAC \<noteq> SE"
  by (simp_all add: tn_codes)

text \<open>The line typed so far.\<close>

definition line_of :: "tslot \<Rightarrow> byte list" where
  "line_of s = take (au_len s) (au_buf s)"

lemma line_of_iac [simp]: "line_of (s\<lparr>iac := n\<rparr>) = line_of s"
  by (simp add: line_of_def)

lemma cstr_line:
  assumes "tslot_inv s"
  shows "cstr ((au_buf s)[au_len s := 0]) = line_of s"
proof -
  have "(au_buf s)[au_len s := 0] = take (au_len s) (au_buf s) @ 0 # drop (Suc (au_len s)) (au_buf s)"
    using assms by (simp add: tslot_inv_def upd_conv_take_nth_drop)
  moreover have "\<forall>c \<in> set (take (au_len s) (au_buf s)). c \<noteq> 0"
    using assms by (auto simp: tslot_inv_def in_set_conv_nth)
  ultimately show ?thesis
    by (simp add: cstr_def line_of_def takeWhile_append2)
qed

text \<open>One data byte at the prompt, in abstract terms.\<close>

lemma feed_locked:
  assumes "tslot_inv s" "au_state s = AU_PW"
  shows "b \<noteq> 13 \<Longrightarrow> au_state (fst (feed_data c i s b)) = AU_PW
           \<and> line_of (fst (feed_data c i s b)) = edit_line (line_of s) b
           \<and> au_tries (fst (feed_data c i s b)) = au_tries s \<and> snd (feed_data c i s b) = []"
    and "b = 13 \<Longrightarrow> line_of s = cstr (g_password c) \<Longrightarrow>
           au_state (fst (feed_data c i s b)) = AU_OK \<and> snd (feed_data c i s b) = [SlotReady i, RenderReset]"
    and "b = 13 \<Longrightarrow> line_of s \<noteq> cstr (g_password c) \<Longrightarrow>
           au_state (fst (feed_data c i s b)) = AU_PW \<and> line_of (fst (feed_data c i s b)) = []
           \<and> au_tries (fst (feed_data c i s b)) = (au_tries s + 1) mod 256
           \<and> keys_of (snd (feed_data c i s b)) = []
           \<and> drops_of (snd (feed_data c i s b)) = (if (au_tries s + 1) mod 256 \<ge> 3 then 1 else 0)
           \<and> (SlotDrop i \<in> set (snd (feed_data c i s b)) \<longleftrightarrow> (au_tries s + 1) mod 256 \<ge> 3)
           \<and> SlotReady i \<notin> set (snd (feed_data c i s b))"
proof -
  have len: "length (line_of s) = au_len s" "au_len s \<le> 31" "length (au_buf s) = 32"
    using assms(1) by (auto simp: line_of_def tslot_inv_def)
  show "b \<noteq> 13 \<Longrightarrow> au_state (fst (feed_data c i s b)) = AU_PW
      \<and> line_of (fst (feed_data c i s b)) = edit_line (line_of s) b
      \<and> au_tries (fst (feed_data c i s b)) = au_tries s \<and> snd (feed_data c i s b) = []"
    using assms(2) len
    by (auto simp: feed_data_def edit_line_def line_of_def butlast_take take_Suc_conv_app_nth)
  show "b = 13 \<Longrightarrow> line_of s = cstr (g_password c) \<Longrightarrow>
      au_state (fst (feed_data c i s b)) = AU_OK \<and> snd (feed_data c i s b) = [SlotReady i, RenderReset]"
    using assms by (simp add: feed_data_def au_check_def cstr_line)
  show "b = 13 \<Longrightarrow> line_of s \<noteq> cstr (g_password c) \<Longrightarrow>
      au_state (fst (feed_data c i s b)) = AU_PW \<and> line_of (fst (feed_data c i s b)) = []
      \<and> au_tries (fst (feed_data c i s b)) = (au_tries s + 1) mod 256
      \<and> keys_of (snd (feed_data c i s b)) = []
      \<and> drops_of (snd (feed_data c i s b)) = (if (au_tries s + 1) mod 256 \<ge> 3 then 1 else 0)
           \<and> (SlotDrop i \<in> set (snd (feed_data c i s b)) \<longleftrightarrow> (au_tries s + 1) mod 256 \<ge> 3)
      \<and> SlotReady i \<notin> set (snd (feed_data c i s b))"
    using assms by (auto simp: feed_data_def au_check_def cstr_line Let_def) (simp_all add: line_of_def)
qed

text \<open>Bytes that are not data leave the gate alone and deliver nothing.\<close>

definition gate_same :: "tslot \<Rightarrow> tslot \<Rightarrow> bool" where
  "gate_same s t \<longleftrightarrow> au_state t = au_state s \<and> line_of t = line_of s \<and> au_tries t = au_tries s"

lemma respond_gate: "gate_same s (fst (respond i s v opt))" "keys_of (snd (respond i s v opt)) = []"
  "drops_of (snd (respond i s v opt)) = 0" "SlotReady j \<notin> set (snd (respond i s v opt))"
  by (auto simp: respond_def Let_def gate_same_def line_of_def put3_def keys_of_def drops_of_def)

lemma sb_gate: "gate_same s (fst (sb_done s))" "keys_of (snd (sb_done s)) = []"
  "drops_of (snd (sb_done s)) = 0" "SlotReady j \<notin> set (snd (sb_done s))" "gate_same s (sb_push s b)"
  by (auto simp: sb_done_def sb_push_def Let_def gate_same_def line_of_def keys_of_def drops_of_def)

text \<open>One step of the machine: either a data byte reaches \<open>feed_data\<close>, or the gate is untouched.\<close>

lemma telnet_in_step:
  assumes "tslot_inv s"
  shows "(\<exists>d n. (\<forall>bs. strip (iac s) (b # bs) = d # strip n bs) \<and> telnet_in c i s b =
            ((fst (feed_data c i s d))\<lparr>iac := n\<rparr>, snd (feed_data c i s d)))
    \<or> (\<exists>t evs. telnet_in c i s b = (t, evs) \<and> (\<forall>bs. strip (iac s) (b # bs) = strip (iac t) bs)
         \<and> gate_same s t \<and> keys_of evs = [] \<and> drops_of evs = 0 \<and> (\<forall>j. SlotReady j \<notin> set evs))"
    (is "?data \<or> ?other")
proof -
  have iacs: "iac s = 0 \<or> iac s = 1 \<or> iac s = 2 \<or> iac s = 3 \<or> iac s = 4"
    using assms by (auto simp: tslot_inv_def)
  have feed_iac: "iac (fst (feed_data c i s d)) = iac s" for d
    by (auto simp: feed_data_def au_check_def Let_def)
  have frame: "gate_same s s" "gate_same s (t\<lparr>iac := n\<rparr>) = gate_same s t"
    "gate_same s (s\<lparr>verb := v\<rparr>)" "gate_same s (s\<lparr>sb_len := m\<rparr>)" for n m v t
    by (auto simp: gate_same_def line_of_def)
  have push: "iac (sb_push s b) = iac s" by (simp add: sb_push_def)
  show ?thesis
  proof (cases "(iac s = 0 \<and> b \<noteq> IAC) \<or> (iac s = 1 \<and> b = IAC)")
    case True
    have upd: "iac t = 0 \<Longrightarrow> t\<lparr>iac := 0\<rparr> = t" for t :: tslot by simp
    from True have "telnet_in c i s b = ((fst (feed_data c i s b))\<lparr>iac := 0\<rparr>, snd (feed_data c i s b))"
      by (elim disjE conjE) (simp_all add: telnet_in_def case_prod_beta upd feed_iac)
    moreover from True have "\<forall>bs. strip (iac s) (b # bs) = b # strip 0 bs" by auto
    ultimately have ?data by blast
    then show ?thesis ..
  next
    case False
    with iacs consider "iac s = 0" "b = IAC" | "iac s = 1" "b = SB"
      | "iac s = 1" "b \<noteq> IAC" "b \<noteq> SB" "WILL \<le> b \<and> b \<le> DONT"
      | "iac s = 1" "b \<noteq> IAC" "b \<noteq> SB" "\<not> (WILL \<le> b \<and> b \<le> DONT)" | "iac s = 2"
      | "iac s = 3" "b = IAC" | "iac s = 3" "b \<noteq> IAC" | "iac s = 4" "b = SE"
      | "iac s = 4" "b = IAC" | "iac s = 4" "b \<noteq> SE" "b \<noteq> IAC"
      by (elim disjE) blast+
    then have ?other
      by cases (auto simp: telnet_in_def Let_def case_prod_beta respond_gate sb_gate frame push)
    then show ?thesis ..
  qed
qed

subsection \<open>Runs\<close>

lemma feed_admitted:
  assumes "au_state s = AU_OK"
  shows "fst (feed_data c i s d) = s"
    "keys_of (snd (feed_data c i s d)) = filter (\<lambda>b. \<not> (g_eof_exit c \<and> b = 0x04)) [d]"
  using assms by (auto simp: feed_data_def)

lemma run_admitted:
  assumes "tslot_inv s" "au_state s = AU_OK"
  shows "au_state (fst (telnet_ins c i s bs)) = AU_OK \<and> keys_of (snd (telnet_ins c i s bs)) =
     filter (\<lambda>b. \<not> (g_eof_exit c \<and> b = 0x04)) (strip (iac s) bs)"
  using assms
proof (induction bs arbitrary: s)
  case (Cons b bs)
  have inv: "tslot_inv (fst (telnet_in c i s b))" using Cons.prems(1) by (rule telnet_in_inv)
  from telnet_in_step [OF Cons.prems(1), of b c i] show ?case
  proof (elim disjE exE conjE)
    fix d n
    assume d: "\<forall>bs. strip (iac s) (b # bs) = d # strip n bs"
      and t: "telnet_in c i s b = ((fst (feed_data c i s d))\<lparr>iac := n\<rparr>, snd (feed_data c i s d))"
    with inv Cons.IH [of "s\<lparr>iac := n\<rparr>"] Cons.prems show ?thesis
      by (simp add: feed_admitted Let_def case_prod_beta del: strip.simps)
  next
    fix t evs
    assume t: "telnet_in c i s b = (t, evs)" "\<forall>bs. strip (iac s) (b # bs) = strip (iac t) bs"
      "gate_same s t" "keys_of evs = []"
    with inv Cons.IH [of t] Cons.prems show ?thesis
      by (simp add: gate_same_def Let_def case_prod_beta del: strip.simps)
  qed
qed simp

text \<open>What an admitted connection types: everything, or with /EOF everything before the first Ctrl-D.\<close>

definition until_eof :: "tconf \<Rightarrow> byte list \<Rightarrow> byte list" where
  "until_eof c bs = (if g_eof_exit c then takeWhile (\<lambda>b. b \<noteq> 0x04) bs else bs)"

lemma until_eof_Cons:
  "until_eof c (b # bs) = (if g_eof_exit c \<and> b = 0x04 then [] else b # until_eof c bs)"
  by (simp add: until_eof_def)

lemma feed_open:
  assumes "au_state s = AU_OK"
  shows "feed_data c i s d = (s, if g_eof_exit c \<and> d = 0x04 then [SlotDrop i] else [KeyByte d])"
  using assms by (simp add: feed_data_def)

lemma session_admitted:
  assumes "tslot_inv s" "au_state s = AU_OK" "telnet_session c i s bs = (s', evs)"
  shows "au_state s' = AU_OK \<and> keys_of evs = until_eof c (strip (iac s) bs)
    \<and> (SlotDrop i \<in> set evs \<longleftrightarrow> g_eof_exit c \<and> 0x04 \<in> set (strip (iac s) bs))"
  using assms
proof (induction bs arbitrary: s s' evs)
  case (Cons b bs)
  have inv: "tslot_inv (fst (telnet_in c i s b))" using Cons.prems(1) by (rule telnet_in_inv)
  from telnet_in_step [OF Cons.prems(1), of b c i] show ?case
  proof (elim disjE exE conjE)
    fix d n
    assume d: "\<forall>bs. strip (iac s) (b # bs) = d # strip n bs"
      and t: "telnet_in c i s b = ((fst (feed_data c i s d))\<lparr>iac := n\<rparr>, snd (feed_data c i s d))"
    with inv Cons.IH [of "s\<lparr>iac := n\<rparr>"] Cons.prems show ?thesis
      by (auto simp: feed_open until_eof_Cons split: prod.splits if_splits simp del: strip.simps)
  next
    fix t evs
    assume t: "telnet_in c i s b = (t, evs)" "\<forall>bs. strip (iac s) (b # bs) = strip (iac t) bs"
      "gate_same s t" "keys_of evs = []" "drops_of evs = 0"
    with inv Cons.IH [of t] Cons.prems no_drop [OF t(5), of i] show ?thesis
      by (auto simp: gate_same_def split: prod.splits if_splits simp del: strip.simps)
  qed
qed (auto simp: until_eof_def)

text \<open>The verdict of the gate on a data stream, from a line typed so far and a number of wrong tries
  left: whether the password is among the lines the prompt still takes, and the effects on keyboard,
  broadcast and connection.\<close>

definition gate_verdict :: "tconf \<Rightarrow> nat \<Rightarrow> byte list \<Rightarrow> nat \<Rightarrow> byte list \<Rightarrow> tslot \<Rightarrow> tn_effect list \<Rightarrow> bool" where
  "gate_verdict c i l k data s' evs \<longleftrightarrow>
     (let pw = cstr (g_password c); admitted = (pw \<in> set (take k (entered l data)));
          typed = after_password pw l data
      in (au_state s' = AU_OK \<longleftrightarrow> admitted) \<and> (SlotReady i \<in> set evs \<longleftrightarrow> admitted)
         \<and> keys_of evs = (if admitted then until_eof c typed else [])
         \<and> (SlotDrop i \<in> set evs \<longleftrightarrow>
              (if admitted then g_eof_exit c \<and> 0x04 \<in> set typed else length (entered l data) \<ge> k)))"

lemma session_locked:
  assumes "tslot_inv s" "au_state s = AU_PW" "au_tries s \<le> 2" "telnet_session c i s bs = (s', evs)"
  shows "gate_verdict c i (line_of s) (3 - au_tries s) (strip (iac s) bs) s' evs"
  using assms
proof (induction bs arbitrary: s s' evs)
  case Nil
  then show ?case by (auto simp: gate_verdict_def)
next
  case (Cons b bs)
  have inv: "tslot_inv (fst (telnet_in c i s b))" using Cons.prems(1) by (rule telnet_in_inv)
  from telnet_in_step [OF Cons.prems(1), of b c i] show ?case
  proof (elim disjE exE conjE)
    fix d n
    assume d: "\<forall>bs. strip (iac s) (b # bs) = d # strip n bs"
      and t: "telnet_in c i s b = ((fst (feed_data c i s d))\<lparr>iac := n\<rparr>, snd (feed_data c i s d))"
    let ?t = "(fst (feed_data c i s d))\<lparr>iac := n\<rparr>"
    have inv': "tslot_inv ?t" using inv t by simp
    consider "d \<noteq> 13" | "d = 13" "line_of s = cstr (g_password c)" | "d = 13" "line_of s \<noteq> cstr (g_password c)"
      by blast
    then show ?thesis
    proof cases
      case 1
      with feed_locked(1) [OF Cons.prems(1,2), of d c i] Cons.IH [OF inv'] Cons.prems(3,4) d t show ?thesis
        by (auto simp: gate_verdict_def Let_def split: prod.splits simp del: strip.simps)
    next
      case 2
      note f = feed_locked(2) [OF Cons.prems(1,2) 2]
      obtain s2 e2 where r: "telnet_session c i ?t bs = (s2, e2)" by fastforce
      with f Cons.prems(4) t have e: "s' = s2" "evs = [SlotReady i, RenderReset] @ e2" by auto
      have "3 - au_tries s = Suc (2 - au_tries s)" using Cons.prems(3) by simp
      with session_admitted [OF inv' _ r] f d e 2 show ?thesis
        by (simp add: gate_verdict_def Let_def del: strip.simps)
    next
      case 3
      note f = feed_locked(3) [OF Cons.prems(1,2) 3]
      show ?thesis
      proof (cases "au_tries s = 2")
        case True
        with f 3 d t Cons.prems(4) show ?thesis
          by (auto simp: gate_verdict_def Let_def simp del: strip.simps)
      next
        case False
        with Cons.prems(3) have k: "(au_tries s + 1) mod 256 = Suc (au_tries s)" "Suc (au_tries s) \<le> 2"
          "3 - au_tries s = Suc (3 - Suc (au_tries s))" by auto
        with f Cons.IH [OF inv'] 3 d t Cons.prems(4) show ?thesis
          by (auto simp: gate_verdict_def Let_def split: prod.splits simp del: strip.simps)
      qed
    qed
  next
    fix t evs
    assume t: "telnet_in c i s b = (t, evs)" "\<forall>bs. strip (iac s) (b # bs) = strip (iac t) bs"
      "gate_same s t" "keys_of evs = []" "drops_of evs = 0" "\<forall>j. SlotReady j \<notin> set evs"
    with inv Cons.IH [of t] Cons.prems no_drop [OF t(5), of i] show ?thesis
      by (auto simp: gate_verdict_def Let_def gate_same_def split: prod.splits simp del: strip.simps)
  qed
qed

text \<open>A freshly begun slot.\<close>

lemma telnet_begin_fresh:
  "iac (fst (telnet_begin c i s)) = 0" "line_of (fst (telnet_begin c i s)) = []"
  "au_tries (fst (telnet_begin c i s)) = 0"
  "au_state (fst (telnet_begin c i s)) = (if g_password c ! 0 \<noteq> 0 then AU_PW else AU_OK)"
  "willed (fst (telnet_begin c i s)) = 11" "doed (fst (telnet_begin c i s)) = 9"
  by (simp_all add: telnet_begin_def telnet_hello_def telnet_reset_def Let_def line_of_def push_bit_eq_mult)

text \<open>C2. The password gate is exact.  With a password configured, a newly connected slot whose
  connection carries any byte stream whatever is admitted, and made part of the screen broadcast,
  if and only if one of the first three lines completed in the stream's data bytes (IAC sequences
  removed, backspace and the 31-byte limit applied) equals the configured password.  The only bytes
  that drive the keyboard are then the data bytes after that line, with /EOF only those before the
  first Ctrl-D; a client that is not admitted drives nothing.  The connection is cut exactly when
  three lines were completed without the password, or by a Ctrl-D of an admitted client under /EOF;
  what arrives after the cut has no effect.\<close>

theorem telnet_gate_exact:
  assumes "tslot_inv s" "g_password c ! 0 \<noteq> 0"
    and "telnet_session c i (fst (telnet_begin c i s)) bs = (s', evs)"
    and "admitted = (cstr (g_password c) \<in> set (take 3 (entered [] (strip 0 bs))))"
    and "typed = after_password (cstr (g_password c)) [] (strip 0 bs)"
  shows "(au_state s' = AU_OK \<longleftrightarrow> admitted) \<and> (SlotReady i \<in> set evs \<longleftrightarrow> admitted)
    \<and> keys_of evs = (if admitted then until_eof c typed else [])
    \<and> (SlotDrop i \<in> set evs \<longleftrightarrow>
         (if admitted then g_eof_exit c \<and> 0x04 \<in> set typed else length (entered [] (strip 0 bs)) \<ge> 3))"
  using session_locked [OF telnet_begin_inv [OF assms(1)], of c i c i bs] assms(2-)
  by (simp add: telnet_begin_fresh gate_verdict_def Let_def)

definition conf_pw :: tconf where
  "conf_pw = telnet_set_password (str ''ab'') tconf0"

lemma tslot_inv_tslot0: "tslot_inv tslot0"
  by (simp add: tslot_inv_def tslot0_def)

lemma conf_pw_simps: "cstr (g_password conf_pw) = [97, 98]" "g_password conf_pw ! 0 \<noteq> 0"
  "\<not> g_eof_exit conf_pw"
  by code_simp+

theorem telnet_gate_exact_witness:
  "keys_of (snd (telnet_session conf_pw 0 (fst (telnet_begin conf_pw 0 tslot0))
     [120, 13, 97, 255, 253, 1, 98, 13, 10, 100])) = [10, 100]
   \<and> SlotReady 0 \<notin> set (snd (telnet_session conf_pw 0 (fst (telnet_begin conf_pw 0 tslot0))
     [120, 13, 120, 13, 13, 97, 98, 13, 100]))"
proof
  let ?run = "telnet_session conf_pw 0 (fst (telnet_begin conf_pw 0 tslot0))"
  let ?bs = "[120, 13, 97, 255, 253, 1, 98, 13, 10, 100] :: byte list"
  obtain s' evs where r: "?run ?bs = (s', evs)" by fastforce
  have "strip 0 ?bs = [120, 13, 97, 98, 13, 10, 100]" by (simp add: tn_codes)
  with telnet_gate_exact [OF tslot_inv_tslot0 conf_pw_simps(2) r refl refl] show "keys_of (snd (?run ?bs)) = [10, 100]"
    unfolding r snd_conv by (simp add: conf_pw_simps edit_line_def until_eof_def del: strip.simps)
next
  let ?run = "telnet_session conf_pw 0 (fst (telnet_begin conf_pw 0 tslot0))"
  let ?bs = "[120, 13, 120, 13, 13, 97, 98, 13, 100] :: byte list"
  obtain s' evs where r: "?run ?bs = (s', evs)" by fastforce
  have "strip 0 ?bs = ?bs" by (simp add: tn_codes)
  with telnet_gate_exact [OF tslot_inv_tslot0 conf_pw_simps(2) r refl refl] show "SlotReady 0 \<notin> set (snd (?run ?bs))"
    unfolding r snd_conv by (simp add: conf_pw_simps edit_line_def del: strip.simps)
qed

subsection \<open>Well-formed telnet streams\<close>

text \<open>A telnet stream as RFC 854 writes it: data bytes (255 doubled), two-byte commands, three-byte
  option negotiations and subnegotiations.\<close>

datatype tn_tok = TData byte | TCmd byte | TNeg byte byte | TSub "byte list"

definition dbl :: "byte \<Rightarrow> byte list" where
  "dbl b = (if b = IAC then [IAC, IAC] else [b])"

fun tn_encode :: "tn_tok \<Rightarrow> byte list" where
  "tn_encode (TData b) = dbl b"
| "tn_encode (TCmd x) = [IAC, x]"
| "tn_encode (TNeg v opt) = [IAC, v, opt]"
| "tn_encode (TSub body) = [IAC, SB] @ concat (map dbl body) @ [IAC, SE]"

fun tn_tok_ok :: "tn_tok \<Rightarrow> bool" where
  "tn_tok_ok (TCmd x) = (x < SB)"
| "tn_tok_ok (TNeg v opt) = (WILL \<le> v \<and> v \<le> DONT)"
| "tn_tok_ok _ = True"

definition tn_data :: "tn_tok list \<Rightarrow> byte list" where
  "tn_data ts = concat (map (\<lambda>t. case t of TData b \<Rightarrow> [b] | _ \<Rightarrow> []) ts)"

lemma strip_sub: "strip 3 (concat (map dbl body) @ IAC # SE # rest) = strip 0 rest"
  by (induction body) (auto simp: dbl_def)

lemma strip_encode:
  "list_all tn_tok_ok ts \<Longrightarrow> strip 0 (concat (map tn_encode ts)) = tn_data ts"
proof (induction ts)
  case (Cons t ts)
  show ?case
  proof (cases t)
    case (TData b)
    with Cons show ?thesis by (simp add: dbl_def tn_data_def)
  next
    case (TCmd x)
    with Cons have "x < SB" by simp
    then have "x \<noteq> IAC" "x \<noteq> SB" "\<not> WILL \<le> x"
      by (auto simp: tn_codes word_less_nat_alt word_le_nat_alt)
    with TCmd Cons show ?thesis by (simp add: tn_data_def)
  next
    case (TNeg v opt)
    with Cons have "WILL \<le> v \<and> v \<le> DONT" by simp
    moreover from this have "v \<noteq> IAC" "v \<noteq> SB" by (auto simp: tn_codes)
    ultimately show ?thesis using TNeg Cons by (simp add: tn_data_def)
  next
    case (TSub body)
    with Cons strip_sub [of body "concat (map tn_encode ts)"] show ?thesis by (simp add: tn_data_def)
  qed
qed (simp add: tn_data_def)

text \<open>C20. The IAC machine is transparent: for every well-formed telnet stream (data bytes with 255
  doubled, commands, option negotiations, subnegotiations with any body, in any order) an admitted
  slot delivers to the key mapper exactly the data bytes, in order; negotiation never leaks into
  the keyboard and no keystroke is lost.\<close>

theorem telnet_decodes_data:
  assumes "tslot_inv s" "iac s = 0" "au_state s = AU_OK" "\<not> g_eof_exit c" "list_all tn_tok_ok ts"
  shows "keys_of (snd (telnet_ins c i s (concat (map tn_encode ts)))) = tn_data ts"
  using run_admitted [OF assms(1,3), of c i "concat (map tn_encode ts)"] assms(2,4)
  by (simp add: strip_encode [OF assms(5)])

theorem telnet_decodes_data_witness:
  "keys_of (snd (telnet_ins tconf0 0 tslot0
     (concat (map tn_encode [TData 65, TNeg DO OPT_ECHO, TSub [31, 0, 255], TData 255])))) = [65, 255]"
  using telnet_decodes_data [OF tslot_inv_tslot0, of tconf0 "[TData 65, TNeg DO OPT_ECHO, TSub [31, 0, 255], TData 255]" 0]
  by (simp del: tn_encode.simps add: tslot0_def tconf0_def tn_data_def tn_codes)

subsection \<open>Three strikes\<close>

lemma run_drops:
  assumes "tslot_inv s" "au_state s = AU_PW" "cstr (g_password c) \<notin> set (entered (line_of s) (strip (iac s) bs))"
    "au_tries s + length (entered (line_of s) (strip (iac s) bs)) < 256"
  shows "drops_of (snd (telnet_ins c i s bs)) =
     (au_tries s + length (entered (line_of s) (strip (iac s) bs)) - 2) - (au_tries s - 2)"
  using assms
proof (induction bs arbitrary: s)
  case (Cons b bs)
  have inv: "tslot_inv (fst (telnet_in c i s b))" using Cons.prems(1) by (rule telnet_in_inv)
  from telnet_in_step [OF Cons.prems(1), of b c i] show ?case
  proof (elim disjE exE conjE)
    fix d n
    assume d: "\<forall>bs. strip (iac s) (b # bs) = d # strip n bs"
      and t: "telnet_in c i s b = ((fst (feed_data c i s d))\<lparr>iac := n\<rparr>, snd (feed_data c i s d))"
    let ?t = "(fst (feed_data c i s d))\<lparr>iac := n\<rparr>"
    have inv': "tslot_inv ?t" using inv t by simp
    show ?thesis
    proof (cases "d = 13")
      case True
      then have "line_of s \<noteq> cstr (g_password c)" using Cons.prems(3) d by (auto simp del: strip.simps)
      with True feed_locked(3) [OF Cons.prems(1,2), of d c i] Cons.IH [OF inv'] Cons.prems(3,4) d t
      show ?thesis
        by (simp add: Let_def case_prod_beta del: strip.simps)
    next
      case False
      with feed_locked(1) [OF Cons.prems(1,2), of d c i] Cons.IH [OF inv'] Cons.prems(3,4) d t
      show ?thesis
        by (simp add: Let_def case_prod_beta del: strip.simps)
    qed
  next
    fix t evs
    assume t: "telnet_in c i s b = (t, evs)" "\<forall>bs. strip (iac s) (b # bs) = strip (iac t) bs"
      "gate_same s t" "drops_of evs = 0"
    with inv Cons.IH [of t] Cons.prems show ?thesis
      by (simp add: gate_same_def Let_def case_prod_beta del: strip.simps)
  qed
qed simp



subsection \<open>Negotiation is loop-free\<close>

lemma telnet_in_options:
  assumes "willed s = 11" "doed s = 9" "tslot_inv s"
  shows "willed (fst (telnet_in c i s b)) = 11 \<and> doed (fst (telnet_in c i s b)) = 9
    \<and> snd (telnet_in c i s b) \<noteq> put3 i IAC WILL opt \<and> snd (telnet_in c i s b) \<noteq> put3 i IAC DO opt"
proof -
  have feed: "willed (fst (feed_data c i s d)) = 11" "doed (fst (feed_data c i s d)) = 9"
    "snd (feed_data c i s d) \<noteq> TxPutc i IAC # es" for d es
    using assms(1,2)
    by (auto simp: feed_data_def au_check_def Let_def au_say_def msg_denied_def msg_wrong_def tn_codes)
  have resp: "fst (respond i s v b) = s" "snd (respond i s v b) \<noteq> [TxPutc i IAC, TxPutc i WILL, e]"
    "snd (respond i s v b) \<noteq> [TxPutc i IAC, TxPutc i DO, e]" for v e
    using assms(1,2) by (auto simp: respond_def ours_def put3_def tn_codes push_bit_eq_mult Let_def)
  have subneg: "willed (fst (sb_done s)) = 11" "doed (fst (sb_done s)) = 9"
    "snd (sb_done s) \<noteq> TxPutc i x # es" "willed (sb_push s b) = 11" "doed (sb_push s b) = 9" for x es
    using assms(1,2) by (auto simp: sb_done_def sb_push_def Let_def)
  have "iac s \<le> 4" using assms(3) by (simp add: tslot_inv_def)
  then show ?thesis
    using assms feed resp subneg
    by (auto simp: telnet_in_def Let_def case_prod_beta put3_def sb_push_def)
qed

lemma telnet_ins_options:
  "tslot_inv s \<Longrightarrow> willed s = 11 \<Longrightarrow> doed s = 9 \<Longrightarrow>
     willed (fst (telnet_ins c i s bs)) = 11 \<and> doed (fst (telnet_ins c i s bs)) = 9"
  using telnet_in_options
  by (induction bs arbitrary: s) (auto simp: Let_def case_prod_beta telnet_in_inv)

text \<open>No affirmative answer is ever sent after the opening hello: whatever bytes a client has
  sent since its connection was begun, no further byte makes the server emit IAC WILL or IAC DO,
  so the negotiation of the options the server uses cannot ping-pong.\<close>

theorem negotiation_no_affirmation:
  assumes "tslot_inv s"
  shows "snd (telnet_in c i (fst (telnet_ins c i (fst (telnet_begin c i s)) bs)) b) \<noteq> put3 i IAC WILL opt
    \<and> snd (telnet_in c i (fst (telnet_ins c i (fst (telnet_begin c i s)) bs)) b) \<noteq> put3 i IAC DO opt"
proof -
  let ?s = "fst (telnet_begin c i s)"
  have "tslot_inv ?s" using assms by (rule telnet_begin_inv)
  then show ?thesis
    using telnet_in_options [of "fst (telnet_ins c i ?s bs)" c i b opt]
      telnet_ins_options [of ?s c i bs] telnet_ins_inv [of ?s c i bs]
    by (simp add: telnet_begin_fresh)
qed

theorem negotiation_no_affirmation_witness:
  "snd (telnet_in tconf0 0 (fst (telnet_ins tconf0 0 (fst (telnet_begin tconf0 0 tslot0)) [255, 253])) 1)
     \<noteq> put3 0 IAC WILL 1"
  using negotiation_no_affirmation [OF tslot_inv_tslot0, of tconf0 0 "[255, 253]" 1 1] by blast

text \<open>Refusals, in contrast, are answered every time they arrive, not once per option.\<close>

lemma refusals_repeat:
  assumes "iac s = 0" "tslot_inv s"
  shows "snd (telnet_ins c i s [IAC, WONT, opt, IAC, WONT, opt]) = put3 i IAC DONT opt @ put3 i IAC DONT opt"
  using assms by (simp add: telnet_in_def respond_def tn_codes)

end
