(* ===== verification/Cp437.thy ===== *)
theory Cp437
  imports Prelude
begin

text \<open>
  \<open>dosshd/cp437.c\<close>: the CP437 byte to UTF-8 table, entry by entry (length byte, then three
  bytes), and the glyph \<open>e_char\<close> of \<open>render.c\<close> takes from it.  Shown here: every entry is a
  well-formed UTF-8 sequence of the stated length, and no entry holds a control byte.
\<close>

definition cp437_utf8 :: "byte list list" where
  "cp437_utf8 = [
    [1, 0x20, 0x00, 0x00], [3, 0xE2, 0x98, 0xBA], [3, 0xE2, 0x98, 0xBB], [3, 0xE2, 0x99, 0xA5],
    [3, 0xE2, 0x99, 0xA6], [3, 0xE2, 0x99, 0xA3], [3, 0xE2, 0x99, 0xA0], [3, 0xE2, 0x80, 0xA2],
    [3, 0xE2, 0x97, 0x98], [3, 0xE2, 0x97, 0x8B], [3, 0xE2, 0x97, 0x99], [3, 0xE2, 0x99, 0x82],
    [3, 0xE2, 0x99, 0x80], [3, 0xE2, 0x99, 0xAA], [3, 0xE2, 0x99, 0xAB], [3, 0xE2, 0x98, 0xBC],
    [3, 0xE2, 0x96, 0xBA], [3, 0xE2, 0x97, 0x84], [3, 0xE2, 0x86, 0x95], [3, 0xE2, 0x80, 0xBC],
    [2, 0xC2, 0xB6, 0x00], [2, 0xC2, 0xA7, 0x00], [3, 0xE2, 0x96, 0xAC], [3, 0xE2, 0x86, 0xA8],
    [3, 0xE2, 0x86, 0x91], [3, 0xE2, 0x86, 0x93], [3, 0xE2, 0x86, 0x92], [3, 0xE2, 0x86, 0x90],
    [3, 0xE2, 0x88, 0x9F], [3, 0xE2, 0x86, 0x94], [3, 0xE2, 0x96, 0xB2], [3, 0xE2, 0x96, 0xBC],
    [1, 0x20, 0x00, 0x00], [1, 0x21, 0x00, 0x00], [1, 0x22, 0x00, 0x00], [1, 0x23, 0x00, 0x00],
    [1, 0x24, 0x00, 0x00], [1, 0x25, 0x00, 0x00], [1, 0x26, 0x00, 0x00], [1, 0x27, 0x00, 0x00],
    [1, 0x28, 0x00, 0x00], [1, 0x29, 0x00, 0x00], [1, 0x2A, 0x00, 0x00], [1, 0x2B, 0x00, 0x00],
    [1, 0x2C, 0x00, 0x00], [1, 0x2D, 0x00, 0x00], [1, 0x2E, 0x00, 0x00], [1, 0x2F, 0x00, 0x00],
    [1, 0x30, 0x00, 0x00], [1, 0x31, 0x00, 0x00], [1, 0x32, 0x00, 0x00], [1, 0x33, 0x00, 0x00],
    [1, 0x34, 0x00, 0x00], [1, 0x35, 0x00, 0x00], [1, 0x36, 0x00, 0x00], [1, 0x37, 0x00, 0x00],
    [1, 0x38, 0x00, 0x00], [1, 0x39, 0x00, 0x00], [1, 0x3A, 0x00, 0x00], [1, 0x3B, 0x00, 0x00],
    [1, 0x3C, 0x00, 0x00], [1, 0x3D, 0x00, 0x00], [1, 0x3E, 0x00, 0x00], [1, 0x3F, 0x00, 0x00],
    [1, 0x40, 0x00, 0x00], [1, 0x41, 0x00, 0x00], [1, 0x42, 0x00, 0x00], [1, 0x43, 0x00, 0x00],
    [1, 0x44, 0x00, 0x00], [1, 0x45, 0x00, 0x00], [1, 0x46, 0x00, 0x00], [1, 0x47, 0x00, 0x00],
    [1, 0x48, 0x00, 0x00], [1, 0x49, 0x00, 0x00], [1, 0x4A, 0x00, 0x00], [1, 0x4B, 0x00, 0x00],
    [1, 0x4C, 0x00, 0x00], [1, 0x4D, 0x00, 0x00], [1, 0x4E, 0x00, 0x00], [1, 0x4F, 0x00, 0x00],
    [1, 0x50, 0x00, 0x00], [1, 0x51, 0x00, 0x00], [1, 0x52, 0x00, 0x00], [1, 0x53, 0x00, 0x00],
    [1, 0x54, 0x00, 0x00], [1, 0x55, 0x00, 0x00], [1, 0x56, 0x00, 0x00], [1, 0x57, 0x00, 0x00],
    [1, 0x58, 0x00, 0x00], [1, 0x59, 0x00, 0x00], [1, 0x5A, 0x00, 0x00], [1, 0x5B, 0x00, 0x00],
    [1, 0x5C, 0x00, 0x00], [1, 0x5D, 0x00, 0x00], [1, 0x5E, 0x00, 0x00], [1, 0x5F, 0x00, 0x00],
    [1, 0x60, 0x00, 0x00], [1, 0x61, 0x00, 0x00], [1, 0x62, 0x00, 0x00], [1, 0x63, 0x00, 0x00],
    [1, 0x64, 0x00, 0x00], [1, 0x65, 0x00, 0x00], [1, 0x66, 0x00, 0x00], [1, 0x67, 0x00, 0x00],
    [1, 0x68, 0x00, 0x00], [1, 0x69, 0x00, 0x00], [1, 0x6A, 0x00, 0x00], [1, 0x6B, 0x00, 0x00],
    [1, 0x6C, 0x00, 0x00], [1, 0x6D, 0x00, 0x00], [1, 0x6E, 0x00, 0x00], [1, 0x6F, 0x00, 0x00],
    [1, 0x70, 0x00, 0x00], [1, 0x71, 0x00, 0x00], [1, 0x72, 0x00, 0x00], [1, 0x73, 0x00, 0x00],
    [1, 0x74, 0x00, 0x00], [1, 0x75, 0x00, 0x00], [1, 0x76, 0x00, 0x00], [1, 0x77, 0x00, 0x00],
    [1, 0x78, 0x00, 0x00], [1, 0x79, 0x00, 0x00], [1, 0x7A, 0x00, 0x00], [1, 0x7B, 0x00, 0x00],
    [1, 0x7C, 0x00, 0x00], [1, 0x7D, 0x00, 0x00], [1, 0x7E, 0x00, 0x00], [3, 0xE2, 0x8C, 0x82],
    [2, 0xC3, 0x87, 0x00], [2, 0xC3, 0xBC, 0x00], [2, 0xC3, 0xA9, 0x00], [2, 0xC3, 0xA2, 0x00],
    [2, 0xC3, 0xA4, 0x00], [2, 0xC3, 0xA0, 0x00], [2, 0xC3, 0xA5, 0x00], [2, 0xC3, 0xA7, 0x00],
    [2, 0xC3, 0xAA, 0x00], [2, 0xC3, 0xAB, 0x00], [2, 0xC3, 0xA8, 0x00], [2, 0xC3, 0xAF, 0x00],
    [2, 0xC3, 0xAE, 0x00], [2, 0xC3, 0xAC, 0x00], [2, 0xC3, 0x84, 0x00], [2, 0xC3, 0x85, 0x00],
    [2, 0xC3, 0x89, 0x00], [2, 0xC3, 0xA6, 0x00], [2, 0xC3, 0x86, 0x00], [2, 0xC3, 0xB4, 0x00],
    [2, 0xC3, 0xB6, 0x00], [2, 0xC3, 0xB2, 0x00], [2, 0xC3, 0xBB, 0x00], [2, 0xC3, 0xB9, 0x00],
    [2, 0xC3, 0xBF, 0x00], [2, 0xC3, 0x96, 0x00], [2, 0xC3, 0x9C, 0x00], [2, 0xC2, 0xA2, 0x00],
    [2, 0xC2, 0xA3, 0x00], [2, 0xC2, 0xA5, 0x00], [3, 0xE2, 0x82, 0xA7], [2, 0xC6, 0x92, 0x00],
    [2, 0xC3, 0xA1, 0x00], [2, 0xC3, 0xAD, 0x00], [2, 0xC3, 0xB3, 0x00], [2, 0xC3, 0xBA, 0x00],
    [2, 0xC3, 0xB1, 0x00], [2, 0xC3, 0x91, 0x00], [2, 0xC2, 0xAA, 0x00], [2, 0xC2, 0xBA, 0x00],
    [2, 0xC2, 0xBF, 0x00], [3, 0xE2, 0x8C, 0x90], [2, 0xC2, 0xAC, 0x00], [2, 0xC2, 0xBD, 0x00],
    [2, 0xC2, 0xBC, 0x00], [2, 0xC2, 0xA1, 0x00], [2, 0xC2, 0xAB, 0x00], [2, 0xC2, 0xBB, 0x00],
    [3, 0xE2, 0x96, 0x91], [3, 0xE2, 0x96, 0x92], [3, 0xE2, 0x96, 0x93], [3, 0xE2, 0x94, 0x82],
    [3, 0xE2, 0x94, 0xA4], [3, 0xE2, 0x95, 0xA1], [3, 0xE2, 0x95, 0xA2], [3, 0xE2, 0x95, 0x96],
    [3, 0xE2, 0x95, 0x95], [3, 0xE2, 0x95, 0xA3], [3, 0xE2, 0x95, 0x91], [3, 0xE2, 0x95, 0x97],
    [3, 0xE2, 0x95, 0x9D], [3, 0xE2, 0x95, 0x9C], [3, 0xE2, 0x95, 0x9B], [3, 0xE2, 0x94, 0x90],
    [3, 0xE2, 0x94, 0x94], [3, 0xE2, 0x94, 0xB4], [3, 0xE2, 0x94, 0xAC], [3, 0xE2, 0x94, 0x9C],
    [3, 0xE2, 0x94, 0x80], [3, 0xE2, 0x94, 0xBC], [3, 0xE2, 0x95, 0x9E], [3, 0xE2, 0x95, 0x9F],
    [3, 0xE2, 0x95, 0x9A], [3, 0xE2, 0x95, 0x94], [3, 0xE2, 0x95, 0xA9], [3, 0xE2, 0x95, 0xA6],
    [3, 0xE2, 0x95, 0xA0], [3, 0xE2, 0x95, 0x90], [3, 0xE2, 0x95, 0xAC], [3, 0xE2, 0x95, 0xA7],
    [3, 0xE2, 0x95, 0xA8], [3, 0xE2, 0x95, 0xA4], [3, 0xE2, 0x95, 0xA5], [3, 0xE2, 0x95, 0x99],
    [3, 0xE2, 0x95, 0x98], [3, 0xE2, 0x95, 0x92], [3, 0xE2, 0x95, 0x93], [3, 0xE2, 0x95, 0xAB],
    [3, 0xE2, 0x95, 0xAA], [3, 0xE2, 0x94, 0x98], [3, 0xE2, 0x94, 0x8C], [3, 0xE2, 0x96, 0x88],
    [3, 0xE2, 0x96, 0x84], [3, 0xE2, 0x96, 0x8C], [3, 0xE2, 0x96, 0x90], [3, 0xE2, 0x96, 0x80],
    [2, 0xCE, 0xB1, 0x00], [2, 0xC3, 0x9F, 0x00], [2, 0xCE, 0x93, 0x00], [2, 0xCF, 0x80, 0x00],
    [2, 0xCE, 0xA3, 0x00], [2, 0xCF, 0x83, 0x00], [2, 0xC2, 0xB5, 0x00], [2, 0xCF, 0x84, 0x00],
    [2, 0xCE, 0xA6, 0x00], [2, 0xCE, 0x98, 0x00], [2, 0xCE, 0xA9, 0x00], [2, 0xCE, 0xB4, 0x00],
    [3, 0xE2, 0x88, 0x9E], [2, 0xCF, 0x86, 0x00], [2, 0xCE, 0xB5, 0x00], [3, 0xE2, 0x88, 0xA9],
    [3, 0xE2, 0x89, 0xA1], [2, 0xC2, 0xB1, 0x00], [3, 0xE2, 0x89, 0xA5], [3, 0xE2, 0x89, 0xA4],
    [3, 0xE2, 0x8C, 0xA0], [3, 0xE2, 0x8C, 0xA1], [2, 0xC3, 0xB7, 0x00], [3, 0xE2, 0x89, 0x88],
    [2, 0xC2, 0xB0, 0x00], [3, 0xE2, 0x88, 0x99], [2, 0xC2, 0xB7, 0x00], [3, 0xE2, 0x88, 0x9A],
    [3, 0xE2, 0x81, 0xBF], [2, 0xC2, 0xB2, 0x00], [3, 0xE2, 0x96, 0xA0], [2, 0xC2, 0xA0, 0x00]
  ]"

text \<open>The bytes \<open>e_char\<close> sends for a character: \<open>u[1..u[0]]\<close>.\<close>

definition glyph :: "byte \<Rightarrow> byte list" where
  "glyph ch = (let u = cp437_utf8 ! unat ch in take (unat (u ! 0)) (tl u))"

text \<open>UTF-8 shape: one printable ASCII byte, or a lead byte and its continuation bytes.\<close>

fun utf8_shape :: "byte list \<Rightarrow> bool" where
  "utf8_shape [a] = (32 \<le> a \<and> a < 127)"
| "utf8_shape [a, b] = (0xC2 \<le> a \<and> a < 0xE0 \<and> 0x80 \<le> b \<and> b < 0xC0)"
| "utf8_shape [a, b, c] = (0xE0 \<le> a \<and> a < 0xF0 \<and> 0x80 \<le> b \<and> b < 0xC0 \<and> 0x80 \<le> c \<and> c < 0xC0)"
| "utf8_shape _ = False"

lemma cp437_table_ok: "list_all (\<lambda>u. length u = 4 \<and> utf8_shape (take (unat (u ! 0)) (tl u))) cp437_utf8"
  by code_simp

lemma length_cp437: "length cp437_utf8 = 256"
  by code_simp

lemma glyph_shape: "utf8_shape (glyph ch)"
proof -
  have "cp437_utf8 ! unat ch \<in> set cp437_utf8"
    using unat_byte_less [of ch] by (simp add: length_cp437)
  with cp437_table_ok show ?thesis
    by (auto simp: list_all_iff glyph_def Let_def)
qed

lemma length_glyph: "1 \<le> length (glyph ch)" "length (glyph ch) \<le> 3"
  using glyph_shape [of ch] by (auto elim: utf8_shape.elims)

lemma utf8_shape_no_control: "utf8_shape g \<Longrightarrow> b \<in> set g \<Longrightarrow> 32 \<le> b \<and> b \<noteq> 127"
  by (elim utf8_shape.elims) (auto simp: word_le_nat_alt word_less_nat_alt)

text \<open>Every glyph the renderer can send is one well-formed UTF-8 character of one to three
  bytes, and holds no control byte: all 256 CP437 codes, the control range included, are safe to
  write to a terminal.\<close>

theorem glyph_safe:
  "utf8_shape (glyph ch) \<and> 1 \<le> length (glyph ch) \<and> length (glyph ch) \<le> 3
     \<and> (\<forall>b. b \<in> set (glyph ch) \<longrightarrow> 32 \<le> b \<and> b \<noteq> 127)"
  using glyph_shape [of ch] length_glyph [of ch] utf8_shape_no_control by blast

theorem glyph_safe_witness: "utf8_shape (glyph 0x1B) \<and> list_all (\<lambda>b. 32 \<le> b \<and> b \<noteq> 127) (glyph 0x1B)"
  using glyph_safe [of "0x1B"] by (simp add: list_all_iff)

end
