(* ===== verification/Render.thy ===== *)
theory Render
  imports Cp437
begin

text \<open>
  \<open>dosshd/render.c\<close>: the diff-driven ANSI renderer.  The file's statics are the record
  \<open>render\<close>; the hardware it reads (the BIOS data area and the two text buffers) is the record
  \<open>vga\<close>, an argument of every operation that reads it.  \<open>o_len\<close> is the length of \<open>obuf\<close>.

  The output buffer provides \<open>bounded_sink\<close>; the reservations of \<open>frame_fill\<close> are shown to be
  enough, so no byte is ever truncated.  \<open>Terminal\<close> interprets the byte stream.
\<close>

section \<open>The screen\<close>

record vga =
  bda_mode :: byte
  bda_cols :: byte
  bda_rows :: byte
  bda_cur_row :: byte
  bda_cur_col :: byte
  bda_cur_start :: byte     \<comment> \<open>high byte of the cursor type word at 0040:0060\<close>
  bda_ticks :: u32
  vram_color :: "nat \<Rightarrow> byte"
  vram_mono :: "nat \<Rightarrow> byte"

definition scr_cols :: "vga \<Rightarrow> nat" where "scr_cols v = unat (bda_cols v)"
definition scr_rows :: "vga \<Rightarrow> nat" where "scr_rows v = unat (bda_rows v) + 1"
definition scr_mode :: "vga \<Rightarrow> byte" where "scr_mode v = bda_mode v"

definition scr_base :: "vga \<Rightarrow> nat \<Rightarrow> byte" where
  "scr_base v = (if scr_mode v = 7 then vram_mono v else vram_color v)"

definition cursor_rc :: "vga \<Rightarrow> byte \<times> byte" where
  "cursor_rc v = (bda_cur_row v, bda_cur_col v)"

definition cursor_visible :: "vga \<Rightarrow> bool" where
  "cursor_visible v \<longleftrightarrow> bda_cur_start v AND 0x20 = 0"

section \<open>Output buffer and emit helpers\<close>

definition OBUF :: nat where "OBUF = 2048"

definition e_b :: "byte \<Rightarrow> byte list \<Rightarrow> byte list" where
  "e_b c ob = (if length ob < OBUF then ob @ [c] else ob)"

definition e_s :: "byte list \<Rightarrow> byte list \<Rightarrow> byte list" where
  "e_s s ob = fold e_b s ob"

text \<open>The digits of \<open>v\<close>, least significant first (the array \<open>t\<close> of \<open>e_num\<close>).\<close>

fun num_digits :: "nat \<Rightarrow> byte list" where
  "num_digits v = (if v = 0 then [] else (48 + of_nat (v mod 10)) # num_digits (v div 10))"

declare num_digits.simps [simp del]

definition e_num :: "nat \<Rightarrow> byte list \<Rightarrow> byte list" where
  "e_num v ob = (if v = 0 then e_b 48 ob else fold e_b (rev (num_digits v)) ob)"

definition e_cup :: "nat \<Rightarrow> nat \<Rightarrow> byte list \<Rightarrow> byte list" where
  "e_cup row col ob = e_b 72 (e_num (col + 1) (e_b 59 (e_num (row + 1) (e_s [27, 91] ob))))"

definition v2a :: "nat list" where
  "v2a = [0, 4, 2, 6, 1, 5, 3, 7]"

definition sgr_fg :: "byte \<Rightarrow> nat" where
  "sgr_fg attr = (let fg = unat (attr AND 0x0F) in if fg < 8 then 30 + v2a ! fg else 90 + v2a ! (fg - 8))"

definition sgr_bg :: "byte \<Rightarrow> nat" where
  "sgr_bg attr = 40 + v2a ! unat (drop_bit 4 attr AND 0x07)"

definition e_sgr :: "byte \<Rightarrow> byte list \<Rightarrow> byte list" where
  "e_sgr attr ob =
     (let ob = e_num (sgr_bg attr) (e_b 59 (e_num (sgr_fg attr) (e_s [27, 91, 48, 59] ob)));
          ob = (if attr AND 0x80 \<noteq> 0 then e_s [59, 53] ob else ob)
      in e_b 109 ob)"

definition e_char :: "byte \<Rightarrow> byte list \<Rightarrow> byte list" where
  "e_char ch ob = fold e_b (glyph ch) ob"

section \<open>Diff and repaint state\<close>

definition SHADOW_BYTES :: nat where "SHADOW_BYTES = 4000"
definition CADENCE_TICKS :: int where "CADENCE_TICKS = 36"
definition HEAL_TICKS :: int where "HEAL_TICKS = 72"

record render =
  obuf :: "byte list"
  o_off :: nat
  pushed :: int
  shadow :: "byte list"
  shadow_valid :: bool
  sh_cols :: nat
  sh_rows :: nat
  force_kf :: bool
  last_kf :: u32
  heal_kf :: u32
  frame_active :: bool
  is_repaint :: bool
  is_toobig :: bool
  walk_cell :: nat
  total_cells :: nat
  f_cols :: nat
  last_emit :: int
  cur_sgr :: int
  last_cur_r :: byte
  last_cur_c :: byte

definition render0 :: render where
  "render0 = \<lparr>obuf = [], o_off = 0, pushed = -1, shadow = replicate 4000 0, shadow_valid = False,
     sh_cols = 0, sh_rows = 0, force_kf = True, last_kf = 0, heal_kf = 0, frame_active = False,
     is_repaint = False, is_toobig = False, walk_cell = 0, total_cells = 0, f_cols = 0,
     last_emit = 0, cur_sgr = 0, last_cur_r = 255, last_cur_c = 255\<rparr>"

definition render_reset :: "vga \<Rightarrow> render \<Rightarrow> render" where
  "render_reset v r = r\<lparr>shadow_valid := False, force_kf := True, frame_active := False,
     obuf := [], o_off := 0, pushed := -1, cur_sgr := -1, last_emit := -2,
     last_cur_r := 255, last_cur_c := 255, heal_kf := bda_ticks v\<rparr>"

text \<open>The geometry in force (the two clamps of \<open>frame_decide\<close>).\<close>

definition eff_cols :: "vga \<Rightarrow> nat" where
  "eff_cols v = (if scr_cols v = 0 \<or> scr_cols v > 132 then 80 else scr_cols v)"

definition eff_rows :: "vga \<Rightarrow> nat" where
  "eff_rows v = (if scr_rows v = 0 \<or> scr_rows v > 60 then 25 else scr_rows v)"

definition elapsed :: "vga \<Rightarrow> u32 \<Rightarrow> int" where
  "elapsed v t = sint (bda_ticks v - t)"

text \<open>The number of cells that differ from the shadow (the counting loop over \<open>bytes\<close>).\<close>

definition cell_differs :: "vga \<Rightarrow> render \<Rightarrow> nat \<Rightarrow> bool" where
  "cell_differs v r c \<longleftrightarrow> scr_base v (2 * c) \<noteq> shadow r ! (2 * c)
     \<or> scr_base v (2 * c + 1) \<noteq> shadow r ! (2 * c + 1)"

definition changed_cells :: "vga \<Rightarrow> render \<Rightarrow> nat \<Rightarrow> nat" where
  "changed_cells v r n = length (filter (cell_differs v r) [0..<n])"

text \<open>The part of \<open>frame_decide\<close> after the decision to send a frame.\<close>

definition frame_begin :: "nat \<Rightarrow> nat \<Rightarrow> bool \<Rightarrow> bool \<Rightarrow> render \<Rightarrow> render" where
  "frame_begin cols rows clear repaint r =
     (let r = r\<lparr>f_cols := cols, total_cells := cols * rows, is_repaint := repaint, walk_cell := 0,
               last_emit := -2, cur_sgr := -1, frame_active := True\<rparr>;
          ob = e_s [27, 91, 63, 55, 108, 27, 91, 63, 50, 53, 108] (obuf r);
          ob = (if clear then e_s [27, 91, 50, 74, 27, 91, 72] ob else ob);
          r = r\<lparr>obuf := ob\<rparr>
      in if repaint then r\<lparr>sh_cols := cols, sh_rows := rows\<rparr> else r)"

definition frame_decide :: "vga \<Rightarrow> bool \<Rightarrow> render \<Rightarrow> render" where
  "frame_decide v serial r =
     (let cols = eff_cols v; rows = eff_rows v; bytes = cols * rows * 2;
          toobig = (bytes > SHADOW_BYTES);
          r = r\<lparr>is_toobig := toobig\<rparr>;
          clear = (force_kf r \<or> \<not> shadow_valid r \<or> cols \<noteq> sh_cols r \<or> rows \<noteq> sh_rows r);
          repaint = (clear \<or> (elapsed v (last_kf r) \<ge> CADENCE_TICKS
                              \<and> (serial \<or> elapsed v (heal_kf r) < HEAL_TICKS)));
          full = (force_kf r \<or> elapsed v (last_kf r) \<ge> CADENCE_TICKS);
          clear = (if toobig then full else clear);
          repaint = (if toobig then full else repaint)
      in if toobig \<and> \<not> repaint then r
         else if repaint then frame_begin cols rows clear True r
         else
           (let changed = changed_cells v r (cols * rows); (cr, cc) = cursor_rc v
            in if changed = 0 \<and> cr = last_cur_r r \<and> cc = last_cur_c r then r
               else frame_begin cols rows clear (changed * 4 > (bytes div 2) * 3)
                      (if changed \<noteq> 0 then r\<lparr>heal_kf := bda_ticks v\<rparr> else r)))"

text \<open>The body of the cell loop of \<open>frame_fill\<close> (one cell), and the loop.\<close>

definition paint_cell :: "vga \<Rightarrow> nat \<Rightarrow> nat \<Rightarrow> render \<Rightarrow> render" where
  "paint_cell v cols c r =
     (let idx = c * 2; ch = scr_base v idx; attr = scr_base v (idx + 1);
          changed = (is_repaint r \<or> is_toobig r \<or> ch \<noteq> shadow r ! idx \<or> attr \<noteq> shadow r ! (idx + 1))
      in if changed then
           (let col = c mod cols;
                ob = (if int c \<noteq> last_emit r + 1 \<or> col = 0 then e_cup (c div cols) col (obuf r) else obuf r);
                r = r\<lparr>obuf := ob\<rparr>;
                r = (if int (unat attr) \<noteq> cur_sgr r
                     then r\<lparr>obuf := e_sgr attr (obuf r), cur_sgr := int (unat attr)\<rparr> else r);
                r = r\<lparr>obuf := e_char ch (obuf r)\<rparr>;
                r = (if \<not> is_toobig r then r\<lparr>shadow := (shadow r)[idx := ch, idx + 1 := attr]\<rparr> else r)
            in r\<lparr>last_emit := int c\<rparr>)
         else r)"

function fill_cells :: "vga \<Rightarrow> nat \<Rightarrow> nat \<Rightarrow> nat \<Rightarrow> render \<Rightarrow> render \<times> nat" where
  "fill_cells v tot cols c r =
     (if c < tot then
        (if length (obuf r) + 48 > OBUF then (r, c)
         else fill_cells v tot cols (c + 1) (paint_cell v cols c r))
      else (r, c))"
  by pat_completeness auto
termination
  by (relation "measure (\<lambda>(v, tot, cols, c, r). tot - c)") auto

declare fill_cells.simps [simp del]

definition frame_end :: "vga \<Rightarrow> render \<Rightarrow> render" where
  "frame_end v r =
     (let (cr, cc) = cursor_rc v;
          ob = e_cup (unat cr) (unat cc) (obuf r);
          ob = e_s (if cursor_visible v then [27, 91, 63, 50, 53, 104] else [27, 91, 63, 50, 53, 108]) ob;
          r = r\<lparr>obuf := ob, last_cur_r := cr, last_cur_c := cc, frame_active := False\<rparr>;
          r = (if \<not> is_toobig r then r\<lparr>shadow_valid := True\<rparr> else r);
          r = (if is_repaint r then r\<lparr>force_kf := False\<rparr> else r)
      in if is_repaint r \<or> is_toobig r then r\<lparr>last_kf := bda_ticks v\<rparr> else r)"

definition frame_fill :: "vga \<Rightarrow> render \<Rightarrow> render" where
  "frame_fill v r =
     (let (r, c) = fill_cells v (total_cells r) (f_cols r) (walk_cell r) r;
          r = r\<lparr>walk_cell := c\<rparr>
      in if c \<ge> total_cells r then frame_end v r else r)"

text \<open>The byte handed to the transport, \<open>None\<close> for the code's \<open>-1\<close>.\<close>

definition take_byte :: "render \<Rightarrow> byte option \<times> render" where
  "take_byte r = (if o_off r < length (obuf r) then (Some (obuf r ! o_off r), r\<lparr>o_off := o_off r + 1\<rparr>)
     else (None, r))"

definition refill :: "vga \<Rightarrow> bool \<Rightarrow> render \<Rightarrow> render" where
  "refill v serial r =
     (let r = r\<lparr>obuf := [], o_off := 0\<rparr>;
          r = (if \<not> frame_active r then frame_decide v serial r else r)
      in if frame_active r then frame_fill v r else r)"

definition render_next_byte :: "vga \<Rightarrow> bool \<Rightarrow> render \<Rightarrow> byte option \<times> render" where
  "render_next_byte v serial r =
     (if pushed r \<ge> 0 then (Some (of_int (pushed r)), r\<lparr>pushed := -1\<rparr>)
      else if o_off r < length (obuf r) then take_byte r
      else take_byte (refill v serial r))"

definition render_pushback :: "byte \<Rightarrow> render \<Rightarrow> render" where
  "render_pushback b r = r\<lparr>pushed := int (unat b)\<rparr>"

section \<open>The output buffer is a bounded sink\<close>

interpretation ob: bounded_sink "\<lambda>ob. length ob \<le> OBUF" "\<lambda>ob :: byte list. ob" "\<lambda>_. OBUF" e_b
  by unfold_locales (auto simp: e_b_def)

section \<open>The byte sequences, without truncation\<close>

text \<open>What each helper appends when the buffer has room.\<close>

definition num_bytes :: "nat \<Rightarrow> byte list" where
  "num_bytes v = (if v = 0 then [48] else rev (num_digits v))"

definition cup_bytes :: "nat \<Rightarrow> nat \<Rightarrow> byte list" where
  "cup_bytes row col = [27, 91] @ num_bytes (row + 1) @ [59] @ num_bytes (col + 1) @ [72]"

definition sgr_bytes :: "byte \<Rightarrow> byte list" where
  "sgr_bytes attr = [27, 91, 48, 59] @ num_bytes (sgr_fg attr) @ [59] @ num_bytes (sgr_bg attr)
     @ (if attr AND 0x80 \<noteq> 0 then [59, 53] else []) @ [109]"

lemma e_s_room: "length ob + length s \<le> OBUF \<Longrightarrow> e_s s ob = ob @ s"
  by (simp add: e_s_def ob.put_all_room)

lemma e_b_room: "length ob < OBUF \<Longrightarrow> e_b c ob = ob @ [c]"
  by (simp add: e_b_def)

lemma e_num_room: "length ob + length (num_bytes v) \<le> OBUF \<Longrightarrow> e_num v ob = ob @ num_bytes v"
  by (cases "v = 0") (simp_all add: e_num_def num_bytes_def e_b_def ob.put_all_room)

lemma e_char_room: "length ob + length (glyph ch) \<le> OBUF \<Longrightarrow> e_char ch ob = ob @ glyph ch"
  by (simp add: e_char_def ob.put_all_room)

lemma e_cup_room: "length ob + length (cup_bytes row col) \<le> OBUF \<Longrightarrow> e_cup row col ob = ob @ cup_bytes row col"
  by (simp add: e_cup_def cup_bytes_def e_s_room e_b_room e_num_room)

lemma e_sgr_room: "length ob + length (sgr_bytes attr) \<le> OBUF \<Longrightarrow> e_sgr attr ob = ob @ sgr_bytes attr"
  by (cases "attr AND 0x80 = 0")
    (simp_all add: e_sgr_def sgr_bytes_def e_s_room e_b_room e_num_room Let_def)

lemma length_num_digits: "v < 10 ^ n \<Longrightarrow> length (num_digits v) \<le> n"
proof (induction n arbitrary: v)
  case 0
  then show ?case by (simp add: num_digits.simps)
next
  case (Suc n)
  then have "v div 10 < 10 ^ n" by (simp add: less_mult_imp_div_less mult.commute)
  with Suc.IH show ?case by (subst num_digits.simps) simp
qed

lemma length_num_bytes:
  "v < 100 \<Longrightarrow> length (num_bytes v) \<le> 2" "v < 1000 \<Longrightarrow> length (num_bytes v) \<le> 3"
  using length_num_digits [of v 2] length_num_digits [of v 3] by (auto simp: num_bytes_def)

lemma v2a_less: "i < 8 \<Longrightarrow> v2a ! i < 8"
  by (auto simp: v2a_def less_Suc_eq numeral_eq_Suc)

lemma and_15_less: "unat ((a :: byte) AND 15) < 16"
proof -
  have "a AND 15 \<le> 15" by (rule word_and_le1)
  then show ?thesis by (simp add: word_le_nat_alt)
qed

lemma and_7_less: "unat ((a :: byte) AND 7) < 8"
proof -
  have "a AND 7 \<le> 7" by (rule word_and_le1)
  then show ?thesis by (simp add: word_le_nat_alt)
qed

lemma sgr_less: "sgr_fg a < 100" "sgr_bg a < 100"
proof -
  have "v2a ! unat (drop_bit 4 a AND 7) < 8" by (rule v2a_less [OF and_7_less])
  then show "sgr_bg a < 100" by (simp add: sgr_bg_def)
  have "unat (a AND 15) < 8 \<Longrightarrow> v2a ! unat (a AND 15) < 8" by (rule v2a_less)
  moreover have "v2a ! (unat (a AND 15) - 8) < 8" by (rule v2a_less) (use and_15_less [of a] in simp)
  ultimately show "sgr_fg a < 100" by (cases "unat (a AND 15) < 8") (simp_all add: sgr_fg_def Let_def)
qed

lemma length_cup_bytes:
  "row < 99 \<Longrightarrow> col < 999 \<Longrightarrow> length (cup_bytes row col) \<le> 9"
  "row < 999 \<Longrightarrow> col < 999 \<Longrightarrow> length (cup_bytes row col) \<le> 10"
  using length_num_bytes [of "row + 1"] length_num_bytes(2) [of "col + 1"]
  by (auto simp: cup_bytes_def)

lemma length_sgr_bytes: "length (sgr_bytes a) \<le> 12"
  using length_num_bytes(1) [OF sgr_less(1) [of a]] length_num_bytes(1) [OF sgr_less(2) [of a]]
  by (simp add: sgr_bytes_def)

text \<open>The bytes of one changed cell, and of the two ends of a frame.\<close>

definition cell_bytes :: "vga \<Rightarrow> nat \<Rightarrow> nat \<Rightarrow> render \<Rightarrow> byte list" where
  "cell_bytes v cols c r =
     (if int c \<noteq> last_emit r + 1 \<or> c mod cols = 0 then cup_bytes (c div cols) (c mod cols) else [])
     @ (if int (unat (scr_base v (2 * c + 1))) \<noteq> cur_sgr r then sgr_bytes (scr_base v (2 * c + 1)) else [])
     @ glyph (scr_base v (2 * c))"

definition head_bytes :: "bool \<Rightarrow> byte list" where
  "head_bytes clear = [27, 91, 63, 55, 108, 27, 91, 63, 50, 53, 108] @ (if clear then [27, 91, 50, 74, 27, 91, 72] else [])"

definition tail_bytes :: "vga \<Rightarrow> byte list" where
  "tail_bytes v = cup_bytes (unat (bda_cur_row v)) (unat (bda_cur_col v))
     @ (if cursor_visible v then [27, 91, 63, 50, 53, 104] else [27, 91, 63, 50, 53, 108])"

definition repainted :: "vga \<Rightarrow> nat \<Rightarrow> render \<Rightarrow> bool" where
  "repainted v c r \<longleftrightarrow> is_repaint r \<or> is_toobig r \<or> cell_differs v r c"

lemma length_cell_bytes:
  assumes "c div cols < 99" "cols \<le> 132" "0 < cols"
  shows "length (cell_bytes v cols c r) \<le> 24"
proof -
  have "c mod cols < cols" using assms(3) by simp
  then have "c mod cols < 999" using assms(2) by linarith
  then have "length (cup_bytes (c div cols) (c mod cols)) \<le> 9"
    using assms(1) by (simp add: length_cup_bytes)
  then show ?thesis
    using length_sgr_bytes [of "scr_base v (2 * c + 1)"] length_glyph(2) [of "scr_base v (2 * c)"]
    by (simp add: cell_bytes_def)
qed

lemma length_tail_bytes: "length (tail_bytes v) \<le> 16"
proof -
  have "length (cup_bytes (unat (bda_cur_row v)) (unat (bda_cur_col v))) \<le> 10"
    using unat_byte_less [of "bda_cur_row v"] unat_byte_less [of "bda_cur_col v"]
    by (intro length_cup_bytes(2)) linarith+
  then show ?thesis by (simp add: tail_bytes_def)
qed

lemma paint_cell_eq:
  assumes "c div cols < 99" "cols \<le> 132" "0 < cols" "length (obuf r) + 24 \<le> OBUF"
  shows "paint_cell v cols c r =
     (if repainted v c r then
        r\<lparr>obuf := obuf r @ cell_bytes v cols c r, cur_sgr := int (unat (scr_base v (2 * c + 1))),
          shadow := (if is_toobig r then shadow r
                     else (shadow r)[2 * c := scr_base v (2 * c), 2 * c + 1 := scr_base v (2 * c + 1)]),
          last_emit := int c\<rparr>
      else r)"
proof -
  let ?ch = "scr_base v (2 * c)" and ?at = "scr_base v (2 * c + 1)"
  let ?cup = "if int c \<noteq> last_emit r + 1 \<or> c mod cols = 0 then cup_bytes (c div cols) (c mod cols) else []"
  let ?sgr = "if int (unat ?at) \<noteq> cur_sgr r then sgr_bytes ?at else []"
  have len: "length (obuf r) + length (?cup @ ?sgr @ glyph ?ch) \<le> OBUF"
    using length_cell_bytes [OF assms(1-3), of v r] assms(4) unfolding cell_bytes_def by linarith
  then show ?thesis
    by (cases "int c \<noteq> last_emit r + 1 \<or> c mod cols = 0"; cases "int (unat ?at) \<noteq> cur_sgr r")
      (simp_all add: paint_cell_def repainted_def cell_differs_def cell_bytes_def Let_def
        mult.commute [of c 2] e_cup_room e_sgr_room e_char_room)
qed

lemma frame_begin_eq:
  assumes "obuf r = []"
  shows "frame_begin cols rows clear repaint r =
     r\<lparr>obuf := head_bytes clear, f_cols := cols, total_cells := cols * rows, is_repaint := repaint,
       walk_cell := 0, last_emit := -2, cur_sgr := -1, frame_active := True,
       sh_cols := (if repaint then cols else sh_cols r), sh_rows := (if repaint then rows else sh_rows r)\<rparr>"
  using assms by (simp add: frame_begin_def Let_def e_s_room OBUF_def head_bytes_def)

lemma frame_end_eq:
  assumes "length (obuf r) + 16 \<le> OBUF"
  shows "frame_end v r = r\<lparr>obuf := obuf r @ tail_bytes v, last_cur_r := bda_cur_row v,
     last_cur_c := bda_cur_col v, frame_active := False,
     shadow_valid := (\<not> is_toobig r \<or> shadow_valid r), force_kf := (force_kf r \<and> \<not> is_repaint r),
     last_kf := (if is_repaint r \<or> is_toobig r then bda_ticks v else last_kf r)\<rparr>"
proof -
  let ?cup = "cup_bytes (unat (bda_cur_row v)) (unat (bda_cur_col v))"
  have len: "length (obuf r) + length (tail_bytes v) \<le> OBUF"
    using length_tail_bytes [of v] assms by linarith
  then have "e_cup (unat (bda_cur_row v)) (unat (bda_cur_col v)) (obuf r) = obuf r @ ?cup"
    by (simp add: tail_bytes_def e_cup_room)
  moreover have "e_s (if cursor_visible v then [27, 91, 63, 50, 53, 104] else [27, 91, 63, 50, 53, 108]) (obuf r @ ?cup)
      = obuf r @ tail_bytes v"
    using len by (simp add: tail_bytes_def e_s_room)
  ultimately show ?thesis
    by (simp add: frame_end_def cursor_rc_def Let_def)
qed

text \<open>The four outcomes of \<open>frame_decide\<close>.\<close>

definition stale :: "vga \<Rightarrow> render \<Rightarrow> bool" where
  "stale v r \<longleftrightarrow> force_kf r \<or> \<not> shadow_valid r \<or> eff_cols v \<noteq> sh_cols r \<or> eff_rows v \<noteq> sh_rows r"

definition cadence :: "vga \<Rightarrow> bool \<Rightarrow> render \<Rightarrow> bool" where
  "cadence v serial r \<longleftrightarrow> elapsed v (last_kf r) \<ge> CADENCE_TICKS \<and> (serial \<or> elapsed v (heal_kf r) < HEAL_TICKS)"

definition unchanged :: "vga \<Rightarrow> render \<Rightarrow> bool" where
  "unchanged v r \<longleftrightarrow> changed_cells v r (eff_cols v * eff_rows v) = 0
     \<and> bda_cur_row v = last_cur_r r \<and> bda_cur_col v = last_cur_c r"

lemma changed_cells_toobig [simp]: "changed_cells v (r\<lparr>is_toobig := b\<rparr>) n = changed_cells v r n"
  by (simp add: changed_cells_def cell_differs_def [abs_def])

lemma frame_decide_big:
  assumes "eff_cols v * eff_rows v * 2 > 4000"
  shows "frame_decide v serial r =
     (if force_kf r \<or> elapsed v (last_kf r) \<ge> CADENCE_TICKS
      then frame_begin (eff_cols v) (eff_rows v) True True (r\<lparr>is_toobig := True\<rparr>)
      else r\<lparr>is_toobig := True\<rparr>)"
  using assms unfolding frame_decide_def SHADOW_BYTES_def Let_def
  by (cases "force_kf r \<or> elapsed v (last_kf r) \<ge> CADENCE_TICKS") simp_all

lemma frame_decide_stale:
  assumes "eff_cols v * eff_rows v * 2 \<le> 4000" "stale v r"
  shows "frame_decide v serial r = frame_begin (eff_cols v) (eff_rows v) True True (r\<lparr>is_toobig := False\<rparr>)"
  using assms by (simp add: frame_decide_def SHADOW_BYTES_def Let_def stale_def)

lemma frame_decide_cadence:
  assumes "eff_cols v * eff_rows v * 2 \<le> 4000" "\<not> stale v r" "cadence v serial r"
  shows "frame_decide v serial r = frame_begin (eff_cols v) (eff_rows v) False True (r\<lparr>is_toobig := False\<rparr>)"
  using assms by (simp add: frame_decide_def SHADOW_BYTES_def Let_def stale_def cadence_def)

lemma frame_decide_diff:
  assumes "eff_cols v * eff_rows v * 2 \<le> 4000" "\<not> stale v r" "\<not> cadence v serial r"
  shows "frame_decide v serial r =
     (if unchanged v r then r\<lparr>is_toobig := False\<rparr>
      else frame_begin (eff_cols v) (eff_rows v) False
             (changed_cells v r (eff_cols v * eff_rows v) * 4 > eff_cols v * eff_rows v * 3)
             (if changed_cells v r (eff_cols v * eff_rows v) \<noteq> 0
              then r\<lparr>is_toobig := False, heal_kf := bda_ticks v\<rparr> else r\<lparr>is_toobig := False\<rparr>))"
proof -
  have "\<not> (force_kf r \<or> \<not> shadow_valid r \<or> eff_cols v \<noteq> sh_cols r \<or> eff_rows v \<noteq> sh_rows r)"
    "\<not> (elapsed v (last_kf r) \<ge> CADENCE_TICKS \<and> (serial \<or> elapsed v (heal_kf r) < HEAL_TICKS))"
    using assms(2,3) by (simp_all add: stale_def cadence_def)
  with assms(1) show ?thesis
    by (auto simp add: frame_decide_def SHADOW_BYTES_def Let_def unchanged_def cursor_rc_def)
qed

end
