(* ===== verification/Net.thy ===== *)
theory Net
  imports Prelude
begin

text \<open>
  \<open>dosshd/net.c\<close>: the ARP/IP/TCP stack and its link API.  \<open>struct conn\<close> is the record
  \<open>conn\<close>, the file's statics are the record \<open>net\<close>; \<open>NCONN\<close> is the length of \<open>conns\<close> (3, or 2
  in the SSH build).  Sequence numbers are \<open>32 word\<close>, compared as the code does by the sign of
  their difference.  Frames given to the packet driver are appended to \<open>tx_frames\<close>; the staging
  buffer the driver fills (\<open>pkt_stage\<close>, \<open>pkt_len\<close>, \<open>pkt_flag\<close>) is part of the state and the
  BIOS tick count an argument.  The \<open>sending\<close> guard of \<open>pkt_send\<close> is never set when a send starts
  from the single-threaded tick path, which is what is modelled.

  This theory holds the definitions and the facts on headers and checksums; \<open>Tcp\<close> the
  connection-level correctness, \<open>Netapi\<close> the stack as a whole.
\<close>

section \<open>Byte order and checksum\<close>

definition rd16 :: "byte list \<Rightarrow> nat \<Rightarrow> nat" where
  "rd16 p i = get16 (p ! i) (p ! (i + 1))"

definition rd32 :: "byte list \<Rightarrow> nat \<Rightarrow> u32" where
  "rd32 p i = get32 (p ! i) (p ! (i + 1)) (p ! (i + 2)) (p ! (i + 3))"

definition wr16 :: "nat \<Rightarrow> byte list" where
  "wr16 v = be16 v"

definition wr32 :: "u32 \<Rightarrow> byte list" where
  "wr32 v = be32 v"

text \<open>\<open>unsigned long\<close> accumulation wraps at 32 bits.\<close>

fun sum16 :: "byte list \<Rightarrow> u32 \<Rightarrow> u32" where
  "sum16 (a # b # p) acc = sum16 p (acc + (push_bit 8 (ucast a) OR ucast b))"
| "sum16 [a] acc = acc + push_bit 8 (ucast a)"
| "sum16 [] acc = acc"

function fold16 :: "nat \<Rightarrow> nat" where
  "fold16 acc = (if acc div 65536 \<noteq> 0 then fold16 (acc mod 65536 + acc div 65536) else acc)"
  by pat_completeness auto
termination
proof (relation "measure id")
  fix acc :: nat
  assume "acc div 65536 \<noteq> 0"
  then have "acc mod 65536 + acc div 65536 < acc"
    using mult_div_mod_eq [of 65536 acc] by linarith
  then show "(acc mod 65536 + acc div 65536, acc) \<in> measure id" by simp
qed simp

declare fold16.simps [simp del]

definition fin16 :: "u32 \<Rightarrow> nat" where
  "fin16 acc = 65535 - fold16 (unat acc)"

section \<open>State\<close>

definition ETH_HLEN :: nat where "ETH_HLEN = 14"
definition IP_OFF :: nat where "IP_OFF = ETH_HLEN"
definition ET_ARP :: nat where "ET_ARP = 0x0806"
definition ET_IP :: nat where "ET_IP = 0x0800"
definition IPP_TCP :: byte where "IPP_TCP = 6"
definition SND_SZ :: nat where "SND_SZ = 4096"
definition RCV_SZ :: nat where "RCV_SZ = 512"
definition MSS_TX :: nat where "MSS_TX = 1400"
definition REXMIT_TICKS :: u32 where "REXMIT_TICKS = 9"
definition MAX_REXMIT :: nat where "MAX_REXMIT = 24"

datatype tstate = TS_LISTEN | TS_SYNRCVD | TS_ESTAB

record conn =
  tstate :: tstate
  peer_mac :: "byte list"
  peer_ip :: "byte list"
  peer_port :: nat
  snd_una :: u32
  snd_nxt :: u32
  rcv_nxt :: u32
  sbuf :: "byte list"
  s_una :: nat
  s_nxt :: nat
  s_end :: nat
  rbuf :: "byte list"
  r_head :: nat
  r_tail :: nat
  rexmit_at :: u32
  rexmit_count :: nat
  just_estab :: bool
  ready :: bool

record net =
  g_mac :: "byte list"
  g_ip :: "byte list"
  g_rx_frames :: u32
  g_arp_replies :: u32
  g_tcp_segs :: u32
  pkt_int :: byte
  pkt_handle :: nat
  my_port :: nat
  pkt_stage :: "byte list"
  pkt_len :: nat
  pkt_flag :: bool
  g_ip_id :: nat
  conns :: "conn list"
  work :: "byte list"
  tx_frames :: "byte list list"

section \<open>Ethernet, IP and ARP\<close>

definition pkt_send :: "byte list \<Rightarrow> net \<Rightarrow> net" where
  "pkt_send f s = s\<lparr>tx_frames := tx_frames s @ [f]\<rparr>"

definition ip_header :: "byte list \<Rightarrow> byte list \<Rightarrow> byte \<Rightarrow> nat \<Rightarrow> nat \<Rightarrow> byte list \<Rightarrow> byte list" where
  "ip_header src dstip proto tot ident ck =
     [0x45, 0x00] @ wr16 tot @ wr16 ident @ wr16 0x4000 @ [64, proto] @ ck @ src @ dstip"

definition ip_send :: "byte \<Rightarrow> byte list \<Rightarrow> byte list \<Rightarrow> byte list \<Rightarrow> net \<Rightarrow> net" where
  "ip_send proto dstmac dstip l4 s =
     (let tot = w16 (20 + length l4);
          s = s\<lparr>g_ip_id := w16 (g_ip_id s + 1)\<rparr>;
          hdr = ip_header (g_ip s) dstip proto tot (g_ip_id s);
          ck = fin16 (sum16 (hdr [0, 0]) 0)
      in pkt_send (dstmac @ g_mac s @ wr16 ET_IP @ hdr (wr16 ck) @ l4) s)"

definition arp_in :: "byte list \<Rightarrow> nat \<Rightarrow> net \<Rightarrow> net" where
  "arp_in f n s =
     (let a = ETH_HLEN in
      if n < ETH_HLEN + 28 then s
      else if rd16 f a \<noteq> 1 then s
      else if rd16 f (a + 2) \<noteq> ET_IP then s
      else if rd16 f (a + 6) \<noteq> 1 then s
      else if take 4 (drop (a + 24) f) \<noteq> g_ip s then s
      else
        (let reply = take 6 (drop a f) @ wr16 2 @ g_mac s @ g_ip s
                     @ take 6 (drop (a + 8) f) @ take 4 (drop (a + 14) f);
             s = pkt_send (take 6 (drop (a + 8) f) @ g_mac s @ wr16 ET_ARP @ reply) s
         in s\<lparr>g_arp_replies := g_arp_replies s + 1\<rparr>))"

section \<open>TCP output\<close>

definition tcp_reset_listen :: "conn \<Rightarrow> conn" where
  "tcp_reset_listen c = c\<lparr>tstate := TS_LISTEN, s_una := 0, s_nxt := 0, s_end := 0, r_head := 0, r_tail := 0,
     rexmit_count := 0, ready := False\<rparr>"

definition ring_bytes :: "byte list \<Rightarrow> nat \<Rightarrow> nat \<Rightarrow> byte list" where
  "ring_bytes buf doff dlen = map (\<lambda>i. buf ! ((doff + i) mod SND_SZ)) [0..<dlen]"

definition tcp_seg :: "net \<Rightarrow> conn \<Rightarrow> byte \<Rightarrow> bool \<Rightarrow> nat \<Rightarrow> nat \<Rightarrow> byte list \<Rightarrow> byte list" where
  "tcp_seg s c flags with_mss doff dlen ck =
     wr16 (my_port s) @ wr16 (peer_port c) @ wr32 (snd_nxt c) @ wr32 (rcv_nxt c)
     @ [of_nat ((if with_mss then 24 else 20) div 4 * 16), flags]
     @ wr16 (RCV_SZ - 1 - ring_used RCV_SZ (r_tail c) (r_head c)) @ ck @ [0, 0]
     @ (if with_mss then [2, 4] @ wr16 MSS_TX else []) @ ring_bytes (sbuf c) doff dlen"

definition pseudo_sum :: "byte list \<Rightarrow> byte list \<Rightarrow> nat \<Rightarrow> u32" where
  "pseudo_sum src dst len = sum16 dst (sum16 src 0) + ucast IPP_TCP + of_nat len"

definition tcp_send_seg :: "conn \<Rightarrow> byte \<Rightarrow> bool \<Rightarrow> nat \<Rightarrow> nat \<Rightarrow> net \<Rightarrow> net" where
  "tcp_send_seg c flags with_mss doff dlen s =
     (let seg = tcp_seg s c flags with_mss doff dlen;
          ck = fin16 (sum16 (seg [0, 0]) (pseudo_sum (g_ip s) (peer_ip c) (length (seg [0, 0]))));
          s = ip_send IPP_TCP (peer_mac c) (peer_ip c) (seg (wr16 ck)) s
      in s\<lparr>g_tcp_segs := g_tcp_segs s + 1\<rparr>)"

text \<open>The loop of \<open>tcp_output\<close>: at most \<open>MSS_TX\<close> bytes a segment until nothing is unsent.\<close>

function output_loop :: "u32 \<Rightarrow> nat \<Rightarrow> conn \<Rightarrow> net \<Rightarrow> conn \<times> net" where
  "output_loop ticks unsent c s =
     (if unsent = 0 then (c, s)
      else
        (let n = (if unsent > MSS_TX then MSS_TX else unsent);
             s = tcp_send_seg c 0x18 False (s_nxt c) n s;
             c = (if snd_una c = snd_nxt c then c\<lparr>rexmit_at := ticks + REXMIT_TICKS\<rparr> else c);
             c = c\<lparr>s_nxt := (s_nxt c + n) mod SND_SZ, snd_nxt := snd_nxt c + of_nat n\<rparr>
         in output_loop ticks (unsent - n) c s))"
  by pat_completeness auto
termination
  by (relation "measure (\<lambda>(t, n, c, s). n)") (auto simp: MSS_TX_def)

declare output_loop.simps [simp del]

definition tcp_output :: "u32 \<Rightarrow> conn \<Rightarrow> net \<Rightarrow> conn \<times> net" where
  "tcp_output ticks c s =
     (if tstate c \<noteq> TS_ESTAB then (c, s)
      else output_loop ticks (ring_used SND_SZ (s_nxt c) (s_end c)) c s)"

section \<open>Connection lookup\<close>

fun find_index :: "('a \<Rightarrow> bool) \<Rightarrow> 'a list \<Rightarrow> nat \<Rightarrow> nat option" where
  "find_index P [] i = None"
| "find_index P (x # xs) i = (if P x then Some i else find_index P xs (i + 1))"

definition find_conn :: "nat \<Rightarrow> byte list \<Rightarrow> net \<Rightarrow> nat option" where
  "find_conn sport srcip s =
     find_index (\<lambda>c. tstate c \<noteq> TS_LISTEN \<and> peer_port c = sport \<and> peer_ip c = srcip) (conns s) 0"

definition alloc_conn :: "byte list \<Rightarrow> net \<Rightarrow> nat option" where
  "alloc_conn srcip s =
     (case find_index (\<lambda>c. tstate c \<noteq> TS_LISTEN \<and> rexmit_count c > 0 \<and> peer_ip c = srcip) (conns s) 0 of
        Some i \<Rightarrow> Some i
      | None \<Rightarrow>
         (case find_index (\<lambda>c. tstate c = TS_LISTEN) (conns s) 0 of
            Some i \<Rightarrow> Some i
          | None \<Rightarrow> find_index (\<lambda>c. peer_ip c = srcip) (conns s) 0))"

definition rst_seg :: "net \<Rightarrow> nat \<Rightarrow> u32 \<Rightarrow> byte list \<Rightarrow> byte list" where
  "rst_seg s sport seq ck =
     wr16 (my_port s) @ wr16 sport @ wr32 0 @ wr32 (seq + 1) @ [0x50, 0x14] @ [0, 0] @ ck @ [0, 0]"

definition send_rst :: "byte list \<Rightarrow> byte list \<Rightarrow> nat \<Rightarrow> u32 \<Rightarrow> net \<Rightarrow> net" where
  "send_rst srcmac srcip sport seq s =
     (let seg = rst_seg s sport seq;
          ck = fin16 (sum16 (seg [0, 0]) (pseudo_sum (g_ip s) srcip 20))
      in ip_send IPP_TCP srcmac srcip (seg (wr16 ck)) s)"

section \<open>TCP input\<close>

text \<open>The store loop: byte \<open>i\<close> of the payload is at \<open>f ! (base + i)\<close>.\<close>

function rcv_loop :: "byte list \<Rightarrow> nat \<Rightarrow> nat \<Rightarrow> nat \<Rightarrow> conn \<Rightarrow> nat \<Rightarrow> conn \<times> nat" where
  "rcv_loop f base i dlen c stored =
     (if i < dlen then
        (let nh = (r_head c + 1) mod RCV_SZ
         in if nh = r_tail c then (c, stored)
            else rcv_loop f base (i + 1) dlen
                   (c\<lparr>rbuf := (rbuf c)[r_head c := f ! (base + i)], r_head := nh\<rparr>) (stored + 1))
      else (c, stored))"
  by pat_completeness auto
termination
  by (relation "measure (\<lambda>(f, base, i, dlen, c, st). dlen - i)") auto

declare rcv_loop.simps [simp del]

text \<open>A SYN that got a slot.\<close>

definition conn_syn :: "u32 \<Rightarrow> nat \<Rightarrow> byte list \<Rightarrow> byte list \<Rightarrow> nat \<Rightarrow> u32 \<Rightarrow> conn \<Rightarrow> net \<Rightarrow> conn \<times> net" where
  "conn_syn ticks i srcmac srcip sport seq c s =
     (let c = c\<lparr>peer_mac := srcmac, peer_ip := srcip, peer_port := sport,
               snd_una := 0x00013700 + ticks + of_nat i, snd_nxt := 0x00013700 + ticks + of_nat i,
               rcv_nxt := seq + 1, tstate := TS_SYNRCVD, s_una := 0, s_nxt := 0, s_end := 0,
               r_head := 0, r_tail := 0, rexmit_count := 0\<rparr>;
          s = tcp_send_seg c 0x12 True 0 0 s
      in (c\<lparr>snd_nxt := snd_nxt c + 1, rexmit_at := ticks + REXMIT_TICKS\<rparr>, s))"

text \<open>The acknowledgement field of a segment for an established connection.\<close>

definition conn_ack :: "u32 \<Rightarrow> u32 \<Rightarrow> conn \<Rightarrow> conn" where
  "conn_ack ticks ack c =
     (if sint (ack - snd_una c) > 0 \<and> sint (ack - snd_nxt c) \<le> 0 then
        (let freed = unat (ack - snd_una c) mod 65536
         in c\<lparr>s_una := (s_una c + freed) mod SND_SZ, snd_una := ack,
              rexmit_at := ticks + REXMIT_TICKS, rexmit_count := 0\<rparr>)
      else c)"

definition conn_data :: "u32 \<Rightarrow> byte list \<Rightarrow> nat \<Rightarrow> nat \<Rightarrow> conn \<Rightarrow> conn" where
  "conn_data seq f base dlen c =
     (if seq = rcv_nxt c then
        (let (c, stored) = rcv_loop f base 0 dlen c 0
         in c\<lparr>rcv_nxt := rcv_nxt c + of_nat stored\<rparr>)
      else c)"

text \<open>A segment without SYN and RST for the connection \<open>c\<close>: the end of \<open>tcp_in\<close> from the
  \<open>TS_SYNRCVD\<close> test on.\<close>

definition conn_in :: "u32 \<Rightarrow> byte \<Rightarrow> u32 \<Rightarrow> u32 \<Rightarrow> byte list \<Rightarrow> nat \<Rightarrow> nat \<Rightarrow> conn \<Rightarrow> net \<Rightarrow> conn \<times> net" where
  "conn_in ticks flags seq ack f base dlen c s =
     (if tstate c = TS_SYNRCVD \<and> \<not> (flags AND 0x10 \<noteq> 0 \<and> ack = snd_nxt c) then (c, s)
      else
        (let c = (if tstate c = TS_SYNRCVD
                  then c\<lparr>snd_una := ack, tstate := TS_ESTAB, just_estab := True, rexmit_count := 0\<rparr> else c)
         in if tstate c \<noteq> TS_ESTAB then (c, s)
            else
              (let c = (if flags AND 0x10 \<noteq> 0 then conn_ack ticks ack c else c);
                   (c, s) = (if dlen \<noteq> 0
                             then let c = conn_data seq f base dlen c in (c, tcp_send_seg c 0x10 False 0 0 s)
                             else (c, s))
               in if flags AND 0x01 \<noteq> 0
                  then let c = c\<lparr>rcv_nxt := rcv_nxt c + 1\<rparr>;
                           s = tcp_send_seg c 0x10 False 0 0 s
                       in (tcp_reset_listen c, s)
                  else (c, s))))"

definition put_conn :: "nat \<Rightarrow> conn \<times> net \<Rightarrow> net" where
  "put_conn i cs = (snd cs)\<lparr>conns := (conns (snd cs))[i := fst cs]\<rparr>"

definition tcp_in :: "u32 \<Rightarrow> byte list \<Rightarrow> nat \<Rightarrow> net \<Rightarrow> net" where
  "tcp_in ticks f n s =
     (let ip = IP_OFF;
          ihl = unat (f ! ip AND 0x0F) * 4;
          t = ip + ihl;
          tcplen = sub16 (rd16 f (ip + 2)) ihl;
          toff = unat (drop_bit 4 (f ! (t + 12))) * 4;
          flags = f ! (t + 13);
          sport = rd16 f t;
          dport = rd16 f (t + 2);
          seq = rd32 f (t + 4);
          ack = rd32 f (t + 8);
          srcip = take 4 (drop (ip + 12) f);
          srcmac = take 6 (drop 6 f)
      in if dport \<noteq> my_port s then s
         else if tcplen < toff then s
         else
           (let dlen = tcplen - toff; ci = find_conn sport srcip s
            in if flags AND 0x04 \<noteq> 0 then
                 (case ci of Some i \<Rightarrow> put_conn i (tcp_reset_listen (conns s ! i), s) | None \<Rightarrow> s)
               else if flags AND 0x02 \<noteq> 0 then
                 (case ci of Some i \<Rightarrow> s
                  | None \<Rightarrow>
                     (case alloc_conn srcip s of
                        None \<Rightarrow> send_rst srcmac srcip sport seq s
                      | Some i \<Rightarrow> put_conn i (conn_syn ticks i srcmac srcip sport seq (conns s ! i) s)))
               else
                 (case ci of None \<Rightarrow> s
                  | Some i \<Rightarrow> put_conn i (conn_in ticks flags seq ack f (t + toff) dlen (conns s ! i) s))))"

definition tcp_timer :: "u32 \<Rightarrow> conn \<Rightarrow> net \<Rightarrow> conn \<times> net" where
  "tcp_timer ticks c s =
     (if tstate c = TS_LISTEN then (c, s)
      else if sint (snd_nxt c - snd_una c) > 0 \<and> sint (ticks - rexmit_at c) \<ge> 0 then
        (let c = c\<lparr>rexmit_count := w16 (rexmit_count c + 1)\<rparr>
         in if rexmit_count c > MAX_REXMIT then (tcp_reset_listen c, s)
            else
              (let c = c\<lparr>s_nxt := s_una c, snd_nxt := snd_una c\<rparr>;
                   s = (if tstate c = TS_SYNRCVD then tcp_send_seg c 0x12 True 0 0 s else s)
               in (c\<lparr>rexmit_at := ticks + REXMIT_TICKS\<rparr>, s)))
      else (c, s))"

section \<open>IP dispatch and poll\<close>

definition handle_frame :: "u32 \<Rightarrow> byte list \<Rightarrow> nat \<Rightarrow> net \<Rightarrow> net" where
  "handle_frame ticks f n s =
     (if n < ETH_HLEN then s
      else
        (let et = rd16 f 12
         in if et = ET_ARP then arp_in f n s
            else if et \<noteq> ET_IP then s
            else if n < IP_OFF + 20 then s
            else if drop_bit 4 (f ! IP_OFF) \<noteq> 4 then s
            else if take 4 (drop (IP_OFF + 16) f) \<noteq> g_ip s then s
            else if f ! (IP_OFF + 9) = IPP_TCP then tcp_in ticks f n s
            else s))"

text \<open>\<open>for (i = 0; i < NCONN; i++) op(&conns[i])\<close>.\<close>

definition each_conn :: "(conn \<Rightarrow> net \<Rightarrow> conn \<times> net) \<Rightarrow> net \<Rightarrow> net" where
  "each_conn op s = fold (\<lambda>i s. put_conn i (op (conns s ! i) s)) [0..<length (conns s)] s"

definition rx_stage :: "u32 \<Rightarrow> net \<Rightarrow> net" where
  "rx_stage ticks s =
     (if pkt_flag s then
        (let flen = (if pkt_len s > 1600 then 1600 else pkt_len s);
             s = s\<lparr>work := take flen (pkt_stage s) @ drop flen (work s), pkt_flag := False,
                   g_rx_frames := g_rx_frames s + 1\<rparr>
         in handle_frame ticks (work s) flen s)
      else s)"

definition net_poll :: "u32 \<Rightarrow> net \<Rightarrow> net" where
  "net_poll ticks s = each_conn (tcp_output ticks) (rx_stage ticks (each_conn (tcp_timer ticks) s))"

section \<open>Link API\<close>

definition net_connected :: "net \<Rightarrow> bool" where
  "net_connected s \<longleftrightarrow> list_ex (\<lambda>c. tstate c = TS_ESTAB) (conns s)"

definition net_slots :: "net \<Rightarrow> nat" where
  "net_slots s = length (conns s)"

definition net_take_new_slot :: "net \<Rightarrow> nat option \<times> net" where
  "net_take_new_slot s =
     (case find_index just_estab (conns s) 0 of
        None \<Rightarrow> (None, s)
      | Some i \<Rightarrow> (Some i, s\<lparr>conns := (conns s)[i := (conns s ! i)\<lparr>just_estab := False\<rparr>]\<rparr>))"

definition s_used :: "conn \<Rightarrow> nat" where
  "s_used c = ring_used SND_SZ (s_una c) (s_end c)"

definition sbuf_put :: "byte \<Rightarrow> conn \<Rightarrow> conn" where
  "sbuf_put ch c = c\<lparr>sbuf := (sbuf c)[s_end c := ch], s_end := (s_end c + 1) mod SND_SZ\<rparr>"

text \<open>The first loop of \<open>net_tx_putc\<close> over the slots still to be visited; the flag is False when
  a slow but living client makes the call return 0.\<close>

fun tx_admit :: "conn list \<Rightarrow> bool \<times> conn list" where
  "tx_admit [] = (True, [])"
| "tx_admit (c # cs) =
     (if tstate c = TS_ESTAB \<and> ready c \<and> s_used c \<ge> SND_SZ - 1 then
        (if rexmit_count c > 0 then (let (ok, cs') = tx_admit cs in (ok, tcp_reset_listen c # cs'))
         else (False, c # cs))
      else (let (ok, cs') = tx_admit cs in (ok, c # cs')))"

definition net_tx_putc :: "byte \<Rightarrow> net \<Rightarrow> bool \<times> net" where
  "net_tx_putc ch s =
     (let (ok, cs) = tx_admit (conns s)
      in if ok then (True, s\<lparr>conns := map (\<lambda>c. if tstate c = TS_ESTAB \<and> ready c then sbuf_put ch c else c) cs\<rparr>)
         else (False, s\<lparr>conns := cs\<rparr>))"

definition net_slot_ready :: "nat \<Rightarrow> bool \<Rightarrow> net \<Rightarrow> net" where
  "net_slot_ready i v s =
     (if i < length (conns s) then s\<lparr>conns := (conns s)[i := (conns s ! i)\<lparr>ready := v\<rparr>]\<rparr> else s)"

definition net_slot_drop :: "nat \<Rightarrow> net \<Rightarrow> net" where
  "net_slot_drop i s =
     (if i < length (conns s) then
        (let c = conns s ! i;
             s = (if tstate c = TS_ESTAB then tcp_send_seg c 0x14 False 0 0 s else s)
         in put_conn i (tcp_reset_listen c, s))
      else s)"

definition net_tx_putc_slot :: "nat \<Rightarrow> byte \<Rightarrow> net \<Rightarrow> bool \<times> net" where
  "net_tx_putc_slot i ch s =
     (if i < length (conns s) then
        (if s_used (conns s ! i) \<ge> SND_SZ - 1 then (False, s)
         else (True, s\<lparr>conns := (conns s)[i := sbuf_put ch (conns s ! i)]\<rparr>))
      else (False, s))"

definition net_tx_flush :: "u32 \<Rightarrow> net \<Rightarrow> net" where
  "net_tx_flush ticks s = each_conn (tcp_output ticks) s"

definition net_slot_connected :: "nat \<Rightarrow> net \<Rightarrow> bool" where
  "net_slot_connected i s \<longleftrightarrow> i < length (conns s) \<and> tstate (conns s ! i) = TS_ESTAB"

definition net_tx_room_slot :: "nat \<Rightarrow> net \<Rightarrow> nat" where
  "net_tx_room_slot i s = (if i < length (conns s) then SND_SZ - 1 - s_used (conns s ! i) else 0)"

definition net_slot_stalled :: "nat \<Rightarrow> net \<Rightarrow> bool" where
  "net_slot_stalled i s \<longleftrightarrow> i < length (conns s) \<and> tstate (conns s ! i) = TS_ESTAB
     \<and> s_used (conns s ! i) \<ge> SND_SZ - 1 \<and> rexmit_count (conns s ! i) > 0"

definition conn_getc :: "conn \<Rightarrow> (byte \<times> conn) option" where
  "conn_getc c = (if r_tail c = r_head c then None
     else Some (rbuf c ! r_tail c, c\<lparr>r_tail := (r_tail c + 1) mod RCV_SZ\<rparr>))"

definition net_rx_getc :: "nat \<Rightarrow> net \<Rightarrow> byte option \<times> net" where
  "net_rx_getc i s =
     (if i < length (conns s) then
        (case conn_getc (conns s ! i) of
           None \<Rightarrow> (None, s)
         | Some (ch, c) \<Rightarrow> (Some ch, s\<lparr>conns := (conns s)[i := c]\<rparr>))
      else (None, s))"

text \<open>
  The packet driver is outside the program: \<open>vects\<close> is the eight bytes at offset 3 of the handler of
  each interrupt (\<open>None\<close> for a null vector), \<open>access\<close> the driver's answer to \<open>access_type\<close> (a handle,
  or \<open>None\<close> with carry set) and \<open>addr\<close> the six bytes \<open>get_address\<close> writes.
\<close>

definition pkt_find :: "(nat \<Rightarrow> byte list option) \<Rightarrow> net \<Rightarrow> bool \<times> net" where
  "pkt_find vects s =
     (case find_index (\<lambda>v. vects v = Some (str ''PKT DRVR'')) [0x60..<0x7F] 0x60 of
        Some v \<Rightarrow> (True, s\<lparr>pkt_int := of_nat v\<rparr>)
      | None \<Rightarrow> (False, s))"

definition pkt_access :: "(byte \<Rightarrow> nat option) \<Rightarrow> net \<Rightarrow> bool \<times> net" where
  "pkt_access access s = (case access (pkt_int s) of Some h \<Rightarrow> (True, s\<lparr>pkt_handle := h\<rparr>) | None \<Rightarrow> (False, s))"

definition pkt_get_address :: "(byte \<Rightarrow> nat \<Rightarrow> byte list) \<Rightarrow> net \<Rightarrow> net" where
  "pkt_get_address addr s = s\<lparr>g_mac := addr (pkt_int s) (pkt_handle s)\<rparr>"

definition net_open :: "(nat \<Rightarrow> byte list option) \<Rightarrow> (byte \<Rightarrow> nat option) \<Rightarrow> (byte \<Rightarrow> nat \<Rightarrow> byte list)
    \<Rightarrow> byte list \<Rightarrow> nat \<Rightarrow> net \<Rightarrow> bool \<times> net" where
  "net_open vects access addr ip port s =
     (let s = s\<lparr>g_ip := ip, my_port := port, pkt_flag := False,
               conns := map (\<lambda>c. (tcp_reset_listen c)\<lparr>just_estab := False\<rparr>) (conns s)\<rparr>;
          (ok, s) = pkt_find vects s
      in if \<not> ok then (False, s)
         else
           (let (ok, s) = pkt_access access s
            in if \<not> ok then (False, s)
               else (True, pkt_get_address addr s)))"

section \<open>Checksums\<close>

text \<open>The sum of the 16-bit groups as a natural number; the code's 32-bit accumulator holds it
  without overflow for every message the program builds.\<close>

fun wsum :: "byte list \<Rightarrow> nat" where
  "wsum (a # b # p) = get16 a b + wsum p"
| "wsum [a] = get16 a 0"
| "wsum [] = 0"

lemma group16: "push_bit 8 (ucast (a :: byte)) OR ucast (b :: byte) = (of_nat (get16 a b) :: u32)"
proof -
  have "push_bit 8 (ucast a) OR ucast b = (push_bit 8 (ucast a) + ucast b :: u32)"
    by (rule disjunctive_add_eq_or [symmetric], rule bit_eqI)
      (auto simp: bit_and_iff bit_push_bit_iff bit_ucast_iff dest: bit_imp_le_length)
  also have "\<dots> = of_nat (get16 a b)"
    by (simp add: get16_def push_bit_eq_mult)
  finally show ?thesis .
qed

lemma sum16_wsum: "sum16 p acc = acc + of_nat (wsum p)"
proof (induction p acc rule: sum16.induct)
  case (2 a acc)
  then show ?case using group16 [of a 0] by simp
qed (simp_all add: group16)

lemma wsum_append: "even (length xs) \<Longrightarrow> wsum (xs @ ys) = wsum xs + wsum ys"
  by (induction xs rule: wsum.induct) auto

lemma wsum_bound: "wsum xs \<le> 65535 * ((length xs + 1) div 2)"
proof (induction xs rule: wsum.induct)
  case (1 a b p)
  have "get16 a b \<le> 65535" using get16_less [of a b] by linarith
  with 1 show ?case by simp
next
  case (2 a)
  have "get16 a 0 \<le> 65535" using get16_less [of a 0] by linarith
  then show ?case by simp
qed simp

lemma fold16_le: "fold16 x \<le> 65535"
proof (induction x rule: fold16.induct)
  case (1 x)
  show ?case
  proof (cases "x div 65536 \<noteq> 0")
    case True
    with 1 show ?thesis by (simp add: fold16.simps [of x])
  next
    case False
    then have "x < 65536" by (simp add: div_eq_0_iff)
    with False show ?thesis by (simp add: fold16.simps [of x])
  qed
qed

lemma fold16_mod: "fold16 x mod 65535 = x mod 65535"
proof (induction x rule: fold16.induct)
  case (1 x)
  show ?case
  proof (cases "x div 65536 \<noteq> 0")
    case True
    have "x mod 65535 = (65535 * (x div 65536) + (x mod 65536 + x div 65536)) mod 65535"
      using mult_div_mod_eq [of 65536 x] by (intro arg_cong [where f = "\<lambda>y. y mod 65535"]) linarith
    also have "\<dots> = (x mod 65536 + x div 65536) mod 65535" by (rule mod_mult_self4)
    finally show ?thesis using 1 True by (simp add: fold16.simps [of x])
  next
    case False
    then show ?thesis by (simp add: fold16.simps [of x])
  qed
qed

lemma fold16_pos: "0 < x \<Longrightarrow> 0 < fold16 x"
proof (induction x rule: fold16.induct)
  case (1 x)
  show ?case
  proof (cases "x div 65536 \<noteq> 0")
    case True
    then have "0 < x mod 65536 + x div 65536" by simp
    with 1 True show ?thesis by (simp add: fold16.simps [of x])
  next
    case False
    with 1 show ?thesis by (simp add: fold16.simps [of x])
  qed
qed

lemma fin16_verifies: "fold16 (x + (65535 - fold16 x)) = 65535"
proof -
  let ?y = "x + (65535 - fold16 x)"
  have "?y mod 65535 = (fold16 x + (65535 - fold16 x)) mod 65535"
    using fold16_mod [of x] by (metis mod_add_left_eq)
  then have m: "?y mod 65535 = 0" using fold16_le [of x] by simp
  have p: "0 < ?y"
  proof (cases "x = 0")
    case True
    then show ?thesis by (simp add: fold16.simps)
  qed simp
  have "fold16 ?y mod 65535 = 0" using m fold16_mod by simp
  moreover have "0 < fold16 ?y" by (rule fold16_pos [OF p])
  ultimately show ?thesis using fold16_le [of ?y] by (auto simp: mod_eq_0_iff_dvd dest: dvd_imp_le)
qed

text \<open>The one's complement checksum: with the field filled in, the receiver's sum folds to all ones,
  that is \<open>fin16\<close> of the whole message is 0.\<close>

lemma checksum_ok:
  assumes "even (length pre)" "length pre + length post < 60000" "unat acc < 2 ^ 20"
    and ck: "ck = fin16 (sum16 (pre @ [0, 0] @ post) acc)"
  shows "fin16 (sum16 (pre @ wr16 ck @ post) acc) = 0"
proof -
  let ?x = "unat acc + (wsum pre + wsum post)"
  have "wsum pre \<le> 65535 * ((length pre + 1) div 2)" "wsum post \<le> 65535 * ((length post + 1) div 2)"
    by (rule wsum_bound)+
  moreover have "(length pre + 1) div 2 + (length post + 1) div 2 < 30002" using assms(2) by linarith
  ultimately have x: "?x < 2 ^ 31" using assms(3) by simp
  have z: "get16 0 0 = 0" by (simp add: get16_def)
  have s0: "sum16 (pre @ [0, 0] @ post) acc = of_nat ?x"
    using assms(1) z by (simp add: sum16_wsum wsum_append algebra_simps)
  have u: "unat (of_nat n :: u32) = n" if "n < 2 ^ 32" for n using that by (simp add: unat_of_nat)
  have x32: "?x < 2 ^ 32" using x by simp
  have ck2: "ck = 65535 - fold16 ?x" unfolding ck s0 fin16_def u [OF x32] ..
  have ckb: "ck < 65536" using ck2 by simp
  have s1: "sum16 (pre @ wr16 ck @ post) acc = of_nat (?x + ck)"
    using assms(1) ckb by (simp add: sum16_wsum wsum_append wr16_def be16_def get16_be16 algebra_simps)
  have y32: "?x + ck < 2 ^ 32" using x ckb by simp
  have "fold16 (?x + ck) = 65535" unfolding ck2 by (rule fin16_verifies)
  then show ?thesis unfolding s1 fin16_def u [OF y32] by simp
qed

section \<open>The frames a connection sends\<close>

text \<open>The fields of a frame, as the peer reads them.\<close>

definition frame_seq :: "byte list \<Rightarrow> u32" where "frame_seq f = rd32 f 38"
definition frame_ack :: "byte list \<Rightarrow> u32" where "frame_ack f = rd32 f 42"
definition frame_flags :: "byte list \<Rightarrow> byte" where "frame_flags f = f ! 47"
definition frame_window :: "byte list \<Rightarrow> nat" where "frame_window f = rd16 f 48"
definition frame_payload :: "byte list \<Rightarrow> byte list" where
  "frame_payload f = drop (34 + unat (drop_bit 4 (f ! 46)) * 4) f"

definition checksums_ok :: "byte list \<Rightarrow> bool" where
  "checksums_ok f \<longleftrightarrow> fin16 (sum16 (take 20 (drop 14 f)) 0) = 0
     \<and> fin16 (sum16 (drop 34 f) (pseudo_sum (take 4 (drop 26 f)) (take 4 (drop 30 f)) (length f - 34))) = 0"

text \<open>The frame that carries the segment \<open>seg\<close> (given its checksum field).\<close>

definition ip_frame :: "net \<Rightarrow> byte list \<Rightarrow> byte list \<Rightarrow> byte list \<Rightarrow> byte list" where
  "ip_frame s dstmac dstip l4 =
     (let hdr = ip_header (g_ip s) dstip IPP_TCP (w16 (20 + length l4)) (w16 (g_ip_id s + 1))
      in dstmac @ g_mac s @ wr16 ET_IP @ hdr (wr16 (fin16 (sum16 (hdr [0, 0]) 0))) @ l4)"

lemma ip_send_eq: "ip_send IPP_TCP dstmac dstip l4 s =
    s\<lparr>g_ip_id := w16 (g_ip_id s + 1), tx_frames := tx_frames s @ [ip_frame s dstmac dstip l4]\<rparr>"
  by (simp add: ip_send_def ip_frame_def pkt_send_def Let_def)

lemma length_wr [simp]: "length (wr16 v) = 2" "length (wr32 w) = 4"
  by (simp_all add: wr16_def wr32_def)

lemma length_ring_bytes [simp]: "length (ring_bytes buf doff dlen) = dlen"
  by (simp add: ring_bytes_def)

lemma ip_frame_parts:
  assumes "length (g_ip s) = 4" "length dstip = 4" "length dstmac = 6" "length (g_mac s) = 6"
  shows "take 20 (drop 14 (ip_frame s dstmac dstip l4)) =
      (let hdr = ip_header (g_ip s) dstip IPP_TCP (w16 (20 + length l4)) (w16 (g_ip_id s + 1))
       in hdr (wr16 (fin16 (sum16 (hdr [0, 0]) 0))))"
    "drop 34 (ip_frame s dstmac dstip l4) = l4"
    "take 4 (drop 26 (ip_frame s dstmac dstip l4)) = g_ip s" "take 4 (drop 30 (ip_frame s dstmac dstip l4)) = dstip"
    "length (ip_frame s dstmac dstip l4) = 34 + length l4"
  using assms by (simp_all add: ip_frame_def ip_header_def Let_def)

lemma ip_header_ok:
  "fin16 (sum16 (let hdr = ip_header src dst proto tot ident in hdr (wr16 (fin16 (sum16 (hdr [0, 0]) 0)))) 0) = 0"
  if "length src = 4" "length dst = 4"
  using checksum_ok [of "[0x45, 0x00] @ wr16 tot @ wr16 ident @ wr16 0x4000 @ [64, proto]" "src @ dst" 0] that
  by (simp add: ip_header_def Let_def)

lemma pseudo_sum_bound:
  assumes "length src = 4" "length dst = 4" "len < 60000"
  shows "unat (pseudo_sum src dst len) < 2 ^ 20"
proof -
  have w: "wsum src \<le> 131070" "wsum dst \<le> 131070"
    using wsum_bound [of src] wsum_bound [of dst] assms by simp_all
  have "pseudo_sum src dst len = of_nat (wsum src + wsum dst + 6 + len)"
    by (simp add: pseudo_sum_def sum16_wsum IPP_TCP_def)
  moreover have "wsum src + wsum dst + 6 + len < 2 ^ 20" using w assms(3) by simp
  moreover have "unat (of_nat n :: u32) = n" if "n < 2 ^ 20" for n
    using that by (simp add: unat_of_nat)
  ultimately show ?thesis by presburger
qed

text \<open>A segment split at its checksum field.\<close>

lemma segment_frame_ok:
  assumes "length (g_ip s) = 4" "length dstip = 4" "length dstmac = 6" "length (g_mac s) = 6"
    and "even (length pre)" "length pre + length post < 50000"
    and "ck = fin16 (sum16 (pre @ [0, 0] @ post) (pseudo_sum (g_ip s) dstip (length (pre @ [0, 0] @ post))))"
  shows "checksums_ok (ip_frame s dstmac dstip (pre @ wr16 ck @ post))"
proof -
  have "unat (pseudo_sum (g_ip s) dstip (length (pre @ [0, 0] @ post))) < 2 ^ 20"
    using assms(6) by (intro pseudo_sum_bound [OF assms(1,2)]) simp
  from checksum_ok [OF assms(5) _ this assms(7)] assms(6)
  have "fin16 (sum16 (pre @ wr16 ck @ post) (pseudo_sum (g_ip s) dstip (length (pre @ [0, 0] @ post)))) = 0"
    by simp
  then show ?thesis
    unfolding checksums_ok_def ip_frame_parts [OF assms(1-4)] using ip_header_ok [OF assms(1,2)] by simp
qed

definition tcp_frame :: "net \<Rightarrow> conn \<Rightarrow> byte \<Rightarrow> bool \<Rightarrow> nat \<Rightarrow> nat \<Rightarrow> byte list" where
  "tcp_frame s c flags with_mss doff dlen =
     (let seg = tcp_seg s c flags with_mss doff dlen
      in ip_frame s (peer_mac c) (peer_ip c)
           (seg (wr16 (fin16 (sum16 (seg [0, 0]) (pseudo_sum (g_ip s) (peer_ip c) (length (seg [0, 0]))))))))"

lemma tcp_send_seg_eq: "tcp_send_seg c flags with_mss doff dlen s =
    s\<lparr>g_ip_id := w16 (g_ip_id s + 1), tx_frames := tx_frames s @ [tcp_frame s c flags with_mss doff dlen],
      g_tcp_segs := g_tcp_segs s + 1\<rparr>"
  by (simp add: tcp_send_seg_def tcp_frame_def ip_send_eq Let_def)

definition addr_ok :: "net \<Rightarrow> conn \<Rightarrow> bool" where
  "addr_ok s c \<longleftrightarrow> length (g_ip s) = 4 \<and> length (g_mac s) = 6 \<and> length (peer_ip c) = 4 \<and> length (peer_mac c) = 6"

lemma tcp_frame_checksums:
  assumes "addr_ok s c" "dlen \<le> MSS_TX"
  shows "checksums_ok (tcp_frame s c flags with_mss doff dlen)"
proof -
  let ?pre = "wr16 (my_port s) @ wr16 (peer_port c) @ wr32 (snd_nxt c) @ wr32 (rcv_nxt c)
     @ [of_nat ((if with_mss then 24 else 20) div 4 * 16), flags]
     @ wr16 (RCV_SZ - 1 - ring_used RCV_SZ (r_tail c) (r_head c))"
  let ?post = "[0, 0] @ (if with_mss then [2, 4] @ wr16 MSS_TX else []) @ ring_bytes (sbuf c) doff dlen"
  have seg: "tcp_seg s c flags with_mss doff dlen ck = ?pre @ ck @ ?post" for ck
    by (simp add: tcp_seg_def)
  show ?thesis
    unfolding tcp_frame_def Let_def seg
    by (rule segment_frame_ok) (use assms in \<open>simp_all add: addr_ok_def MSS_TX_def\<close>)
qed

lemma rd32_wr32: "rd32 (xs @ wr32 v @ ys) (length xs) = v"
  by (simp add: rd32_def wr32_def be32_def nth_append get32_be32)

lemma rd16_wr16: "v < 65536 \<Longrightarrow> rd16 (xs @ wr16 v @ ys) (length xs) = v"
  by (simp add: rd16_def wr16_def be16_def nth_append get16_be16)

text \<open>What the peer reads from a data segment or an acknowledgement.\<close>

lemma tcp_frame_fields:
  assumes "addr_ok s c"
  shows "frame_seq (tcp_frame s c flags False doff dlen) = snd_nxt c"
    and "frame_ack (tcp_frame s c flags False doff dlen) = rcv_nxt c"
    and "frame_flags (tcp_frame s c flags False doff dlen) = flags"
    and "frame_window (tcp_frame s c flags False doff dlen) = RCV_SZ - 1 - ring_used RCV_SZ (r_tail c) (r_head c)"
    and "frame_payload (tcp_frame s c flags False doff dlen) = ring_bytes (sbuf c) doff dlen"
proof -
  let ?f = "tcp_frame s c flags False doff dlen"
  define w where "w = RCV_SZ - 1 - ring_used RCV_SZ (r_tail c) (r_head c)"
  have wb: "w < 65536" by (simp add: w_def RCV_SZ_def)
  obtain h ck where f: "?f = h @ wr32 (snd_nxt c) @ wr32 (rcv_nxt c) @ [0x50, flags] @ wr16 w @ wr16 ck @ [0, 0]
      @ ring_bytes (sbuf c) doff dlen" and h: "length h = 38"
    using assms unfolding tcp_frame_def ip_frame_def tcp_seg_def ip_header_def Let_def addr_ok_def w_def
    by (auto simp: wr16_def be16_def)
  show "frame_seq ?f = snd_nxt c"
    unfolding frame_seq_def f using rd32_wr32 [of h] h by simp
  show "frame_ack ?f = rcv_nxt c"
    unfolding frame_ack_def f using rd32_wr32 [of "h @ wr32 (snd_nxt c)"] h by simp
  show "frame_flags ?f = flags" unfolding frame_flags_def f using h by (simp add: nth_append)
  show "frame_window ?f = RCV_SZ - 1 - ring_used RCV_SZ (r_tail c) (r_head c)"
    unfolding frame_window_def f
    using rd16_wr16 [OF wb, of "h @ wr32 (snd_nxt c) @ wr32 (rcv_nxt c) @ [0x50, flags]"] h by (simp add: w_def)
  have "?f ! 46 = 0x50" unfolding f using h by (simp add: nth_append)
  then show "frame_payload ?f = ring_bytes (sbuf c) doff dlen"
    unfolding frame_payload_def f using h by simp
qed

end
