(* ===== verification/Tcp.thy ===== *)
theory Tcp
  imports Net
begin

text \<open>
  Correctness of one TCP connection of \<open>net.c\<close>.  \<open>conn_ok\<close> is the invariant of \<open>struct conn\<close>: the
  indices stay inside the rings, \<open>s_nxt\<close> stays between \<open>s_una\<close> and \<open>s_end\<close>, and for an established
  connection the sequence numbers in flight are exactly the ring distance.  Over it stand the two
  stream properties, for any interleaving of writes, transmissions, timer ticks, received segments
  and reads: what the connection sends is always a slice, at its sequence number, of the bytes
  accepted from the program, and what the program reads is a prefix of what the peer sent.
\<close>

section \<open>The invariant of a connection\<close>

definition in_flight :: "conn \<Rightarrow> nat" where
  "in_flight c = ring_used SND_SZ (s_una c) (s_nxt c)"

definition r_used :: "conn \<Rightarrow> nat" where
  "r_used c = ring_used RCV_SZ (r_tail c) (r_head c)"

definition conn_ok :: "conn \<Rightarrow> bool" where
  "conn_ok c \<longleftrightarrow> length (sbuf c) = SND_SZ \<and> length (rbuf c) = RCV_SZ
     \<and> length (peer_ip c) = 4 \<and> length (peer_mac c) = 6
     \<and> s_una c < SND_SZ \<and> s_nxt c < SND_SZ \<and> s_end c < SND_SZ \<and> r_head c < RCV_SZ \<and> r_tail c < RCV_SZ
     \<and> in_flight c \<le> s_used c \<and> rexmit_count c \<le> MAX_REXMIT
     \<and> (tstate c = TS_ESTAB \<longrightarrow> snd_nxt c = snd_una c + of_nat (in_flight c))
     \<and> (tstate c \<noteq> TS_ESTAB \<longrightarrow> s_una c = s_nxt c)
     \<and> (tstate c = TS_SYNRCVD \<longrightarrow> snd_nxt c = snd_una c \<or> snd_nxt c = snd_una c + 1)"

lemma sz_simps [simp]: "0 < SND_SZ" "0 < RCV_SZ" "SND_SZ = 4096 \<longleftrightarrow> True" "RCV_SZ = 512 \<longleftrightarrow> True"
  by (simp_all add: SND_SZ_def RCV_SZ_def)

lemma s_nxt_eq: "conn_ok c \<Longrightarrow> s_nxt c = (s_una c + in_flight c) mod SND_SZ"
  by (simp add: conn_ok_def in_flight_def ring_used_end)

lemma s_end_eq: "conn_ok c \<Longrightarrow> s_end c = (s_una c + s_used c) mod SND_SZ"
  by (simp add: conn_ok_def s_used_def ring_used_end)

lemma used_less: "s_used c < SND_SZ" "in_flight c < SND_SZ"
  by (simp_all add: s_used_def in_flight_def ring_used_less)

lemma unsent_eq: "conn_ok c \<Longrightarrow> ring_used SND_SZ (s_nxt c) (s_end c) = s_used c - in_flight c"
  using used_less [of c] unfolding s_nxt_eq s_end_eq
  by (subst ring_used_between) (simp_all add: conn_ok_def)

lemma flight_le: "conn_ok c \<Longrightarrow> in_flight c \<le> s_used c"
  by (simp add: conn_ok_def)

lemma conn_ok_reset: "conn_ok c \<Longrightarrow> conn_ok (tcp_reset_listen c)"
  by (simp add: conn_ok_def tcp_reset_listen_def in_flight_def s_used_def)

section \<open>Writing to the send ring\<close>

definition sring :: "conn \<Rightarrow> byte list" where
  "sring c = ring_list (sbuf c) (s_una c) (s_used c)"

lemma s_used_put:
  assumes "conn_ok c" "s_used c < SND_SZ - 1"
  shows "s_used (sbuf_put b c) = Suc (s_used c)"
proof -
  have "Suc (s_end c) mod SND_SZ \<noteq> s_una c"
    using assms ring_full [of "s_una c" SND_SZ "s_end c"] by (simp add: conn_ok_def s_used_def)
  with assms(1) show ?thesis
    by (simp add: s_used_def sbuf_put_def conn_ok_def ring_used_put)
qed

lemma sbuf_put_ok:
  assumes "conn_ok c" "s_used c < SND_SZ - 1"
  shows "conn_ok (sbuf_put b c)" "sring (sbuf_put b c) = sring c @ [b]"
proof -
  have u: "s_used (sbuf_put b c) = Suc (s_used c)" by (rule s_used_put [OF assms])
  have f: "in_flight (sbuf_put b c) = in_flight c" by (simp add: in_flight_def sbuf_put_def)
  show "conn_ok (sbuf_put b c)"
    using assms(1) unfolding conn_ok_def u f by (simp add: sbuf_put_def)
  have "ring_list ((sbuf c)[s_end c := b]) (s_una c) (Suc (s_used c)) = ring_list (sbuf c) (s_una c) (s_used c) @ [b]"
    using assms by (intro ring_list_put) (simp_all add: conn_ok_def s_used_def)
  then show "sring (sbuf_put b c) = sring c @ [b]"
    unfolding sring_def u by (simp add: sbuf_put_def)
qed

section \<open>Acknowledgements\<close>

text \<open>The two signed comparisons accept exactly the acknowledgements of bytes in flight.\<close>

lemma conn_ack_eq:
  assumes "conn_ok c" "tstate c = TS_ESTAB"
  shows "conn_ack ticks ack c =
     (let d = unat (ack - snd_una c)
      in if 0 < d \<and> d \<le> in_flight c
         then c\<lparr>s_una := (s_una c + d) mod SND_SZ, snd_una := ack, rexmit_at := ticks + REXMIT_TICKS, rexmit_count := 0\<rparr>
         else c)"
proof -
  have "in_flight c < 4096" using used_less(2) [of c] by (simp add: SND_SZ_def)
  moreover have "snd_nxt c = snd_una c + of_nat (in_flight c)" using assms by (simp add: conn_ok_def)
  ultimately show ?thesis
    using seq_window [of "in_flight c" "snd_nxt c" "snd_una c" ack] by (simp add: conn_ack_def Let_def)
qed

lemma conn_ack_ok:
  assumes "conn_ok c" "tstate c = TS_ESTAB"
  shows "conn_ok (conn_ack ticks ack c) \<and> tstate (conn_ack ticks ack c) = TS_ESTAB
    \<and> (\<exists>d \<le> in_flight c. snd_una (conn_ack ticks ack c) = snd_una c + of_nat d
          \<and> sring (conn_ack ticks ack c) = drop d (sring c))
    \<and> snd_nxt (conn_ack ticks ack c) = snd_nxt c
    \<and> rbuf (conn_ack ticks ack c) = rbuf c \<and> r_head (conn_ack ticks ack c) = r_head c
    \<and> r_tail (conn_ack ticks ack c) = r_tail c \<and> rcv_nxt (conn_ack ticks ack c) = rcv_nxt c"
proof (cases "0 < unat (ack - snd_una c) \<and> unat (ack - snd_una c) \<le> in_flight c")
  case False
  then show ?thesis using assms conn_ack_eq [OF assms, of ticks ack] by (auto simp: Let_def intro: exI [of _ 0])
next
  case True
  define d where "d = unat (ack - snd_una c)"
  define c' where "c' = c\<lparr>s_una := (s_una c + d) mod SND_SZ, snd_una := ack, rexmit_at := ticks + REXMIT_TICKS, rexmit_count := 0\<rparr>"
  have c': "conn_ack ticks ack c = c'"
    using True conn_ack_eq [OF assms, of ticks ack] by (simp add: Let_def d_def c'_def)
  have d: "d \<le> in_flight c" "d \<le> s_used c" "in_flight c \<le> s_used c" "s_una c < SND_SZ"
    using True assms(1) by (simp_all add: d_def conn_ok_def)
  have u: "s_used c' = s_used c - d"
    using ring_used_between [OF d(4,2) used_less(1)] unfolding s_used_def [of c'] s_end_eq [OF assms(1), symmetric]
    by (simp add: c'_def)
  have f: "in_flight c' = in_flight c - d"
    using ring_used_between [OF d(4,1) used_less(2)] unfolding in_flight_def [of c'] s_nxt_eq [OF assms(1), symmetric]
    by (simp add: c'_def)
  have ack: "ack = snd_una c + of_nat d" by (simp add: d_def)
  have "snd_nxt c = snd_una c + of_nat (in_flight c)" using assms by (simp add: conn_ok_def)
  then have nxt: "snd_nxt c = ack + of_nat (in_flight c - d)" using ack d(1) by (simp add: of_nat_diff)
  have "conn_ok c'"
    using assms d nxt unfolding conn_ok_def u f by (simp add: c'_def)
  moreover have "sring c' = drop d (sring c)"
    using ring_list_drop [of "sbuf c" "s_una c" d "s_used c"] assms(1) unfolding sring_def u
    by (simp add: c'_def conn_ok_def)
  ultimately show ?thesis
    unfolding c' using d(1) ack assms(2) by (auto simp: c'_def)
qed

section \<open>Transmission\<close>

text \<open>The stream of a connection: \<open>sent\<close> are the bytes accepted since it was established and \<open>base\<close>
  the sequence number of the first.  A frame carries a slice of the stream at its sequence number.\<close>

definition conn_stream :: "u32 \<Rightarrow> byte list \<Rightarrow> conn \<Rightarrow> bool" where
  "conn_stream base sent c \<longleftrightarrow> conn_ok c \<and> tstate c = TS_ESTAB
     \<and> (\<exists>a \<le> length sent. snd_una c = base + of_nat a \<and> sring c = drop a sent)"

definition carries :: "u32 \<Rightarrow> byte list \<Rightarrow> byte list \<Rightarrow> bool" where
  "carries base sent f \<longleftrightarrow> (\<exists>off. frame_seq f = base + of_nat off \<and> off + length (frame_payload f) \<le> length sent
     \<and> frame_payload f = take (length (frame_payload f)) (drop off sent))"

lemma carries_mono: "carries base sent f \<Longrightarrow> carries base (sent @ xs) f"
  unfolding carries_def by fastforce

lemma ring_bytes_list: "length buf = SND_SZ \<Longrightarrow> ring_bytes buf doff n = ring_list buf doff n"
  by (simp add: ring_bytes_def ring_list_def)

lemma length_sring [simp]: "length (sring c) = s_used c"
  by (simp add: sring_def)

lemma unsent_bytes:
  assumes "conn_ok c" "n \<le> s_used c - in_flight c"
  shows "ring_bytes (sbuf c) (s_nxt c) n = take n (drop (in_flight c) (sring c))"
proof -
  have len: "length (sbuf c) = SND_SZ" using assms(1) by (simp add: conn_ok_def)
  have "ring_list (sbuf c) (s_nxt c) (s_used c - in_flight c) = drop (in_flight c) (sring c)"
    unfolding sring_def using ring_list_drop [of "sbuf c" "s_una c" "in_flight c" "s_used c"] len
    by (simp add: s_nxt_eq [OF assms(1)])
  then show ?thesis
    using ring_list_take [of "sbuf c" "s_nxt c" n "s_used c - in_flight c"] assms(2) len
    by (simp add: ring_bytes_list min_absorb1)
qed

text \<open>Sending \<open>n\<close> of the unsent bytes advances \<open>s_nxt\<close> and \<open>snd_nxt\<close> together.\<close>

lemma advance_ok:
  assumes "conn_stream base sent c" "n \<le> s_used c - in_flight c"
  shows "conn_stream base sent (c\<lparr>rexmit_at := t, s_nxt := (s_nxt c + n) mod SND_SZ, snd_nxt := snd_nxt c + of_nat n\<rparr>)"
    (is "conn_stream base sent ?c")
    and "in_flight (c\<lparr>rexmit_at := t, s_nxt := (s_nxt c + n) mod SND_SZ, snd_nxt := snd_nxt c + of_nat n\<rparr>) = in_flight c + n"
proof -
  have ok: "conn_ok c" "tstate c = TS_ESTAB" using assms(1) by (simp_all add: conn_stream_def)
  have le: "in_flight c + n \<le> s_used c" using assms(2) flight_le [OF ok(1)] by linarith
  have s: "s_used ?c = s_used c" "sring ?c = sring c" by (simp_all add: s_used_def sring_def)
  have "(s_nxt c + n) mod SND_SZ = (s_una c + (in_flight c + n)) mod SND_SZ"
    unfolding s_nxt_eq [OF ok(1)] by (simp add: mod_add_left_eq add.assoc)
  then show f: "in_flight ?c = in_flight c + n"
    using le used_less(1) [of c] ok(1) unfolding in_flight_def [of ?c] by (simp add: ring_used_add conn_ok_def)
  have "conn_ok ?c"
    using ok le unfolding conn_ok_def s f by simp
  with assms(1) s show "conn_stream base sent ?c" unfolding conn_stream_def by simp
qed

definition same_globals :: "net \<Rightarrow> net \<Rightarrow> bool" where
  "same_globals s s' \<longleftrightarrow> g_ip s' = g_ip s \<and> g_mac s' = g_mac s \<and> my_port s' = my_port s \<and> conns s' = conns s
     \<and> pkt_stage s' = pkt_stage s \<and> pkt_len s' = pkt_len s \<and> pkt_flag s' = pkt_flag s \<and> work s' = work s"

definition ids_ok :: "net \<Rightarrow> bool" where
  "ids_ok s \<longleftrightarrow> length (g_ip s) = 4 \<and> length (g_mac s) = 6"

lemma addr_okI: "ids_ok s \<Longrightarrow> conn_ok c \<Longrightarrow> addr_ok s c"
  by (simp add: ids_ok_def conn_ok_def addr_ok_def)

lemma data_frame:
  assumes "ids_ok s" "conn_stream base sent c" "n \<le> s_used c - in_flight c" "n \<le> MSS_TX"
  defines "f \<equiv> tcp_frame s c 0x18 False (s_nxt c) n"
  shows "carries base sent f" "frame_payload f = take n (drop (in_flight c) (sring c))"
    "length (frame_payload f) = n" "checksums_ok f"
proof -
  have ok: "conn_ok c" and a: "addr_ok s c" using assms by (simp_all add: conn_stream_def addr_okI)
  from assms(2) obtain a where st: "a \<le> length sent" "snd_una c = base + of_nat a" "sring c = drop a sent" "tstate c = TS_ESTAB"
    by (auto simp: conn_stream_def)
  note fields = tcp_frame_fields [OF a, where flags = "0x18" and doff = "s_nxt c" and dlen = n, folded f_def]
  show p: "frame_payload f = take n (drop (in_flight c) (sring c))"
    using fields(5) unsent_bytes [OF ok assms(3)] by simp
  have le: "in_flight c + n \<le> s_used c" using assms(3) flight_le [OF ok] by linarith
  then show len: "length (frame_payload f) = n" unfolding p by simp
  have "snd_nxt c = base + of_nat (a + in_flight c)" using ok st by (simp add: conn_ok_def)
  moreover have "s_used c = length sent - a" using st(3) length_sring [of c] by simp
  ultimately show "carries base sent f"
    unfolding carries_def len p fields(1) st(3) using le st(1)
    by (intro exI [of _ "a + in_flight c"]) (auto simp: add.commute)
  show "checksums_ok f" unfolding f_def by (rule tcp_frame_checksums [OF a assms(4)])
qed

text \<open>\<open>tcp_output\<close> sends everything unsent, in order, in segments of at most \<open>MSS_TX\<close> bytes.\<close>

lemma output_loop_ok:
  assumes "conn_stream base sent c" "ids_ok s" "unsent = s_used c - in_flight c"
    "output_loop ticks unsent c s = (c', s')"
  shows "conn_stream base sent c' \<and> in_flight c' = s_used c' \<and> sring c' = sring c \<and> snd_una c' = snd_una c
    \<and> rcv_nxt c' = rcv_nxt c \<and> rbuf c' = rbuf c \<and> r_head c' = r_head c \<and> r_tail c' = r_tail c
    \<and> same_globals s s'
    \<and> (\<exists>fs. tx_frames s' = tx_frames s @ fs \<and> concat (map frame_payload fs) = drop (in_flight c) (sring c)
         \<and> (\<forall>f \<in> set fs. carries base sent f \<and> checksums_ok f \<and> frame_ack f = rcv_nxt c
              \<and> 0 < length (frame_payload f) \<and> length (frame_payload f) \<le> MSS_TX))"
  using assms
proof (induction unsent arbitrary: c s rule: less_induct)
  case (less unsent)
  have ok: "conn_ok c" using less.prems(1) by (simp add: conn_stream_def)
  show ?case
  proof (cases "unsent = 0")
    case True
    then have "in_flight c = s_used c" using less.prems(3) flight_le [OF ok] by simp
    with True less.prems show ?thesis
      by (simp add: output_loop.simps [of _ 0] same_globals_def)
  next
    case False
    let ?n = "if unsent > MSS_TX then MSS_TX else unsent"
    let ?s = "tcp_send_seg c 0x18 False (s_nxt c) ?n s"
    let ?f = "tcp_frame s c 0x18 False (s_nxt c) ?n"
    let ?t = "if snd_una c = snd_nxt c then ticks + REXMIT_TICKS else rexmit_at c"
    let ?c = "c\<lparr>rexmit_at := ?t, s_nxt := (s_nxt c + ?n) mod SND_SZ, snd_nxt := snd_nxt c + of_nat ?n\<rparr>"
    have n: "0 < ?n" "?n \<le> unsent" "?n \<le> MSS_TX" using False by (auto simp: MSS_TX_def)
    have n2: "?n \<le> s_used c - in_flight c" using n(2) less.prems(3) by simp
    note adv = advance_ok [OF less.prems(1) n2, of ?t]
    note fr = data_frame [OF less.prems(2,1) n2 n(3)]
    have fl: "s_used ?c = s_used c" "sring ?c = sring c" by (simp_all add: s_used_def sring_def)
    have glob: "same_globals s ?s" "ids_ok ?s" "tx_frames ?s = tx_frames s @ [?f]"
      using less.prems(2) by (simp_all add: tcp_send_seg_eq same_globals_def ids_ok_def)
    have step: "output_loop ticks (unsent - ?n) ?c ?s = (c', s')"
      using less.prems(4) False
      by (cases "snd_una c = snd_nxt c"; cases "unsent > MSS_TX") (simp_all add: output_loop.simps [of _ unsent] Let_def)
    have un: "unsent - ?n = s_used ?c - in_flight ?c"
      using less.prems(3) adv(2) fl(1) by simp
    have ack: "frame_ack ?f = rcv_nxt c"
      using tcp_frame_fields(2) [OF addr_okI [OF less.prems(2) ok]] by simp
    have lt: "unsent - ?n < unsent" using n by linarith
    have same: "snd_una ?c = snd_una c" "rcv_nxt ?c = rcv_nxt c" "rbuf ?c = rbuf c" "r_head ?c = r_head c" "r_tail ?c = r_tail c"
      by simp_all
    from less.IH [OF lt adv(1) glob(2) un step, unfolded fl(2) same]
    obtain fs where IH: "conn_stream base sent c'" "in_flight c' = s_used c'" "sring c' = sring c" "snd_una c' = snd_una c"
      "rcv_nxt c' = rcv_nxt c" "rbuf c' = rbuf c" "r_head c' = r_head c" "r_tail c' = r_tail c"
      "same_globals ?s s'" "tx_frames s' = tx_frames ?s @ fs"
      "concat (map frame_payload fs) = drop (in_flight ?c) (sring c)"
      "\<forall>f \<in> set fs. carries base sent f \<and> checksums_ok f \<and> frame_ack f = rcv_nxt c
              \<and> 0 < length (frame_payload f) \<and> length (frame_payload f) \<le> MSS_TX"
      by blast
    have "concat (map frame_payload (?f # fs)) = drop (in_flight c) (sring c)"
    proof -
      have "drop (in_flight c + ?n) (sring c) = drop ?n (drop (in_flight c) (sring c))"
        by (simp only: drop_drop add.commute)
      then show ?thesis unfolding list.map concat.simps fr(2) IH(11) adv(2) by (simp only: append_take_drop_id)
    qed
    moreover have "tx_frames s' = tx_frames s @ (?f # fs)" using IH(10) glob(3) by simp
    moreover have "\<forall>f \<in> set (?f # fs). carries base sent f \<and> checksums_ok f \<and> frame_ack f = rcv_nxt c
              \<and> 0 < length (frame_payload f) \<and> length (frame_payload f) \<le> MSS_TX"
      using IH(12) fr(1,3,4) n(1,3) ack by (metis set_ConsD)
    moreover have "same_globals s s'" using IH(9) glob(1) by (simp add: same_globals_def)
    ultimately show ?thesis using IH(1-8) by blast
  qed
qed

section \<open>The receive ring\<close>

definition rring :: "conn \<Rightarrow> byte list" where
  "rring c = ring_list (rbuf c) (r_tail c) (r_used c)"

text \<open>The body of the store loop, as one step that drops the byte when the ring is full.\<close>

definition rbuf_put :: "byte \<Rightarrow> conn \<Rightarrow> conn" where
  "rbuf_put b c = (if (r_head c + 1) mod RCV_SZ = r_tail c then c
     else c\<lparr>rbuf := (rbuf c)[r_head c := b], r_head := (r_head c + 1) mod RCV_SZ\<rparr>)"

definition slot_put :: "byte \<Rightarrow> conn \<Rightarrow> conn" where
  "slot_put b c = (if s_used c \<ge> SND_SZ - 1 then c else sbuf_put b c)"

lemma length_rring [simp]: "length (rring c) = r_used c"
  by (simp add: rring_def)

lemma r_used_le: "r_used c \<le> RCV_SZ - 1"
proof -
  have "r_used c < RCV_SZ" by (simp add: r_used_def ring_used_less)
  then show ?thesis by simp
qed

lemma rbuf_put_cases:
  assumes "conn_ok c"
  shows "r_used c = RCV_SZ - 1 \<Longrightarrow> rbuf_put b c = c"
    and "r_used c < RCV_SZ - 1 \<Longrightarrow> rbuf_put b c = c\<lparr>rbuf := (rbuf c)[r_head c := b], r_head := (r_head c + 1) mod RCV_SZ\<rparr>"
  using assms ring_full [of "r_tail c" RCV_SZ "r_head c"]
  by (auto simp: rbuf_put_def conn_ok_def r_used_def)

lemma rbuf_put_ok:
  assumes "conn_ok c"
  shows "conn_ok (rbuf_put b c)"
    and "rring (rbuf_put b c) = (if r_used c < RCV_SZ - 1 then rring c @ [b] else rring c)"
proof -
  show "conn_ok (rbuf_put b c)"
    using assms by (auto simp: rbuf_put_def conn_ok_def in_flight_def s_used_def)
  show "rring (rbuf_put b c) = (if r_used c < RCV_SZ - 1 then rring c @ [b] else rring c)"
  proof (cases "r_used c < RCV_SZ - 1")
    case False
    then have "r_used c = RCV_SZ - 1" using r_used_le [of c] by simp
    with False rbuf_put_cases(1) [OF assms] show ?thesis by simp
  next
    case True
    note eq = rbuf_put_cases(2) [OF assms True, of b]
    have r: "r_tail c < RCV_SZ" "r_head c < RCV_SZ" "length (rbuf c) = RCV_SZ" using assms by (simp_all add: conn_ok_def)
    have nf: "Suc (r_head c) mod RCV_SZ \<noteq> r_tail c"
      using True ring_full [OF r(1,2)] by (simp add: r_used_def)
    have u: "r_used (rbuf_put b c) = Suc (r_used c)"
      unfolding eq using ring_used_put [OF r(1,2) nf] by (simp add: r_used_def)
    have "ring_list ((rbuf c)[r_head c := b]) (r_tail c) (Suc (r_used c)) = rring c @ [b]"
      unfolding rring_def using r True by (intro ring_list_put) (simp_all add: r_used_def)
    then show ?thesis unfolding rring_def [of "rbuf_put b c"] u using True eq by simp
  qed
qed

lemma conn_getc_ok:
  assumes "conn_ok c"
  shows "rring c = [] \<Longrightarrow> conn_getc c = None"
    and "rring c = b # bs \<Longrightarrow> conn_getc c = Some (b, c\<lparr>r_tail := (r_tail c + 1) mod RCV_SZ\<rparr>)
           \<and> rring (c\<lparr>r_tail := (r_tail c + 1) mod RCV_SZ\<rparr>) = bs \<and> conn_ok (c\<lparr>r_tail := (r_tail c + 1) mod RCV_SZ\<rparr>)"
proof -
  have r: "r_tail c < RCV_SZ" "r_head c < RCV_SZ" "length (rbuf c) = RCV_SZ" using assms by (simp_all add: conn_ok_def)
  have e: "r_used c = 0 \<longleftrightarrow> r_tail c = r_head c" unfolding r_used_def by (rule ring_used_zero [OF r(1,2)])
  show "rring c = [] \<Longrightarrow> conn_getc c = None"
    using e length_rring [of c] by (simp add: conn_getc_def)
  assume bs: "rring c = b # bs"
  then have u: "r_used c = Suc (length bs)" using length_rring [of c] by simp
  let ?c = "c\<lparr>r_tail := (r_tail c + 1) mod RCV_SZ\<rparr>"
  have ne: "r_tail c \<noteq> r_head c" using e u by simp
  have "r_used ?c = length bs" using ring_used_get [OF r(1,2) ne] u by (simp add: r_used_def)
  moreover have "rring c = rbuf c ! r_tail c # ring_list (rbuf c) (Suc (r_tail c) mod RCV_SZ) (length bs)"
    unfolding rring_def u using ring_list_Cons [of "r_tail c" "rbuf c" "length bs"] r by simp
  ultimately have "rbuf c ! r_tail c = b" "rring ?c = bs" using bs by (simp_all add: rring_def)
  then show "conn_getc c = Some (b, ?c) \<and> rring ?c = bs \<and> conn_ok ?c"
    using ne assms by (simp add: conn_getc_def conn_ok_def in_flight_def s_used_def)
qed

text \<open>The two rings provide their interfaces.\<close>

interpretation rcv: bounded_fifo conn_ok rring "\<lambda>_. RCV_SZ - 1" rbuf_put conn_getc
proof unfold_locales
  fix q :: conn and x :: byte and xs
  assume "conn_ok q" "rring q = x # xs"
  then show "\<exists>q'. conn_getc q = Some (x, q') \<and> conn_ok q' \<and> rring q' = xs \<and> RCV_SZ - 1 = RCV_SZ - 1"
    using conn_getc_ok(2) by blast
qed (simp_all add: rbuf_put_ok r_used_le [simplified] conn_getc_ok(1))

interpretation snd: bounded_sink conn_ok sring "\<lambda>_. SND_SZ - 1" slot_put
proof unfold_locales
  fix q :: conn and x
  assume "conn_ok q"
  then show "conn_ok (slot_put x q)"
    "sring (slot_put x q) = (if length (sring q) < SND_SZ - 1 then sring q @ [x] else sring q)"
    "length (sring q) \<le> SND_SZ - 1"
    using sbuf_put_ok used_less(1) [of q] by (auto simp: slot_put_def not_le)
qed simp

text \<open>The store loop is a fold of its body over the payload.\<close>

lemma fold_rbuf_full: "conn_ok c \<Longrightarrow> r_used c = RCV_SZ - 1 \<Longrightarrow> fold rbuf_put bs c = c"
  by (induction bs) (simp_all add: rbuf_put_cases(1))

lemma rcv_loop_fold:
  assumes "conn_ok c" "i \<le> dlen"
  shows "rcv_loop f base i dlen c stored =
     (fold rbuf_put (map (\<lambda>j. f ! (base + j)) [i..<dlen]) c, stored + min (dlen - i) (RCV_SZ - 1 - r_used c))"
  using assms
proof (induction "dlen - i" arbitrary: i c stored)
  case 0
  then show ?case by (simp add: rcv_loop.simps)
next
  case (Suc k)
  then have i: "i < dlen" and up: "[i..<dlen] = i # [Suc i..<dlen]" by (simp_all add: upt_conv_Cons)
  have full: "(r_head c + 1) mod RCV_SZ = r_tail c \<longleftrightarrow> r_used c = RCV_SZ - 1"
    using Suc.prems(1) ring_full [of "r_tail c" RCV_SZ "r_head c"] by (simp add: conn_ok_def r_used_def)
  show ?case
  proof (cases "r_used c = RCV_SZ - 1")
    case True
    then show ?thesis
      using i full Suc.prems(1) by (simp add: rcv_loop.simps [of _ _ i] fold_rbuf_full)
  next
    case False
    then have lt: "r_used c < RCV_SZ - 1" using r_used_le [of c] by simp
    let ?c = "rbuf_put (f ! (base + i)) c"
    have "length (rring ?c) = Suc (r_used c)" using rbuf_put_ok(2) [OF Suc.prems(1)] lt by simp
    then have u: "r_used ?c = Suc (r_used c)" by simp
    have "rcv_loop f base i dlen c stored = rcv_loop f base (Suc i) dlen ?c (Suc stored)"
      using i full False rbuf_put_cases(2) [OF Suc.prems(1) lt] by (simp add: rcv_loop.simps [of _ _ i] Let_def)
    also have "\<dots> = (fold rbuf_put (map (\<lambda>j. f ! (base + j)) [Suc i..<dlen]) ?c,
        Suc stored + min (dlen - Suc i) (RCV_SZ - 1 - r_used ?c))"
      using Suc.hyps(2) i by (intro Suc.hyps(1)) (simp_all add: rbuf_put_ok(1) [OF Suc.prems(1)])
    finally show ?thesis using u lt i up by simp
  qed
qed

section \<open>A segment for an established connection\<close>

definition payload_at :: "byte list \<Rightarrow> nat \<Rightarrow> nat \<Rightarrow> byte list" where
  "payload_at f base dlen = map (\<lambda>j. f ! (base + j)) [0..<dlen]"

lemma length_payload_at [simp]: "length (payload_at f base dlen) = dlen"
  by (simp add: payload_at_def)

lemma fold_rbuf_send:
  "tstate (fold rbuf_put bs c) = tstate c \<and> snd_una (fold rbuf_put bs c) = snd_una c
   \<and> snd_nxt (fold rbuf_put bs c) = snd_nxt c \<and> rcv_nxt (fold rbuf_put bs c) = rcv_nxt c
   \<and> sring (fold rbuf_put bs c) = sring c"
proof (induction bs arbitrary: c)
  case (Cons b bs)
  have "tstate (rbuf_put b c) = tstate c \<and> snd_una (rbuf_put b c) = snd_una c
     \<and> snd_nxt (rbuf_put b c) = snd_nxt c \<and> rcv_nxt (rbuf_put b c) = rcv_nxt c \<and> sring (rbuf_put b c) = sring c"
    by (simp add: rbuf_put_def sring_def s_used_def)
  with Cons show ?case by simp
qed simp

lemma conn_ok_rcv_nxt: "conn_ok (c\<lparr>rcv_nxt := x\<rparr>) = conn_ok c" "sring (c\<lparr>rcv_nxt := x\<rparr>) = sring c"
  "rring (c\<lparr>rcv_nxt := x\<rparr>) = rring c" "r_used (c\<lparr>rcv_nxt := x\<rparr>) = r_used c"
  by (simp_all add: conn_ok_def in_flight_def s_used_def sring_def rring_def r_used_def)

lemma conn_data_ok:
  fixes dlen :: nat
  assumes "conn_ok c"
  defines "m \<equiv> min dlen (RCV_SZ - 1 - r_used c)"
  shows "conn_ok (conn_data seq f base dlen c)"
    and "tstate (conn_data seq f base dlen c) = tstate c" "snd_una (conn_data seq f base dlen c) = snd_una c"
    and "snd_nxt (conn_data seq f base dlen c) = snd_nxt c" "sring (conn_data seq f base dlen c) = sring c"
    and "seq = rcv_nxt c \<Longrightarrow> rcv_nxt (conn_data seq f base dlen c) = rcv_nxt c + of_nat m
           \<and> rring (conn_data seq f base dlen c) = rring c @ take m (payload_at f base dlen)"
    and "seq \<noteq> rcv_nxt c \<Longrightarrow> conn_data seq f base dlen c = c"
proof -
  let ?c = "fold rbuf_put (payload_at f base dlen) c"
  have d: "conn_data seq f base dlen c = (if seq = rcv_nxt c then ?c\<lparr>rcv_nxt := rcv_nxt ?c + of_nat m\<rparr> else c)"
    using rcv_loop_fold [OF assms(1), of 0 dlen f base 0]
    by (simp add: conn_data_def payload_at_def m_def)
  have rr: "rring ?c = rring c @ take m (payload_at f base dlen)"
    using rcv.contents_fold_put [OF assms(1), of "payload_at f base dlen"] by (simp add: m_def min_def)
  note ok = rcv.inv_fold_put [OF assms(1), of "payload_at f base dlen"]
  show "conn_ok (conn_data seq f base dlen c)" "tstate (conn_data seq f base dlen c) = tstate c"
    "snd_una (conn_data seq f base dlen c) = snd_una c" "snd_nxt (conn_data seq f base dlen c) = snd_nxt c"
    "sring (conn_data seq f base dlen c) = sring c"
    unfolding d using assms(1) ok fold_rbuf_send [of "payload_at f base dlen" c] by (simp_all add: conn_ok_rcv_nxt)
  show "rcv_nxt (conn_data seq f base dlen c) = rcv_nxt c + of_nat m
           \<and> rring (conn_data seq f base dlen c) = rring c @ take m (payload_at f base dlen)" if "seq = rcv_nxt c"
    unfolding d using that rr fold_rbuf_send [of "payload_at f base dlen" c] by (simp add: conn_ok_rcv_nxt)
  show "conn_data seq f base dlen c = c" if "seq \<noteq> rcv_nxt c"
    unfolding d using that by simp
qed

lemma ack_frame:
  assumes "ids_ok s" "conn_stream base sent c"
  shows "carries base sent (tcp_frame s c flags False 0 0)" "frame_ack (tcp_frame s c flags False 0 0) = rcv_nxt c"
    "checksums_ok (tcp_frame s c flags False 0 0)" "frame_payload (tcp_frame s c flags False 0 0) = []"
proof -
  have ok: "conn_ok c" "tstate c = TS_ESTAB" using assms(2) by (simp_all add: conn_stream_def)
  note a = addr_okI [OF assms(1) ok(1)]
  note fields = tcp_frame_fields [OF a]
  show p: "frame_payload (tcp_frame s c flags False 0 0) = []" using fields(5) by (simp add: ring_bytes_def)
  from assms(2) obtain a where st: "a \<le> length sent" "snd_una c = base + of_nat a" "sring c = drop a sent"
    by (auto simp: conn_stream_def)
  have "in_flight c \<le> length sent - a" using flight_le [OF ok(1)] st(3) length_sring [of c] by simp
  moreover have "snd_nxt c = base + of_nat (a + in_flight c)" using ok st by (simp add: conn_ok_def)
  ultimately show "carries base sent (tcp_frame s c flags False 0 0)"
    unfolding carries_def p fields(1) using st(1) by (intro exI [of _ "a + in_flight c"]) simp
  show "frame_ack (tcp_frame s c flags False 0 0) = rcv_nxt c" by (rule fields(2))
  show "checksums_ok (tcp_frame s c flags False 0 0)" by (rule tcp_frame_checksums [OF a]) simp
qed

lemma conn_stream_cong:
  "conn_stream base sent c \<Longrightarrow> conn_ok c' \<Longrightarrow> tstate c' = tstate c \<Longrightarrow> snd_una c' = snd_una c \<Longrightarrow>
     sring c' = sring c \<Longrightarrow> conn_stream base sent c'"
  by (simp add: conn_stream_def)

lemma conn_ack_stream:
  assumes "conn_stream base sent c"
  shows "conn_stream base sent (conn_ack ticks ack c)"
proof -
  from assms obtain a where st: "conn_ok c" "tstate c = TS_ESTAB" "a \<le> length sent" "snd_una c = base + of_nat a" "sring c = drop a sent"
    by (auto simp: conn_stream_def)
  from conn_ack_ok [OF st(1,2), of ticks ack] obtain d where d: "d \<le> in_flight c"
    "snd_una (conn_ack ticks ack c) = snd_una c + of_nat d" "sring (conn_ack ticks ack c) = drop d (sring c)"
    "conn_ok (conn_ack ticks ack c)" "tstate (conn_ack ticks ack c) = TS_ESTAB"
    by blast
  have "d \<le> length sent - a" using d(1) flight_le [OF st(1)] st(5) length_sring [of c] by simp
  with d st show ?thesis unfolding conn_stream_def
    by (intro conjI exI [of _ "a + d"]) (simp_all add: add.commute)
qed

section \<open>Any interleaving of the operations of a connection\<close>

text \<open>
  An established connection and its surroundings: the bytes accepted for sending and the bytes
  read so far are recorded.  \<open>Segment t flags seq ack f pos dlen\<close> is a segment demultiplexed to the
  connection, whose payload is the \<open>dlen\<close> bytes of the frame \<open>f\<close> at \<open>pos\<close>.
\<close>

datatype cevent = Write byte | Read | Output u32 | Timer u32 | Segment u32 byte u32 u32 "byte list" nat nat

record crun =
  cr_conn :: conn
  cr_net :: net
  cr_sent :: "byte list"
  cr_read :: "byte list"

fun do_event :: "cevent \<Rightarrow> crun \<Rightarrow> crun" where
  "do_event e r =
     (if tstate (cr_conn r) \<noteq> TS_ESTAB then r
      else case e of
        Write b \<Rightarrow> (if s_used (cr_conn r) \<ge> SND_SZ - 1 then r
                     else r\<lparr>cr_conn := sbuf_put b (cr_conn r), cr_sent := cr_sent r @ [b]\<rparr>)
      | Read \<Rightarrow> (case conn_getc (cr_conn r) of None \<Rightarrow> r
                  | Some (b, c) \<Rightarrow> r\<lparr>cr_conn := c, cr_read := cr_read r @ [b]\<rparr>)
      | Output t \<Rightarrow> (case tcp_output t (cr_conn r) (cr_net r) of (c, s) \<Rightarrow> r\<lparr>cr_conn := c, cr_net := s\<rparr>)
      | Timer t \<Rightarrow> (case tcp_timer t (cr_conn r) (cr_net r) of (c, s) \<Rightarrow> r\<lparr>cr_conn := c, cr_net := s\<rparr>)
      | Segment t flags seq ack f pos dlen \<Rightarrow>
          (case conn_in t flags seq ack f pos dlen (cr_conn r) (cr_net r) of (c, s) \<Rightarrow> r\<lparr>cr_conn := c, cr_net := s\<rparr>))"

declare do_event.simps [simp del]

definition new_frames :: "net \<Rightarrow> net \<Rightarrow> byte list list" where
  "new_frames s s' = drop (length (tx_frames s)) (tx_frames s')"

subsection \<open>What is sent\<close>

definition send_inv :: "u32 \<Rightarrow> crun \<Rightarrow> bool" where
  "send_inv base r \<longleftrightarrow> ids_ok (cr_net r) \<and> (tstate (cr_conn r) = TS_ESTAB \<longrightarrow> conn_stream base (cr_sent r) (cr_conn r))"

lemma timer_stream:
  assumes "conn_stream base sent c" "tcp_timer t c s = (c', s')" "tstate c' = TS_ESTAB"
  shows "conn_stream base sent c' \<and> s' = s \<and> rring c' = rring c \<and> rcv_nxt c' = rcv_nxt c"
proof -
  have ok: "conn_ok c" "tstate c = TS_ESTAB" using assms(1) by (simp_all add: conn_stream_def)
  let ?c = "c\<lparr>rexmit_count := w16 (rexmit_count c + 1), s_nxt := s_una c, snd_nxt := snd_una c, rexmit_at := t + REXMIT_TICKS\<rparr>"
  have "c' = c \<or> (c' = ?c \<and> w16 (rexmit_count c + 1) \<le> MAX_REXMIT)" "s' = s"
    using assms(2,3) ok(2) by (auto simp: tcp_timer_def Let_def tcp_reset_listen_def split: if_splits)
  moreover have "conn_ok ?c" if "w16 (rexmit_count c + 1) \<le> MAX_REXMIT"
    using ok that by (simp add: conn_ok_def in_flight_def s_used_def)
  moreover have "sring ?c = sring c" "rring ?c = rring c"
    by (simp_all add: sring_def s_used_def rring_def r_used_def)
  ultimately show ?thesis using assms(1) conn_stream_cong [OF assms(1), of ?c] by auto
qed

lemma timer_frames:
  assumes "tstate c = TS_ESTAB" "tcp_timer t c s = (c', s')"
  shows "s' = s"
  using assms by (auto simp: tcp_timer_def Let_def split: if_splits)

text \<open>The result of \<open>conn_in\<close> on an established connection.\<close>

lemma conn_in_estab:
  fixes flags :: byte and t ack seq :: u32 and f :: "byte list" and pos dlen :: nat and s :: net
  assumes "tstate c = TS_ESTAB"
  defines "c1 \<equiv> if flags AND 0x10 \<noteq> 0 then conn_ack t ack c else c"
  defines "c2 \<equiv> if dlen \<noteq> 0 then conn_data seq f pos dlen c1 else c1"
  defines "s2 \<equiv> if dlen \<noteq> 0 then tcp_send_seg c2 0x10 False 0 0 s else s"
  assumes "tstate c1 = TS_ESTAB"
  shows "conn_in t flags seq ack f pos dlen c s =
     (if flags AND 0x01 \<noteq> 0
      then (tcp_reset_listen (c2\<lparr>rcv_nxt := rcv_nxt c2 + 1\<rparr>), tcp_send_seg (c2\<lparr>rcv_nxt := rcv_nxt c2 + 1\<rparr>) 0x10 False 0 0 s2)
      else (c2, s2))"
  using assms(1) unfolding conn_in_def c1_def c2_def s2_def
  by (cases "flags AND 0x10 = 0"; cases "dlen = 0") (simp_all add: Let_def)

lemma conn_in_stream:
  assumes "conn_stream base sent c" "ids_ok s" "conn_in t flags seq ack f pos dlen c s = (c', s')"
  shows "ids_ok s' \<and> (tstate c' = TS_ESTAB \<longrightarrow> conn_stream base sent c')
     \<and> (\<exists>fs. tx_frames s' = tx_frames s @ fs \<and> (\<forall>f \<in> set fs. carries base sent f \<and> checksums_ok f))"
proof -
  let ?c1 = "if flags AND 0x10 \<noteq> 0 then conn_ack t ack c else c"
  let ?c2 = "if dlen \<noteq> 0 then conn_data seq f pos dlen ?c1 else ?c1"
  let ?s2 = "if dlen \<noteq> 0 then tcp_send_seg ?c2 0x10 False 0 0 s else s"
  let ?c3 = "?c2\<lparr>rcv_nxt := rcv_nxt ?c2 + 1\<rparr>"
  have est: "tstate c = TS_ESTAB" using assms(1) by (simp add: conn_stream_def)
  have c1: "conn_stream base sent ?c1" using assms(1) conn_ack_stream by simp
  have e1: "conn_ok ?c1" "tstate ?c1 = TS_ESTAB" using c1 unfolding conn_stream_def by blast+
  have c2: "conn_stream base sent ?c2"
    using c1 conn_stream_cong [OF c1, of "conn_data seq f pos dlen ?c1"] conn_data_ok(1-3,5) [OF e1(1)] by presburger
  have c3: "conn_stream base sent ?c3"
    by (rule conn_stream_cong [OF c2]) (use c2 in \<open>simp_all add: conn_ok_rcv_nxt conn_stream_def\<close>)
  have i2: "ids_ok ?s2" using assms(2) by (simp add: tcp_send_seg_eq ids_ok_def)
  obtain fs where fs: "tx_frames ?s2 = tx_frames s @ fs" "\<forall>f \<in> set fs. carries base sent f \<and> checksums_ok f"
    using ack_frame(1,3) [OF assms(2) c2, where flags = "0x10"] by (cases "dlen = 0") (auto simp: tcp_send_seg_eq)
  note eq = conn_in_estab [OF est e1(2), where dlen = dlen and seq = seq and f = f and pos = pos and s = s]
  show ?thesis
  proof (cases "flags AND 0x01 = 0")
    case True
    then have "c' = ?c2" "s' = ?s2" using assms(3) eq by simp_all
    with c2 i2 fs show ?thesis by blast
  next
    case False
    then have c': "c' = tcp_reset_listen ?c3" "s' = tcp_send_seg ?c3 0x10 False 0 0 ?s2"
      using assms(3) eq by simp_all
    have "tx_frames s' = tx_frames s @ (fs @ [tcp_frame ?s2 ?c3 0x10 False 0 0])"
      unfolding c'(2) using fs(1) by (simp add: tcp_send_seg_eq)
    moreover have "\<forall>f \<in> set (fs @ [tcp_frame ?s2 ?c3 0x10 False 0 0]). carries base sent f \<and> checksums_ok f"
      using fs(2) ack_frame(1,3) [OF i2 c3] by simp
    moreover have "ids_ok s'" "tstate c' = TS_LISTEN" unfolding c' using i2 by (simp_all add: tcp_send_seg_eq ids_ok_def tcp_reset_listen_def)
    ultimately show ?thesis by (metis tstate.distinct(3))
  qed
qed

lemma do_event_send:
  assumes "send_inv base r"
  shows "send_inv base (do_event e r)
     \<and> (\<exists>xs. cr_sent (do_event e r) = cr_sent r @ xs)
     \<and> (\<exists>fs. tx_frames (cr_net (do_event e r)) = tx_frames (cr_net r) @ fs
           \<and> (\<forall>f \<in> set fs. carries base (cr_sent r) f \<and> checksums_ok f))"
proof (cases "tstate (cr_conn r) = TS_ESTAB")
  case False
  with assms show ?thesis by (simp add: do_event.simps)
next
  case True
  with assms have st: "conn_stream base (cr_sent r) (cr_conn r)" and ids: "ids_ok (cr_net r)"
    by (simp_all add: send_inv_def)
  then obtain a where a: "conn_ok (cr_conn r)" "a \<le> length (cr_sent r)" "snd_una (cr_conn r) = base + of_nat a"
    "sring (cr_conn r) = drop a (cr_sent r)" by (auto simp: conn_stream_def)
  show ?thesis
  proof (cases e)
    case (Write b)
    show ?thesis
    proof (cases "s_used (cr_conn r) \<ge> SND_SZ - 1")
      case True
      with Write assms show ?thesis by (simp add: do_event.simps)
    next
      case False
      then have "conn_ok (sbuf_put b (cr_conn r))" "sring (sbuf_put b (cr_conn r)) = drop a (cr_sent r @ [b])"
        using sbuf_put_ok [OF a(1), of b] a by simp_all
      then have "conn_stream base (cr_sent r @ [b]) (sbuf_put b (cr_conn r))"
        using a \<open>tstate (cr_conn r) = TS_ESTAB\<close> unfolding conn_stream_def
        by (intro conjI exI [of _ a]) (simp_all add: sbuf_put_def)
      with False True Write ids show ?thesis by (simp add: do_event.simps send_inv_def)
    qed
  next
    case Read
    have "conn_stream base (cr_sent r) c" if "conn_getc (cr_conn r) = Some (b, c)" for b c
    proof -
      have "c = (cr_conn r)\<lparr>r_tail := (r_tail (cr_conn r) + 1) mod RCV_SZ\<rparr>"
        using that by (simp add: conn_getc_def split: if_splits)
      moreover have "conn_ok c" using rcv.get_SomeD [OF a(1) that] by simp
      ultimately show ?thesis using conn_stream_cong [OF st, of c] by (simp add: sring_def s_used_def)
    qed
    with Read True ids assms show ?thesis
      by (cases "conn_getc (cr_conn r)") (auto simp: do_event.simps send_inv_def)
  next
    case (Output t)
    obtain c s where o: "tcp_output t (cr_conn r) (cr_net r) = (c, s)" by fastforce
    then have "output_loop t (s_used (cr_conn r) - in_flight (cr_conn r)) (cr_conn r) (cr_net r) = (c, s)"
      using True unsent_eq [OF a(1)] by (simp add: tcp_output_def)
    from output_loop_ok [OF st ids refl this] obtain fs where "conn_stream base (cr_sent r) c" "same_globals (cr_net r) s"
      "tx_frames s = tx_frames (cr_net r) @ fs" "\<forall>f \<in> set fs. carries base (cr_sent r) f \<and> checksums_ok f"
      by blast
    with Output True ids o show ?thesis
      by (auto simp: do_event.simps send_inv_def same_globals_def ids_ok_def)
  next
    case (Timer t)
    obtain c s where o: "tcp_timer t (cr_conn r) (cr_net r) = (c, s)" by fastforce
    with timer_frames [OF True o] timer_stream [OF st o] Timer True ids show ?thesis
      by (simp add: do_event.simps send_inv_def)
  next
    case (Segment t flags seq ack f pos dlen)
    obtain c s where o: "conn_in t flags seq ack f pos dlen (cr_conn r) (cr_net r) = (c, s)" by fastforce
    with conn_in_stream [OF st ids o] Segment True show ?thesis
      by (simp add: do_event.simps send_inv_def)
  qed
qed

lemma events_send:
  assumes "send_inv base r"
  shows "send_inv base (fold do_event es r)
     \<and> (\<exists>xs. cr_sent (fold do_event es r) = cr_sent r @ xs)
     \<and> (\<exists>fs. tx_frames (cr_net (fold do_event es r)) = tx_frames (cr_net r) @ fs
           \<and> (\<forall>f \<in> set fs. carries base (cr_sent (fold do_event es r)) f \<and> checksums_ok f))"
  using assms
proof (induction es arbitrary: r)
  case (Cons e es)
  let ?r = "do_event e r"
  from do_event_send [OF Cons.prems, of e] obtain xs fs where e: "send_inv base ?r" "cr_sent ?r = cr_sent r @ xs"
    "tx_frames (cr_net ?r) = tx_frames (cr_net r) @ fs" "\<forall>f \<in> set fs. carries base (cr_sent r) f \<and> checksums_ok f"
    by blast
  from Cons.IH [OF e(1)] obtain ys gs where es: "send_inv base (fold do_event es ?r)"
    "cr_sent (fold do_event es ?r) = cr_sent ?r @ ys" "tx_frames (cr_net (fold do_event es ?r)) = tx_frames (cr_net ?r) @ gs"
    "\<forall>f \<in> set gs. carries base (cr_sent (fold do_event es ?r)) f \<and> checksums_ok f" by blast
  have "\<forall>f \<in> set (fs @ gs). carries base (cr_sent (fold do_event es ?r)) f \<and> checksums_ok f"
    using e(2,4) es(2,4) carries_mono by (metis Un_iff append.assoc set_append)
  with e es show ?case by (metis append.assoc comp_apply fold_simps(2))
qed simp

subsection \<open>What is received\<close>

text \<open>\<open>peer\<close> is everything the peer sends and \<open>rbase\<close> the sequence number of its first byte.\<close>

definition recv_inv :: "u32 \<Rightarrow> byte list \<Rightarrow> nat \<Rightarrow> crun \<Rightarrow> bool" where
  "recv_inv rbase peer k r \<longleftrightarrow> k \<le> length peer
     \<and> (if tstate (cr_conn r) = TS_ESTAB
        then rcv_nxt (cr_conn r) = rbase + of_nat k \<and> cr_read r @ rring (cr_conn r) = take k peer
        else \<exists>j \<le> k. cr_read r = take j peer)"

fun honest :: "u32 \<Rightarrow> byte list \<Rightarrow> cevent \<Rightarrow> bool" where
  "honest rbase peer (Segment t flags seq ack f pos dlen) \<longleftrightarrow>
     (dlen = 0 \<or> (\<exists>off < length peer. seq = rbase + of_nat off \<and> payload_at f pos dlen = take dlen (drop off peer)))"
| "honest rbase peer e \<longleftrightarrow> True"

fun is_fin :: "cevent \<Rightarrow> bool" where
  "is_fin (Segment t flags seq ack f pos dlen) \<longleftrightarrow> flags AND 0x01 \<noteq> 0"
| "is_fin e \<longleftrightarrow> False"

lemma prefix_read: "rd @ xs = take k peer \<Longrightarrow> k \<le> length peer \<Longrightarrow> \<exists>j \<le> k. rd = take j peer"
  by (intro exI [of _ "length rd"])
    (metis append_eq_conv_conj length_append length_take le_add1 min.absorb2 take_take)

lemma conn_data_recv:
  assumes "conn_ok c" "k \<le> length peer" "length peer < 2 ^ 32" "rcv_nxt c = rbase + of_nat k"
    "rd @ rring c = take k peer"
    "seq = rbase + of_nat off" "off < length peer" "payload_at f pos dlen = take dlen (drop off peer)"
  shows "\<exists>k' \<ge> k. k' \<le> length peer \<and> rcv_nxt (conn_data seq f pos dlen c) = rbase + of_nat k'
     \<and> rd @ rring (conn_data seq f pos dlen c) = take k' peer"
proof (cases "seq = rcv_nxt c")
  case False
  with assms show ?thesis by (intro exI [of _ k]) (simp add: conn_data_ok(7))
next
  case True
  let ?m = "min dlen (RCV_SZ - 1 - r_used c)"
  have "(of_nat off :: u32) = of_nat k" using True assms(4,6) by simp
  then have off: "off = k"
    using assms(2,3,7) by (simp add: of_nat_eq_iff word_of_nat_eq_iff take_bit_nat_eq_self)
  have "length (payload_at f pos dlen) = min dlen (length peer - k)"
    using assms(8) off by simp
  then have d: "dlen \<le> length peer - k" by simp
  have "take ?m (payload_at f pos dlen) = take ?m (drop k peer)"
    unfolding assms(8) off by (simp add: min_def)
  then have "rd @ rring (conn_data seq f pos dlen c) = take (k + ?m) peer"
    using conn_data_ok(6) [OF assms(1) True, of f pos dlen] assms(5) by (simp add: take_add)
  with conn_data_ok(6) [OF assms(1) True, of f pos dlen] assms(2,4) d show ?thesis
    by (intro exI [of _ "k + ?m"]) simp
qed

text \<open>The part of \<open>conn_in\<close> before the FIN test: what is stored and what is acknowledged.\<close>

lemma conn_in_data:
  fixes flags :: byte and t ack seq :: u32 and f :: "byte list" and pos dlen :: nat
  assumes "conn_ok c" "tstate c = TS_ESTAB" "ids_ok s"
    "honest rbase peer (Segment t flags seq ack f pos dlen)" "length peer < 2 ^ 32"
    "k \<le> length peer" "rcv_nxt c = rbase + of_nat k" "rd @ rring c = take k peer"
  defines "c1 \<equiv> if flags AND 0x10 \<noteq> 0 then conn_ack t ack c else c"
  defines "c2 \<equiv> if dlen \<noteq> 0 then conn_data seq f pos dlen c1 else c1"
  defines "s2 \<equiv> if dlen \<noteq> 0 then tcp_send_seg c2 0x10 False 0 0 s else s"
  shows "\<exists>k' \<ge> k. k' \<le> length peer \<and> tstate c2 = TS_ESTAB \<and> conn_ok c2 \<and> ids_ok s2 \<and> rcv_nxt c2 = rbase + of_nat k'
     \<and> rd @ rring c2 = take k' peer
     \<and> (\<exists>fs. tx_frames s2 = tx_frames s @ fs \<and> (\<forall>f \<in> set fs. frame_ack f = rbase + of_nat k'))
     \<and> conn_in t flags seq ack f pos dlen c s =
         (if flags AND 0x01 \<noteq> 0
          then (tcp_reset_listen (c2\<lparr>rcv_nxt := rcv_nxt c2 + 1\<rparr>), tcp_send_seg (c2\<lparr>rcv_nxt := rcv_nxt c2 + 1\<rparr>) 0x10 False 0 0 s2)
          else (c2, s2))"
proof -
  have c1: "conn_ok c1" "tstate c1 = TS_ESTAB" "rcv_nxt c1 = rbase + of_nat k" "rd @ rring c1 = take k peer"
    using assms(1,2,7,8) conn_ack_ok [OF assms(1,2), of t ack] by (simp_all add: c1_def rring_def r_used_def)
  note eq = conn_in_estab [OF assms(2) c1(2) [unfolded c1_def], where dlen = dlen and seq = seq and f = f and pos = pos and s = s,
      folded c1_def, folded c2_def, folded s2_def]
  have ids: "ids_ok s2" using assms(3) by (simp add: s2_def tcp_send_seg_eq ids_ok_def)
  show ?thesis
  proof (cases "dlen = 0")
    case True
    with c1 assms(6) ids show ?thesis unfolding eq by (intro exI [of _ k]) (simp add: c2_def s2_def)
  next
    case False
    with assms(4) obtain off where off: "off < length peer" "seq = rbase + of_nat off"
      "payload_at f pos dlen = take dlen (drop off peer)" by auto
    have c2: "c2 = conn_data seq f pos dlen c1" using False by (simp add: c2_def)
    from conn_data_recv [OF c1(1) assms(6,5) c1(3,4) off(2,1,3)] obtain k' where k': "k \<le> k'" "k' \<le> length peer"
      "rcv_nxt c2 = rbase + of_nat k'" "rd @ rring c2 = take k' peer" unfolding c2 by blast
    have ok: "conn_ok c2" "tstate c2 = TS_ESTAB" using c1(2) conn_data_ok(1,2) [OF c1(1)] unfolding c2 by simp_all
    have "frame_ack (tcp_frame s c2 0x10 False 0 0) = rbase + of_nat k'"
      using tcp_frame_fields(2) [OF addr_okI [OF assms(3) ok(1)]] k'(3) by simp
    then have "\<exists>fs. tx_frames s2 = tx_frames s @ fs \<and> (\<forall>f \<in> set fs. frame_ack f = rbase + of_nat k')"
      using False by (simp add: s2_def tcp_send_seg_eq)
    with k' ok ids eq show ?thesis by blast
  qed
qed

definition acks_upto :: "u32 \<Rightarrow> nat \<Rightarrow> byte list list \<Rightarrow> bool" where
  "acks_upto rbase k fs \<longleftrightarrow> (\<forall>f \<in> set fs. \<exists>j \<le> k. frame_ack f = rbase + of_nat j)"

lemma do_event_recv:
  assumes "send_inv base r" "recv_inv rbase peer k r" "honest rbase peer e" "length peer < 2 ^ 32" "\<not> is_fin e"
  shows "\<exists>k' \<ge> k. recv_inv rbase peer k' (do_event e r)
     \<and> (\<exists>fs. tx_frames (cr_net (do_event e r)) = tx_frames (cr_net r) @ fs \<and> acks_upto rbase k' fs)"
proof (cases "tstate (cr_conn r) = TS_ESTAB")
  case False
  with assms show ?thesis by (intro exI [of _ k]) (simp add: do_event.simps acks_upto_def)
next
  case True
  with assms(1) have st: "conn_stream base (cr_sent r) (cr_conn r)" and ids: "ids_ok (cr_net r)"
    by (simp_all add: send_inv_def)
  have ok: "conn_ok (cr_conn r)" using st by (simp add: conn_stream_def)
  have k: "k \<le> length peer" "rcv_nxt (cr_conn r) = rbase + of_nat k" "cr_read r @ rring (cr_conn r) = take k peer"
    using assms(2) True by (simp_all add: recv_inv_def)
  show ?thesis
  proof (cases e)
    case (Write b)
    have "rring (sbuf_put b (cr_conn r)) = rring (cr_conn r)" by (simp add: sbuf_put_def rring_def r_used_def)
    with Write True assms(2) show ?thesis
      by (intro exI [of _ k]) (simp add: do_event.simps acks_upto_def recv_inv_def, simp add: sbuf_put_def)
  next
    case Read
    show ?thesis
    proof (cases "conn_getc (cr_conn r)")
      case None
      with Read assms(2) show ?thesis by (intro exI [of _ k]) (simp add: do_event.simps acks_upto_def)
    next
      case (Some bc)
      obtain b c where bc: "conn_getc (cr_conn r) = Some (b, c)" using Some by (cases bc) simp
      have "rring (cr_conn r) = b # rring c" using rcv.get_SomeD [OF ok bc] by simp
      moreover have "c = (cr_conn r)\<lparr>r_tail := (r_tail (cr_conn r) + 1) mod RCV_SZ\<rparr>"
        using bc by (simp add: conn_getc_def split: if_splits)
      ultimately show ?thesis
        using Read True bc k by (intro exI [of _ k]) (simp add: do_event.simps acks_upto_def recv_inv_def)
    qed
  next
    case (Output t)
    obtain c s where o: "tcp_output t (cr_conn r) (cr_net r) = (c, s)" by fastforce
    then have "output_loop t (s_used (cr_conn r) - in_flight (cr_conn r)) (cr_conn r) (cr_net r) = (c, s)"
      using True unsent_eq [OF ok] by (simp add: tcp_output_def)
    from output_loop_ok [OF st ids refl this] obtain fs where fs: "tx_frames s = tx_frames (cr_net r) @ fs"
      "\<forall>f \<in> set fs. frame_ack f = rcv_nxt (cr_conn r)" and c: "rcv_nxt c = rcv_nxt (cr_conn r)"
      "rring c = rring (cr_conn r)" "tstate c = TS_ESTAB"
      by (auto simp: rring_def r_used_def conn_stream_def)
    have "acks_upto rbase k fs" using fs(2) k(2) by (auto simp: acks_upto_def)
    with Output True o fs(1) c k show ?thesis
      by (intro exI [of _ k]) (simp add: do_event.simps recv_inv_def)
  next
    case (Timer t)
    obtain c s where o: "tcp_timer t (cr_conn r) (cr_net r) = (c, s)" by fastforce
    have rd: "\<exists>j \<le> k. cr_read r = take j peer"
      by (rule prefix_read [OF k(3,1)])
    with timer_frames [OF True o] timer_stream [OF st o] Timer True o k show ?thesis
      by (intro exI [of _ k]) (simp add: do_event.simps recv_inv_def acks_upto_def)
  next
    case (Segment t flags seq ack f pos dlen)
    obtain c s where o: "conn_in t flags seq ack f pos dlen (cr_conn r) (cr_net r) = (c, s)" by fastforce
    from conn_in_data [OF ok True ids _ assms(4) k, of t flags seq ack f pos dlen] assms(3,5) Segment o
    obtain k' fs where "k \<le> k'" "k' \<le> length peer" "tstate c = TS_ESTAB" "rcv_nxt c = rbase + of_nat k'"
      "cr_read r @ rring c = take k' peer" "tx_frames s = tx_frames (cr_net r) @ fs" "\<forall>f \<in> set fs. frame_ack f = rbase + of_nat k'"
      by auto
    with Segment True o show ?thesis
      by (intro exI [of _ k']) (auto simp: do_event.simps recv_inv_def acks_upto_def)
  qed
qed

text \<open>A FIN ends the connection; its answer acknowledges one position more than is stored.\<close>

definition fin_answer :: "u32 \<Rightarrow> nat \<Rightarrow> crun \<Rightarrow> byte list list \<Rightarrow> bool" where
  "fin_answer rbase k r gs \<longleftrightarrow>
     tstate (cr_conn r) = TS_LISTEN \<and> (\<exists>g. gs = [g] \<and> frame_ack g = rbase + of_nat (k + 1))"

lemma do_event_fin:
  assumes "send_inv base r" "recv_inv rbase peer k r" "honest rbase peer e" "length peer < 2 ^ 32" "is_fin e"
    "tstate (cr_conn r) = TS_ESTAB"
  shows "\<exists>k' \<ge> k. recv_inv rbase peer k' (do_event e r)
     \<and> (\<exists>fs gs. tx_frames (cr_net (do_event e r)) = tx_frames (cr_net r) @ fs @ gs \<and> acks_upto rbase k' fs
          \<and> fin_answer rbase k' (do_event e r) gs)"
proof -
  obtain t flags seq ack f pos dlen where e: "e = Segment t flags seq ack f pos dlen" and fin: "flags AND 0x01 \<noteq> 0"
    using assms(5) by (cases e) auto
  have ok: "conn_ok (cr_conn r)" "ids_ok (cr_net r)" using assms(1,6) by (simp_all add: send_inv_def conn_stream_def)
  have k: "k \<le> length peer" "rcv_nxt (cr_conn r) = rbase + of_nat k" "cr_read r @ rring (cr_conn r) = take k peer"
    using assms(2,6) by (simp_all add: recv_inv_def)
  from conn_in_data [OF ok(1) assms(6) ok(2) _ assms(4) k, of t flags seq ack f pos dlen] assms(3) e fin
  obtain k' c2 s2 fs where d: "k \<le> k'" "k' \<le> length peer" "conn_ok c2" "ids_ok s2" "rcv_nxt c2 = rbase + of_nat k'"
    "cr_read r @ rring c2 = take k' peer" "tx_frames s2 = tx_frames (cr_net r) @ fs" "\<forall>f \<in> set fs. frame_ack f = rbase + of_nat k'"
    "conn_in t flags seq ack f pos dlen (cr_conn r) (cr_net r) =
      (tcp_reset_listen (c2\<lparr>rcv_nxt := rcv_nxt c2 + 1\<rparr>), tcp_send_seg (c2\<lparr>rcv_nxt := rcv_nxt c2 + 1\<rparr>) 0x10 False 0 0 s2)"
    by auto
  let ?c3 = "c2\<lparr>rcv_nxt := rcv_nxt c2 + 1\<rparr>"
  have "conn_ok ?c3" using d(3) by (simp add: conn_ok_rcv_nxt)
  then have "frame_ack (tcp_frame s2 ?c3 0x10 False 0 0) = rbase + of_nat (k' + 1)"
    using tcp_frame_fields(2) [OF addr_okI [OF d(4)], of ?c3] d(5) by (simp add: add.assoc)
  then have "\<exists>fs gs. tx_frames (cr_net (do_event e r)) = tx_frames (cr_net r) @ fs @ gs \<and> acks_upto rbase k' fs
          \<and> fin_answer rbase k' (do_event e r) gs"
    using d(7-9) e assms(6)
    by (intro exI [of _ fs] exI [of _ "[tcp_frame s2 ?c3 0x10 False 0 0]"])
      (auto simp: do_event.simps acks_upto_def fin_answer_def tcp_send_seg_eq tcp_reset_listen_def)
  moreover have "recv_inv rbase peer k' (do_event e r)"
    using prefix_read [OF d(6,2)] d(2,9) e assms(6) by (simp add: do_event.simps recv_inv_def tcp_reset_listen_def)
  ultimately show ?thesis using d(1) by blast
qed

lemma do_event_closed: "tstate (cr_conn r) \<noteq> TS_ESTAB \<Longrightarrow> fold do_event es r = r"
  by (induction es) (simp_all add: do_event.simps)

lemma events_recv:
  assumes "send_inv base r" "recv_inv rbase peer k r" "\<forall>e \<in> set es. honest rbase peer e" "length peer < 2 ^ 32"
  shows "\<exists>k' \<ge> k. recv_inv rbase peer k' (fold do_event es r)
     \<and> (\<exists>fs gs. tx_frames (cr_net (fold do_event es r)) = tx_frames (cr_net r) @ fs @ gs \<and> acks_upto rbase k' fs
          \<and> (gs = [] \<or> list_ex is_fin es \<and> fin_answer rbase k' (fold do_event es r) gs))"
  using assms
proof (induction es arbitrary: r k)
  case Nil
  then show ?case by (intro exI [of _ k]) (simp add: acks_upto_def)
next
  case (Cons e es)
  show ?case
  proof (cases "is_fin e \<and> tstate (cr_conn r) = TS_ESTAB")
    case True
    from do_event_fin [OF Cons.prems(1,2) _ Cons.prems(4), of e] Cons.prems(3) True
    obtain k1 fs gs where 1: "k \<le> k1" "recv_inv rbase peer k1 (do_event e r)"
      "tx_frames (cr_net (do_event e r)) = tx_frames (cr_net r) @ fs @ gs" "acks_upto rbase k1 fs"
      "fin_answer rbase k1 (do_event e r) gs" by auto
    then have "fold do_event es (do_event e r) = do_event e r" by (intro do_event_closed) (simp add: fin_answer_def)
    with 1 True show ?thesis by (intro exI [of _ k1]) auto
  next
    case False
    have "\<exists>k1 \<ge> k. recv_inv rbase peer k1 (do_event e r)
        \<and> (\<exists>fs. tx_frames (cr_net (do_event e r)) = tx_frames (cr_net r) @ fs \<and> acks_upto rbase k1 fs)"
    proof (cases "is_fin e")
      case True
      with False Cons.prems(2) show ?thesis
        by (intro exI [of _ k]) (simp add: do_event.simps acks_upto_def)
    next
      case False
      with do_event_recv [OF Cons.prems(1,2) _ Cons.prems(4), of e] Cons.prems(3) show ?thesis by simp
    qed
    then obtain k1 fs where 1: "k \<le> k1" "recv_inv rbase peer k1 (do_event e r)"
      "tx_frames (cr_net (do_event e r)) = tx_frames (cr_net r) @ fs" "acks_upto rbase k1 fs" by blast
    have s: "send_inv base (do_event e r)" using do_event_send [OF Cons.prems(1)] by blast
    from Cons.IH [OF s 1(2) _ Cons.prems(4)] Cons.prems(3)
    obtain k2 fs2 gs where 2: "k1 \<le> k2" "recv_inv rbase peer k2 (fold do_event es (do_event e r))"
      "tx_frames (cr_net (fold do_event es (do_event e r))) = tx_frames (cr_net (do_event e r)) @ fs2 @ gs"
      "acks_upto rbase k2 fs2" "gs = [] \<or> list_ex is_fin es \<and> fin_answer rbase k2 (fold do_event es (do_event e r)) gs" by auto
    have "acks_upto rbase k2 (fs @ fs2)"
      using 1(4) 2(1,4) unfolding acks_upto_def by (metis Un_iff order_trans set_append)
    moreover have "tx_frames (cr_net (fold do_event (e # es) r)) = tx_frames (cr_net r) @ (fs @ fs2) @ gs"
      using 1(3) 2(3) by simp
    moreover have "k \<le> k2" using 1(1) 2(1) by simp
    ultimately show ?thesis using 2(2,5)
      by (intro exI [of _ k2] conjI exI [of _ "fs @ fs2"] exI [of _ gs]) auto
  qed
qed

section \<open>Properties of a connection\<close>

definition fresh_run :: "conn \<Rightarrow> net \<Rightarrow> crun" where
  "fresh_run c s = \<lparr>cr_conn = c, cr_net = s, cr_sent = [], cr_read = []\<rparr>"

lemma fresh_send:
  assumes "conn_ok c" "tstate c = TS_ESTAB" "s_used c = 0" "ids_ok s"
  shows "send_inv (snd_nxt c) (fresh_run c s)"
proof -
  have "in_flight c = 0" using flight_le [OF assms(1)] assms(3) by simp
  then have "snd_nxt c = snd_una c" using assms by (simp add: conn_ok_def)
  then show ?thesis using assms by (simp add: send_inv_def fresh_run_def conn_stream_def sring_def)
qed

text \<open>C11. TCP transmission: on an established connection with an empty send ring, whatever the
  interleaving of writes, transmissions, timer ticks (go-back-N), acknowledgements and incoming
  segments, every segment the connection sends carries exactly the bytes the program wrote at that
  position of the stream (so a retransmission never changes a byte and sequence numbers and ring
  indices never drift apart, also across the wrap of either), with valid IP and TCP checksums.\<close>

theorem tcp_sends_stream:
  assumes "conn_ok c" "tstate c = TS_ESTAB" "s_used c = 0" "ids_ok s"
    and "r = fold do_event es (fresh_run c s)"
  shows "\<exists>fs. tx_frames (cr_net r) = tx_frames s @ fs
     \<and> (\<forall>f \<in> set fs. carries (snd_nxt c) (cr_sent r) f \<and> checksums_ok f)"
  using events_send [OF fresh_send [OF assms(1-4)], of es] unfolding assms(5) by (simp add: fresh_run_def)

text \<open>C12. TCP reception: if the payload of every segment that reaches the connection is a piece of the
  peer's stream (in any order, lost, repeated, overlapping the ring, with or without FIN), the bytes
  the program reads are a prefix of that stream, in order and without gaps, and no segment sent
  acknowledges a byte that was not stored.  The one exception is the answer to a FIN, the last segment
  of a connection the FIN has closed: it acknowledges exactly one position more than is stored,
  whatever position the FIN has in the peer's stream.\<close>

theorem tcp_receives_prefix:
  assumes "conn_ok c" "tstate c = TS_ESTAB" "s_used c = 0" "r_used c = 0" "ids_ok s"
    and "\<forall>e \<in> set es. honest (rcv_nxt c) peer e" "length peer < 2 ^ 32"
    and "r = fold do_event es (fresh_run c s)"
  shows "\<exists>k j fs gs. j \<le> k \<and> k \<le> length peer \<and> cr_read r = take j peer
     \<and> (tstate (cr_conn r) = TS_ESTAB \<longrightarrow> cr_read r @ rring (cr_conn r) = take k peer)
     \<and> tx_frames (cr_net r) = tx_frames s @ fs @ gs
     \<and> (\<forall>f \<in> set fs. \<exists>i \<le> k. frame_ack f = rcv_nxt c + of_nat i)
     \<and> (gs = [] \<or> list_ex is_fin es \<and> tstate (cr_conn r) = TS_LISTEN
          \<and> (\<exists>g. gs = [g] \<and> frame_ack g = rcv_nxt c + of_nat (k + 1)))"
proof -
  have "recv_inv (rcv_nxt c) peer 0 (fresh_run c s)"
    using assms(2,4) by (simp add: recv_inv_def fresh_run_def rring_def)
  from events_recv [OF fresh_send [OF assms(1-3,5)] this assms(6,7)]
  obtain k fs gs where k: "recv_inv (rcv_nxt c) peer k r" "tx_frames (cr_net r) = tx_frames s @ fs @ gs" "acks_upto (rcv_nxt c) k fs"
    "gs = [] \<or> list_ex is_fin es \<and> fin_answer (rcv_nxt c) k r gs"
    unfolding assms(8) by (auto simp: fresh_run_def)
  have le: "k \<le> length peer" "tstate (cr_conn r) = TS_ESTAB \<longrightarrow> cr_read r @ rring (cr_conn r) = take k peer"
    using k(1) by (auto simp: recv_inv_def split: if_splits)
  have "\<exists>j \<le> k. cr_read r = take j peer"
  proof (cases "tstate (cr_conn r) = TS_ESTAB")
    case True
    with prefix_read [OF _ le(1)] le(2) show ?thesis by blast
  next
    case False
    then show ?thesis using k(1) by (simp add: recv_inv_def)
  qed
  with le k show ?thesis unfolding acks_upto_def fin_answer_def by blast
qed

text \<open>What the exception amounts to: a FIN behind a gap, with or without data, is answered by the
  acknowledgement of the first byte that is missing, and the connection is closed.\<close>

lemma fin_acks_missing_byte:
  assumes "conn_ok c" "tstate c = TS_ESTAB" "ids_ok s" "flags AND 0x01 \<noteq> 0" "flags AND 0x10 = 0" "seq \<noteq> rcv_nxt c"
  shows "\<exists>fs g. tx_frames (snd (conn_in t flags seq ack f pos dlen c s)) = tx_frames s @ fs @ [g]
     \<and> frame_ack g = rcv_nxt c + 1 \<and> tstate (fst (conn_in t flags seq ack f pos dlen c s)) = TS_LISTEN"
proof -
  let ?s2 = "if dlen \<noteq> 0 then tcp_send_seg c 0x10 False 0 0 s else s" and ?c3 = "c\<lparr>rcv_nxt := rcv_nxt c + 1\<rparr>"
  have d: "conn_data seq f pos dlen c = c" using assms(6) by (simp add: conn_data_def)
  have eq: "conn_in t flags seq ack f pos dlen c s = (tcp_reset_listen ?c3, tcp_send_seg ?c3 0x10 False 0 0 ?s2)"
    using conn_in_estab [OF assms(2), where flags = flags and dlen = dlen and seq = seq and f = f and pos = pos and s = s]
      assms(2,4,5) d by simp
  have "ids_ok ?s2" using assms(3) by (simp add: tcp_send_seg_eq ids_ok_def)
  moreover have "conn_ok ?c3" using assms(1) by (simp add: conn_ok_rcv_nxt)
  ultimately have "frame_ack (tcp_frame ?s2 ?c3 0x10 False 0 0) = rcv_nxt c + 1"
    using tcp_frame_fields(2) [OF addr_okI, of ?s2 ?c3] by simp
  then show ?thesis unfolding eq by (cases "dlen = 0") (auto simp: tcp_send_seg_eq tcp_reset_listen_def)
qed

text \<open>Nothing is left behind: \<open>tcp_output\<close> on an established connection sends all bytes of the
  ring not yet sent, once and in order, in segments of at most \<open>MSS_TX\<close> bytes, and afterwards
  everything buffered is in flight.\<close>

theorem tcp_output_sends_all:
  assumes "conn_ok c" "tstate c = TS_ESTAB" "ids_ok s" "tcp_output ticks c s = (c', s')"
  shows "\<exists>fs. tx_frames s' = tx_frames s @ fs \<and> concat (map frame_payload fs) = drop (in_flight c) (sring c)
     \<and> (\<forall>f \<in> set fs. 0 < length (frame_payload f) \<and> length (frame_payload f) \<le> MSS_TX)
     \<and> conn_ok c' \<and> in_flight c' = s_used c' \<and> sring c' = sring c"
proof -
  have st: "conn_stream (snd_una c) (sring c) c"
    using assms(1,2) unfolding conn_stream_def by (intro conjI exI [of _ 0]) simp_all
  have "output_loop ticks (s_used c - in_flight c) c s = (c', s')"
    using assms(2,4) unsent_eq [OF assms(1)] by (simp add: tcp_output_def)
  from output_loop_ok [OF st assms(3) refl this] show ?thesis unfolding conn_stream_def by blast
qed

text \<open>The connection and the stack the witnesses use.\<close>

definition wit_conn :: conn where
  "wit_conn = \<lparr>tstate = TS_ESTAB, peer_mac = [1, 2, 3, 4, 5, 6], peer_ip = [10, 0, 2, 2], peer_port = 4000,
     snd_una = 0xFFFFFFFF, snd_nxt = 0xFFFFFFFF, rcv_nxt = 77, sbuf = replicate SND_SZ 0, s_una = 4095, s_nxt = 4095,
     s_end = 4095, rbuf = replicate RCV_SZ 0, r_head = 511, r_tail = 511, rexmit_at = 0, rexmit_count = 0,
     just_estab = False, ready = True\<rparr>"

definition wit_net :: net where
  "wit_net = \<lparr>g_mac = [2, 0, 0, 0, 0, 1], g_ip = [10, 0, 2, 15], g_rx_frames = 0, g_arp_replies = 0, g_tcp_segs = 0,
     pkt_int = 0x60, pkt_handle = 0, my_port = 23, pkt_stage = replicate 1600 0, pkt_len = 0, pkt_flag = False,
     g_ip_id = 0, conns = [], work = replicate 1600 0, tx_frames = []\<rparr>"

lemma wit_conn_ok: "conn_ok wit_conn" "tstate wit_conn = TS_ESTAB" "s_used wit_conn = 0" "r_used wit_conn = 0"
  "in_flight wit_conn = 0" "ids_ok wit_net"
  by (simp_all add: conn_ok_def wit_conn_def s_used_def r_used_def in_flight_def wit_net_def ids_ok_def SND_SZ_def RCV_SZ_def)

theorem tcp_sends_stream_witness:
  "\<exists>fs. tx_frames (cr_net (fold do_event [Write 65, Write 66, Output 1, Timer 20, Output 20] (fresh_run wit_conn wit_net)))
        = tx_frames wit_net @ fs
     \<and> (\<forall>f \<in> set fs. carries (snd_nxt wit_conn)
          (cr_sent (fold do_event [Write 65, Write 66, Output 1, Timer 20, Output 20] (fresh_run wit_conn wit_net))) f
          \<and> checksums_ok f)"
  by (rule tcp_sends_stream [OF wit_conn_ok(1-3,6) refl])

definition wit_events :: "cevent list" where
  "wit_events = [Segment 1 0x18 77 0xFFFFFFFF [72, 105] 0 2, Read, Segment 2 0x11 79 0xFFFFFFFF [] 0 0]"

definition wit_run :: crun where
  "wit_run = fold do_event wit_events (fresh_run wit_conn wit_net)"

lemma wit_events_honest: "\<forall>e \<in> set wit_events. honest (rcv_nxt wit_conn) [72, 105] e"
proof -
  have "payload_at [72, 105] 0 2 = [72, 105]" by code_simp
  then have "\<exists>off < length [72, 105 :: byte]. 77 = rcv_nxt wit_conn + of_nat off
      \<and> payload_at [72, 105] 0 2 = take 2 (drop off [72, 105])"
    by (intro exI [of _ 0]) (simp add: wit_conn_def)
  then show ?thesis by (simp add: wit_events_def)
qed

theorem tcp_receives_prefix_witness:
  "\<exists>k j fs gs. j \<le> k \<and> k \<le> length [72, 105 :: byte] \<and> cr_read wit_run = take j [72, 105]
     \<and> tx_frames (cr_net wit_run) = tx_frames wit_net @ fs @ gs
     \<and> (\<forall>f \<in> set fs. \<exists>i \<le> k. frame_ack f = rcv_nxt wit_conn + of_nat i) \<and> length gs \<le> 1"
proof -
  from tcp_receives_prefix [OF wit_conn_ok(1-4,6) wit_events_honest _ wit_run_def]
  obtain k j fs gs where "j \<le> k" "k \<le> length [72, 105 :: byte]" "cr_read wit_run = take j [72, 105]"
     "tx_frames (cr_net wit_run) = tx_frames wit_net @ fs @ gs" "\<forall>f \<in> set fs. \<exists>i \<le> k. frame_ack f = rcv_nxt wit_conn + of_nat i"
     "gs = [] \<or> (\<exists>g. gs = [g] \<and> frame_ack g = rcv_nxt wit_conn + of_nat (k + 1))" by auto
  then show ?thesis by (intro exI [of _ k] exI [of _ j] exI [of _ fs] exI [of _ gs]) auto
qed

theorem tcp_output_sends_all_witness:
  "\<exists>fs. tx_frames (snd (tcp_output 5 (sbuf_put 65 wit_conn) wit_net)) = tx_frames wit_net @ fs
     \<and> concat (map frame_payload fs) = drop (in_flight (sbuf_put 65 wit_conn)) (sring (sbuf_put 65 wit_conn))
     \<and> (\<forall>f \<in> set fs. 0 < length (frame_payload f) \<and> length (frame_payload f) \<le> MSS_TX)
     \<and> conn_ok (fst (tcp_output 5 (sbuf_put 65 wit_conn) wit_net))
     \<and> in_flight (fst (tcp_output 5 (sbuf_put 65 wit_conn) wit_net)) = s_used (fst (tcp_output 5 (sbuf_put 65 wit_conn) wit_net))
     \<and> sring (fst (tcp_output 5 (sbuf_put 65 wit_conn) wit_net)) = sring (sbuf_put 65 wit_conn)"
proof (rule tcp_output_sends_all [OF _ _ wit_conn_ok(6) prod.collapse [symmetric]])
  show "conn_ok (sbuf_put 65 wit_conn)"
    using sbuf_put_ok(1) [OF wit_conn_ok(1)] wit_conn_ok(3) by (simp add: SND_SZ_def)
  show "tstate (sbuf_put 65 wit_conn) = TS_ESTAB" by (simp add: sbuf_put_def wit_conn_def)
qed

end
