(* ===== verification/Netapi.thy ===== *)
theory Netapi
  imports Tcp
begin

text \<open>
  The stack of \<open>net.c\<close> as its clients see it: the invariant \<open>net_ok\<close> is kept by every entry
  point and by the packet driver, the broadcast is all-or-none and reaches admitted slots only,
  a dead peer's slot is reclaimed, ARP requests for our address are answered, and parsing never
  reads outside the receive buffer.  Two theorems record defects: a retransmitted SYN|ACK can never
  be completed, and a slot taken over by a new SYN keeps the admission of its previous owner.
\<close>

section \<open>The invariant of the stack\<close>

definition net_ok :: "net \<Rightarrow> bool" where
  "net_ok s \<longleftrightarrow> ids_ok s \<and> list_all conn_ok (conns s) \<and> length (work s) = 1600 \<and> length (pkt_stage s) = 1600"

lemma net_ok_conn: "net_ok s \<Longrightarrow> i < length (conns s) \<Longrightarrow> conn_ok (conns s ! i)"
  by (simp add: net_ok_def list_all_length)

lemma net_ok_send [simp]: "net_ok (tcp_send_seg c flags mss doff dlen s) = net_ok s"
  "conns (tcp_send_seg c flags mss doff dlen s) = conns s"
  by (simp_all add: tcp_send_seg_eq net_ok_def ids_ok_def)

lemma net_ok_update: "net_ok s \<Longrightarrow> conn_ok c \<Longrightarrow> net_ok (s\<lparr>conns := (conns s)[i := c]\<rparr>)"
  by (cases "i < length (conns s)")
    (auto simp: net_ok_def ids_ok_def list_all_iff dest!: in_set_conv_nth [THEN iffD1] simp: nth_list_update
      split: if_splits)

lemma put_conn_ok: "net_ok s \<Longrightarrow> conn_ok c \<Longrightarrow> net_ok (put_conn i (c, s))"
  by (simp add: put_conn_def net_ok_update)

text \<open>Per-connection operations keep \<open>conn_ok\<close> and change nothing of the stack but what is sent.\<close>

definition step_ok :: "(conn \<Rightarrow> net \<Rightarrow> conn \<times> net) \<Rightarrow> bool" where
  "step_ok op \<longleftrightarrow> (\<forall>c s. conn_ok c \<longrightarrow> ids_ok s \<longrightarrow> conn_ok (fst (op c s)) \<and> same_globals s (snd (op c s)))"

lemma same_globals_ok: "same_globals s s' \<Longrightarrow> net_ok s' = net_ok s" "same_globals s s' \<Longrightarrow> ids_ok s' = ids_ok s"
  by (simp_all add: same_globals_def net_ok_def ids_ok_def)

lemma same_globals_simps [simp]: "same_globals s s" "same_globals s (tcp_send_seg c flags mss doff dlen s)"
  by (simp_all add: same_globals_def tcp_send_seg_eq)

lemma step_ok_put:
  assumes "step_ok op" "net_ok s" "i < length (conns s)"
  shows "net_ok (put_conn i (op (conns s ! i) s))" "length (conns (put_conn i (op (conns s ! i) s))) = length (conns s)"
proof -
  have "conn_ok (fst (op (conns s ! i) s))" "same_globals s (snd (op (conns s ! i) s))"
    using assms net_ok_conn [OF assms(2,3)] by (auto simp: step_ok_def net_ok_def)
  with assms(2) show "net_ok (put_conn i (op (conns s ! i) s))" "length (conns (put_conn i (op (conns s ! i) s))) = length (conns s)"
    by (simp_all add: put_conn_def same_globals_ok net_ok_update) (simp add: same_globals_def)
qed

lemma each_conn_ok:
  assumes "step_ok op" "net_ok s"
  shows "net_ok (each_conn op s)" "length (conns (each_conn op s)) = length (conns s)"
proof -
  have "net_ok (fold (\<lambda>i s. put_conn i (op (conns s ! i) s)) is s) \<and>
      length (conns (fold (\<lambda>i s. put_conn i (op (conns s ! i) s)) is s)) = length (conns s)"
    if "net_ok s" "\<forall>i \<in> set is. i < length (conns s)" for "is" s
    using that by (induction "is" arbitrary: s) (simp_all add: step_ok_put [OF assms(1)])
  from this [OF assms(2), of "[0..<length (conns s)]"]
  show "net_ok (each_conn op s)" "length (conns (each_conn op s)) = length (conns s)"
    by (simp_all add: each_conn_def)
qed

lemma estab_stream: "conn_ok c \<Longrightarrow> tstate c = TS_ESTAB \<Longrightarrow> conn_stream (snd_una c) (sring c) c"
  unfolding conn_stream_def by (intro conjI exI [of _ 0]) simp_all

lemma tcp_output_ok: "step_ok (tcp_output ticks)"
  unfolding step_ok_def
proof (intro allI impI)
  fix c s assume ok: "conn_ok c" "ids_ok s"
  obtain c' s' where o: "tcp_output ticks c s = (c', s')" by fastforce
  show "conn_ok (fst (tcp_output ticks c s)) \<and> same_globals s (snd (tcp_output ticks c s))"
  proof (cases "tstate c = TS_ESTAB")
    case False
    with ok show ?thesis by (simp add: tcp_output_def)
  next
    case True
    then have "output_loop ticks (s_used c - in_flight c) c s = (c', s')"
      using o unsent_eq [OF ok(1)] by (simp add: tcp_output_def)
    from output_loop_ok [OF estab_stream [OF ok(1) True] ok(2) refl this] o show ?thesis
      unfolding conn_stream_def by simp
  qed
qed

text \<open>The three outcomes of \<open>tcp_timer\<close>.\<close>

definition timer_due :: "u32 \<Rightarrow> conn \<Rightarrow> bool" where
  "timer_due ticks c \<longleftrightarrow> tstate c \<noteq> TS_LISTEN \<and> sint (snd_nxt c - snd_una c) > 0 \<and> sint (ticks - rexmit_at c) \<ge> 0"

definition rewound :: "conn \<Rightarrow> conn" where
  "rewound c = c\<lparr>rexmit_count := w16 (rexmit_count c + 1), s_nxt := s_una c, snd_nxt := snd_una c\<rparr>"

lemma tcp_timer_cases:
  "\<not> timer_due ticks c \<Longrightarrow> tcp_timer ticks c s = (c, s)"
  "timer_due ticks c \<Longrightarrow> w16 (rexmit_count c + 1) > MAX_REXMIT \<Longrightarrow>
     tcp_timer ticks c s = (tcp_reset_listen (c\<lparr>rexmit_count := w16 (rexmit_count c + 1)\<rparr>), s)"
  "timer_due ticks c \<Longrightarrow> w16 (rexmit_count c + 1) \<le> MAX_REXMIT \<Longrightarrow>
     tcp_timer ticks c s = ((rewound c)\<lparr>rexmit_at := ticks + REXMIT_TICKS\<rparr>,
       if tstate c = TS_SYNRCVD then tcp_send_seg (rewound c) 0x12 True 0 0 s else s)"
  by (cases "tstate c = TS_LISTEN"; cases "sint (snd_nxt c - snd_una c) > 0"; cases "sint (ticks - rexmit_at c) \<ge> 0";
      simp add: tcp_timer_def timer_due_def)
    (simp_all add: tcp_timer_def timer_due_def rewound_def Let_def)

lemma rewound_ok: "conn_ok c \<Longrightarrow> w16 (rexmit_count c + 1) \<le> MAX_REXMIT \<Longrightarrow> conn_ok ((rewound c)\<lparr>rexmit_at := t\<rparr>)"
  by (simp add: rewound_def conn_ok_def in_flight_def s_used_def)

lemma tcp_timer_ok: "step_ok (tcp_timer ticks)"
  unfolding step_ok_def
proof (intro allI impI)
  fix c s assume ok: "conn_ok c" "ids_ok s"
  consider "\<not> timer_due ticks c" | "timer_due ticks c" "w16 (rexmit_count c + 1) > MAX_REXMIT"
    | "timer_due ticks c" "w16 (rexmit_count c + 1) \<le> MAX_REXMIT" by linarith
  then show "conn_ok (fst (tcp_timer ticks c s)) \<and> same_globals s (snd (tcp_timer ticks c s))"
  proof cases
    case 1
    with ok show ?thesis by (simp add: tcp_timer_cases(1))
  next
    case 2
    have "conn_ok (tcp_reset_listen (c\<lparr>rexmit_count := k\<rparr>))" for k
      using ok(1) by (simp add: conn_ok_def tcp_reset_listen_def in_flight_def s_used_def)
    with 2 show ?thesis by (simp add: tcp_timer_cases(2))
  next
    case 3
    with rewound_ok [OF ok(1)] show ?thesis by (simp add: tcp_timer_cases(3))
  qed
qed

lemma conn_in_ok: "step_ok (conn_in ticks flags seq ack f pos dlen)"
  unfolding step_ok_def
proof (intro allI impI)
  fix c s assume ok: "conn_ok c" "ids_ok s"
  let ?e = "c\<lparr>snd_una := ack, tstate := TS_ESTAB, just_estab := True, rexmit_count := 0\<rparr>"
  have estab: "conn_ok (fst (conn_in ticks flags seq ack f pos dlen c s))
      \<and> same_globals s (snd (conn_in ticks flags seq ack f pos dlen c s))" if c: "conn_ok c" "tstate c = TS_ESTAB" for c
  proof -
    let ?c1 = "if flags AND 0x10 \<noteq> 0 then conn_ack ticks ack c else c"
    let ?c2 = "if dlen \<noteq> 0 then conn_data seq f pos dlen ?c1 else ?c1"
    have c1: "conn_ok ?c1" "tstate ?c1 = TS_ESTAB" using conn_ack_ok [OF c, of ticks ack] c by simp_all
    have c2: "conn_ok ?c2" using c1 conn_data_ok(1) [OF c1(1)] by simp
    have "conn_ok (tcp_reset_listen (?c2\<lparr>rcv_nxt := rcv_nxt ?c2 + 1\<rparr>))"
      by (rule conn_ok_reset) (use c2 in \<open>simp add: conn_ok_rcv_nxt\<close>)
    with c2 show ?thesis
      unfolding conn_in_estab [OF c(2) c1(2), where dlen = dlen and seq = seq and f = f and pos = pos and s = s]
      by (cases "dlen = 0"; cases "flags AND 1 = 0") (simp_all add: same_globals_def tcp_send_seg_eq)
  qed
  show "conn_ok (fst (conn_in ticks flags seq ack f pos dlen c s))
      \<and> same_globals s (snd (conn_in ticks flags seq ack f pos dlen c s))"
  proof (cases "tstate c = TS_SYNRCVD \<and> flags AND 0x10 \<noteq> 0 \<and> ack = snd_nxt c")
    case True
    then have "conn_ok ?e"
      using ok(1) by (auto simp: conn_ok_def in_flight_def s_used_def)
    moreover have "conn_in ticks flags seq ack f pos dlen c s = conn_in ticks flags seq ack f pos dlen ?e s"
      using True by (simp add: conn_in_def)
    ultimately show ?thesis using estab [of ?e] by simp
  next
    case False
    show ?thesis
    proof (cases "tstate c")
      case TS_ESTAB
      with ok estab show ?thesis by blast
    qed (use False ok in \<open>auto simp: conn_in_def\<close>)
  qed
qed

lemma conn_syn_ok:
  assumes "length srcmac = 6" "length srcip = 4"
  shows "step_ok (conn_syn ticks i srcmac srcip sport seq)"
  unfolding step_ok_def using assms
  by (simp add: conn_syn_def Let_def conn_ok_def in_flight_def s_used_def)

lemma find_index_bound: "find_index P xs k = Some i \<Longrightarrow> k \<le> i \<and> i < k + length xs \<and> P (xs ! (i - k))"
proof (induction xs arbitrary: k)
  case (Cons x xs)
  show ?case
  proof (cases "P x")
    case True
    with Cons.prems show ?thesis by simp
  next
    case False
    with Cons.prems Cons.IH [of "k + 1"] have "Suc k \<le> i" "i < Suc (k + length xs)" "P (xs ! (i - Suc k))" by auto
    then show ?thesis by (simp add: nth_Cons')
  qed
qed simp

lemma find_conn_bound: "find_conn sport srcip s = Some i \<Longrightarrow> i < length (conns s)"
  by (auto simp: find_conn_def dest: find_index_bound)

lemma alloc_conn_bound: "alloc_conn srcip s = Some i \<Longrightarrow> i < length (conns s)"
  by (auto simp: alloc_conn_def dest: find_index_bound split: option.splits)

lemma reset_step: "step_ok (\<lambda>c s. (tcp_reset_listen c, s))"
  by (simp add: step_ok_def conn_ok_reset)

lemma tcp_in_ok:
  assumes "net_ok s" "length f = 1600"
  shows "net_ok (tcp_in ticks f n s)" "length (conns (tcp_in ticks f n s)) = length (conns s)"
proof -
  have len: "length (take 6 (drop 6 f)) = 6" "length (take 4 (drop (IP_OFF + 12) f)) = 4"
    using assms(2) by (simp_all add: IP_OFF_def ETH_HLEN_def)
  have rst: "net_ok (send_rst m ip p q s)" "length (conns (send_rst m ip p q s)) = length (conns s)" for m ip p q
    using assms(1) by (simp_all add: send_rst_def ip_send_eq Let_def net_ok_def ids_ok_def)
  note put = step_ok_put [OF _ assms(1)]
  show "net_ok (tcp_in ticks f n s)" "length (conns (tcp_in ticks f n s)) = length (conns s)"
    using assms(1) rst put [OF reset_step] put [OF conn_syn_ok [OF len]] put [OF conn_in_ok]
    by (auto simp: tcp_in_def Let_def dest!: find_conn_bound alloc_conn_bound split: option.split)
qed

lemma handle_frame_ok:
  assumes "net_ok s" "length f = 1600"
  shows "net_ok (handle_frame ticks f n s)" "length (conns (handle_frame ticks f n s)) = length (conns s)"
  using assms tcp_in_ok [OF assms]
  by (simp_all add: handle_frame_def arp_in_def Let_def pkt_send_def net_ok_def ids_ok_def)

lemma rx_stage_ok:
  assumes "net_ok s"
  shows "net_ok (rx_stage ticks s)" "length (conns (rx_stage ticks s)) = length (conns s)"
proof -
  let ?n = "if pkt_len s > 1600 then 1600 else pkt_len s"
  let ?s = "s\<lparr>work := take ?n (pkt_stage s) @ drop ?n (work s), pkt_flag := False, g_rx_frames := g_rx_frames s + 1\<rparr>"
  have "net_ok ?s" using assms by (simp add: net_ok_def ids_ok_def)
  moreover from this have "length (work ?s) = 1600" unfolding net_ok_def by blast
  ultimately have "net_ok (handle_frame ticks (work ?s) ?n ?s)"
    "length (conns (handle_frame ticks (work ?s) ?n ?s)) = length (conns ?s)"
    by (rule handle_frame_ok)+
  with assms show "net_ok (rx_stage ticks s)" "length (conns (rx_stage ticks s)) = length (conns s)"
    by (simp_all add: rx_stage_def Let_def)
qed

lemma net_poll_ok:
  assumes "net_ok s"
  shows "net_ok (net_poll ticks s)" "length (conns (net_poll ticks s)) = length (conns s)"
  using assms by (simp_all add: net_poll_def each_conn_ok tcp_output_ok tcp_timer_ok rx_stage_ok)

section \<open>The broadcast\<close>

text \<open>A full, admitted slot is slow when its peer still acknowledges, dead when it does not.\<close>

definition stuck :: "conn \<Rightarrow> bool" where
  "stuck c \<longleftrightarrow> tstate c = TS_ESTAB \<and> ready c \<and> s_used c \<ge> SND_SZ - 1"

definition evict :: "conn \<Rightarrow> conn" where
  "evict c = (if stuck c \<and> rexmit_count c > 0 then tcp_reset_listen c else c)"

lemma tx_admit_room:
  "\<forall>c \<in> set cs. \<not> (stuck c \<and> rexmit_count c = 0) \<Longrightarrow> tx_admit cs = (True, map evict cs)"
  by (induction cs) (auto simp: stuck_def evict_def)

lemma tx_admit_slow:
  "\<exists>c \<in> set cs. stuck c \<and> rexmit_count c = 0 \<Longrightarrow>
     \<exists>cs'. tx_admit cs = (False, cs') \<and> list_all2 (\<lambda>c c'. c' = c \<or> c' = evict c) cs cs'"
proof (induction cs)
  case (Cons c cs)
  show ?case
  proof (cases "stuck c \<and> rexmit_count c = 0")
    case True
    then show ?thesis by (auto simp: stuck_def list_all2_refl)
  next
    case False
    with Cons.prems have "\<exists>c \<in> set cs. stuck c \<and> rexmit_count c = 0" by auto
    from Cons.IH [OF this] obtain cs' where cs': "tx_admit cs = (False, cs')"
      "list_all2 (\<lambda>c c'. c' = c \<or> c' = evict c) cs cs'" by blast
    have "tx_admit (c # cs) = (False, evict c # cs')"
      using False cs'(1) by (auto simp: stuck_def evict_def)
    with cs'(2) show ?thesis by simp
  qed
qed simp

lemma evict_ok: "conn_ok c \<Longrightarrow> conn_ok (evict c)"
  by (simp add: evict_def conn_ok_reset)

definition screen_put :: "byte \<Rightarrow> conn \<Rightarrow> conn" where
  "screen_put ch c = (if tstate c = TS_ESTAB \<and> ready c then sbuf_put ch c else c)"

lemma net_tx_putc_eq:
  "\<not> (\<exists>c \<in> set (conns s). stuck c \<and> rexmit_count c = 0) \<Longrightarrow>
     net_tx_putc ch s = (True, s\<lparr>conns := map (\<lambda>c. screen_put ch (evict c)) (conns s)\<rparr>)"
  "\<exists>c \<in> set (conns s). stuck c \<and> rexmit_count c = 0 \<Longrightarrow>
     \<exists>cs'. net_tx_putc ch s = (False, s\<lparr>conns := cs'\<rparr>) \<and> list_all2 (\<lambda>c c'. c' = c \<or> c' = evict c) (conns s) cs'"
  using tx_admit_room [of "conns s"] tx_admit_slow [of "conns s"]
  by (auto simp: net_tx_putc_def screen_put_def)

lemma screen_put_evict:
  assumes "conn_ok c" "\<not> (stuck c \<and> rexmit_count c = 0)"
  shows "conn_ok (screen_put ch (evict c))"
    "tstate (evict c) = TS_ESTAB \<Longrightarrow> ready (evict c) \<Longrightarrow> evict c = c \<and> sring (screen_put ch (evict c)) = sring c @ [ch]"
proof -
  have e: "evict c = c \<and> \<not> stuck c \<or> tstate (evict c) = TS_LISTEN"
    using assms(2) by (auto simp: evict_def tcp_reset_listen_def)
  then show "conn_ok (screen_put ch (evict c))"
    using evict_ok [OF assms(1)] sbuf_put_ok(1) [OF assms(1)] by (auto simp: screen_put_def stuck_def)
  show "evict c = c \<and> sring (screen_put ch (evict c)) = sring c @ [ch]" if "tstate (evict c) = TS_ESTAB" "ready (evict c)"
    using that e sbuf_put_ok(2) [OF assms(1)] by (auto simp: screen_put_def stuck_def)
qed

lemma net_tx_putc_ok:
  assumes "net_ok s"
  shows "net_ok (snd (net_tx_putc ch s))" "length (conns (snd (net_tx_putc ch s))) = length (conns s)"
proof -
  have "net_ok (snd (net_tx_putc ch s)) \<and> length (conns (snd (net_tx_putc ch s))) = length (conns s)"
  proof (cases "\<exists>c \<in> set (conns s). stuck c \<and> rexmit_count c = 0")
    case False
    have "list_all conn_ok (map (\<lambda>c. screen_put ch (evict c)) (conns s))"
      using assms False screen_put_evict(1) by (auto simp: list_all_iff net_ok_def)
    with assms show ?thesis unfolding net_tx_putc_eq(1) [OF False] by (simp add: net_ok_def ids_ok_def)
  next
    case True
    from net_tx_putc_eq(2) [OF True, of ch] obtain cs' where s': "snd (net_tx_putc ch s) = s\<lparr>conns := cs'\<rparr>"
      and r: "list_all2 (\<lambda>c c'. c' = c \<or> c' = evict c) (conns s) cs'" by auto
    have len: "length cs' = length (conns s)" using r by (simp add: list_all2_lengthD)
    have "list_all conn_ok cs'"
      using r assms evict_ok unfolding list_all2_conv_all_nth list_all_length net_ok_def by metis
    with assms len show ?thesis unfolding s' by (simp add: net_ok_def ids_ok_def)
  qed
  then show "net_ok (snd (net_tx_putc ch s))" "length (conns (snd (net_tx_putc ch s))) = length (conns s)" by blast+
qed

text \<open>C13. The screen broadcast is all-or-none: when \<open>net_tx_putc\<close> accepts a byte, every established and
  admitted slot has it appended to its stream, except those evicted because their ring was full and
  their peer had stopped acknowledging, which are back in LISTEN; a slot that is not admitted is
  untouched.  When it refuses the byte, some admitted slot is full and alive, and no slot's stream
  was extended.\<close>

theorem broadcast_all_or_none:
  assumes "net_ok s" "net_tx_putc ch s = (ok, s')" "i < length (conns s)"
  shows "net_ok s' \<and> length (conns s') = length (conns s)
    \<and> (tstate (conns s ! i) = TS_ESTAB \<and> ready (conns s ! i) \<or> conns s' ! i = conns s ! i)
    \<and> (ok \<longrightarrow> tstate (conns s' ! i) = TS_ESTAB \<longrightarrow> ready (conns s' ! i) \<longrightarrow> sring (conns s' ! i) = sring (conns s ! i) @ [ch])
    \<and> (ok \<longrightarrow> tstate (conns s ! i) = TS_ESTAB \<longrightarrow> ready (conns s ! i) \<longrightarrow> tstate (conns s' ! i) \<noteq> TS_ESTAB \<longrightarrow>
         s_used (conns s ! i) = SND_SZ - 1 \<and> rexmit_count (conns s ! i) > 0)
    \<and> (\<not> ok \<longrightarrow> (conns s' ! i = conns s ! i \<or> tstate (conns s' ! i) = TS_LISTEN)
         \<and> (\<exists>j < length (conns s). tstate (conns s ! j) = TS_ESTAB \<and> ready (conns s ! j)
              \<and> s_used (conns s ! j) = SND_SZ - 1 \<and> rexmit_count (conns s ! j) = 0))"
proof -
  let ?c = "conns s ! i"
  have ci: "conn_ok ?c" by (rule net_ok_conn [OF assms(1,3)])
  have inv: "net_ok s'" using net_tx_putc_ok(1) [OF assms(1), of ch] assms(2) by simp
  have full: "stuck c \<Longrightarrow> s_used c = SND_SZ - 1" for c
    using used_less(1) [of c] unfolding stuck_def by linarith
  show ?thesis
  proof (cases "\<exists>c \<in> set (conns s). stuck c \<and> rexmit_count c = 0")
    case False
    have s': "ok" "s' = s\<lparr>conns := map (\<lambda>c. screen_put ch (evict c)) (conns s)\<rparr>"
      using net_tx_putc_eq(1) [OF False] assms(2) by simp_all
    have nc: "\<not> (stuck ?c \<and> rexmit_count ?c = 0)" using False assms(3) by auto
    have c': "conns s' ! i = screen_put ch (evict ?c)" using s' assms(3) by simp
    have "tstate (screen_put ch c) = tstate c" "ready (screen_put ch c) = ready c" for c
      by (simp_all add: screen_put_def sbuf_put_def)
    note p = this [of "evict ?c"]
    have "sring (conns s' ! i) = sring ?c @ [ch]" if "tstate (conns s' ! i) = TS_ESTAB" "ready (conns s' ! i)"
      using screen_put_evict(2) [OF ci nc, of ch] that p unfolding c' by metis
    moreover have "conns s' ! i = ?c" if "\<not> (tstate ?c = TS_ESTAB \<and> ready ?c)"
      using that unfolding c' by (auto simp: evict_def stuck_def screen_put_def)
    moreover have "s_used ?c = SND_SZ - 1 \<and> rexmit_count ?c > 0" if "tstate ?c = TS_ESTAB" "tstate (conns s' ! i) \<noteq> TS_ESTAB"
      using that full [of ?c] p unfolding c' by (auto simp: evict_def split: if_splits)
    ultimately show ?thesis using s' inv by auto
  next
    case True
    from net_tx_putc_eq(2) [OF True, of ch] assms(2) obtain cs' where s': "\<not> ok" "s' = s\<lparr>conns := cs'\<rparr>"
      and r: "list_all2 (\<lambda>c c'. c' = c \<or> c' = evict c) (conns s) cs'" by auto
    have len: "length cs' = length (conns s)" using r by (simp add: list_all2_lengthD)
    have each: "cs' ! j = conns s ! j \<or> cs' ! j = evict (conns s ! j)" if "j < length (conns s)" for j
      using r that by (auto simp: list_all2_conv_all_nth)
    have "\<exists>j < length (conns s). tstate (conns s ! j) = TS_ESTAB \<and> ready (conns s ! j)
              \<and> s_used (conns s ! j) = SND_SZ - 1 \<and> rexmit_count (conns s ! j) = 0"
      using True full by (metis in_set_conv_nth stuck_def)
    moreover have "evict ?c = ?c \<or> tstate ?c = TS_ESTAB \<and> ready ?c \<and> tstate (evict ?c) = TS_LISTEN"
      by (simp add: evict_def stuck_def tcp_reset_listen_def)
    ultimately show ?thesis
      using each [OF assms(3)] s' len inv by auto
  qed
qed

definition wit_stack :: net where
  "wit_stack = wit_net\<lparr>conns := [wit_conn, wit_conn\<lparr>ready := False\<rparr>]\<rparr>"

lemma wit_stack_ok: "net_ok wit_stack"
proof -
  have "conn_ok (wit_conn\<lparr>ready := False\<rparr>)"
    using wit_conn_ok(1) by (simp add: conn_ok_def in_flight_def s_used_def)
  with wit_conn_ok show ?thesis
    by (simp add: net_ok_def wit_stack_def ids_ok_def) (simp add: wit_net_def)
qed

theorem broadcast_all_or_none_witness:
  "sring (conns (snd (net_tx_putc 65 wit_stack)) ! 0) = sring wit_conn @ [65]
     \<and> conns (snd (net_tx_putc 65 wit_stack)) ! 1 = wit_conn\<lparr>ready := False\<rparr>"
proof -
  have ns: "\<not> (\<exists>c \<in> set (conns wit_stack). stuck c \<and> rexmit_count c = 0)"
    using wit_conn_ok(3) by (simp add: wit_stack_def stuck_def SND_SZ_def)
  have c: "conns wit_stack ! 0 = wit_conn" "conns wit_stack ! 1 = wit_conn\<lparr>ready := False\<rparr>" "length (conns wit_stack) = 2"
    by (simp_all add: wit_stack_def)
  have e: "evict wit_conn = wit_conn" using wit_conn_ok(3) by (simp add: evict_def stuck_def SND_SZ_def)
  have est: "tstate (conns (snd (net_tx_putc 65 wit_stack)) ! 0) = TS_ESTAB" "ready (conns (snd (net_tx_putc 65 wit_stack)) ! 0)"
    using net_tx_putc_eq(1) [OF ns, of 65] e by (simp_all add: wit_stack_def screen_put_def sbuf_put_def) (simp_all add: wit_conn_def)
  have ok: "net_tx_putc 65 wit_stack = (True, snd (net_tx_putc 65 wit_stack))"
    using net_tx_putc_eq(1) [OF ns, of 65] by simp
  show ?thesis
    using broadcast_all_or_none [OF wit_stack_ok ok, of 0] broadcast_all_or_none [OF wit_stack_ok ok, of 1] est
    unfolding c by simp
qed

section \<open>Every entry point keeps the invariant\<close>

text \<open>What can happen to the stack: the driver delivers a frame, or the program calls an entry point.\<close>

datatype nop = Deliver "byte list" nat | Poll u32 | Putc byte | PutcSlot nat byte | Getc nat
  | SlotReady nat bool | SlotDrop nat | TakeNew | Flush u32

fun do_nop :: "nop \<Rightarrow> net \<Rightarrow> net" where
  "do_nop (Deliver fr n) s = s\<lparr>pkt_stage := take 1600 (fr @ drop (length fr) (pkt_stage s)), pkt_len := n, pkt_flag := True\<rparr>"
| "do_nop (Poll t) s = net_poll t s"
| "do_nop (Putc b) s = snd (net_tx_putc b s)"
| "do_nop (PutcSlot i b) s = snd (net_tx_putc_slot i b s)"
| "do_nop (Getc i) s = snd (net_rx_getc i s)"
| "do_nop (SlotReady i v) s = net_slot_ready i v s"
| "do_nop (SlotDrop i) s = net_slot_drop i s"
| "do_nop TakeNew s = snd (net_take_new_slot s)"
| "do_nop (Flush t) s = net_tx_flush t s"

lemma conn_ok_flags: "conn_ok (c\<lparr>ready := v\<rparr>) = conn_ok c" "conn_ok (c\<lparr>just_estab := v\<rparr>) = conn_ok c"
  by (simp_all add: conn_ok_def in_flight_def s_used_def)

lemma do_nop_ok:
  assumes "net_ok s"
  shows "net_ok (do_nop op s) \<and> length (conns (do_nop op s)) = length (conns s)"
proof (cases op)
  case (Deliver fr n)
  with assms show ?thesis by (auto simp: net_ok_def ids_ok_def)
next
  case (Poll t)
  with net_poll_ok [OF assms] show ?thesis by simp
next
  case (Putc b)
  with net_tx_putc_ok [OF assms] show ?thesis by simp
next
  case (PutcSlot i b)
  with assms net_ok_conn [OF assms, of i] show ?thesis
    by (auto simp: net_tx_putc_slot_def intro!: net_ok_update sbuf_put_ok(1))
next
  case (Getc i)
  show ?thesis
  proof (cases "i < length (conns s)")
    case True
    then have "conn_getc (conns s ! i) = Some (b, c) \<Longrightarrow> conn_ok c" for b c
      using rcv.get_SomeD net_ok_conn [OF assms True] by blast
    with Getc assms True show ?thesis
      by (cases "conn_getc (conns s ! i)") (auto simp: net_rx_getc_def intro: net_ok_update)
  qed (use Getc assms in \<open>simp add: net_rx_getc_def\<close>)
next
  case (SlotReady i v)
  with assms net_ok_conn [OF assms, of i] show ?thesis
    by (simp add: net_slot_ready_def net_ok_update conn_ok_flags)
next
  case (SlotDrop i)
  with assms net_ok_conn [OF assms, of i] show ?thesis
    by (simp add: net_slot_drop_def Let_def put_conn_ok conn_ok_reset) (simp add: put_conn_def)
next
  case TakeNew
  show ?thesis
  proof (cases "find_index just_estab (conns s) 0")
    case (Some i)
    then have "i < length (conns s)" using find_index_bound [OF Some] by simp
    with TakeNew Some assms net_ok_conn [OF assms, of i] show ?thesis
      by (simp add: net_take_new_slot_def net_ok_update conn_ok_flags)
  qed (use TakeNew assms in \<open>simp add: net_take_new_slot_def\<close>)
next
  case (Flush t)
  with each_conn_ok [OF tcp_output_ok assms] show ?thesis by (simp add: net_tx_flush_def)
qed

text \<open>C14. Invariant of the stack: from any well-formed state, no sequence of received frames (of any
  length and content) and calls of the link API makes a ring index leave its ring, lets \<open>s_nxt\<close>
  overtake \<open>s_end\<close>, or makes an established connection's sequence numbers disagree with its ring.\<close>

theorem net_ok_always:
  assumes "net_ok s"
  shows "net_ok (fold do_nop ops s) \<and> length (conns (fold do_nop ops s)) = length (conns s)"
  using assms by (induction ops arbitrary: s) (simp_all add: do_nop_ok)

theorem net_ok_always_witness:
  "net_ok (fold do_nop [Deliver [1, 2, 3] 9000, Poll 7, Putc 65, PutcSlot 1 66, Flush 8, SlotDrop 0] wit_stack)"
  using net_ok_always [OF wit_stack_ok] by blast

section \<open>Handshake and slot reuse\<close>

lemma find_index_None: "find_index P xs k = None \<longleftrightarrow> (\<forall>x \<in> set xs. \<not> P x)"
  by (induction xs arbitrary: k) auto

text \<open>Slot allocation for a SYN: a slot of the same host whose peer stopped acknowledging is taken
  first, else a free slot, else any slot of the same host; a connection of another host is never
  evicted, and only when none of these exists is the SYN refused.\<close>

theorem alloc_never_steals:
  "case alloc_conn srcip s of
     Some i \<Rightarrow> i < length (conns s) \<and> (tstate (conns s ! i) = TS_LISTEN \<or> peer_ip (conns s ! i) = srcip)
       \<and> (tstate (conns s ! i) \<noteq> TS_LISTEN \<and> rexmit_count (conns s ! i) = 0 \<longrightarrow> (\<forall>c \<in> set (conns s). tstate c \<noteq> TS_LISTEN))
   | None \<Rightarrow> \<forall>c \<in> set (conns s). tstate c \<noteq> TS_LISTEN \<and> peer_ip c \<noteq> srcip"
proof (cases "find_index (\<lambda>c. tstate c \<noteq> TS_LISTEN \<and> rexmit_count c > 0 \<and> peer_ip c = srcip) (conns s) 0")
  case (Some i)
  with find_index_bound [OF Some] show ?thesis by (simp add: alloc_conn_def)
next
  case None
  show ?thesis
  proof (cases "find_index (\<lambda>c. tstate c = TS_LISTEN) (conns s) 0")
    case (Some i)
    with None find_index_bound [OF Some] show ?thesis by (simp add: alloc_conn_def)
  next
    case none2: None
    show ?thesis
    proof (cases "find_index (\<lambda>c. peer_ip c = srcip) (conns s) 0")
      case (Some i)
      have "alloc_conn srcip s = Some i" using None none2 Some by (simp add: alloc_conn_def)
      with none2 [unfolded find_index_None] find_index_bound [OF Some] show ?thesis by simp
    next
      case none3: None
      have "alloc_conn srcip s = None" using None none2 none3 by (simp add: alloc_conn_def)
      with none2 [unfolded find_index_None] none3 [unfolded find_index_None] show ?thesis by simp
    qed
  qed
qed

text \<open>C17. Defect: a SYN|ACK that has to be retransmitted strands the connection.  After the timer has
  resent it, the sequence number the SYN consumed is no longer counted, so the client's only valid
  acknowledgement (our initial sequence number plus one) is ignored for ever and the timer, seeing
  nothing in flight, never fires again: the slot stays in SYN-RECEIVED.\<close>

theorem synack_retransmit_strands:
  assumes "conn_syn t i srcmac srcip sport seq c0 s0 = (c, s1)"
    and "sint (t2 - rexmit_at c) \<ge> 0" and "tcp_timer t2 c s1 = (c2, s2)"
  shows "tstate c2 = TS_SYNRCVD \<and> conn_in t3 flags rseq (snd_una c + 1) f pos dlen c2 s3 = (c2, s3)
     \<and> tcp_timer t4 c2 s3 = (c2, s3)"
proof -
  have c: "tstate c = TS_SYNRCVD" "snd_nxt c = snd_una c + 1" "rexmit_count c = 0"
    using assms(1) by (auto simp: conn_syn_def Let_def)
  have "timer_due t2 c" using c assms(2) by (simp add: timer_due_def)
  from tcp_timer_cases(3) [OF this, of s1] c(3) assms(3)
  have c2: "c2 = (rewound c)\<lparr>rexmit_at := t2 + REXMIT_TICKS\<rparr>" by (simp add: MAX_REXMIT_def)
  have "snd_una c + 1 \<noteq> snd_una c" by simp
  then have "conn_in t3 flags rseq (snd_una c + 1) f pos dlen c2 s3 = (c2, s3)"
    unfolding conn_in_def c2 by (simp add: rewound_def c)
  moreover have "\<not> timer_due t4 c2" by (simp add: timer_due_def c2 rewound_def)
  ultimately show ?thesis using tcp_timer_cases(1) c by (simp add: c2 rewound_def)
qed

text \<open>C16. Defect: when a new SYN takes over a slot whose previous owner was admitted to the broadcast,
  the admission is not withdrawn: after the handshake the new, unauthenticated connection is
  established and still marked ready, so the screen broadcast reaches it.\<close>

theorem takeover_keeps_admission:
  assumes "conn_ok c0" "ready c0" "length srcmac = 6" "length srcip = 4"
    and "conn_syn t i srcmac srcip sport seq c0 s0 = (c1, s1)"
    and "conn_in t2 0x10 (seq + 1) (snd_nxt c1) f pos 0 c1 s1 = (c2, s2)"
  shows "tstate c2 = TS_ESTAB \<and> just_estab c2 \<and> ready c2 \<and> \<not> stuck c2 \<and> sring (screen_put ch c2) = [ch]"
proof -
  have c1: "tstate c1 = TS_SYNRCVD" "ready c1" "s_una c1 = 0" "s_nxt c1 = 0" "s_end c1 = 0"
    using assms(2,5) by (auto simp: conn_syn_def Let_def)
  let ?e = "c1\<lparr>snd_una := snd_nxt c1, tstate := TS_ESTAB, just_estab := True, rexmit_count := 0\<rparr>"
  have "conn_ack t2 (snd_nxt c1) ?e = ?e" by (simp add: conn_ack_def)
  then have c2: "c2 = ?e" using assms(6) c1(1) by (simp add: conn_in_def Let_def)
  have u: "s_used c2 = 0" using c1 by (simp add: c2 s_used_def)
  have "conn_ok (fst (conn_syn t i srcmac srcip sport seq c0 s0))"
    using assms(1,3,4) by (simp add: conn_syn_def Let_def conn_ok_def in_flight_def s_used_def)
  then have "conn_ok c2" using assms(5) c1 by (simp add: c2 conn_ok_def in_flight_def s_used_def)
  with sbuf_put_ok(2) [OF this, of ch] u c1 show ?thesis
    by (simp add: c2 stuck_def screen_put_def SND_SZ_def sring_def)
qed

theorem alloc_never_steals_witness:
  "case alloc_conn [10, 0, 2, 9] wit_stack of
     Some i \<Rightarrow> i < length (conns wit_stack) \<and> (tstate (conns wit_stack ! i) = TS_LISTEN \<or> peer_ip (conns wit_stack ! i) = [10, 0, 2, 9])
       \<and> (tstate (conns wit_stack ! i) \<noteq> TS_LISTEN \<and> rexmit_count (conns wit_stack ! i) = 0 \<longrightarrow>
            (\<forall>c \<in> set (conns wit_stack). tstate c \<noteq> TS_LISTEN))
   | None \<Rightarrow> \<forall>c \<in> set (conns wit_stack). tstate c \<noteq> TS_LISTEN \<and> peer_ip c \<noteq> [10, 0, 2, 9]"
  by (rule alloc_never_steals)

theorem synack_retransmit_strands_witness:
  "tstate (fst (tcp_timer 9 (fst (conn_syn 0 0 [1, 2, 3, 4, 5, 6] [10, 0, 2, 2] 4000 7 wit_conn wit_net)) wit_net)) = TS_SYNRCVD"
proof -
  let ?c = "fst (conn_syn 0 0 [1, 2, 3, 4, 5, 6] [10, 0, 2, 2] 4000 7 wit_conn wit_net)"
  let ?s = "snd (conn_syn 0 0 [1, 2, 3, 4, 5, 6] [10, 0, 2, 2] 4000 7 wit_conn wit_net)"
  have due: "sint ((9 :: u32) - rexmit_at ?c) \<ge> 0" by (simp add: conn_syn_def Let_def REXMIT_TICKS_def)
  have "fst (tcp_timer 9 ?c ?s) = fst (tcp_timer 9 ?c wit_net)" by (simp add: tcp_timer_def Let_def)
  with synack_retransmit_strands [OF prod.collapse [symmetric] due prod.collapse [symmetric]] show ?thesis by metis
qed

theorem takeover_keeps_admission_witness:
  "ready wit_conn \<and> tstate wit_conn = TS_ESTAB \<and>
   (let (c1, s1) = conn_syn 5 0 [9, 9, 9, 9, 9, 9] [10, 0, 2, 2] 4001 1000 wit_conn wit_net;
        (c2, s2) = conn_in 6 0x10 1001 (snd_nxt c1) [] 0 0 c1 s1
    in tstate c1 = TS_SYNRCVD \<and> peer_port c1 = 4001 \<and> tstate c2 = TS_ESTAB \<and> just_estab c2 \<and> ready c2
       \<and> sring (screen_put 65 c2) = [65])"
proof -
  let ?s = "conn_syn 5 0 [9, 9, 9, 9, 9, 9] [10, 0, 2, 2] 4001 1000 wit_conn wit_net"
  let ?i = "conn_in 6 0x10 1001 (snd_nxt (fst ?s)) [] 0 0 (fst ?s) (snd ?s)"
  have r: "ready wit_conn" "tstate wit_conn = TS_ESTAB" by (simp_all add: wit_conn_def)
  have "conn_in 6 0x10 (1000 + 1) (snd_nxt (fst ?s)) [] 0 0 (fst ?s) (snd ?s) = (fst ?i, snd ?i)" by simp
  from takeover_keeps_admission [OF wit_conn_ok(1) r(1) _ _ prod.collapse [symmetric] this, of 65]
  have "tstate (fst ?i) = TS_ESTAB \<and> just_estab (fst ?i) \<and> ready (fst ?i) \<and> sring (screen_put 65 (fst ?i)) = [65]" by simp
  moreover have "tstate (fst ?s) = TS_SYNRCVD" "peer_port (fst ?s) = 4001" by (simp_all add: conn_syn_def Let_def)
  ultimately show ?thesis using r by (simp add: Let_def case_prod_beta)
qed

section \<open>A dead peer gives its slot back\<close>

text \<open>One timer tick with no acknowledgement: the timer, then the output pass of \<open>net_poll\<close>.\<close>

definition quiet_tick :: "u32 \<Rightarrow> conn \<times> net \<Rightarrow> conn \<times> net" where
  "quiet_tick t cs = (case tcp_timer t (fst cs) (snd cs) of (c, s) \<Rightarrow> tcp_output t c s)"

lemma output_loop_timer:
  "output_loop t n c s = (c', s') \<Longrightarrow> rexmit_at c = t + REXMIT_TICKS \<Longrightarrow>
     rexmit_at c' = t + REXMIT_TICKS \<and> rexmit_count c' = rexmit_count c"
proof (induction t n c s rule: output_loop.induct)
  case (1 t n c s)
  show ?case
  proof (cases "n = 0")
    case True
    with 1(2,3) show ?thesis by (simp add: output_loop.simps)
  next
    case False
    note eq = 1(2) [unfolded output_loop.simps [of t n], simplified Let_def if_not_P [OF False]]
    from "1.IH" [OF False refl refl refl refl eq] 1(3) show ?thesis by (simp split: if_splits)
  qed
qed

definition waiting :: "u32 \<Rightarrow> nat \<Rightarrow> conn \<Rightarrow> bool" where
  "waiting t k c \<longleftrightarrow> conn_ok c \<and> tstate c = TS_ESTAB \<and> 0 < s_used c \<and> in_flight c = s_used c
     \<and> rexmit_count c = k \<and> rexmit_at c = t"

lemma waiting_due:
  assumes "waiting t k c"
  shows "timer_due t c"
proof -
  have fl: "in_flight c < 4096" "0 < in_flight c" using used_less(2) [of c] assms by (simp_all add: SND_SZ_def waiting_def)
  have "snd_nxt c - snd_una c = of_nat (in_flight c)" using assms by (simp add: waiting_def conn_ok_def)
  moreover have "sint (of_nat (in_flight c) :: u32) = int (in_flight c)"
    using sint32_small [of "int (in_flight c)"] fl by simp
  ultimately show ?thesis using assms fl by (simp add: timer_due_def waiting_def)
qed

lemma waiting_tick:
  assumes "waiting t k c" "k < MAX_REXMIT" "ids_ok s"
  shows "waiting (t + REXMIT_TICKS) (Suc k) (fst (quiet_tick t (c, s))) \<and> ids_ok (snd (quiet_tick t (c, s)))"
proof -
  let ?c = "(rewound c)\<lparr>rexmit_at := t + REXMIT_TICKS\<rparr>"
  have cnt: "w16 (rexmit_count c + 1) = Suc k" "w16 (rexmit_count c + 1) \<le> MAX_REXMIT"
    using assms(1,2) by (simp_all add: waiting_def MAX_REXMIT_def)
  have ok: "conn_ok ?c" using assms(1) cnt(2) by (intro rewound_ok) (simp_all add: waiting_def)
  have est: "tstate ?c = TS_ESTAB" using assms(1) by (simp add: waiting_def rewound_def)
  have "tcp_timer t c s = (?c, s)"
    using tcp_timer_cases(3) [OF waiting_due [OF assms(1)] cnt(2), of s] est by (simp add: rewound_def)
  then have q: "quiet_tick t (c, s) = tcp_output t ?c s" by (simp add: quiet_tick_def)
  obtain c' s' where o: "tcp_output t ?c s = (c', s')" by fastforce
  then have loop: "output_loop t (s_used ?c - in_flight ?c) ?c s = (c', s')"
    using est unsent_eq [OF ok] by (simp add: tcp_output_def)
  have tm: "rexmit_at c' = t + REXMIT_TICKS" "rexmit_count c' = Suc k"
    using output_loop_timer [OF loop] cnt(1) by (simp_all add: rewound_def)
  from output_loop_ok [OF estab_stream [OF ok est] assms(3) refl loop]
  have "conn_ok c'" "tstate c' = TS_ESTAB" "in_flight c' = s_used c'" "sring c' = sring ?c" "same_globals s s'"
    unfolding conn_stream_def by blast+
  moreover have "length (sring ?c) = s_used c" by (simp add: s_used_def rewound_def)
  moreover have "0 < s_used c" using assms(1) by (simp add: waiting_def)
  ultimately show ?thesis
    unfolding q o using tm assms(3) length_sring [of c'] by (simp add: waiting_def same_globals_ok)
qed

lemma waiting_ticks:
  assumes "waiting t 0 c" "ids_ok s" "n \<le> MAX_REXMIT"
  shows "waiting (t + of_nat n * REXMIT_TICKS) n (fst (fold quiet_tick (map (\<lambda>i. t + of_nat i * REXMIT_TICKS) [0..<n]) (c, s)))
     \<and> ids_ok (snd (fold quiet_tick (map (\<lambda>i. t + of_nat i * REXMIT_TICKS) [0..<n]) (c, s)))"
  using assms(3)
proof (induction n)
  case 0
  then show ?case using assms by simp
next
  case (Suc n)
  let ?p = "fold quiet_tick (map (\<lambda>i. t + of_nat i * REXMIT_TICKS) [0..<n]) (c, s)"
  have "waiting (t + of_nat n * REXMIT_TICKS) n (fst ?p)" "ids_ok (snd ?p)" using Suc by simp_all
  from waiting_tick [OF this(1) _ this(2)] Suc.prems show ?case by (simp add: algebra_simps)
qed

text \<open>C18. A peer that stops acknowledging cannot hold a slot: once everything buffered is in flight and
  the timer armed, after \<open>MAX_REXMIT + 1\<close> timer periods without an acknowledgement the slot is back
  in LISTEN.\<close>

theorem dead_peer_freed:
  assumes "conn_ok c" "tstate c = TS_ESTAB" "0 < s_used c" "in_flight c = s_used c" "rexmit_count c = 0"
    "rexmit_at c = t" "ids_ok s"
  shows "tstate (fst (fold quiet_tick (map (\<lambda>i. t + of_nat i * REXMIT_TICKS) [0..<MAX_REXMIT + 1]) (c, s))) = TS_LISTEN"
proof -
  let ?p = "fold quiet_tick (map (\<lambda>i. t + of_nat i * REXMIT_TICKS) [0..<MAX_REXMIT]) (c, s)"
  let ?t = "t + of_nat MAX_REXMIT * REXMIT_TICKS"
  have "waiting t 0 c" using assms by (simp add: waiting_def)
  from waiting_ticks [OF this assms(7) order_refl] have w: "waiting ?t MAX_REXMIT (fst ?p)" by blast
  then have "w16 (rexmit_count (fst ?p) + 1) > MAX_REXMIT" by (simp add: waiting_def MAX_REXMIT_def)
  from tcp_timer_cases(2) [OF waiting_due [OF w] this, of "snd ?p"]
  have "tstate (fst (quiet_tick ?t ?p)) = TS_LISTEN"
    by (simp add: quiet_tick_def tcp_output_def tcp_reset_listen_def)
  then show ?thesis by simp
qed

definition wit_flight :: conn where
  "wit_flight = wit_conn\<lparr>s_end := 0, s_nxt := 0, snd_nxt := 0\<rparr>"

theorem dead_peer_freed_witness:
  "tstate (fst (fold quiet_tick (map (\<lambda>i. 0 + of_nat i * REXMIT_TICKS) [0..<MAX_REXMIT + 1]) (wit_flight, wit_net))) = TS_LISTEN"
  by (rule dead_peer_freed)
    (simp_all add: wit_flight_def wit_conn_def conn_ok_def s_used_def in_flight_def ring_used_def SND_SZ_def RCV_SZ_def
      wit_conn_ok(6))

section \<open>Parsing stays inside the receive buffer\<close>

lemma fold_rbuf_take:
  "conn_ok c \<Longrightarrow> fold rbuf_put bs c = fold rbuf_put (take (RCV_SZ - 1) bs) c"
proof -
  have "fold rbuf_put bs c = fold rbuf_put (take n bs) c" if "conn_ok c" "RCV_SZ - 1 - r_used c \<le> n" for n bs c
    using that
  proof (induction bs arbitrary: c n)
    case (Cons b bs)
    show ?case
    proof (cases "r_used c = RCV_SZ - 1")
      case True
      then show ?thesis by (simp only: fold_rbuf_full [OF Cons.prems(1) True])
    next
      case False
      then have lt: "r_used c < RCV_SZ - 1" using r_used_le [of c] by simp
      then obtain m where n: "n = Suc m" using Cons.prems(2) by (cases n) simp_all
      have "length (rring (rbuf_put b c)) = Suc (r_used c)" using rbuf_put_ok(2) [OF Cons.prems(1)] lt by simp
      then have "RCV_SZ - 1 - r_used (rbuf_put b c) \<le> m" using Cons.prems(2) n by simp
      from Cons.IH [OF rbuf_put_ok(1) [OF Cons.prems(1)] this] show ?thesis by (simp add: n)
    qed
  qed simp
  then show "conn_ok c \<Longrightarrow> fold rbuf_put bs c = fold rbuf_put (take (RCV_SZ - 1) bs) c" by simp
qed

lemma rcv_loop_extend:
  assumes "conn_ok c" "base + RCV_SZ \<le> length f"
  shows "rcv_loop (f @ x) base 0 dlen c 0 = rcv_loop f base 0 dlen c 0"
proof -
  have "take (RCV_SZ - 1) (map (\<lambda>j. (f @ x) ! (base + j)) [0..<dlen]) = take (RCV_SZ - 1) (map (\<lambda>j. f ! (base + j)) [0..<dlen])"
  proof (rule nth_equalityI)
    fix i assume "i < length (take (RCV_SZ - 1) (map (\<lambda>j. (f @ x) ! (base + j)) [0..<dlen]))"
    then have i: "i < dlen" "i < RCV_SZ - 1" by simp_all
    then have "base + i < length f" using assms(2) by linarith
    with i show "take (RCV_SZ - 1) (map (\<lambda>j. (f @ x) ! (base + j)) [0..<dlen]) ! i
        = take (RCV_SZ - 1) (map (\<lambda>j. f ! (base + j)) [0..<dlen]) ! i"
      by (simp add: nth_append)
  qed simp
  then have "fold rbuf_put (map (\<lambda>j. (f @ x) ! (base + j)) [0..<dlen]) c = fold rbuf_put (map (\<lambda>j. f ! (base + j)) [0..<dlen]) c"
    using fold_rbuf_take [OF assms(1)] by metis
  then show ?thesis by (simp add: rcv_loop_fold [OF assms(1)])
qed

lemma conn_in_extend:
  assumes "conn_ok c" "base + RCV_SZ \<le> length f"
  shows "conn_in ticks flags seq ack (f @ x) base dlen c s = conn_in ticks flags seq ack f base dlen c s"
proof -
  have cd: "conn_data seq (f @ x) base dlen c' = conn_data seq f base dlen c'" if "conn_ok c'" for c'
    by (simp add: conn_data_def rcv_loop_extend [OF that assms(2)])
  have estab: "conn_in ticks flags seq ack (f @ x) base dlen c s = conn_in ticks flags seq ack f base dlen c s"
    if c: "conn_ok c" "tstate c = TS_ESTAB" for c
  proof -
    let ?c1 = "if flags AND 0x10 \<noteq> 0 then conn_ack ticks ack c else c"
    have c1: "conn_ok ?c1" "tstate ?c1 = TS_ESTAB" using conn_ack_ok [OF c, of ticks ack] c by simp_all
    show ?thesis
      unfolding conn_in_estab [OF c(2) c1(2)] cd [OF c1(1)] ..
  qed
  show ?thesis
  proof (cases "tstate c = TS_SYNRCVD \<and> flags AND 0x10 \<noteq> 0 \<and> ack = snd_nxt c")
    case True
    let ?e = "c\<lparr>snd_una := ack, tstate := TS_ESTAB, just_estab := True, rexmit_count := 0\<rparr>"
    have "conn_ok ?e" using assms(1) True by (auto simp: conn_ok_def in_flight_def s_used_def)
    moreover have "conn_in ticks flags seq ack g base dlen c s = conn_in ticks flags seq ack g base dlen ?e s" for g
      using True by (simp add: conn_in_def)
    ultimately show ?thesis using estab [of ?e] by simp
  next
    case False
    show ?thesis
    proof (cases "tstate c")
      case TS_ESTAB
      with assms(1) estab show ?thesis by blast
    qed (use False in \<open>auto simp: conn_in_def\<close>)
  qed
qed

lemma nibble_times_4: "unat (drop_bit 4 (b :: byte)) * 4 \<le> 60" "unat (b AND 0x0F) * 4 \<le> 60"
proof -
  have "unat (drop_bit 4 b) = unat b div 16" by (simp add: drop_bit_eq_div unat_div_distrib)
  then show "unat (drop_bit 4 b) * 4 \<le> 60" using unat_byte_less [of b] by simp
  have "b AND 0x0F \<le> 0x0F" by (rule word_and_le1)
  then show "unat (b AND 0x0F) * 4 \<le> 60" by (simp add: word_le_nat_alt)
qed

text \<open>C15. Bounds: handling a frame reads only inside the 1600-byte work buffer, whatever header length,
  data offset and total length the frame claims: bytes that would follow the buffer in memory never
  influence the result.\<close>

theorem handle_frame_in_bounds:
  assumes "net_ok s" "length f = 1600"
  shows "handle_frame ticks (f @ beyond) n s = handle_frame ticks f n s"
proof -
  have nth: "(f @ beyond) ! i = f ! i" if "i < 1600" for i using assms(2) that by (simp add: nth_append)
  have sl: "take k (drop i (f @ beyond)) = take k (drop i f)" if "i + k \<le> 1600" for i k
    using assms(2) that by simp
  have r16: "rd16 (f @ beyond) i = rd16 f i" if "i < 1500" for i using that by (simp add: rd16_def nth)
  have r32: "rd32 (f @ beyond) i = rd32 f i" if "i < 1500" for i using that by (simp add: rd32_def nth)
  have arp: "arp_in (f @ beyond) n s = arp_in f n s"
    using assms(2) by (simp add: arp_in_def Let_def ETH_HLEN_def r16)
  have ihl: "unat (f ! IP_OFF AND 0x0F) * 4 \<le> 60" by (rule nibble_times_4)
  have toff: "unat (drop_bit 4 (f ! i)) * 4 \<le> 60" for i by (rule nibble_times_4)
  have tcp: "tcp_in ticks (f @ beyond) n s = tcp_in ticks f n s"
  proof -
    let ?t = "IP_OFF + unat (f ! IP_OFF AND 0x0F) * 4"
    have t: "?t \<le> 74" using ihl by (simp add: IP_OFF_def ETH_HLEN_def)
    have base: "?t + unat (drop_bit 4 (f ! (?t + 12))) * 4 + RCV_SZ \<le> length f"
      using t toff [of "?t + 12"] assms(2) by (simp add: RCV_SZ_def)
    have ci: "conn_in tk fl sq ak (f @ beyond) (?t + unat (drop_bit 4 (f ! (?t + 12))) * 4) dl (conns s ! i) s
        = conn_in tk fl sq ak f (?t + unat (drop_bit 4 (f ! (?t + 12))) * 4) dl (conns s ! i) s"
      if "find_conn sport srcip s = Some i" for tk fl sq ak dl i sport srcip
      by (rule conn_in_extend [OF net_ok_conn [OF assms(1) find_conn_bound [OF that]] base])
    have ip0: "(f @ beyond) ! IP_OFF = f ! IP_OFF" by (rule nth) (simp add: IP_OFF_def ETH_HLEN_def)
    have fields: "(f @ beyond) ! (?t + 12) = f ! (?t + 12)" "(f @ beyond) ! (?t + 13) = f ! (?t + 13)"
      "rd16 (f @ beyond) ?t = rd16 f ?t" "rd16 (f @ beyond) (?t + 2) = rd16 f (?t + 2)"
      "rd32 (f @ beyond) (?t + 4) = rd32 f (?t + 4)" "rd32 (f @ beyond) (?t + 8) = rd32 f (?t + 8)"
      "rd16 (f @ beyond) (IP_OFF + 2) = rd16 f (IP_OFF + 2)"
      "take 4 (drop (IP_OFF + 12) (f @ beyond)) = take 4 (drop (IP_OFF + 12) f)"
      "take 6 (drop 6 (f @ beyond)) = take 6 (drop 6 f)"
      using t assms(2) by (auto intro!: nth r16 r32 sl simp: IP_OFF_def ETH_HLEN_def simp del: take_drop)
    show ?thesis
      unfolding tcp_in_def Let_def ip0 fields
      by (cases "find_conn (rd16 f ?t) (take 4 (drop (IP_OFF + 12) f)) s") (simp_all add: ci)
  qed
  show ?thesis
    using assms(2) unfolding handle_frame_def Let_def arp tcp IP_OFF_def ETH_HLEN_def
    by (simp add: r16 nth)
qed

theorem handle_frame_in_bounds_witness:
  "handle_frame 3 (replicate 1600 0x4F @ [1, 2, 3]) 1600 wit_stack = handle_frame 3 (replicate 1600 0x4F) 1600 wit_stack"
  by (rule handle_frame_in_bounds [OF wit_stack_ok]) simp

section \<open>Addressing\<close>

text \<open>Isolation: a received TCP segment changes at most one connection slot, and none at all unless it
  is addressed to our port.\<close>

theorem tcp_in_one_slot:
  assumes "net_ok s" "length f = 1600"
  shows "(\<exists>i. \<forall>j. j \<noteq> i \<longrightarrow> conns (tcp_in ticks f n s) ! j = conns s ! j)
     \<and> (rd16 f (IP_OFF + unat (f ! IP_OFF AND 0x0F) * 4 + 2) \<noteq> my_port s \<longrightarrow> tcp_in ticks f n s = s)"
proof -
  have put: "\<forall>j. j \<noteq> i \<longrightarrow> conns (put_conn i (op (conns s ! i) s)) ! j = conns s ! j"
    if "step_ok op" "i < length (conns s)" for i op
  proof -
    have "same_globals s (snd (op (conns s ! i) s))"
      using that(1) net_ok_conn [OF assms(1) that(2)] assms(1) by (simp add: step_ok_def net_ok_def)
    then show ?thesis by (simp add: put_conn_def same_globals_def)
  qed
  have len: "length (take 6 (drop 6 f)) = 6" "length (take 4 (drop (IP_OFF + 12) f)) = 4"
    using assms(2) by (simp_all add: IP_OFF_def ETH_HLEN_def)
  note reset = put [OF reset_step] and syn = put [OF conn_syn_ok [OF len]] and seg = put [OF conn_in_ok]
  have rst: "conns (send_rst m ip p q s) = conns s" for m ip p q
    by (simp add: send_rst_def ip_send_eq Let_def)
  have "\<exists>i. \<forall>j. j \<noteq> i \<longrightarrow> conns (tcp_in ticks f n s) ! j = conns s ! j"
  proof (cases "find_conn (rd16 f (IP_OFF + unat (f ! IP_OFF AND 0x0F) * 4)) (take 4 (drop (IP_OFF + 12) f)) s")
    case (Some i)
    have "i < length (conns s)" by (rule find_conn_bound [OF Some])
    with Some reset seg show ?thesis by (intro exI [of _ i]) (simp add: tcp_in_def Let_def)
  next
    case none: None
    show ?thesis
    proof (cases "alloc_conn (take 4 (drop (IP_OFF + 12) f)) s")
      case (Some i)
      have "i < length (conns s)" by (rule alloc_conn_bound [OF Some])
      with Some none syn show ?thesis by (intro exI [of _ i]) (simp add: tcp_in_def Let_def)
    next
      case None
      with none rst show ?thesis by (simp add: tcp_in_def Let_def)
    qed
  qed
  moreover have "rd16 f (IP_OFF + unat (f ! IP_OFF AND 0x0F) * 4 + 2) \<noteq> my_port s \<longrightarrow> tcp_in ticks f n s = s"
    by (simp add: tcp_in_def Let_def)
  ultimately show ?thesis by blast
qed

theorem tcp_in_one_slot_witness:
  "(\<exists>i. \<forall>j. j \<noteq> i \<longrightarrow> conns (tcp_in 3 (replicate 1600 0x45) 1600 wit_stack) ! j = conns wit_stack ! j)"
  using tcp_in_one_slot [OF wit_stack_ok, of "replicate 1600 0x45" 3 1600] by simp

text \<open>An ARP request on the wire, and the reply the requester expects.\<close>

definition arp_packet :: "nat \<Rightarrow> byte list \<Rightarrow> byte list \<Rightarrow> byte list \<Rightarrow> byte list \<Rightarrow> byte list" where
  "arp_packet oper smac sip tmac tip = [0, 1, 8, 0, 6, 4] @ be16 oper @ smac @ sip @ tmac @ tip"

text \<open>ARP: a request for our address, from any host, with any destination and target hardware address
  and any padding, is answered by exactly one frame, to the requester, that maps our address to our
  hardware address; a request for another address is not answered.\<close>

theorem arp_request_answered:
  assumes "ids_ok s" "length dst = 6" "length smac = 6" "length sip = 4" "length tmac = 6" "length tip = 4"
    and "n \<ge> 42"
  shows "handle_frame ticks (dst @ smac @ be16 0x0806 @ arp_packet 1 smac sip tmac tip @ pad) n s =
     (if tip = g_ip s
      then s\<lparr>tx_frames := tx_frames s @ [smac @ g_mac s @ be16 0x0806 @ arp_packet 2 (g_mac s) (g_ip s) smac sip],
             g_arp_replies := g_arp_replies s + 1\<rparr>
      else s)"
proof -
  let ?f = "dst @ smac @ be16 0x0806 @ arp_packet 1 smac sip tmac tip @ pad"
  let ?h = "dst @ smac"
  have h: "?f = ?h @ [8, 6, 0, 1, 8, 0, 6, 4, 0, 1] @ smac @ sip @ tmac @ tip @ pad"
    by (simp add: arp_packet_def be16_def)
  have lh: "length ?h = 12" using assms by simp
  have g: "?f ! (12 + k) = ([8, 6, 0, 1, 8, 0, 6, 4, 0, 1] @ smac @ sip @ tmac @ tip @ pad) ! k" for k
    unfolding h nth_append lh by simp
  have fields: "rd16 ?f 12 = 0x0806" "rd16 ?f 14 = 1" "rd16 ?f 16 = 0x0800" "rd16 ?f 20 = 1"
    using g [of 0] g [of 1] g [of 2] g [of 3] g [of 4] g [of 5] g [of 8] g [of 9] unfolding rd16_def
    by (simp_all add: get16_def)
  have sl: "take 6 (drop 14 ?f) = [0, 1, 8, 0, 6, 4]" "take 6 (drop 22 ?f) = smac" "take 4 (drop 28 ?f) = sip"
    "take 4 (drop 38 ?f) = tip"
    using assms unfolding h by simp_all
  obtain f where f: "?f = f" by blast
  show ?thesis
    unfolding f handle_frame_def arp_in_def Let_def ETH_HLEN_def ET_ARP_def
    using assms(7) fields [unfolded f] sl [unfolded f]
    by (simp add: ET_IP_def pkt_send_def arp_packet_def wr16_def be16_def)
qed

theorem arp_request_answered_witness:
  "tx_frames (handle_frame 0 (replicate 6 255 @ [1, 2, 3, 4, 5, 6] @ be16 0x0806
       @ arp_packet 1 [1, 2, 3, 4, 5, 6] [10, 0, 2, 2] (replicate 6 0) [10, 0, 2, 15] @ replicate 18 0) 60 wit_net)
   = [[1, 2, 3, 4, 5, 6] @ [2, 0, 0, 0, 0, 1] @ be16 0x0806
       @ arp_packet 2 [2, 0, 0, 0, 0, 1] [10, 0, 2, 15] [1, 2, 3, 4, 5, 6] [10, 0, 2, 2]]"
  by (subst arp_request_answered [OF wit_conn_ok(6)]) (simp_all add: wit_net_def)

end
