(* ===== verification/Sha256.thy ===== *)
theory Sha256
  imports Prelude
begin

text \<open>
  \<open>crypto/sha256.c\<close>: the streaming SHA-256 the SSH exchange hash, the key derivation and the
  random generator use.  \<open>sha256_ctx\<close> is the record of that name, the compression function is
  modelled word for word.  The theorem shows that absorbing a message in any pieces and finalising
  is the digest of the FIPS 180-4 padded message, block by block.
\<close>

section \<open>The compression function\<close>

definition ROTR :: "u32 \<Rightarrow> nat \<Rightarrow> u32" where
  "ROTR x n = drop_bit n x OR push_bit (32 - n) x"

definition CH :: "u32 \<Rightarrow> u32 \<Rightarrow> u32 \<Rightarrow> u32" where "CH x y z = (x AND y) XOR (NOT x AND z)"
definition MAJ :: "u32 \<Rightarrow> u32 \<Rightarrow> u32 \<Rightarrow> u32" where "MAJ x y z = (x AND y) XOR (x AND z) XOR (y AND z)"
definition EP0 :: "u32 \<Rightarrow> u32" where "EP0 x = ROTR x 2 XOR ROTR x 13 XOR ROTR x 22"
definition EP1 :: "u32 \<Rightarrow> u32" where "EP1 x = ROTR x 6 XOR ROTR x 11 XOR ROTR x 25"
definition SIG0 :: "u32 \<Rightarrow> u32" where "SIG0 x = ROTR x 7 XOR ROTR x 18 XOR drop_bit 3 x"
definition SIG1 :: "u32 \<Rightarrow> u32" where "SIG1 x = ROTR x 17 XOR ROTR x 19 XOR drop_bit 10 x"

definition sha_K :: "u32 list" where
  "sha_K = concat [
     [0x428a2f98, 0x71374491, 0xb5c0fbcf, 0xe9b5dba5], [0x3956c25b, 0x59f111f1, 0x923f82a4, 0xab1c5ed5],
     [0xd807aa98, 0x12835b01, 0x243185be, 0x550c7dc3], [0x72be5d74, 0x80deb1fe, 0x9bdc06a7, 0xc19bf174],
     [0xe49b69c1, 0xefbe4786, 0x0fc19dc6, 0x240ca1cc], [0x2de92c6f, 0x4a7484aa, 0x5cb0a9dc, 0x76f988da],
     [0x983e5152, 0xa831c66d, 0xb00327c8, 0xbf597fc7], [0xc6e00bf3, 0xd5a79147, 0x06ca6351, 0x14292967],
     [0x27b70a85, 0x2e1b2138, 0x4d2c6dfc, 0x53380d13], [0x650a7354, 0x766a0abb, 0x81c2c92e, 0x92722c85],
     [0xa2bfe8a1, 0xa81a664b, 0xc24b8b70, 0xc76c51a3], [0xd192e819, 0xd6990624, 0xf40e3585, 0x106aa070],
     [0x19a4c116, 0x1e376c08, 0x2748774c, 0x34b0bcb5], [0x391c0cb3, 0x4ed8aa4a, 0x5b9cca4f, 0x682e6ff3],
     [0x748f82ee, 0x78a5636f, 0x84c87814, 0x8cc70208], [0x90befffa, 0xa4506ceb, 0xbef9a3f7, 0xc67178f2]]"

fun load_words :: "byte list \<Rightarrow> u32 list" where
  "load_words (a # b # c # d # bs) = get32 a b c d # load_words bs"
| "load_words _ = []"

text \<open>The message schedule: \<open>k\<close> further words after those of \<open>m\<close>.\<close>

primrec schedule :: "nat \<Rightarrow> u32 list \<Rightarrow> u32 list" where
  "schedule 0 m = m"
| "schedule (Suc k) m =
     (let i = length m
      in schedule k (m @ [SIG1 (m ! (i - 2)) + m ! (i - 7) + SIG0 (m ! (i - 15)) + m ! (i - 16)]))"

type_synonym sha_regs = "u32 \<times> u32 \<times> u32 \<times> u32 \<times> u32 \<times> u32 \<times> u32 \<times> u32"

fun sha_round :: "u32 \<times> u32 \<Rightarrow> sha_regs \<Rightarrow> sha_regs" where
  "sha_round (k, w) (a, b, c, d, e, f, g, h) =
     (let t1 = h + EP1 e + CH e f g + k + w;
          t2 = EP0 a + MAJ a b c
      in (t1 + t2, a, b, c, d + t1, e, f, g))"

fun regs_add :: "sha_regs \<Rightarrow> sha_regs \<Rightarrow> sha_regs" where
  "regs_add (a, b, c, d, e, f, g, h) (a', b', c', d', e', f', g', h') =
     (a + a', b + b', c + c', d + d', e + e', f + f', g + g', h + h')"

definition sha_compress :: "sha_regs \<Rightarrow> byte list \<Rightarrow> sha_regs" where
  "sha_compress st blk =
     (let m = schedule 48 (load_words blk)
      in regs_add st (fold sha_round (zip sha_K m) st))"

section \<open>The streaming interface\<close>

record sha256_ctx =
  sha_data :: "byte list"
  datalen :: nat
  bitlen_lo :: u32
  bitlen_hi :: u32
  sha_state :: sha_regs

definition sha256_transform :: "sha256_ctx \<Rightarrow> sha256_ctx" where
  "sha256_transform ctx = ctx\<lparr>sha_state := sha_compress (sha_state ctx) (sha_data ctx)\<rparr>"

definition sha_H0 :: sha_regs where
  "sha_H0 = (0x6a09e667, 0xbb67ae85, 0x3c6ef372, 0xa54ff53a, 0x510e527f, 0x9b05688c, 0x1f83d9ab, 0x5be0cd19)"

definition sha256_init :: "sha256_ctx \<Rightarrow> sha256_ctx" where
  "sha256_init ctx = ctx\<lparr>datalen := 0, bitlen_lo := 0, bitlen_hi := 0, sha_state := sha_H0\<rparr>"

definition sha256_addlen :: "nat \<Rightarrow> sha256_ctx \<Rightarrow> sha256_ctx" where
  "sha256_addlen bytes ctx =
     (let add = push_bit 3 (of_nat bytes); old = bitlen_lo ctx;
          ctx = ctx\<lparr>bitlen_lo := old + add\<rparr>
      in if bitlen_lo ctx < old then ctx\<lparr>bitlen_hi := bitlen_hi ctx + 1\<rparr> else ctx)"

definition sha256_byte :: "byte \<Rightarrow> sha256_ctx \<Rightarrow> sha256_ctx" where
  "sha256_byte b ctx =
     (let ctx = ctx\<lparr>sha_data := (sha_data ctx)[datalen ctx := b], datalen := datalen ctx + 1\<rparr>
      in if datalen ctx = 64 then (sha256_addlen 64 (sha256_transform ctx))\<lparr>datalen := 0\<rparr> else ctx)"

definition sha256_update :: "byte list \<Rightarrow> sha256_ctx \<Rightarrow> sha256_ctx" where
  "sha256_update data ctx = fold sha256_byte data ctx"

text \<open>\<open>while (i < n) data[i++] = 0\<close> and the other stores at increasing indices.\<close>

definition put_at :: "nat \<Rightarrow> byte list \<Rightarrow> byte list \<Rightarrow> byte list" where
  "put_at i bs buf = take i buf @ bs @ drop (i + length bs) buf"

fun sha_digest :: "sha_regs \<Rightarrow> byte list" where
  "sha_digest (a, b, c, d, e, f, g, h) =
     be32 a @ be32 b @ be32 c @ be32 d @ be32 e @ be32 f @ be32 g @ be32 h"

definition sha256_final :: "sha256_ctx \<Rightarrow> byte list \<times> sha256_ctx" where
  "sha256_final ctx =
     (let i = datalen ctx;
          ctx = sha256_addlen (datalen ctx) ctx;
          ctx = (if datalen ctx < 56 then
                   ctx\<lparr>sha_data := put_at i ([0x80] @ replicate (55 - i) 0) (sha_data ctx)\<rparr>
                 else
                   (let ctx = sha256_transform (ctx\<lparr>sha_data := put_at i ([0x80] @ replicate (63 - i) 0) (sha_data ctx)\<rparr>)
                    in ctx\<lparr>sha_data := put_at 0 (replicate 56 0) (sha_data ctx)\<rparr>));
          ctx = ctx\<lparr>sha_data := put_at 56 (be32 (bitlen_hi ctx) @ be32 (bitlen_lo ctx)) (sha_data ctx)\<rparr>;
          ctx = sha256_transform ctx
      in (sha_digest (sha_state ctx), ctx))"

definition sha_ctx0 :: sha256_ctx where
  "sha_ctx0 = \<lparr>sha_data = replicate 64 0, datalen = 0, bitlen_lo = 0, bitlen_hi = 0, sha_state = (0, 0, 0, 0, 0, 0, 0, 0)\<rparr>"

text \<open>\<open>sha256\<close>: the context is a local, whose initial contents do not matter.\<close>

definition sha256 :: "byte list \<Rightarrow> byte list" where
  "sha256 data = fst (sha256_final (sha256_update data (sha256_init sha_ctx0)))"

text \<open>The wrapper of \<open>crypto.c\<close>.\<close>

definition dossh_sha256 :: "byte list \<Rightarrow> byte list" where
  "dossh_sha256 msg = sha256 msg"

section \<open>The specification\<close>

text \<open>FIPS 180-4: the message is padded with a one bit, zeros and its 64-bit length to whole blocks.\<close>

fun sha_blocks :: "byte list \<Rightarrow> byte list list" where
  "sha_blocks xs = (if length xs < 64 then [] else take 64 xs # sha_blocks (drop 64 xs))"

declare sha_blocks.simps [simp del]

definition be64 :: "nat \<Rightarrow> byte list" where
  "be64 n = be32 (of_nat (n div 2 ^ 32)) @ be32 (of_nat n)"

definition sha_pad :: "byte list \<Rightarrow> byte list" where
  "sha_pad msg = msg @ [0x80] @ replicate ((119 - length msg mod 64) mod 64) 0 @ be64 (8 * length msg)"

definition sha_spec :: "byte list \<Rightarrow> byte list" where
  "sha_spec msg = sha_digest (foldl sha_compress sha_H0 (sha_blocks (sha_pad msg)))"

section \<open>The streaming implementation meets it\<close>

lemma sha_blocks_short: "length xs < 64 \<Longrightarrow> sha_blocks xs = []"
  by (simp add: sha_blocks.simps)

lemma sha_blocks_append: "64 dvd length xs \<Longrightarrow> sha_blocks (xs @ ys) = sha_blocks xs @ sha_blocks ys"
proof (induction xs rule: sha_blocks.induct)
  case (1 xs)
  show ?case
  proof (cases "length xs < 64")
    case True
    with 1 have "xs = []" by (auto dest: dvd_imp_le)
    then show ?thesis by (simp add: sha_blocks_short)
  next
    case False
    then have "64 dvd length (drop 64 xs)" using 1(2) by (simp add: dvd_minus_self)
    with 1 False show ?thesis by (simp add: sha_blocks.simps [of xs] sha_blocks.simps [of "xs @ ys"])
  qed
qed

lemma sha_blocks_one: "length xs = 64 \<Longrightarrow> sha_blocks xs = [xs]"
  by (simp add: sha_blocks.simps [of xs] sha_blocks_short)

text \<open>What the context holds after \<open>msg\<close>.\<close>

definition absorbed :: "byte list \<Rightarrow> sha256_ctx \<Rightarrow> bool" where
  "absorbed msg ctx \<longleftrightarrow> length (sha_data ctx) = 64 \<and> datalen ctx = length msg mod 64
     \<and> take (datalen ctx) (sha_data ctx) = drop (64 * (length msg div 64)) msg
     \<and> sha_state ctx = foldl sha_compress sha_H0 (sha_blocks msg)
     \<and> bitlen_lo ctx = of_nat (512 * (length msg div 64))
     \<and> bitlen_hi ctx = of_nat (512 * (length msg div 64) div 4294967296)"

lemma carry_iff:
  fixes a b :: u32
  assumes "b < 1024"
  shows "a + b < a \<longleftrightarrow> unat a + unat b \<ge> 4294967296"
proof -
  have b: "unat b < 1024" using assms by (simp add: word_less_nat_alt)
  have a: "unat a < 4294967296" using unsigned_less [of a] by simp
  show ?thesis
  proof (cases "unat a + unat b < 4294967296")
    case True
    then have "unat (a + b) = unat a + unat b" by (simp add: unat_word_ariths)
    with True show ?thesis by (simp add: word_less_nat_alt)
  next
    case False
    then have "unat (a + b) = unat a + unat b - 4294967296"
      using a b by (simp add: unat_word_ariths mod_if)
    with False a b show ?thesis by (simp add: word_less_nat_alt)
  qed
qed

lemma div_carry:
  fixes n m :: nat
  assumes "m < 4294967296"
  shows "(n + m) div 4294967296
       = (if n mod 4294967296 + m \<ge> 4294967296 then n div 4294967296 + 1 else n div 4294967296)"
proof -
  define q r where "q = n div 4294967296" and "r = n mod 4294967296"
  have n: "n = r + q * 4294967296" and r: "r < 4294967296" by (simp_all add: q_def r_def)
  show ?thesis
  proof (cases "r + m < 4294967296")
    case True
    have "n + m = (r + m) + q * 4294967296" by (simp add: n)
    then have "(n + m) div 4294967296 = q" using True by simp
    with True show ?thesis by (simp add: q_def [symmetric] r_def [symmetric])
  next
    case False
    have "n + m = (r + m - 4294967296) + (q + 1) * 4294967296" using False by (simp add: n)
    moreover have "r + m - 4294967296 < 4294967296" using r assms by simp
    ultimately have "(n + m) div 4294967296 = q + 1" by simp
    with False show ?thesis by (simp add: q_def [symmetric] r_def [symmetric])
  qed
qed

lemma addlen_exact:
  assumes "bitlen_lo ctx = of_nat n" "bitlen_hi ctx = of_nat (n div 4294967296)" "k \<le> 64"
  shows "bitlen_lo (sha256_addlen k ctx) = of_nat (n + 8 * k)"
    and "bitlen_hi (sha256_addlen k ctx) = of_nat ((n + 8 * k) div 4294967296)"
proof -
  have p: "push_bit 3 (of_nat k :: u32) = of_nat (8 * k)"
    by (simp add: push_bit_eq_mult)
  show "bitlen_lo (sha256_addlen k ctx) = of_nat (n + 8 * k)"
    by (simp add: sha256_addlen_def Let_def assms(1) p)
  have u: "unat (of_nat (8 * k) :: u32) = 8 * k"
    using assms(3) by (simp only: unat_of_nat) simp
  have v: "unat (of_nat n :: u32) = n mod 4294967296" by (simp add: unat_of_nat)
  have "(of_nat (8 * k) :: u32) < 1024"
    unfolding word_less_nat_alt u using assms(3) by simp
  then have c: "(of_nat n + of_nat (8 * k) :: u32) < of_nat n \<longleftrightarrow> n mod 4294967296 + 8 * k \<ge> 4294967296"
    by (simp only: carry_iff u v)
  have d: "(n + 8 * k) div 4294967296
      = (if n mod 4294967296 + 8 * k \<ge> 4294967296 then n div 4294967296 + 1 else n div 4294967296)"
    using assms(3) by (intro div_carry) simp
  show "bitlen_hi (sha256_addlen k ctx) = of_nat ((n + 8 * k) div 4294967296)"
    unfolding sha256_addlen_def Let_def assms(1) p d using c assms(2) by simp
qed

lemma addlen_frame [simp]:
  "sha_data (sha256_addlen k ctx) = sha_data ctx" "datalen (sha256_addlen k ctx) = datalen ctx"
  "sha_state (sha256_addlen k ctx) = sha_state ctx"
  by (simp_all add: sha256_addlen_def Let_def)

lemma byte_absorbed:
  assumes "absorbed msg ctx" shows "absorbed (msg @ [b]) (sha256_byte b ctx)"
proof -
  define q r where "q = length msg div 64" and "r = length msg mod 64"
  have len: "length msg = 64 * q + r" and r: "r < 64" by (simp_all add: q_def r_def)
  note ab = assms [unfolded absorbed_def, folded q_def r_def]
  have dl: "datalen ctx = r" and dat: "take r (sha_data ctx) = drop (64 * q) msg"
    and l64: "length (sha_data ctx) = 64"
    using ab by auto
  have upd: "take (Suc r) ((sha_data ctx)[r := b]) = drop (64 * q) msg @ [b]"
    using dat l64 r by (simp add: take_Suc_conv_app_nth)
  have split: "msg = take (64 * q) msg @ drop (64 * q) msg" by simp
  have blk: "sha_blocks msg = sha_blocks (take (64 * q) msg)"
    using sha_blocks_append [of "take (64 * q) msg" "drop (64 * q) msg"] len r
    by (simp add: sha_blocks_short)
  have blk': "sha_blocks (msg @ [b]) = sha_blocks (take (64 * q) msg) @ sha_blocks (drop (64 * q) msg @ [b])"
    using sha_blocks_append [of "take (64 * q) msg" "drop (64 * q) msg @ [b]"] len
    by (simp add: append_assoc [symmetric] del: append_assoc)
  show ?thesis
  proof (cases "r = 63")
    case False
    then have "length (msg @ [b]) mod 64 = Suc r" "length (msg @ [b]) div 64 = q" using r by (simp_all add: len)
    moreover have "sha_blocks (msg @ [b]) = sha_blocks msg"
      using blk blk' False r len by (simp add: sha_blocks_short)
    ultimately show ?thesis using ab upd False r len
      by (simp add: absorbed_def sha256_byte_def Let_def)
  next
    case True
    then have m: "length (msg @ [b]) mod 64 = 0" "length (msg @ [b]) div 64 = q + 1" by (simp_all add: len)
    have "(sha_data ctx)[r := b] = drop (64 * q) msg @ [b]" using upd True l64 by simp
    moreover have "sha_blocks (msg @ [b]) = sha_blocks msg @ [drop (64 * q) msg @ [b]]"
      using blk blk' len True by (simp add: sha_blocks_one)
    moreover have "512 * q + 8 * 64 = 512 * (q + 1)" by simp
    ultimately show ?thesis using ab True len m
      addlen_exact [of "sha256_transform (ctx\<lparr>sha_data := (sha_data ctx)[r := b], datalen := Suc r\<rparr>)" "512 * q" 64]
      by (simp add: absorbed_def sha256_byte_def Let_def sha256_transform_def add.commute [of 512 "512 * q"])
  qed
qed

lemma update_absorbed: "absorbed msg ctx \<Longrightarrow> absorbed (msg @ data) (sha256_update data ctx)"
proof (induction data arbitrary: msg ctx)
  case Nil then show ?case by (simp add: sha256_update_def)
next
  case (Cons b data)
  from Cons.IH [OF byte_absorbed [OF Cons.prems, of b]]
  show ?case by (simp add: sha256_update_def)
qed

lemma init_absorbed: "length (sha_data ctx) = 64 \<Longrightarrow> absorbed [] (sha256_init ctx)"
  by (simp add: absorbed_def sha256_init_def sha_blocks_short)

text \<open>Padding produces one block, or two when fewer than nine bytes are left in the last one.\<close>

lemma pad_blocks:
  assumes "length msg = 64 * q + r" "r < 64"
  shows "sha_blocks (sha_pad msg) = sha_blocks msg @
     (if r < 56
      then [drop (64 * q) msg @ [0x80] @ replicate (55 - r) 0 @ be64 (8 * length msg)]
      else [drop (64 * q) msg @ [0x80] @ replicate (63 - r) 0, replicate 56 0 @ be64 (8 * length msg)])"
proof -
  define t where "t = drop (64 * q) msg"
  have lt: "length t = r" by (simp add: t_def assms(1))
  have be: "length (be64 n) = 8" for n by (simp add: be64_def)
  have m: "length msg mod 64 = r" using assms by simp
  have blk: "sha_blocks msg = sha_blocks (take (64 * q) msg)"
    using sha_blocks_append [of "take (64 * q) msg" t] assms
    by (simp add: sha_blocks_short t_def)
  have pad: "sha_pad msg = take (64 * q) msg @ t @ [0x80] @ replicate ((119 - r) mod 64) 0 @ be64 (8 * length msg)"
    unfolding sha_pad_def m t_def by simp
  have tail: "sha_blocks (t @ [0x80] @ replicate ((119 - r) mod 64) 0 @ be64 (8 * length msg)) =
     (if r < 56
      then [t @ [0x80] @ replicate (55 - r) 0 @ be64 (8 * length msg)]
      else [t @ [0x80] @ replicate (63 - r) 0, replicate 56 0 @ be64 (8 * length msg)])"
  proof (cases "r < 56")
    case True
    then have "119 - r = (55 - r) + 64" by simp
    then have "(119 - r) mod 64 = 55 - r" by (simp only: mod_add_self2) simp
    with True lt be show ?thesis by (simp add: sha_blocks_one)
  next
    case False
    then have z: "(119 - r) mod 64 = (63 - r) + 56" using assms(2) by simp
    have "t @ [0x80] @ replicate ((119 - r) mod 64) 0 @ be64 (8 * length msg)
        = (t @ [0x80] @ replicate (63 - r) 0) @ replicate 56 0 @ be64 (8 * length msg)"
      unfolding z replicate_add by simp
    moreover have "length (t @ [0x80] @ replicate (63 - r) 0) = 64" using lt False assms(2) by simp
    ultimately show ?thesis using False be
      by (simp only: sha_blocks_append sha_blocks_one dvd_refl) (simp add: sha_blocks_one)
  qed
  show ?thesis
    unfolding pad using sha_blocks_append [of "take (64 * q) msg"] tail assms
    by (simp add: blk t_def [symmetric])
qed

lemma final_absorbed:
  assumes "absorbed msg ctx" shows "fst (sha256_final ctx) = sha_spec msg"
proof -
  define q r where "q = length msg div 64" and "r = length msg mod 64"
  have len: "length msg = 64 * q + r" and r: "r < 64" by (simp_all add: q_def r_def)
  note ab = assms [unfolded absorbed_def, folded q_def r_def]
  have bl: "bitlen_lo (sha256_addlen r ctx) = of_nat (8 * length msg)"
    "bitlen_hi (sha256_addlen r ctx) = of_nat (8 * length msg div 4294967296)"
    using addlen_exact [of ctx "512 * q" r] ab r by (simp_all add: len)
  note pb = pad_blocks [OF len r]
  have l64: "length (sha_data ctx) = 64" and abt: "take r (sha_data ctx) = drop (64 * q) msg"
    using ab by auto
  then have lend: "length (drop (64 * q) msg) = r" by (simp add: len)
  show ?thesis
  proof (cases "r < 56")
    case True
    then have "put_at 56 (be64 (8 * length msg)) (put_at r (0x80 # replicate (55 - r) 0) (sha_data ctx))
        = drop (64 * q) msg @ [0x80] @ replicate (55 - r) 0 @ be64 (8 * length msg)"
      using abt l64 lend Suc_diff_le [of r 55] by (simp add: put_at_def be64_def len)
    then show ?thesis using True ab pb bl
      by (simp add: sha256_final_def Let_def sha256_transform_def sha_spec_def be64_def)
  next
    case False
    then have "put_at r (0x80 # replicate (63 - r) 0) (sha_data ctx)
        = drop (64 * q) msg @ [0x80] @ replicate (63 - r) 0"
      using abt l64 r by (simp add: put_at_def)
    moreover have "put_at 56 (be64 (8 * length msg)) (put_at 0 (replicate 56 0) (drop (64 * q) msg @ [0x80] @ replicate (63 - r) 0))
       = replicate 56 0 @ be64 (8 * length msg)"
      using False r by (simp add: put_at_def be64_def len)
    ultimately show ?thesis using False ab pb bl
      by (simp add: sha256_final_def Let_def sha256_transform_def sha_spec_def be64_def)
  qed
qed

interpretation sha: streaming absorbed sha256_update "\<lambda>c. fst (sha256_final c)" sha_spec
  by unfold_locales (simp_all add: update_absorbed final_absorbed)

lemmas sha_stream = final_absorbed [OF update_absorbed]

text \<open>Updates compose: hashing in pieces is hashing the concatenation.\<close>

lemma update_append: "sha256_update (xs @ ys) ctx = sha256_update ys (sha256_update xs ctx)"
  by (simp add: sha256_update_def)

text \<open>C29. Streaming SHA-256 computes the standard's digest.  Whatever a context (with its 64-byte
  buffer) held before, initialising it, absorbing the pieces of a message in any splitting and
  finalising yields the FIPS 180-4 digest of the concatenation of the pieces, padded with 0x80,
  zeros and the 64-bit bit count, also when the padding spills into a second block and when the
  low counter word carries.\<close>

theorem sha256_stream_correct:
  assumes "length (sha_data ctx) = 64"
  shows "fst (sha256_final (fold sha256_update pieces (sha256_init ctx))) = sha_spec (concat pieces)"
  using sha.digest_pieces [OF init_absorbed [OF assms], of pieces] by simp

theorem sha256_stream_correct_witness:
  "fst (sha256_final (fold sha256_update [[0x61], [0x62, 0x63]] (sha256_init sha_ctx0)))
   = sha_spec [0x61, 0x62, 0x63]"
  using sha256_stream_correct [of sha_ctx0 "[[0x61], [0x62, 0x63]]"] by (simp add: sha_ctx0_def)

lemma sha256_spec: "sha256 msg = sha_spec msg"
  unfolding sha256_def using sha_stream [OF init_absorbed, of sha_ctx0 msg] by (simp add: sha_ctx0_def)

lemma sha_digest_length [simp]: "length (sha_digest s) = 32"
  by (cases s rule: sha_digest.cases) simp

lemma sha256_length [simp]: "length (sha256 msg) = 32"
  by (simp add: sha256_spec sha_spec_def)

end
