(* ===== verification/Sshwire.thy ===== *)
theory Sshwire
  imports Sha256
begin

text \<open>
  The parts of \<open>ssh.c\<close> that only read and write byte strings: the SSH string and name-list
  encodings, the bounds-checked reader \<open>rd_string\<close>, the ed25519 blobs, the mpint encoding, the key
  derivation, base64 and the \<open>authorized_keys\<close> line.

  A packet is read through a view of the connection's 2048-byte input buffer, from the first payload
  byte to the end of the buffer.  A read at an offset outside the view is an out-of-bounds read of
  the program; such a function then returns \<open>None\<close>, and every other result is \<open>Some\<close>.  Offsets and
  lengths are 16-bit \<open>unsigned\<close> values: a 32-bit wire length assigned to one is truncated
  (\<open>rd_len\<close>).
\<close>

section \<open>Reading the packet view\<close>

definition rd_byte :: "byte list \<Rightarrow> nat \<Rightarrow> byte option" where
  "rd_byte pl i = (if i < length pl then Some (pl ! i) else None)"

definition slice :: "byte list \<Rightarrow> nat \<Rightarrow> nat \<Rightarrow> byte list option" where
  "slice pl off n = (if off + n \<le> length pl then Some (take n (drop off pl)) else None)"

definition rd_u32 :: "byte list \<Rightarrow> nat \<Rightarrow> u32 option" where
  "rd_u32 pl i = (if i + 4 \<le> length pl then Some (get32 (pl ! i) (pl ! (i + 1)) (pl ! (i + 2)) (pl ! (i + 3))) else None)"

definition rd_len :: "byte list \<Rightarrow> nat \<Rightarrow> nat option" where
  "rd_len pl i = map_option (\<lambda>v. w16 (unat v)) (rd_u32 pl i)"

definition seqbuf8 :: "u32 \<Rightarrow> byte list" where
  "seqbuf8 seq = [0, 0, 0, 0] @ be32 seq"

section \<open>Writing\<close>

definition put_u32 :: "nat \<Rightarrow> byte list" where
  "put_u32 v = be32 (of_nat v)"

definition put_str :: "byte list \<Rightarrow> byte list" where
  "put_str s = put_u32 (length s) @ s"

definition put_nl :: "string \<Rightarrow> byte list" where
  "put_nl s = put_str (str s)"

section \<open>Name lists\<close>

text \<open>The loop of \<open>nl_has\<close> with \<open>k\<close> bytes of the list still to look at; \<open>start\<close> is where the
  current name began.\<close>

definition nl_match :: "byte list \<Rightarrow> nat \<Rightarrow> nat \<Rightarrow> nat \<Rightarrow> byte list \<Rightarrow> bool option" where
  "nl_match pl base start i name =
     (if i - start = length name
      then map_option (\<lambda>s. s = name) (slice pl (base + start) (length name))
      else Some False)"

primrec nl_loop :: "byte list \<Rightarrow> nat \<Rightarrow> byte list \<Rightarrow> nat \<Rightarrow> nat \<Rightarrow> nat \<Rightarrow> bool option" where
  "nl_loop pl base name 0 i start = nl_match pl base start i name"
| "nl_loop pl base name (Suc k) i start =
     do { b \<leftarrow> rd_byte pl (base + i);
          if b = 0x2C then
            do { hit \<leftarrow> nl_match pl base start i name;
                 if hit then Some True else nl_loop pl base name k (i + 1) (i + 1) }
          else nl_loop pl base name k (i + 1) start }"

definition nl_has :: "byte list \<Rightarrow> nat \<times> nat \<Rightarrow> string \<Rightarrow> bool option" where
  "nl_has pl lst name = nl_loop pl (fst lst) (str name) (snd lst) 0 0"

primrec nl_first_loop :: "byte list \<Rightarrow> nat \<Rightarrow> nat \<Rightarrow> nat \<Rightarrow> nat option" where
  "nl_first_loop pl base 0 i = Some i"
| "nl_first_loop pl base (Suc k) i =
     do { b \<leftarrow> rd_byte pl (base + i);
          if b = 0x2C then Some i else nl_first_loop pl base k (i + 1) }"

definition nl_first :: "byte list \<Rightarrow> nat \<times> nat \<Rightarrow> (nat \<times> nat) option" where
  "nl_first pl lst = map_option (\<lambda>i. (fst lst, i)) (nl_first_loop pl (fst lst) (snd lst) 0)"

definition tok_eq :: "byte list \<Rightarrow> nat \<times> nat \<Rightarrow> string \<Rightarrow> bool option" where
  "tok_eq pl tok s =
     (if snd tok = length s then map_option (\<lambda>t. t = str s) (slice pl (fst tok) (length s)) else Some False)"

section \<open>Strings of a packet\<close>

text \<open>\<open>rd_string\<close>: \<open>Some None\<close> is the return value 0, otherwise the offset and the length of the
  body and the advanced offset.\<close>

definition rd_string :: "byte list \<Rightarrow> nat \<Rightarrow> nat \<Rightarrow> (nat \<times> nat \<times> nat) option option" where
  "rd_string pl plen off =
     (if off > plen \<or> plen - off < 4 then Some None
      else do { L \<leftarrow> rd_u32 pl off;
                if unat L > plen - off - 4 then Some None
                else Some (Some (off + 4, w16 (unat L), w16 (off + 4 + w16 (unat L)))) })"

text \<open>\<open>memcmp\<close> of a body against a literal, after the comparison of the lengths.\<close>

definition body_is :: "byte list \<Rightarrow> nat \<Rightarrow> nat \<Rightarrow> string \<Rightarrow> bool option" where
  "body_is pl off len s = tok_eq pl (off, len) s"

definition blob_field :: "nat \<Rightarrow> byte list \<Rightarrow> nat \<Rightarrow> byte list option option" where
  "blob_field n blob bloblen =
     do { r \<leftarrow> rd_string blob bloblen 0;
          case r of None \<Rightarrow> Some None
          | Some (no, nlen, off) \<Rightarrow>
            do { ok \<leftarrow> body_is blob no nlen ''ssh-ed25519'';
                 if \<not> ok then Some None
                 else do { r \<leftarrow> rd_string blob bloblen off;
                           case r of None \<Rightarrow> Some None
                           | Some (ko, klen, _) \<Rightarrow>
                             if klen \<noteq> n then Some None else map_option Some (slice blob ko n) } } }"

definition ed25519_key_from_blob :: "byte list \<Rightarrow> nat \<Rightarrow> byte list option option" where
  "ed25519_key_from_blob blob bloblen = blob_field 32 blob bloblen"

definition ed25519_sig_from_blob :: "byte list \<Rightarrow> nat \<Rightarrow> byte list option option" where
  "ed25519_sig_from_blob sb sblen = blob_field 64 sb sblen"

section \<open>Key exchange encodings\<close>

definition build_kmpint :: "byte list \<Rightarrow> byte list" where
  "build_kmpint k_raw =
     (let v = dropWhile (\<lambda>b. b = 0) k_raw; n = length v
      in if n = 0 then put_u32 0
         else if hd v AND 0x80 \<noteq> 0 then put_u32 (n + 1) @ [0] @ v
         else put_u32 n @ v)"

definition build_ks_blob :: "byte list \<Rightarrow> byte list" where
  "build_ks_blob hostkey_pk = put_str (str ''ssh-ed25519'') @ put_str hostkey_pk"

definition hash_str :: "byte list \<Rightarrow> sha256_ctx \<Rightarrow> sha256_ctx" where
  "hash_str s h = (let h = sha256_update (put_u32 (length s)) h in if s \<noteq> [] then sha256_update s h else h)"

text \<open>The extension loop of \<open>derive_key\<close>; \<open>out\<close> is what has been produced.\<close>

function derive_loop :: "byte list \<Rightarrow> nat \<Rightarrow> byte list \<Rightarrow> byte list" where
  "derive_loop kh outlen out =
     (if length out < outlen
      then derive_loop kh outlen (out @ take (min (outlen - length out) 32) (sha256 (kh @ out)))
      else out)"
  by pat_completeness auto

termination by (relation "measure (\<lambda>(_, outlen, out). outlen - length out)") auto

declare derive_loop.simps [simp del]

definition derive_key :: "byte list \<Rightarrow> byte list \<Rightarrow> byte list \<Rightarrow> byte \<Rightarrow> nat \<Rightarrow> byte list" where
  "derive_key kmpint H session_id letter outlen =
     derive_loop (kmpint @ H) outlen (take (min outlen 32) (sha256 (kmpint @ H @ [letter] @ session_id)))"

section \<open>base64 and the authorized-keys line\<close>

definition b64val :: "byte \<Rightarrow> nat option" where
  "b64val ch =
     (let c = unat ch
      in if 65 \<le> c \<and> c \<le> 90 then Some (c - 65)
         else if 97 \<le> c \<and> c \<le> 122 then Some (c - 97 + 26)
         else if 48 \<le> c \<and> c \<le> 57 then Some (c - 48 + 52)
         else if c = 43 then Some 62
         else if c = 47 then Some 63
         else None)"

definition drop_pad :: "byte list \<Rightarrow> byte list" where
  "drop_pad xs = rev (dropWhile (\<lambda>b. b = 0x3D) (rev xs))"

text \<open>The decoding loop: \<open>None\<close> is its \<open>return 0\<close>; \<open>room\<close> is what is left of \<open>outmax\<close>.\<close>

fun b64_loop :: "byte list \<Rightarrow> nat \<Rightarrow> byte list option" where
  "b64_loop [] room = Some []"
| "b64_loop [a] room = None"
| "b64_loop [a, b] room =
     do { c0 \<leftarrow> b64val a; c1 \<leftarrow> b64val b;
          if room = 0 then None else Some [of_nat (c0 * 4 + c1 div 16)] }"
| "b64_loop [a, b, c] room =
     do { c0 \<leftarrow> b64val a; c1 \<leftarrow> b64val b;
          if room = 0 then None
          else do { c2 \<leftarrow> b64val c;
                    if room = 1 then None
                    else Some [of_nat (c0 * 4 + c1 div 16), of_nat (c1 * 16 + c2 div 4)] } }"
| "b64_loop (a # b # c # d # rest) room =
     do { c0 \<leftarrow> b64val a; c1 \<leftarrow> b64val b;
          if room = 0 then None
          else do { c2 \<leftarrow> b64val c;
                    if room = 1 then None
                    else do { c3 \<leftarrow> b64val d;
                              if room = 2 then None
                              else do { out \<leftarrow> b64_loop rest (room - 3);
                                        Some ([of_nat (c0 * 4 + c1 div 16), of_nat (c1 * 16 + c2 div 4),
                                               of_nat (c2 * 64 + c3)] @ out) } } } }"

text \<open>The bytes decoded; the empty list is the return value 0.\<close>

definition b64_decode :: "byte list \<Rightarrow> nat \<Rightarrow> byte list" where
  "b64_decode inp outmax = (case b64_loop (drop_pad inp) outmax of Some out \<Rightarrow> out | None \<Rightarrow> [])"

definition blank :: "byte \<Rightarrow> bool" where
  "blank b \<longleftrightarrow> b = 0x20 \<or> b = 0x09"

definition ssh_parse_authkey_line :: "byte list \<Rightarrow> byte list option" where
  "ssh_parse_authkey_line line =
     (let p = dropWhile blank line
      in if p = [] \<or> hd p = 0x23 \<or> hd p = 0x0D \<or> hd p = 0x0A then None
         else if take 11 p \<noteq> str ''ssh-ed25519'' then None
         else
           (let p = drop 11 p
            in if p = [] \<or> \<not> blank (hd p) then None
               else
                 (let p = dropWhile blank p;
                      b64 = takeWhile (\<lambda>b. b64val b \<noteq> None \<or> b = 0x3D) p;
                      blob = b64_decode b64 80
                  in case ed25519_key_from_blob blob (length blob) of
                       Some (Some key) \<Rightarrow> Some key
                     | _ \<Rightarrow> None)))"

section \<open>What the readers see\<close>

lemma get32_nth: "i + 4 \<le> length pl \<Longrightarrow> drop i pl = a # b # c # d # r \<Longrightarrow>
  get32 (pl ! i) (pl ! (i + 1)) (pl ! (i + 2)) (pl ! (i + 3)) = get32 a b c d"
proof -
  assume l: "i + 4 \<le> length pl" and d: "drop i pl = a # b # c # d # r"
  have "pl ! (i + k) = (a # b # c # d # r) ! k" if "k < 4" for k
    using l that by (simp add: d [symmetric])
  from this [of 0] this [of 1] this [of 2] this [of 3] show ?thesis by (simp add: numeral_2_eq_2 numeral_3_eq_3)
qed

lemma rd_u32_be32: "drop i pl = be32 v @ r \<Longrightarrow> rd_u32 pl i = Some v"
proof -
  assume d: "drop i pl = be32 v @ r"
  have "length (drop i pl) \<ge> 4" by (simp add: d)
  then have "i + 4 \<le> length pl" by simp
  then show ?thesis
    using get32_nth [of i pl "ucast (drop_bit 24 v)" "ucast (drop_bit 16 v)" "ucast (drop_bit 8 v)" "ucast v" r]
      d get32_be32 [of v]
    by (simp add: rd_u32_def be32_def)
qed

lemma be32_get32: "be32 (get32 a b c d) = [a, b, c, d]"
  unfolding be32_def get32_def
  by (auto intro!: bit_word_eqI simp: bit_or_iff bit_push_bit_iff bit_ucast_iff bit_drop_bit_eq byte_bit_high)

lemma rd_u32_Some:
  assumes "i + 4 \<le> length pl"
  obtains v where "rd_u32 pl i = Some v" "drop i pl = be32 v @ drop (i + 4) pl"
proof -
  have "take 4 (drop i pl) = [pl ! i, pl ! (i + 1), pl ! (i + 2), pl ! (i + 3)]"
    using assms by (intro nth_equalityI) (auto simp: less_Suc_eq numeral_eq_Suc nth_Cons split: nat.splits)
  then have "drop i pl = be32 (get32 (pl ! i) (pl ! (i + 1)) (pl ! (i + 2)) (pl ! (i + 3))) @ drop (i + 4) pl"
    using append_take_drop_id [of 4 "drop i pl"] by (simp add: be32_get32 add.commute)
  with assms that show thesis by (simp add: rd_u32_def)
qed

lemma unat_put: "n < 4294967296 \<Longrightarrow> unat (of_nat n :: u32) = n"
  by (simp add: unat_of_nat)

text \<open>\<open>rd_string\<close> on a packet that lies inside its view returns exactly the SSH string that starts
  at the offset, and 0 exactly when none does.\<close>

lemma rd_string_Some:
  assumes "plen \<le> length pl" "plen < 65536" "off \<le> plen" "drop off (take plen pl) = put_str body @ rest"
  shows "rd_string pl plen off = Some (Some (off + 4, length body, off + 4 + length body))"
    and "off + 4 + length body \<le> plen" and "take (length body) (drop (off + 4) pl) = body"
    and "drop (off + 4 + length body) (take plen pl) = rest"
proof -
  have l: "plen - off = 4 + length body + length rest"
    using arg_cong [OF assms(4), of length] assms(1) by (simp add: put_str_def put_u32_def)
  then show le: "off + 4 + length body \<le> plen" using assms(3) by simp
  have d: "drop off pl = be32 (of_nat (length body)) @ body @ rest @ drop plen pl"
  proof -
    have "drop off pl = drop off (take plen pl) @ drop plen pl"
      using assms(1,3) append_take_drop_id [of plen pl] by (metis drop_append drop_eq_Nil diff_is_0_eq drop0 length_take min.absorb2)
    then show ?thesis by (simp add: assms(4) put_str_def put_u32_def)
  qed
  have n: "unat (of_nat (length body) :: u32) = length body"
    using le assms(2) by (intro unat_put) simp
  show "rd_string pl plen off = Some (Some (off + 4, length body, off + 4 + length body))"
    using rd_u32_be32 [OF d] l le assms(2) by (simp add: rd_string_def n)
  have "drop (off + 4) pl = drop 4 (drop off pl)" by (simp add: add.commute)
  then show "take (length body) (drop (off + 4) pl) = body" by (simp add: d)
  have "drop (off + 4 + length body) (take plen pl) = drop (4 + length body) (drop off (take plen pl))"
    by (simp add: ac_simps)
  then show "drop (off + 4 + length body) (take plen pl) = rest"
    by (simp add: assms(4) put_str_def put_u32_def)
qed

lemma rd_string_cases:
  assumes "plen \<le> length pl" "plen < 65536" "off \<le> plen"
  obtains (bad) "rd_string pl plen off = Some None" "\<nexists>body rest. drop off (take plen pl) = put_str body @ rest"
  | (ok) body rest where "drop off (take plen pl) = put_str body @ rest"
      "rd_string pl plen off = Some (Some (off + 4, length body, off + 4 + length body))"
      "off + 4 + length body \<le> plen" "take (length body) (drop (off + 4) pl) = body"
      "drop (off + 4 + length body) (take plen pl) = rest"
proof (cases "\<exists>body rest. drop off (take plen pl) = put_str body @ rest")
  case True
  then obtain body rest where "drop off (take plen pl) = put_str body @ rest" by blast
  from ok [OF this rd_string_Some [OF assms this]] show thesis .
next
  case False
  have "rd_string pl plen off = Some None"
  proof (cases "plen - off < 4")
    case True then show ?thesis by (simp add: rd_string_def)
  next
    case short: False
    then have "off + 4 \<le> length (take plen pl)" using assms by simp
    then obtain v where v: "rd_u32 (take plen pl) off = Some v" "drop off (take plen pl) = be32 v @ drop (off + 4) (take plen pl)"
      by (rule rd_u32_Some)
    have rv: "rd_u32 pl off = Some v"
      using v(1) short assms by (simp add: rd_u32_def split: if_splits)
    have "unat v > plen - off - 4"
    proof (rule ccontr)
      assume "\<not> unat v > plen - off - 4"
      then have "length (take (unat v) (drop (off + 4) (take plen pl))) = unat v" using assms by simp
      then have "drop off (take plen pl)
          = put_str (take (unat v) (drop (off + 4) (take plen pl))) @ drop (unat v) (drop (off + 4) (take plen pl))"
        using v(2) append_take_drop_id [of "unat v" "drop (off + 4) (take plen pl)"]
        by (simp add: put_str_def put_u32_def del: drop_drop append_take_drop_id)
      with False show False by blast
    qed
    with rv show ?thesis using short assms by (simp add: rd_string_def)
  qed
  with False bad show thesis by blast
qed

lemma slice_body: "off + 4 + n \<le> plen \<Longrightarrow> plen \<le> length pl \<Longrightarrow> slice pl (off + 4) n = Some (take n (drop (off + 4) pl))"
  by (simp add: slice_def)

lemma body_is_eq:
  assumes "off + n \<le> length pl" "take n (drop off pl) = body" "length body = n"
  shows "body_is pl off n s = Some (body = str s)"
  using assms by (auto simp: body_is_def tok_eq_def slice_def)

lemma put_str_inj: "length a < 65536 \<Longrightarrow> length b < 65536 \<Longrightarrow> put_str a @ r = put_str b @ r' \<Longrightarrow> a = b \<and> r = r'"
proof -
  assume l: "length a < 65536" "length b < 65536" and e: "put_str a @ r = put_str b @ r'"
  have d: "drop 0 (put_str a @ r) = be32 (of_nat (length a)) @ a @ r" "drop 0 (put_str a @ r) = be32 (of_nat (length b)) @ b @ r'"
    using e by (simp_all add: put_str_def put_u32_def)
  from rd_u32_be32 [OF d(1)] rd_u32_be32 [OF d(2)] have "of_nat (length a) = (of_nat (length b) :: u32)" by simp
  then have "unat (of_nat (length a) :: u32) = unat (of_nat (length b) :: u32)" by simp
  with l have "length a = length b" by (simp add: unat_put)
  with e show ?thesis by (simp add: put_str_def)
qed

lemma length_derive_loop: "length out \<le> outlen \<Longrightarrow> length (derive_loop kh outlen out) = outlen"
proof (induction kh outlen out rule: derive_loop.induct)
  case (1 kh outlen out)
  show ?case
  proof (cases "length out < outlen")
    case True
    have "length (out @ take (min (outlen - length out) 32) (sha256 (kh @ out))) \<le> outlen" using True by simp
    from 1(1) [OF True this] True show ?thesis by (simp add: derive_loop.simps [of kh outlen out])
  next
    case False with 1(2) show ?thesis by (simp add: derive_loop.simps [of kh outlen out])
  qed
qed

lemma length_derive_key [simp]: "length (derive_key k H sid l n) = n"
  unfolding derive_key_def by (rule length_derive_loop) simp

end
