(* ===== verification/Chacha.thy ===== *)
theory Chacha
  imports Prelude
begin

text \<open>
  The ChaCha20 part of \<open>crypto/monocypher.c\<close>, as \<open>crypto/crypto.c\<close> uses it: the record cipher of
  the SSH transport (\<open>dossh_chacha20_djb\<close>) and the generator behind \<open>rng_bytes\<close>
  (\<open>dossh_chacha20\<close>).  A null \<open>plain_text\<close> is \<open>None\<close>; the sixteen 32-bit words of a block are a list.
  The lemmas relate the implementation, which works by whole blocks and a partial last one, to one
  key stream.
\<close>

section \<open>Words and bytes\<close>

fun load32_le_buf :: "byte list \<Rightarrow> u32 list" where
  "load32_le_buf (a # b # c # d # bs) = get32 d c b a # load32_le_buf bs"
| "load32_le_buf _ = []"

definition store32_le :: "u32 \<Rightarrow> byte list" where
  "store32_le v = [ucast v, ucast (drop_bit 8 v), ucast (drop_bit 16 v), ucast (drop_bit 24 v)]"

definition rotl32 :: "u32 \<Rightarrow> nat \<Rightarrow> u32" where
  "rotl32 x n = push_bit n x XOR drop_bit (32 - n) x"

section \<open>The block function\<close>

fun QUARTERROUND :: "u32 \<times> u32 \<times> u32 \<times> u32 \<Rightarrow> u32 \<times> u32 \<times> u32 \<times> u32" where
  "QUARTERROUND (a, b, c, d) =
     (let a = a + b; d = rotl32 (d XOR a) 16;
          c = c + d; b = rotl32 (b XOR c) 12;
          a = a + b; d = rotl32 (d XOR a) 8;
          c = c + d; b = rotl32 (b XOR c) 7
      in (a, b, c, d))"

definition quarter :: "nat \<Rightarrow> nat \<Rightarrow> nat \<Rightarrow> nat \<Rightarrow> u32 list \<Rightarrow> u32 list" where
  "quarter i j k l t =
     (case QUARTERROUND (t ! i, t ! j, t ! k, t ! l) of
        (a, b, c, d) \<Rightarrow> t[i := a, j := b, k := c, l := d])"

definition double_round :: "u32 list \<Rightarrow> u32 list" where
  "double_round t =
     (let t = quarter 0 4 8 12 t; t = quarter 1 5 9 13 t;
          t = quarter 2 6 10 14 t; t = quarter 3 7 11 15 t;
          t = quarter 0 5 10 15 t; t = quarter 1 6 11 12 t;
          t = quarter 2 7 8 13 t
      in quarter 3 4 9 14 t)"

definition chacha20_rounds :: "u32 list \<Rightarrow> u32 list" where
  "chacha20_rounds t = (double_round ^^ 10) t"

definition chacha20_constant :: "byte list" where
  "chacha20_constant = str ''expand 32-byte k''"

definition crypto_chacha20_h :: "byte list \<Rightarrow> byte list \<Rightarrow> byte list" where
  "crypto_chacha20_h key inp =
     (let block = load32_le_buf chacha20_constant @ load32_le_buf key @ load32_le_buf inp;
          block = chacha20_rounds block
      in concat (map store32_le (take 4 block @ drop 12 block)))"

text \<open>One block of output: the permuted words plus the input words.\<close>

definition block_words :: "u32 list \<Rightarrow> u32 list" where
  "block_words inp = map2 (+) (chacha20_rounds inp) inp"

definition xor_bytes :: "byte list \<Rightarrow> byte list \<Rightarrow> byte list" where
  "xor_bytes = map2 (XOR)"

text \<open>The counter in words 12 and 13: \<open>input[12]++; if (input[12] == 0) input[13]++\<close>.\<close>

definition bump :: "u32 list \<Rightarrow> u32 list" where
  "bump inp =
     (let inp = inp[12 := inp ! 12 + 1]
      in if inp ! 12 = 0 then inp[13 := inp ! 13 + 1] else inp)"

text \<open>The loop over the whole blocks; the plain text is absent for raw key stream.\<close>

primrec whole_blocks :: "nat \<Rightarrow> byte list option \<Rightarrow> u32 list \<Rightarrow> byte list \<times> byte list option \<times> u32 list" where
  "whole_blocks 0 plain inp = ([], plain, inp)"
| "whole_blocks (Suc n) plain inp =
     (let pool = block_words inp;
          out = (case plain of
                   Some pt \<Rightarrow> concat (map store32_le (map2 (XOR) pool (load32_le_buf (take 64 pt))))
                 | None \<Rightarrow> concat (map store32_le pool));
          r = whole_blocks n (map_option (drop 64) plain) (bump inp)
      in (out @ fst r, snd r))"

definition crypto_chacha20_djb ::
  "byte list option \<Rightarrow> nat \<Rightarrow> byte list \<Rightarrow> byte list \<Rightarrow> 64 word \<Rightarrow> byte list \<times> 64 word" where
  "crypto_chacha20_djb plain_text text_size key nonce ctr =
     (let inp = load32_le_buf chacha20_constant @ load32_le_buf key
                @ [ucast ctr, ucast (drop_bit 32 ctr)] @ load32_le_buf nonce;
          nb_blocks = text_size div 64;
          r = whole_blocks nb_blocks plain_text inp;
          out = fst r; plain = fst (snd r); inp = snd (snd r);
          rest = text_size mod 64;
          out = (if rest > 0 then
                   (let pt = (case plain of Some pt \<Rightarrow> pt | None \<Rightarrow> replicate 128 0);
                        tmp = concat (map store32_le (block_words inp))
                    in out @ map2 (XOR) (take rest tmp) (take rest pt))
                 else out)
      in (out, ucast (inp ! 12) + push_bit 32 (ucast (inp ! 13)) + (if rest > 0 then 1 else 0)))"

definition crypto_chacha20_ietf ::
  "byte list option \<Rightarrow> nat \<Rightarrow> byte list \<Rightarrow> byte list \<Rightarrow> u32 \<Rightarrow> byte list \<times> u32" where
  "crypto_chacha20_ietf plain_text text_size key nonce ctr =
     (let big_ctr = ucast ctr + push_bit 32 (ucast (hd (load32_le_buf nonce)));
          r = crypto_chacha20_djb plain_text text_size key (drop 4 nonce) big_ctr
      in (fst r, ucast (snd r)))"

section \<open>The wrappers of crypto.c\<close>

definition dossh_chacha20 :: "byte list \<Rightarrow> byte list \<Rightarrow> u32 \<Rightarrow> nat \<Rightarrow> byte list" where
  "dossh_chacha20 key nonce counter n = fst (crypto_chacha20_ietf None n key nonce counter)"

definition dossh_chacha20_djb :: "byte list option \<Rightarrow> nat \<Rightarrow> byte list \<Rightarrow> byte list \<Rightarrow> u32 \<Rightarrow> byte list" where
  "dossh_chacha20_djb plain n key nonce counter = fst (crypto_chacha20_djb plain n key nonce (ucast counter))"

section \<open>One key stream\<close>

text \<open>The reference: block \<open>c\<close> of the stream for a key and a nonce.\<close>

definition chacha_input :: "byte list \<Rightarrow> byte list \<Rightarrow> 64 word \<Rightarrow> u32 list" where
  "chacha_input key nonce c = load32_le_buf chacha20_constant @ load32_le_buf key
     @ [ucast c, ucast (drop_bit 32 c)] @ load32_le_buf nonce"

definition chacha_block :: "byte list \<Rightarrow> byte list \<Rightarrow> 64 word \<Rightarrow> byte list" where
  "chacha_block key nonce c = concat (map store32_le (block_words (chacha_input key nonce c)))"

definition key_stream :: "byte list \<Rightarrow> byte list \<Rightarrow> 64 word \<Rightarrow> nat \<Rightarrow> byte list" where
  "key_stream key nonce c n = map (\<lambda>j. chacha_block key nonce (c + of_nat (j div 64)) ! (j mod 64)) [0..<n]"

lemma carry64:
  fixes c :: "64 word"
  shows "(ucast (c + 1) :: u32) = ucast c + 1"
    "(ucast (drop_bit 32 (c + 1)) :: u32)
     = (if (ucast c :: u32) + 1 = 0 then ucast (drop_bit 32 c) + 1 else ucast (drop_bit 32 c))"
proof -
  define n where "n = unat c"
  have n: "n < 18446744073709551616" using unsigned_less [of c] by (simp add: n_def)
  have lo: "unat (ucast w :: u32) = unat w mod 4294967296" for w :: "64 word"
    by (simp add: unsigned_ucast_eq take_bit_eq_mod)
  have hi: "unat (ucast (drop_bit 32 w) :: u32) = unat w div 4294967296" for w :: "64 word"
  proof -
    have "unat w < 18446744073709551616" using unsigned_less [where ?'a = nat, of w] by simp
    then have "unat w div 4294967296 < 4294967296" by (simp add: less_mult_imp_div_less)
    then show ?thesis
      by (simp only: unsigned_ucast_eq take_bit_eq_mod unat_drop_bit_eq) (simp add: drop_bit_eq_div)
  qed
  show low: "(ucast (c + 1) :: u32) = ucast c + 1"
  proof -
    have "unat (ucast (c + 1) :: u32) = unat ((ucast c :: u32) + 1)"
      by (simp add: lo unat_word_ariths mod_Suc_eq mod_mod_cancel)
    then show ?thesis by (simp only: word_unat_eq_iff)
  qed
  have z: "(ucast c :: u32) + 1 = 0 \<longleftrightarrow> (n + 1) mod 4294967296 = 0"
    by (simp add: low [symmetric] unat_eq_zero [symmetric] lo unat_word_ariths n_def mod_mod_cancel del: unat_eq_zero)
  have uc: "unat (c + 1) = (n + 1) mod 18446744073709551616" by (simp add: unat_word_ariths n_def)
  define q r where "q = n div 4294967296" and "r = n mod 4294967296"
  have nq: "n = r + q * 4294967296" and r: "r < 4294967296" by (simp_all add: q_def r_def)
  have q: "q < 4294967296" using n unfolding q_def by (simp add: less_mult_imp_div_less)
  show "(ucast (drop_bit 32 (c + 1)) :: u32)
     = (if (ucast c :: u32) + 1 = 0 then ucast (drop_bit 32 c) + 1 else ucast (drop_bit 32 c))"
  proof (cases "r = 4294967295")
    case True
    have e: "n + 1 = (q + 1) * 4294967296" by (simp add: nq True)
    then have m: "(n + 1) mod 4294967296 = 0" by simp
    have "unat (c + 1) div 4294967296 = (q + 1) mod 4294967296"
    proof (cases "q + 1 < 4294967296")
      case True
      with e have "n + 1 < 18446744073709551616" by simp
      with e True show ?thesis by (simp add: uc)
    next
      case False
      with q have "q + 1 = 4294967296" by simp
      with e show ?thesis by (simp add: uc)
    qed
    with m show ?thesis unfolding z
      by (simp add: word_unat_eq_iff hi unat_word_ariths q_def n_def)
  next
    case False
    then have "r + 1 < 4294967296" using r by simp
    moreover have "n + 1 = (r + 1) + q * 4294967296" by (simp add: nq)
    ultimately have e: "(n + 1) div 4294967296 = q" "(n + 1) mod 4294967296 = r + 1"
      by (simp_all only: div_mult_self1 mod_mult_self1) simp_all
    moreover have "n + 1 < 18446744073709551616" using \<open>n + 1 = (r + 1) + q * 4294967296\<close> q \<open>r + 1 < 4294967296\<close> by linarith
    ultimately have "unat (c + 1) div 4294967296 = q" "(n + 1) mod 4294967296 = r + 1"
      by (simp_all add: uc)
    then show ?thesis unfolding z
      by (simp add: word_unat_eq_iff hi q_def n_def)
  qed
qed

lemma length_load32_le_buf: "length (load32_le_buf bs) = length bs div 4"
  by (induction bs rule: load32_le_buf.induct) simp_all

lemma length_store_words: "length (concat (map store32_le ws)) = 4 * length ws"
  by (induction ws) (simp_all add: store32_le_def)

lemma length_quarter [simp]: "length (quarter i j k l t) = length t"
  by (simp add: quarter_def split: prod.splits)

lemma length_double_round [simp]: "length (double_round t) = length t"
  by (simp add: double_round_def Let_def)

lemma length_rounds [simp]: "length (chacha20_rounds t) = length t"
proof -
  have "length ((double_round ^^ k) t) = length t" for k by (induction k) simp_all
  then show ?thesis by (simp add: chacha20_rounds_def)
qed

lemma length_block_words [simp]: "length (block_words inp) = length inp"
  by (simp add: block_words_def)

lemma length_constant: "length chacha20_constant = 16"
  by (simp add: chacha20_constant_def)

lemma length_chacha_block [simp]:
  "length key = 32 \<Longrightarrow> length nonce = 8 \<Longrightarrow> length (chacha_block key nonce c) = 64"
  by (simp add: chacha_block_def length_store_words chacha_input_def length_load32_le_buf length_constant)

lemma chacha_input_words:
  assumes "length key = 32"
  shows "chacha_input key nonce c ! 12 = ucast c" "chacha_input key nonce c ! 13 = ucast (drop_bit 32 c)"
  using assms by (simp_all add: chacha_input_def nth_append length_load32_le_buf length_constant)

lemma bump_input:
  assumes "length key = 32"
  shows "bump (chacha_input key nonce c) = chacha_input key nonce (c + 1)"
  using assms chacha_input_words [OF assms, of nonce c]
  by (simp add: bump_def Let_def carry64 chacha_input_def list_update_append nth_append
      length_load32_le_buf length_constant)

text \<open>Exclusive or of words, stored, is exclusive or of the bytes.\<close>

lemma store_load_xor:
  "length pt = 4 * length ws \<Longrightarrow>
   concat (map store32_le (map2 (XOR) ws (load32_le_buf pt))) = xor_bytes (concat (map store32_le ws)) pt"
proof (induction ws arbitrary: pt)
  case Nil then show ?case by (simp add: xor_bytes_def)
next
  case (Cons w ws)
  obtain a b c d bs where pt: "pt = a # b # c # d # bs"
    using Cons.prems by (cases pt rule: load32_le_buf.cases) auto
  have "store32_le (w XOR get32 d c b a) = xor_bytes (store32_le w) [a, b, c, d]"
    unfolding store32_le_def xor_bytes_def
    by (auto intro!: bit_word_eqI simp: get32_def bit_xor_iff bit_or_iff bit_push_bit_iff bit_ucast_iff bit_drop_bit_eq byte_bit_high)
  with Cons pt show ?case by (simp add: xor_bytes_def store32_le_def)
qed

lemma key_stream_Suc_block:
  assumes "length key = 32" "length nonce = 8"
  shows "key_stream key nonce c (64 + n) = chacha_block key nonce c @ key_stream key nonce (c + 1) n"
  (is "?l = ?r")
proof (rule nth_equalityI)
  show "length ?l = length ?r" using assms by (simp add: key_stream_def)
  fix j assume "j < length ?l"
  then have j: "j < 64 + n" by (simp add: key_stream_def)
  have u: "[0..<n] ! (j - 64) = j - 64" if "64 \<le> j" using that j by simp
  have s: "j div 64 = Suc ((j - 64) div 64)" "j mod 64 = (j - 64) mod 64" if "64 \<le> j"
    using that by (auto simp: le_div_geq le_mod_geq)
  show "?l ! j = ?r ! j"
    using assms j s u by (cases "j < 64") (simp_all add: key_stream_def nth_append add.assoc)
qed

lemma whole_blocks_stream:
  assumes "length key = 32" "length nonce = 8"
  shows "whole_blocks n None (chacha_input key nonce c)
       = (key_stream key nonce c (64 * n), None, chacha_input key nonce (c + of_nat n))"
    and "64 * n \<le> length pt \<Longrightarrow> whole_blocks n (Some pt) (chacha_input key nonce c)
       = (xor_bytes (key_stream key nonce c (64 * n)) pt, Some (drop (64 * n) pt), chacha_input key nonce (c + of_nat n))"
proof (induction n arbitrary: c pt)
  case 0
  { case 1 show ?case by (simp add: key_stream_def) next case 2 show ?case by (simp add: key_stream_def xor_bytes_def) }
next
  case (Suc n)
  { case 1
    note ks = key_stream_Suc_block [OF assms, of c "64 * n"]
    show ?case using Suc(1) [of "c + 1"]
      by (simp add: ks bump_input assms(1) chacha_block_def [symmetric] add.assoc) }
  { case 2
    note ks = key_stream_Suc_block [OF assms, of c "64 * n"]
    have l: "length (take 64 pt) = 4 * length (block_words (chacha_input key nonce c))"
      using 2 assms by (simp add: chacha_input_def length_load32_le_buf length_constant)
    have "xor_bytes (chacha_block key nonce c) (take 64 pt) @ xor_bytes (key_stream key nonce (c + 1) (64 * n)) (drop 64 pt)
        = xor_bytes (key_stream key nonce c (64 + 64 * n)) pt"
      using 2 assms unfolding ks xor_bytes_def by (simp add: zip_append1)
    then show ?case using Suc(2) [of "drop 64 pt" "c + 1"] 2 store_load_xor [OF l]
      by (simp add: bump_input assms(1) chacha_block_def [symmetric] ac_simps drop_drop) }
qed

lemma length_key_stream [simp]: "length (key_stream key nonce c n) = n"
  by (simp add: key_stream_def)

lemma xor_bytes_take: "xor_bytes ks pt = xor_bytes ks (take (length ks) pt)"
  by (rule nth_equalityI) (simp_all add: xor_bytes_def)

text \<open>The same for a text of any length: whole blocks, then the partial one.\<close>

lemma key_stream_split:
  "key_stream key nonce c (64 * q + r) = key_stream key nonce c (64 * q)
     @ (if r < 64 then take r (map (\<lambda>j. chacha_block key nonce (c + of_nat q) ! j) [0..<64]) else
          map (\<lambda>j. chacha_block key nonce (c + of_nat ((64 * q + j) div 64)) ! ((64 * q + j) mod 64)) [0..<r])"
  (is "?l = ?a @ ?b")
proof (rule nth_equalityI)
  show "length ?l = length (?a @ ?b)" by (simp add: key_stream_def)
  fix j assume "j < length ?l"
  then have j: "j < 64 * q + r" by (simp add: key_stream_def)
  show "?l ! j = (?a @ ?b) ! j"
  proof (cases "j < 64 * q")
    case True then show ?thesis using j by (simp add: key_stream_def nth_append)
  next
    case False
    then obtain k where k: "j = 64 * q + k" "k < r" using j by (auto simp: not_less le_iff_add)
    then show ?thesis by (simp add: key_stream_def nth_append)
  qed
qed

lemma djb_input: "length key = 32 \<Longrightarrow>
  load32_le_buf chacha20_constant @ load32_le_buf key @ [ucast ctr, ucast (drop_bit 32 ctr)] @ load32_le_buf nonce
  = chacha_input key nonce ctr"
  by (simp add: chacha_input_def)

lemma partial_block:
  assumes "length key = 32" "length nonce = 8" "r < 64"
  shows "key_stream key nonce c (64 * q + r)
       = key_stream key nonce c (64 * q) @ take r (chacha_block key nonce (c + of_nat q))"
proof -
  have "map ((!) (chacha_block key nonce (c + of_nat q))) [0..<64] = chacha_block key nonce (c + of_nat q)"
    using map_nth [of "chacha_block key nonce (c + of_nat q)"] assms by simp
  then show ?thesis using assms(3) by (simp add: key_stream_split)
qed

lemma djb_stream:
  assumes "length key = 32" "length nonce = 8"
  shows "fst (crypto_chacha20_djb None n key nonce c) = key_stream key nonce c n"
    and "length pt = n \<Longrightarrow> fst (crypto_chacha20_djb (Some pt) n key nonce c) = xor_bytes (key_stream key nonce c n) pt"
proof -
  define q r where "q = n div 64" and "r = n mod 64"
  have n: "n = 64 * q + r" and r: "r < 64" by (simp_all add: q_def r_def)
  note wb = whole_blocks_stream [OF assms, where n = q and c = c]
  note pb = partial_block [OF assms r, of c q]
  have z: "map2 (XOR) (take r b) (take r (replicate 128 0)) = take r b" if "length b = 64" for b :: "byte list"
    using that r by (intro nth_equalityI) simp_all
  show "fst (crypto_chacha20_djb None n key nonce c) = key_stream key nonce c n"
    using wb(1) pb z [of "chacha_block key nonce (c + of_nat q)"] assms r
    unfolding crypto_chacha20_djb_def djb_input [OF assms(1)] Let_def n
    by (simp add: chacha_block_def [symmetric])
  assume p: "length pt = n"
  have "xor_bytes (key_stream key nonce c (64 * q)) pt @ xor_bytes (take r (chacha_block key nonce (c + of_nat q))) (take r (drop (64 * q) pt))
    = xor_bytes (key_stream key nonce c n) pt"
    unfolding n pb using p n xor_bytes_take [of "key_stream key nonce c (64 * q)" pt]
    by (simp add: xor_bytes_def zip_append1)
  then show "fst (crypto_chacha20_djb (Some pt) n key nonce c) = xor_bytes (key_stream key nonce c n) pt"
    using wb(2) [of pt] p assms r
    unfolding crypto_chacha20_djb_def djb_input [OF assms(1)] Let_def n
    by (simp add: chacha_block_def [symmetric]) (simp add: xor_bytes_def)
qed

lemma xor_bytes_cancel: "length ks = length pt \<Longrightarrow> xor_bytes ks (xor_bytes ks pt) = pt"
  by (rule nth_equalityI) (simp_all add: xor_bytes_def xor.assoc [symmetric])

lemma length_xor_bytes [simp]: "length (xor_bytes a b) = min (length a) (length b)"
  by (simp add: xor_bytes_def)

text \<open>What the SSH transport relies on.\<close>

locale stream_cipher =
  fixes crypt :: "byte list option \<Rightarrow> nat \<Rightarrow> byte list \<Rightarrow> byte list \<Rightarrow> u32 \<Rightarrow> byte list"
  assumes crypt_length: "length key = 32 \<Longrightarrow> length nonce = 8 \<Longrightarrow> length pt = n \<Longrightarrow>
      length (crypt (Some pt) n key nonce c) = n"
    and crypt_stream: "length key = 32 \<Longrightarrow> length nonce = 8 \<Longrightarrow> length (crypt None n key nonce c) = n"
    and crypt_crypt: "length key = 32 \<Longrightarrow> length nonce = 8 \<Longrightarrow> length pt = n \<Longrightarrow>
      crypt (Some (crypt (Some pt) n key nonce c)) n key nonce c = pt"
begin

lemma crypt_inj:
  assumes "length key = 32" "length nonce = 8" "length pt = n" "length pt' = n"
    "crypt (Some pt) n key nonce c = crypt (Some pt') n key nonce c"
  shows "pt = pt'"
  using crypt_crypt [OF assms(1,2,3)] crypt_crypt [OF assms(1,2,4)] assms(5) by metis

end

interpretation chacha: stream_cipher dossh_chacha20_djb
  by unfold_locales (simp_all add: dossh_chacha20_djb_def djb_stream xor_bytes_cancel)

lemma length_dossh_chacha20:
  assumes "length key = 32" "length nonce = 12"
  shows "length (dossh_chacha20 key nonce counter n) = n"
  using assms by (simp add: dossh_chacha20_def crypto_chacha20_ietf_def Let_def djb_stream)

text \<open>ChaCha20 is one key stream.  For a 32-byte key and an 8-byte nonce, the block-wise
  routine returns for every text exactly the exclusive or of its j-th byte with byte j mod 64 of the
  ChaCha20 block numbered (counter + j div 64), the counter being a single 64-bit number although it
  is kept in two 32-bit words with a carry; without a text it returns the stream itself.\<close>

theorem chacha20_reference:
  assumes "length key = 32" "length nonce = 8"
  shows "fst (crypto_chacha20_djb (Some pt) (length pt) key nonce ctr)
       = map (\<lambda>j. chacha_block key nonce (ctr + of_nat (j div 64)) ! (j mod 64) XOR pt ! j) [0..<length pt]
     \<and> fst (crypto_chacha20_djb None n key nonce ctr)
       = map (\<lambda>j. chacha_block key nonce (ctr + of_nat (j div 64)) ! (j mod 64)) [0..<n]"
proof
  show "fst (crypto_chacha20_djb (Some pt) (length pt) key nonce ctr)
      = map (\<lambda>j. chacha_block key nonce (ctr + of_nat (j div 64)) ! (j mod 64) XOR pt ! j) [0..<length pt]"
    unfolding djb_stream(2) [OF assms refl]
    by (rule nth_equalityI) (simp_all add: xor_bytes_def key_stream_def)
qed (simp add: djb_stream assms key_stream_def)

theorem chacha20_reference_witness:
  "fst (crypto_chacha20_djb (Some [1, 2]) 2 (replicate 32 0) (replicate 8 0) 0)
   = map (\<lambda>j. chacha_block (replicate 32 0) (replicate 8 0) (0 + of_nat (j div 64)) ! (j mod 64) XOR [1, 2] ! j) [0..<2]"
  using chacha20_reference [of "replicate 32 0" "replicate 8 0" "[1, 2]" 0] by (simp add: numeral_2_eq_2)

end
