(* ===== verification/Rng.thy ===== *)
theory Rng
  imports Sha256 Chacha
begin

text \<open>
  \<open>crypto/rng.c\<close>: the entropy pool and the ChaCha20 generator behind \<open>rng_bytes\<close>, in the DOS build
  (\<open>unsigned\<close> is 16 bits wide).  The static variables of the file are the record \<open>rng_state\<close>.  The
  hardware it reads (the cycle counter, the BIOS tick, CMOS registers, low memory) is the parameter
  record \<open>rng_hw\<close>; every reading is a function of the number of readings made so far, so that two
  readings of one source may differ.
\<close>

section \<open>State and hardware\<close>

type_synonym w16bit = "16 word"

record rng_hw =
  rng_rdtsc :: "nat \<Rightarrow> u32"
  bios_tick :: "nat \<Rightarrow> u32"
  cmos_read :: "nat \<Rightarrow> nat \<Rightarrow> w16bit"
  low_mem :: "nat \<Rightarrow> nat \<Rightarrow> byte"

record rng_state =
  pool :: "w16bit list"
  pool_idx :: w16bit
  pool_stir :: w16bit
  drbg_key :: "byte list"
  drbg_ctr :: u32
  drbg_calls :: u32
  drbg_ready :: bool
  hw_reads :: nat

definition POOL_WORDS :: nat where "POOL_WORDS = 32"

definition read_tsc :: "rng_hw \<Rightarrow> rng_state \<Rightarrow> u32 \<times> rng_state" where
  "read_tsc hw s = (rng_rdtsc hw (hw_reads s), s\<lparr>hw_reads := hw_reads s + 1\<rparr>)"

section \<open>The entropy pool\<close>

definition rng_stir :: "rng_hw \<Rightarrow> w16bit \<Rightarrow> rng_state \<Rightarrow> rng_state" where
  "rng_stir hw sample s =
     (let i = unat (pool_idx s AND 31);
          (c, s) = read_tsc hw s;
          t = (sample XOR ucast c) + pool_stir s;
          w = pool s ! i + t;
          w = push_bit 7 w OR drop_bit 9 w;
          w = w XOR push_bit 3 t
      in s\<lparr>pool := (pool s)[i := w], pool_idx := of_nat i + 1, pool_stir := pool_stir s + 1\<rparr>)"

definition le16 :: "w16bit \<Rightarrow> byte list" where
  "le16 w = [ucast w, ucast (drop_bit 8 w)]"

definition rng_reseed :: "rng_hw \<Rightarrow> rng_state \<Rightarrow> rng_state" where
  "rng_reseed hw s =
     (let material = drbg_key s @ concat (map le16 (pool s)) @ le16 (pool_stir s) @ le16 (pool_idx s)
                     @ le16 (ucast (drbg_ctr s));
          (tick, s) = read_tsc hw s;
          material = material @ le16 (ucast tick)
      in s\<lparr>drbg_key := sha256 material, drbg_calls := 0, drbg_ready := True\<rparr>)"

section \<open>Startup gathering\<close>

definition stir_tsc :: "rng_hw \<Rightarrow> rng_state \<Rightarrow> rng_state" where
  "stir_tsc hw s = (let (c, s) = read_tsc hw s in rng_stir hw (ucast c) s)"

definition stir_cmos :: "rng_hw \<Rightarrow> nat \<Rightarrow> rng_state \<Rightarrow> rng_state" where
  "stir_cmos hw reg s = rng_stir hw (cmos_read hw (hw_reads s) reg) (s\<lparr>hw_reads := hw_reads s + 1\<rparr>)"

definition stir_tick :: "rng_hw \<Rightarrow> rng_state \<Rightarrow> rng_state" where
  "stir_tick hw s =
     (let tk = bios_tick hw (hw_reads s); s = s\<lparr>hw_reads := hw_reads s + 1\<rparr>;
          s = rng_stir hw (ucast tk) s
      in rng_stir hw (ucast (drop_bit 16 tk)) s)"

text \<open>The byte at a linear address: segment 0040 starts at 0x400.\<close>

definition stir_byte :: "rng_hw \<Rightarrow> nat \<Rightarrow> rng_state \<Rightarrow> rng_state" where
  "stir_byte hw a s = rng_stir hw (ucast (low_mem hw (hw_reads s) a)) (s\<lparr>hw_reads := hw_reads s + 1\<rparr>)"

definition stir_word :: "rng_hw \<Rightarrow> nat \<Rightarrow> rng_state \<Rightarrow> rng_state" where
  "stir_word hw a s =
     (let r = hw_reads s
      in rng_stir hw (ucast (low_mem hw r a) OR push_bit 8 (ucast (low_mem hw (r + 1) (a + 1))))
           (s\<lparr>hw_reads := r + 2\<rparr>))"

definition rng_init :: "rng_hw \<Rightarrow> rng_state \<Rightarrow> rng_state" where
  "rng_init hw s =
     (let s = (stir_tsc hw ^^ 512) s;
          s = stir_tick hw s;
          s = fold (stir_cmos hw) [0x00, 0x02, 0x04, 0x06, 0x07, 0x08, 0x09, 0x32, 0x0A] s;
          s = fold (\<lambda>i. stir_byte hw (0x400 + i)) [0..<256] s;
          s = fold (\<lambda>i. stir_word hw (2 * i)) [0..<512] s;
          s = (stir_tsc hw ^^ 512) s
      in rng_reseed hw s)"

section \<open>Output\<close>

definition drbg_nonce :: "u32 \<Rightarrow> byte list" where
  "drbg_nonce ctr = store32_le ctr @ replicate 8 0"

text \<open>The loop of \<open>rng_bytes\<close>: one iteration per 32 bytes.\<close>

function rng_loop :: "nat \<Rightarrow> rng_state \<Rightarrow> byte list \<times> rng_state" where
  "rng_loop n s =
     (if n = 0 then ([], s)
      else
        (let take_n = (if n < 32 then n else 32);
             ks = dossh_chacha20 (drbg_key s) (drbg_nonce (drbg_ctr s)) 0 64;
             s = s\<lparr>drbg_key := take 32 ks, drbg_ctr := drbg_ctr s + 1\<rparr>;
             (out, s) = rng_loop (n - take_n) s
         in (take take_n (drop 32 ks) @ out, s)))"
  by pat_completeness auto

termination by (relation "measure fst") auto

declare rng_loop.simps [simp del]

definition rng_bytes :: "rng_hw \<Rightarrow> nat \<Rightarrow> rng_state \<Rightarrow> byte list \<times> rng_state" where
  "rng_bytes hw n s =
     (let s = (if drbg_ready s then s else rng_init hw s);
          (out, s) = rng_loop n s;
          s = s\<lparr>drbg_calls := drbg_calls s + 1\<rparr>;
          s = (if drbg_calls s AND 0x3f = 0 then rng_reseed hw s else s)
      in (out, s))"

section \<open>Invariant\<close>

definition rng_ok :: "rng_state \<Rightarrow> bool" where
  "rng_ok s \<longleftrightarrow> length (pool s) = POOL_WORDS \<and> length (drbg_key s) = 32 \<and> drbg_calls s < 64"

named_theorems rng_pres

lemma stir_ok [rng_pres]: "rng_ok s \<Longrightarrow> rng_ok (rng_stir hw w s)"
  by (simp add: rng_stir_def rng_ok_def Let_def read_tsc_def)

lemma stir_tsc_ok [rng_pres]: "rng_ok s \<Longrightarrow> rng_ok (stir_tsc hw s)"
  by (simp add: stir_tsc_def read_tsc_def) (rule stir_ok, simp add: rng_ok_def)

lemma stir_others_ok [rng_pres]:
  assumes "rng_ok s"
  shows "rng_ok (stir_cmos hw r s)" "rng_ok (stir_tick hw s)" "rng_ok (stir_byte hw a s)" "rng_ok (stir_word hw a s)"
proof -
  have a: "rng_ok (s\<lparr>hw_reads := k\<rparr>)" for k using assms by (simp add: rng_ok_def)
  show "rng_ok (stir_cmos hw r s)" "rng_ok (stir_tick hw s)" "rng_ok (stir_byte hw a s)" "rng_ok (stir_word hw a s)"
    by (simp_all add: stir_cmos_def stir_tick_def stir_byte_def stir_word_def Let_def stir_ok a)
qed

lemma reseed_ok [rng_pres]: "rng_ok s \<Longrightarrow> rng_ok (rng_reseed hw s) \<and> drbg_ready (rng_reseed hw s)"
  by (simp add: rng_reseed_def rng_ok_def Let_def read_tsc_def)

lemma fold_ok:
  assumes "\<And>x s. P s \<Longrightarrow> P (f x s)" "P s" shows "P (fold f xs s)"
  using assms(2) by (induction xs arbitrary: s) (simp_all add: assms(1))

lemma funpow_ok:
  assumes "\<And>s. P s \<Longrightarrow> P (f s)" "P s" shows "P ((f ^^ n) s)"
  using assms(2) by (induction n) (simp_all add: assms(1))

lemma init_ok: "rng_ok s \<Longrightarrow> rng_ok (rng_init hw s) \<and> drbg_ready (rng_init hw s)"
  unfolding rng_init_def Let_def
  by (intro reseed_ok funpow_ok [where P = rng_ok] fold_ok [where P = rng_ok] rng_pres) assumption

lemma length_drbg_nonce [simp]: "length (drbg_nonce c) = 12"
  by (simp add: drbg_nonce_def store32_le_def)

lemma rng_loop_step:
  assumes "n \<noteq> 0"
  shows "rng_loop n s =
    (let tk = (if n < 32 then n else 32);
         ks = dossh_chacha20 (drbg_key s) (drbg_nonce (drbg_ctr s)) 0 64;
         r = rng_loop (n - tk) (s\<lparr>drbg_key := take 32 ks, drbg_ctr := drbg_ctr s + 1\<rparr>)
     in (take tk (drop 32 ks) @ fst r, snd r))"
  using assms by (subst rng_loop.simps) (simp add: Let_def split: prod.splits)

lemma loop_ok:
  "rng_ok s \<Longrightarrow> rng_ok (snd (rng_loop n s)) \<and> length (fst (rng_loop n s)) = n
     \<and> drbg_ready (snd (rng_loop n s)) = drbg_ready s \<and> drbg_calls (snd (rng_loop n s)) = drbg_calls s"
proof (induction n s rule: rng_loop.induct)
  case (1 n s)
  show ?case
  proof (cases "n = 0")
    case True with 1(2) show ?thesis by (simp add: rng_loop.simps [of 0])
  next
    case False
    define ks where "ks = dossh_chacha20 (drbg_key s) (drbg_nonce (drbg_ctr s)) 0 64"
    define s' where "s' = s\<lparr>drbg_key := take 32 ks, drbg_ctr := drbg_ctr s + 1\<rparr>"
    have l: "length ks = 64" using 1(2) by (simp add: ks_def length_dossh_chacha20 rng_ok_def)
    have "rng_ok s'" using 1(2) l by (simp add: rng_ok_def s'_def)
    note ih = 1(1) [OF False refl ks_def s'_def this]
    have "rng_loop n s = (take (if n < 32 then n else 32) (drop 32 ks) @ fst (rng_loop (n - (if n < 32 then n else 32)) s'),
        snd (rng_loop (n - (if n < 32 then n else 32)) s'))"
      using rng_loop_step [OF False, of s] by (simp only: ks_def s'_def Let_def)
    then show ?thesis using ih l False by (simp add: s'_def)
  qed
qed

lemma calls_and: "(c :: u32) < 64 \<Longrightarrow> (c + 1) AND 0x3f = 0 \<longleftrightarrow> c = 63"
proof -
  assume "c < 64"
  then have "unat c < 64" by (simp add: word_less_nat_alt)
  then have "list_all (\<lambda>n. ((of_nat n :: u32) + 1) AND 0x3f = 0 \<longleftrightarrow> (of_nat n :: u32) = 63) [0..<64]
     \<Longrightarrow> ?thesis" by (auto simp: list_all_iff dest: bspec [where x = "unat c"])
  moreover have "list_all (\<lambda>n. ((of_nat n :: u32) + 1) AND 0x3f = 0 \<longleftrightarrow> (of_nat n :: u32) = 63) [0..<64]"
    by code_simp
  ultimately show ?thesis by blast
qed

lemma bytes_ok:
  assumes "rng_ok s"
  shows "rng_ok (snd (rng_bytes hw n s))" "length (fst (rng_bytes hw n s)) = n" "drbg_ready (snd (rng_bytes hw n s))"
proof -
  define s1 where "s1 = (if drbg_ready s then s else rng_init hw s)"
  have s1: "rng_ok s1" "drbg_ready s1" using assms init_ok [of s hw] by (simp_all add: s1_def)
  obtain out s2 where l: "rng_loop n s1 = (out, s2)" by fastforce
  note lo = loop_ok [OF s1(1), of n, unfolded l, simplified]
  have c: "drbg_calls s2 < 64" using lo unfolding rng_ok_def by blast
  have b: "rng_bytes hw n s = (out, if drbg_calls s2 = 63 then rng_reseed hw (s2\<lparr>drbg_calls := drbg_calls s2 + 1\<rparr>)
      else s2\<lparr>drbg_calls := drbg_calls s2 + 1\<rparr>)"
    by (simp add: rng_bytes_def Let_def s1_def [symmetric] l calls_and [OF c])
  have r: "rng_ok (rng_reseed hw (s2\<lparr>drbg_calls := c\<rparr>))" "drbg_ready (rng_reseed hw (s2\<lparr>drbg_calls := c\<rparr>))" for c
    using lo by (simp_all add: rng_reseed_def rng_ok_def Let_def read_tsc_def)
  have "drbg_calls s2 + 1 < 64" if "drbg_calls s2 \<noteq> 63" using c that by unat_arith
  then have "rng_ok (s2\<lparr>drbg_calls := drbg_calls s2 + 1\<rparr>)" if "drbg_calls s2 \<noteq> 63"
    using lo that by (simp add: rng_ok_def)
  with lo r s1 show "rng_ok (snd (rng_bytes hw n s))" "length (fst (rng_bytes hw n s)) = n"
    "drbg_ready (snd (rng_bytes hw n s))"
    by (simp_all add: b)
qed

section \<open>The generator as a chain of keys\<close>

text \<open>The key before the \<open>i\<close>-th block, and what that block outputs.\<close>

primrec key_at :: "byte list \<Rightarrow> u32 \<Rightarrow> nat \<Rightarrow> byte list" where
  "key_at k c 0 = k"
| "key_at k c (Suc i) = take 32 (dossh_chacha20 (key_at k c i) (drbg_nonce (c + of_nat i)) 0 64)"

definition out_at :: "byte list \<Rightarrow> u32 \<Rightarrow> nat \<Rightarrow> byte list" where
  "out_at k c i = drop 32 (dossh_chacha20 (key_at k c i) (drbg_nonce (c + of_nat i)) 0 64)"

lemma key_at_shift: "key_at (key_at k c (Suc 0)) (c + 1) i = key_at k c (Suc i)"
  by (induction i) (simp_all add: add.assoc)

lemma out_at_shift: "out_at (key_at k c (Suc 0)) (c + 1) i = out_at k c (Suc i)"
  by (simp add: out_at_def key_at_shift add.assoc del: key_at.simps)

definition blocks_for :: "nat \<Rightarrow> nat" where "blocks_for n = (n + 31) div 32"

lemma length_key_at: "length k = 32 \<Longrightarrow> length (key_at k c i) = 32"
  by (induction i) (simp_all add: length_dossh_chacha20)

lemma loop_chain:
  "length (drbg_key s) = 32 \<Longrightarrow>
   fst (rng_loop n s) = take n (concat (map (out_at (drbg_key s) (drbg_ctr s)) [0..<blocks_for n]))
   \<and> snd (rng_loop n s) = s\<lparr>drbg_key := key_at (drbg_key s) (drbg_ctr s) (blocks_for n),
        drbg_ctr := drbg_ctr s + of_nat (blocks_for n)\<rparr>"
proof (induction n s rule: rng_loop.induct)
  case (1 n s)
  show ?case
  proof (cases "n = 0")
    case True then show ?thesis by (simp add: rng_loop.simps [of 0] blocks_for_def)
  next
    case False
    define ks where "ks = dossh_chacha20 (drbg_key s) (drbg_nonce (drbg_ctr s)) 0 64"
    define s' where "s' = s\<lparr>drbg_key := take 32 ks, drbg_ctr := drbg_ctr s + 1\<rparr>"
    have l: "length ks = 64" using 1(2) by (simp add: ks_def length_dossh_chacha20)
    then have l': "length (drbg_key s') = 32" by (simp add: s'_def)
    define tk where "tk = (if n < 32 then n else 32)"
    define m where "m = n - tk"
    have b: "blocks_for n = Suc (blocks_for m)"
    proof (cases "n < 32")
      case True
      then have "n + 31 = (n - 1) + 32" using False by simp
      then have "(n + 31) div 32 = Suc ((n - 1) div 32)" by simp
      with True show ?thesis by (simp add: blocks_for_def m_def tk_def)
    next
      case False
      then have "n + 31 = (n - 32 + 31) + 32" by simp
      then have "(n + 31) div 32 = Suc ((n - 32 + 31) div 32)" by simp
      with False show ?thesis by (simp add: blocks_for_def m_def tk_def)
    qed
    have k: "drbg_key s' = key_at (drbg_key s) (drbg_ctr s) (Suc 0)" and c: "drbg_ctr s' = drbg_ctr s + 1"
      by (simp_all add: s'_def ks_def)
    note ih = 1(1) [OF False tk_def ks_def s'_def l', folded m_def, unfolded k c key_at_shift out_at_shift]
    have o0: "out_at (drbg_key s) (drbg_ctr s) 0 = drop 32 ks" by (simp add: out_at_def ks_def)
    have "map (out_at (drbg_key s) (drbg_ctr s)) [0..<Suc (blocks_for m)]
        = drop 32 ks # map (\<lambda>i. out_at (drbg_key s) (drbg_ctr s) (Suc i)) [0..<blocks_for m]"
      by (simp only: map_upt_Suc o0)
    then have out: "take n (concat (map (out_at (drbg_key s) (drbg_ctr s)) [0..<blocks_for n]))
        = take tk (drop 32 ks) @ take m (concat (map (\<lambda>i. out_at (drbg_key s) (drbg_ctr s) (Suc i)) [0..<blocks_for m]))"
      using l by (simp add: b tk_def m_def)
    have e: "rng_loop n s = (take tk (drop 32 ks) @ fst (rng_loop m s'), snd (rng_loop m s'))"
      using rng_loop_step [OF False, of s] by (simp only: ks_def s'_def tk_def m_def Let_def)
    show ?thesis unfolding e out fst_conv snd_conv using ih
      by (simp add: b out_at_shift s'_def add.assoc del: key_at.simps)
  qed
qed

text \<open>The generator's output and its key erasure.  From a seeded state, asking for n bytes
  returns exactly n bytes: the first n of the upper halves of ChaCha20 blocks, each block keyed by
  the lower half of the one before it and numbered by the running counter.  Afterwards the counter
  has advanced by the number of blocks used (rounded up), the key in memory is the one after the
  last block, unless this was the 64th call, when it is the SHA-256 of that key with the pool and
  the counters and the call count starts again.\<close>

theorem rng_bytes_chain:
  assumes "rng_ok s" "drbg_ready s" "rng_bytes hw n s = (out, s')"
  shows "length out = n
     \<and> out = take n (concat (map (out_at (drbg_key s) (drbg_ctr s)) [0..<blocks_for n]))
     \<and> drbg_ctr s' = drbg_ctr s + of_nat (blocks_for n)
     \<and> (if drbg_calls s = 63
        then drbg_calls s' = 0 \<and> drbg_key s' = sha256 (key_at (drbg_key s) (drbg_ctr s) (blocks_for n)
               @ concat (map le16 (pool s)) @ le16 (pool_stir s) @ le16 (pool_idx s)
               @ le16 (ucast (drbg_ctr s')) @ le16 (ucast (rng_rdtsc hw (hw_reads s))))
        else drbg_calls s' = drbg_calls s + 1
             \<and> drbg_key s' = key_at (drbg_key s) (drbg_ctr s) (blocks_for n))"
proof -
  have k: "length (drbg_key s) = 32" and c: "drbg_calls s < 64" using assms(1) by (simp_all add: rng_ok_def)
  obtain o2 s2 where l: "rng_loop n s = (o2, s2)" by fastforce
  note ch = loop_chain [OF k, of n, unfolded l, simplified]
  have c2: "drbg_calls s2 + 1 AND 0x3f = 0 \<longleftrightarrow> drbg_calls s = 63" using ch calls_and [OF c] by simp
  have b: "rng_bytes hw n s = (o2, if drbg_calls s = 63 then rng_reseed hw (s2\<lparr>drbg_calls := drbg_calls s2 + 1\<rparr>)
      else s2\<lparr>drbg_calls := drbg_calls s2 + 1\<rparr>)"
    by (simp add: rng_bytes_def Let_def assms(2) l c2)
  show ?thesis
    using bytes_ok(2) [OF assms(1), of hw n] assms(3) ch unfolding b
    by (cases "drbg_calls s = 63") (auto simp: rng_reseed_def Let_def read_tsc_def)
qed

definition wit_rng :: rng_state where
  "wit_rng = \<lparr>pool = replicate 32 0, pool_idx = 0, pool_stir = 0, drbg_key = replicate 32 0, drbg_ctr = 0,
     drbg_calls = 63, drbg_ready = True, hw_reads = 0\<rparr>"

definition wit_hw :: rng_hw where
  "wit_hw = \<lparr>rng_rdtsc = of_nat, bios_tick = of_nat, cmos_read = (\<lambda>_ _. 0), low_mem = (\<lambda>_ _. 0)\<rparr>"

theorem rng_bytes_chain_witness:
  "length (fst (rng_bytes wit_hw 40 wit_rng)) = 40 \<and> drbg_ctr (snd (rng_bytes wit_hw 40 wit_rng)) = 2
   \<and> drbg_calls (snd (rng_bytes wit_hw 40 wit_rng)) = 0"
proof -
  have "rng_ok wit_rng" "drbg_ready wit_rng" by (simp_all add: rng_ok_def wit_rng_def POOL_WORDS_def)
  note t = rng_bytes_chain [OF this prod.collapse [symmetric], of wit_hw 40]
  have "length (fst (rng_bytes wit_hw 40 wit_rng)) = 40" using t by blast
  moreover have "drbg_ctr (snd (rng_bytes wit_hw 40 wit_rng)) = drbg_ctr wit_rng + of_nat (blocks_for 40)"
    using t by blast
  moreover have "drbg_calls wit_rng = 63" by (simp add: wit_rng_def)
  then have "drbg_calls (snd (rng_bytes wit_hw 40 wit_rng)) = 0" using t by presburger
  ultimately show ?thesis by (simp add: wit_rng_def blocks_for_def)
qed

end
