(* ===== verification/Poly1305.thy ===== *)
theory Poly1305
  imports Chacha
begin

text \<open>
  The one-time authenticator of \<open>crypto/monocypher.c\<close> (the Poly 1305 section) and its wrapper
  \<open>dossh_poly1305\<close> in \<open>crypto/crypto.c\<close>: the tag of every encrypted SSH packet.  The context is the
  record \<open>poly1305_ctx\<close>; limbs stay 32-bit words and intermediate sums 64-bit words, as in the code.
  The lemmas show that no intermediate sum wraps, that a block step is multiplication modulo
  \<open>2 ^ 130 - 5\<close> on the number the limbs stand for, and that the streaming interface computes the
  tag of RFC 8439 whatever way the message is cut into pieces.
\<close>

type_synonym u64 = "64 word"

record poly1305_ctx =
  poly_c :: "byte list"
  c_idx :: nat
  poly_r :: "u32 list"
  poly_pad :: "u32 list"
  poly_h :: "u32 list"

section \<open>The authenticator\<close>

text \<open>\<open>gap\<close> with \<open>size_t\<close> of 16 bits.\<close>

definition gap :: "nat \<Rightarrow> nat \<Rightarrow> nat" where
  "gap x pow_2 = unat ((NOT (of_nat x) + 1) AND (of_nat pow_2 - 1) :: 16 word)"

text \<open>The body of the loop of \<open>poly_blocks\<close>: one block, given by its four words.\<close>

definition poly_block :: "u32 list \<Rightarrow> u32 \<Rightarrow> u32 list \<Rightarrow> u32 list \<Rightarrow> u32 list" where
  "poly_block r end_bit inp h =
     (let r0 = r ! 0; r1 = r ! 1; r2 = r ! 2; r3 = r ! 3;
          rr0 = drop_bit 2 r0 * 5; rr1 = drop_bit 2 r1 + r1;
          rr2 = drop_bit 2 r2 + r2; rr3 = drop_bit 2 r3 + r3;
          rr4 = r0 AND 3;
          s0 = ucast (h ! 0) + ucast (inp ! 0) :: u64;
          s1 = ucast (h ! 1) + ucast (inp ! 1) :: u64;
          s2 = ucast (h ! 2) + ucast (inp ! 2) :: u64;
          s3 = ucast (h ! 3) + ucast (inp ! 3) :: u64;
          s4 = h ! 4 + end_bit;
          x0 = s0 * ucast r0 + s1 * ucast rr3 + s2 * ucast rr2 + s3 * ucast rr1 + ucast (s4 * rr0);
          x1 = s0 * ucast r1 + s1 * ucast r0 + s2 * ucast rr3 + s3 * ucast rr2 + ucast (s4 * rr1);
          x2 = s0 * ucast r2 + s1 * ucast r1 + s2 * ucast r0 + s3 * ucast rr3 + ucast (s4 * rr2);
          x3 = s0 * ucast r3 + s1 * ucast r2 + s2 * ucast r1 + s3 * ucast r0 + ucast (s4 * rr3);
          x4 = s4 * rr4;
          u5 = ucast (ucast x4 + drop_bit 32 x3) :: u32;
          u0 = ucast (drop_bit 2 u5 * 5) + (x0 AND 0xffffffff) :: u64;
          u1 = drop_bit 32 u0 + (x1 AND 0xffffffff) + drop_bit 32 x0;
          u2 = drop_bit 32 u1 + (x2 AND 0xffffffff) + drop_bit 32 x1;
          u3 = drop_bit 32 u2 + (x3 AND 0xffffffff) + drop_bit 32 x2;
          u4 = ucast (drop_bit 32 u3 + ucast (u5 AND 3)) :: u32
      in [ucast (u0 AND 0xffffffff), ucast (u1 AND 0xffffffff),
          ucast (u2 AND 0xffffffff), ucast (u3 AND 0xffffffff), u4])"

primrec poly_loop :: "u32 list \<Rightarrow> u32 \<Rightarrow> nat \<Rightarrow> byte list \<Rightarrow> u32 list \<Rightarrow> u32 list" where
  "poly_loop r end_bit 0 inp h = h"
| "poly_loop r end_bit (Suc n) inp h =
     poly_loop r end_bit n (drop 16 inp) (poly_block r end_bit (load32_le_buf (take 16 inp)) h)"

definition poly_blocks :: "poly1305_ctx \<Rightarrow> byte list \<Rightarrow> nat \<Rightarrow> u32 \<Rightarrow> poly1305_ctx" where
  "poly_blocks ctx inp nb_blocks end_bit =
     ctx\<lparr>poly_h := poly_loop (poly_r ctx) end_bit nb_blocks inp (poly_h ctx)\<rparr>"

definition crypto_poly1305_init :: "byte list \<Rightarrow> poly1305_ctx \<Rightarrow> poly1305_ctx" where
  "crypto_poly1305_init key ctx =
     (let r = load32_le_buf (take 16 key)
      in ctx\<lparr>poly_h := replicate 5 0, c_idx := 0,
             poly_r := (r ! 0 AND 0x0fffffff) # map (\<lambda>i. r ! i AND 0x0ffffffc) [1..<4],
             poly_pad := load32_le_buf (take 16 (drop 16 key))\<rparr>)"

text \<open>Storing bytes into the chunk: \<open>ctx->c[ctx->c_idx] = b; ctx->c_idx++\<close>.\<close>

definition poly_store :: "byte list \<Rightarrow> poly1305_ctx \<Rightarrow> poly1305_ctx" where
  "poly_store bs ctx =
     fold (\<lambda>b ctx. ctx\<lparr>poly_c := (poly_c ctx)[c_idx ctx := b], c_idx := c_idx ctx + 1\<rparr>) bs ctx"

definition crypto_poly1305_update :: "byte list \<Rightarrow> poly1305_ctx \<Rightarrow> poly1305_ctx" where
  "crypto_poly1305_update message ctx =
     (if message = [] then ctx
      else
        (let aligned = min (gap (c_idx ctx) 16) (length message);
             ctx = poly_store (take aligned message) ctx;
             message = drop aligned message;
             ctx = (if c_idx ctx = 16 then (poly_blocks ctx (poly_c ctx) 1 1)\<lparr>c_idx := 0\<rparr> else ctx);
             nb_blocks = length message div 16;
             ctx = poly_blocks ctx message nb_blocks 1
         in poly_store (drop (16 * nb_blocks) message) ctx))"

text \<open>The two carry loops of \<open>crypto_poly1305_final\<close>.\<close>

definition carry_in :: "u32 list \<Rightarrow> u64" where
  "carry_in h = fold (\<lambda>hi c. drop_bit 32 (c + ucast hi)) (take 4 h) 5"

primrec mac_loop :: "(u32 \<times> u32) list \<Rightarrow> u64 \<Rightarrow> byte list" where
  "mac_loop [] c = []"
| "mac_loop (hp # hps) c =
     (let c = c + (ucast (fst hp) + ucast (snd hp))
      in store32_le (ucast c) @ mac_loop hps (drop_bit 32 c))"

definition crypto_poly1305_final :: "poly1305_ctx \<Rightarrow> byte list" where
  "crypto_poly1305_final ctx =
     (let ctx = (if c_idx ctx \<noteq> 0 then
                   (let ctx = ctx\<lparr>poly_c := take (c_idx ctx) (poly_c ctx) @ replicate (16 - c_idx ctx) 0\<rparr>;
                        ctx = ctx\<lparr>poly_c := (poly_c ctx)[c_idx ctx := 1]\<rparr>
                    in poly_blocks ctx (poly_c ctx) 1 0)
                 else ctx);
          c = carry_in (poly_h ctx) + ucast (poly_h ctx ! 4);
          c = drop_bit 2 c * 5
      in mac_loop (zip (take 4 (poly_h ctx)) (poly_pad ctx)) c)"

text \<open>A context on the stack: its contents before \<open>crypto_poly1305_init\<close> do not matter.\<close>

definition poly_ctx0 :: poly1305_ctx where
  "poly_ctx0 = \<lparr>poly_c = replicate 16 0, c_idx = 0, poly_r = replicate 4 0, poly_pad = replicate 4 0, poly_h = replicate 5 0\<rparr>"

definition crypto_poly1305 :: "byte list \<Rightarrow> byte list \<Rightarrow> byte list" where
  "crypto_poly1305 message key =
     crypto_poly1305_final (crypto_poly1305_update message (crypto_poly1305_init key poly_ctx0))"

definition dossh_poly1305 :: "byte list \<Rightarrow> byte list \<Rightarrow> byte list" where
  "dossh_poly1305 msg key = crypto_poly1305 msg key"

section \<open>The numbers the limbs stand for\<close>

definition limb32 :: nat where "limb32 = 4294967296"

primrec limbs :: "u32 list \<Rightarrow> nat" where
  "limbs [] = 0"
| "limbs (w # ws) = unat w + limb32 * limbs ws"

primrec le_num :: "byte list \<Rightarrow> nat" where
  "le_num [] = 0"
| "le_num (b # bs) = unat b + 256 * le_num bs"

definition P1305 :: nat where "P1305 = 2 ^ 130 - 5"

text \<open>Words written as images of naturals: the arithmetic of the code becomes arithmetic on naturals
  as long as nothing wraps.\<close>

lemma ucast_nat64: "(ucast (w :: u32) :: u64) = of_nat (unat w)"
  by (simp add: word_unat_eq_iff unsigned_ucast_eq unat_of_nat take_bit_eq_mod)

lemma unat_small64: "n < 18446744073709551616 \<Longrightarrow> unat (of_nat n :: u64) = n"
  by (simp add: unat_of_nat)

lemma unat_small32: "n < limb32 \<Longrightarrow> unat (of_nat n :: u32) = n"
  by (simp add: unat_of_nat limb32_def)

lemma unat_drop: "unat (drop_bit k w) = unat w div 2 ^ k" for w :: "'a::len word"
  unfolding unat_drop_bit_eq by (rule drop_bit_eq_div)

lemma drop_nat64: "n < 18446744073709551616 \<Longrightarrow> drop_bit k (of_nat n :: u64) = of_nat (n div 2 ^ k)"
  using le_less_trans [OF div_le_dividend, of n "18446744073709551616" "2 ^ k"]
  by (simp only: word_unat_eq_iff unat_drop unat_small64)

lemma drop_nat32: "n < limb32 \<Longrightarrow> drop_bit k (of_nat n :: u32) = of_nat (n div 2 ^ k)"
  using le_less_trans [OF div_le_dividend, of n limb32 "2 ^ k"]
  by (simp only: word_unat_eq_iff unat_drop unat_small32)

lemma and_mask_mod: "unat (w AND mask k) = unat w mod 2 ^ k" for w :: "'a::len word"
  by (simp flip: take_bit_eq_mask take_bit_eq_mod add: unsigned_take_bit_eq)

lemma mask_2: "(3 :: u32) = mask 2"
  by (simp add: mask_eq_exp_minus_1)

lemma mask_nat64: "(of_nat n :: u64) AND 0xffffffff = of_nat (n mod limb32)"
proof -
  have "unat ((of_nat n :: u64) AND mask 32) = n mod 18446744073709551616 mod 2 ^ 32"
    by (simp add: and_mask_mod unat_of_nat)
  also have "\<dots> = n mod limb32" by (simp add: limb32_def mod_mod_cancel)
  finally have "unat ((of_nat n :: u64) AND mask 32) = unat (of_nat (n mod limb32) :: u64)"
    by (simp add: unat_of_nat limb32_def)
  moreover have "(0xffffffff :: u64) = mask 32" by (simp add: mask_eq_exp_minus_1)
  ultimately show ?thesis by (metis unsigned_word_eqI)
qed

lemma ucast_of_nat64: "(ucast (of_nat n :: u64) :: u32) = of_nat n"
  by (simp add: word_unat_eq_iff unsigned_ucast_eq unat_of_nat take_bit_eq_mod mod_mod_cancel)

lemma ucast_of_nat32: "n < limb32 \<Longrightarrow> (ucast (of_nat n :: u32) :: u64) = of_nat n"
  by (simp add: ucast_nat64 unat_small32)

section \<open>One block\<close>

text \<open>The key part of the context: the clamped multiplier.\<close>

definition clamped :: "u32 list \<Rightarrow> bool" where
  "clamped r \<longleftrightarrow> length r = 4 \<and> unat (r ! 0) < 268435456
     \<and> (\<forall>i \<in> {1, 2, 3}. unat (r ! i) < 268435456 \<and> unat (r ! i) mod 4 = 0)"

lemma clamped_split:
  assumes "clamped r"
  obtains q0 t0 q1 q2 q3 where "r = [of_nat (4 * q0 + t0), of_nat (4 * q1), of_nat (4 * q2), of_nat (4 * q3)]"
    "t0 < 4" "q0 \<le> 67108863" "q1 \<le> 67108863" "q2 \<le> 67108863" "q3 \<le> 67108863"
proof (rule that)
  let ?q = "\<lambda>i. unat (r ! i) div 4"
  have "length r = Suc (Suc (Suc (Suc 0)))" using assms by (simp add: clamped_def)
  then have r: "r = [r ! 0, r ! 1, r ! 2, r ! 3]" by (auto simp: length_Suc_conv)
  have b: "?q 0 \<le> 67108863" "?q 1 \<le> 67108863" "?q 2 \<le> 67108863" "?q 3 \<le> 67108863"
    using assms by (auto simp: clamped_def)
  then show "?q 0 \<le> 67108863" "?q 1 \<le> 67108863" "?q 2 \<le> 67108863" "?q 3 \<le> 67108863" .
  have "4 * ?q 1 = unat (r ! 1)" "4 * ?q 2 = unat (r ! 2)" "4 * ?q 3 = unat (r ! 3)"
    using assms by (auto simp: clamped_def)
  then show "r = [of_nat (4 * ?q 0 + unat (r ! 0) mod 4), of_nat (4 * ?q 1), of_nat (4 * ?q 2), of_nat (4 * ?q 3)]"
    using r by (simp only: mult_div_mod_eq of_nat_unat ucast_id)
  show "unat (r ! 0) mod 4 < 4" by simp
qed

lemma nth_limbs:
  "(a # b # c # d # xs) ! 0 = a" "(a # b # c # d # xs) ! 1 = b" "(a # b # c # d # xs) ! 2 = c"
  "(a # b # c # d # xs) ! 3 = d" "[a, b, c, d, f] ! 4 = f"
  by simp_all

lemma col_bound:
  assumes "s0 \<le> 8589934590" "s1 \<le> 8589934590" "s2 \<le> 8589934590" "s3 \<le> 8589934590" "s4 \<le> 5"
    "a0 \<le> m" "a1 \<le> m" "a2 \<le> m" "a3 \<le> m" "a4 \<le> 335544315"
  shows "s0 * a0 + s1 * a1 + s2 * a2 + s3 * a3 + s4 * a4 \<le> (34359738360 * m + 1677721575 :: nat)"
  using mult_le_mono [OF assms(1,6)] mult_le_mono [OF assms(2,7)] mult_le_mono [OF assms(3,8)]
    mult_le_mono [OF assms(4,9)] mult_le_mono [OF assms(5,10)] by simp

lemma carry_sum:
  fixes w :: int
  assumes "e0 + w * c0 = k * 5 + b0" "e1 + w * c1 = c0 + b1 + a0" "e2 + w * c2 = c1 + b2 + a1"
    "e3 + w * c3 = c2 + b3 + a2" "x4 + a3 = 4 * k + m"
  shows "w * a0 + b0 + w * (w * a1 + b1 + w * (w * a2 + b2 + w * (w * a3 + b3 + w * x4)))
    = e0 + w * (e1 + w * (e2 + w * (e3 + w * (c3 + m)))) + (4 * w ^ 4 - 5) * k"
  using assms by algebra

text \<open>The carries of the block step on naturals: the new limbs stand for the column sums up to a
  multiple of the modulus, and the top limb stays at most 4.\<close>

lemma carries:
  fixes x0 x1 x2 x3 x4 :: nat
  assumes "x0 \<le> 12000000000000000000" "x1 \<le> 12000000000000000000" "x2 \<le> 12000000000000000000"
    "x3 \<le> 9223372036854775807" "x4 \<le> 15"
    "u5 = x4 + x3 div limb32" "u0 = u5 div 4 * 5 + x0 mod limb32" "u1 = u0 div limb32 + x1 mod limb32 + x0 div limb32"
    "u2 = u1 div limb32 + x2 mod limb32 + x1 div limb32" "u3 = u2 div limb32 + x3 mod limb32 + x2 div limb32"
    "u4 = u3 div limb32 + u5 mod 4"
  shows "u5 < limb32" "u5 div 4 * 5 < limb32" "u0 < 18446744073709551616" "u1 < 18446744073709551616"
    "u2 < 18446744073709551616" "u3 < 18446744073709551616" "u4 \<le> 4"
    "x0 + limb32 * (x1 + limb32 * (x2 + limb32 * (x3 + limb32 * x4)))
      = u0 mod limb32 + limb32 * (u1 mod limb32 + limb32 * (u2 mod limb32 + limb32 * (u3 mod limb32 + limb32 * u4)))
        + P1305 * (u5 div 4)"
proof -
  have d: "x0 div limb32 \<le> 2793967724" "x1 div limb32 \<le> 2793967724" "x2 div limb32 \<le> 2793967724"
    "x3 div limb32 \<le> 2147483647"
    using assms(1-4) by (simp_all add: limb32_def)
  have m: "x mod limb32 < 4294967296" for x by (simp add: limb32_def)
  have u5: "u5 \<le> 2147483662" using d(4) assms(5,6) by simp
  then show "u5 < limb32" by (simp add: limb32_def)
  have f: "u5 div 4 * 5 \<le> 2684354580" using u5 by simp
  then show "u5 div 4 * 5 < limb32" by (simp add: limb32_def)
  have u0: "u0 < 6979321876" using f m [of x0] assms(7) by simp
  then have d0: "u0 div limb32 \<le> 1" by (simp add: limb32_def)
  have u1: "u1 < 7088935021" using d0 m [of x1] d(1) assms(8) by simp
  then have d1: "u1 div limb32 \<le> 1" by (simp add: limb32_def)
  have u2: "u2 < 7088935021" using d1 m [of x2] d(2) assms(9) by simp
  then have d2: "u2 div limb32 \<le> 1" by (simp add: limb32_def)
  have u3: "u3 < 7088935021" using d2 m [of x3] d(3) assms(10) by simp
  then have d3: "u3 div limb32 \<le> 1" by (simp add: limb32_def)
  show "u0 < 18446744073709551616" "u1 < 18446744073709551616" "u2 < 18446744073709551616" "u3 < 18446744073709551616"
    using u0 u1 u2 u3 by simp_all
  show "u4 \<le> 4" using d3 assms(11) by (simp add: le_less_trans)
  have dm: "limb32 * (x div limb32) + x mod limb32 = x" for x by simp
  have p: "int P1305 = 4 * int limb32 ^ 4 - 5" by (simp add: P1305_def limb32_def)
  have "int (u mod limb32) + int limb32 * int (u div limb32) = int u" for u
    by (simp flip: of_nat_mult of_nat_add add: mod_mult_div_eq)
  moreover have "int x4 + int (x3 div limb32) = 4 * int (u5 div 4) + int (u5 mod 4)"
    unfolding of_nat_add [symmetric] assms(6) [symmetric]
    by (metis mult_div_mod_eq of_nat_add of_nat_mult of_nat_numeral)
  ultimately have "int limb32 * int (x0 div limb32) + int (x0 mod limb32) + int limb32 * (int limb32 * int (x1 div limb32) + int (x1 mod limb32)
      + int limb32 * (int limb32 * int (x2 div limb32) + int (x2 mod limb32) + int limb32 * (int limb32 * int (x3 div limb32) + int (x3 mod limb32)
      + int limb32 * int x4)))
    = int (u0 mod limb32) + int limb32 * (int (u1 mod limb32) + int limb32 * (int (u2 mod limb32)
        + int limb32 * (int (u3 mod limb32) + int limb32 * (int (u3 div limb32) + int (u5 mod 4))))) + (4 * int limb32 ^ 4 - 5) * int (u5 div 4)"
    by (intro carry_sum) (simp_all only: assms(7-10) of_nat_add of_nat_mult of_nat_numeral)
  then show "x0 + limb32 * (x1 + limb32 * (x2 + limb32 * (x3 + limb32 * x4)))
      = u0 mod limb32 + limb32 * (u1 mod limb32 + limb32 * (u2 mod limb32 + limb32 * (u3 mod limb32 + limb32 * u4)))
        + P1305 * (u5 div 4)"
    unfolding p [symmetric] of_nat_add [symmetric] of_nat_mult [symmetric] dm of_nat_eq_iff assms(11) .
qed

lemma column_product:
  fixes w :: int
  shows "(s0 + w * (s1 + w * (s2 + w * (s3 + w * s4)))) * (4 * q0 + t0 + w * (4 * q1 + w * (4 * q2 + w * (4 * q3))))
    = (s0 * (4 * q0 + t0) + s1 * (5 * q3) + s2 * (5 * q2) + s3 * (5 * q1) + s4 * (5 * q0))
      + w * ((s0 * (4 * q1) + s1 * (4 * q0 + t0) + s2 * (5 * q3) + s3 * (5 * q2) + s4 * (5 * q1))
      + w * ((s0 * (4 * q2) + s1 * (4 * q1) + s2 * (4 * q0 + t0) + s3 * (5 * q3) + s4 * (5 * q2))
      + w * ((s0 * (4 * q3) + s1 * (4 * q2) + s2 * (4 * q1) + s3 * (4 * q0 + t0) + s4 * (5 * q3))
      + w * (s4 * t0))))
      + (4 * w ^ 4 - 5) * (s1 * q3 + s2 * q2 + s3 * q1 + s4 * q0
          + w * (s2 * q3 + s3 * q2 + s4 * q1) + w ^ 2 * (s3 * q3 + s4 * q2) + w ^ 3 * (s4 * q3))"
  by algebra

text \<open>The words of a block step are the images of these naturals: nothing wraps.\<close>

lemma poly_block_nat:
  assumes h: "h = [h0, h1, h2, h3, h4]" "unat h4 \<le> 4" and e: "unat e \<le> 1" and i: "inp = [i0, i1, i2, i3]"
    and r: "r = [of_nat (4 * q0 + t0), of_nat (4 * q1), of_nat (4 * q2), of_nat (4 * q3)]"
    and b: "t0 < 4" "q0 \<le> 67108863" "q1 \<le> 67108863" "q2 \<le> 67108863" "q3 \<le> 67108863"
    and s: "s0 = unat h0 + unat i0" "s1 = unat h1 + unat i1" "s2 = unat h2 + unat i2" "s3 = unat h3 + unat i3" "s4 = unat h4 + unat e"
    and x: "x0 = s0 * (4 * q0 + t0) + s1 * (5 * q3) + s2 * (5 * q2) + s3 * (5 * q1) + s4 * (5 * q0)"
      "x1 = s0 * (4 * q1) + s1 * (4 * q0 + t0) + s2 * (5 * q3) + s3 * (5 * q2) + s4 * (5 * q1)"
      "x2 = s0 * (4 * q2) + s1 * (4 * q1) + s2 * (4 * q0 + t0) + s3 * (5 * q3) + s4 * (5 * q2)"
      "x3 = s0 * (4 * q3) + s1 * (4 * q2) + s2 * (4 * q1) + s3 * (4 * q0 + t0) + s4 * (5 * q3)"
    and u: "u5 = s4 * t0 + x3 div limb32" "u0 = u5 div 4 * 5 + x0 mod limb32" "u1 = u0 div limb32 + x1 mod limb32 + x0 div limb32"
      "u2 = u1 div limb32 + x2 mod limb32 + x1 div limb32" "u3 = u2 div limb32 + x3 mod limb32 + x2 div limb32"
      "u4 = u3 div limb32 + u5 mod 4"
  shows "x0 \<le> 12000000000000000000" "x1 \<le> 12000000000000000000" "x2 \<le> 12000000000000000000"
    "x3 \<le> 9223372036854775807" "s4 * t0 \<le> 15"
    "poly_block r e inp h = map of_nat [u0 mod limb32, u1 mod limb32, u2 mod limb32, u3 mod limb32, u4]"
proof -
  have lt: "unat w < 4294967296" for w :: u32 using unsigned_less [of w] by simp
  have sb: "s0 \<le> 8589934590" "s1 \<le> 8589934590" "s2 \<le> 8589934590" "s3 \<le> 8589934590" "s4 \<le> 5"
    unfolding s using lt [of h0] lt [of h1] lt [of h2] lt [of h3] lt [of i0] lt [of i1] lt [of i2] lt [of i3] h(2) e by simp_all
  have c: "x0 \<le> 34359738360 * 335544315 + 1677721575" "x1 \<le> 34359738360 * 335544315 + 1677721575"
    "x2 \<le> 34359738360 * 335544315 + 1677721575" "x3 \<le> 34359738360 * 268435455 + 1677721575"
    unfolding x using b by (intro col_bound sb; simp)+
  show bx: "x0 \<le> 12000000000000000000" "x1 \<le> 12000000000000000000" "x2 \<le> 12000000000000000000" "x3 \<le> 9223372036854775807"
    using c by simp_all
  show b4: "s4 * t0 \<le> 15" using mult_le_mono [OF sb(5), of t0 3] b(1) by simp
  note cb = carries(1-6) [OF bx b4 u]
  have big: "x0 < 18446744073709551616" "x1 < 18446744073709551616" "x2 < 18446744073709551616" "x3 < 18446744073709551616"
    using bx by simp_all
  have small: "4 * q0 + t0 < limb32" "4 * q1 < limb32" "4 * q2 < limb32" "4 * q3 < limb32"
    "5 * q0 < limb32" "5 * q1 < limb32" "5 * q2 < limb32" "5 * q3 < limb32" using b by (simp_all add: limb32_def)
  have prods: "s4 * (5 * q) < limb32" if "q \<le> 67108863" for q
    using mult_le_mono [OF sb(5), of "5 * q" 335544315] that unfolding limb32_def by linarith
  have rr: "drop_bit 2 (of_nat (4 * q) :: u32) + of_nat (4 * q) = of_nat (5 * q)" if "4 * q < limb32" for q
    using drop_nat32 [OF that, of 2] by (simp flip: of_nat_add)
  have rr0: "drop_bit 2 (of_nat (4 * q0 + t0) :: u32) * 5 = of_nat (5 * q0)"
    using drop_nat32 [OF small(1), of 2] b(1) by (simp add: mult.commute)
  have "unat ((of_nat (4 * q0 + t0) :: u32) AND mask 2) = t0"
    unfolding and_mask_mod using unat_small32 [OF small(1)] b(1) by simp
  then have rr4: "(of_nat (4 * q0 + t0) :: u32) AND 3 = of_nat t0"
    by (metis mask_2 of_nat_unat ucast_id)
  have s4: "h4 + e = of_nat s4" unfolding s by simp
  show "poly_block r e inp h = map of_nat [u0 mod limb32, u1 mod limb32, u2 mod limb32, u3 mod limb32, u4]"
  proof -
    have S: "(ucast h0 :: u64) + ucast i0 = of_nat s0" "(ucast h1 :: u64) + ucast i1 = of_nat s1"
      "(ucast h2 :: u64) + ucast i2 = of_nat s2" "(ucast h3 :: u64) + ucast i3 = of_nat s3"
      unfolding s of_nat_add ucast_nat64 by (rule refl)+
    have m: "of_nat a * of_nat b = (of_nat (a * b) :: 'z::semiring_1)" for a b by simp
    have five: "drop_bit 2 (of_nat u5 :: u32) * 5 = of_nat (u5 div 4 * 5)"
      using drop_nat32 [OF cb(1), of 2] by simp
    have "unat ((of_nat u5 :: u32) AND mask 2) = u5 mod 4"
      unfolding and_mask_mod using unat_small32 [OF cb(1)] by simp
    then have u5m: "(of_nat u5 :: u32) AND 3 = of_nat (u5 mod 4)" by (metis mask_2 of_nat_unat ucast_id)
    have c3: "(ucast (of_nat (u5 mod 4) :: u32) :: u64) = of_nat (u5 mod 4)" by (rule ucast_of_nat32) (simp add: limb32_def)
    have c4: "(ucast (of_nat (s4 * t0) :: u32) :: u64) = of_nat (s4 * t0)" by (rule ucast_of_nat32) (use b4 in \<open>simp add: limb32_def\<close>)
    note step = rr [OF small(2)] rr [OF small(3)] rr [OF small(4)] rr0 rr4 s4 S m
      ucast_of_nat32 [OF small(1)] ucast_of_nat32 [OF small(2)] ucast_of_nat32 [OF small(3)] ucast_of_nat32 [OF small(4)]
      ucast_of_nat32 [OF small(6)] ucast_of_nat32 [OF small(7)] ucast_of_nat32 [OF small(8)]
      ucast_of_nat32 [OF prods [OF b(2)]] ucast_of_nat32 [OF prods [OF b(3)]] ucast_of_nat32 [OF prods [OF b(4)]]
      ucast_of_nat32 [OF prods [OF b(5)]] c4
      of_nat_add [symmetric] x [symmetric]
    note fin = drop_nat64 [OF big(1), of 32] drop_nat64 [OF big(2), of 32] drop_nat64 [OF big(3), of 32] drop_nat64 [OF big(4), of 32]
    have l: "(2 :: nat) ^ 32 = limb32" by (simp add: limb32_def)
    show ?thesis
      unfolding poly_block_def h(1) i r Let_def nth_limbs
      by (simp only: step fin drop_nat64 [OF cb(3)] drop_nat64 [OF cb(4)] drop_nat64 [OF cb(5)] drop_nat64 [OF cb(6)] l mask_nat64
          ucast_of_nat64 five u5m c3 ucast_of_nat32 [OF cb(2)] u [symmetric] list.map)
  qed
qed

text \<open>A block step multiplies modulo the prime and keeps the accumulator's shape.\<close>

definition acc_ok :: "u32 list \<Rightarrow> bool" where
  "acc_ok h \<longleftrightarrow> length h = 5 \<and> unat (h ! 4) \<le> 4"

lemma limbs_of_nat: "list_all (\<lambda>n. n < limb32) ns \<Longrightarrow> limbs (map of_nat ns) = foldr (\<lambda>n v. n + limb32 * v) ns 0"
  by (induction ns) (simp_all add: unat_small32)

lemma block_mod:
  assumes "limbs h + limbs inp + unat e * limb32 ^ 4 = S" "S * R = X + P1305 * k" "X = L + P1305 * j"
  shows "L mod P1305 = ((limbs h + limbs inp + unat e * limb32 ^ 4) * R) mod P1305"
  unfolding assms by (simp add: mod_add_right_eq)

lemma poly_block_correct:
  assumes "clamped r" "acc_ok h" "unat e \<le> 1" "length inp = 4"
  shows "acc_ok (poly_block r e inp h)"
    and "limbs (poly_block r e inp h) mod P1305 = ((limbs h + limbs inp + unat e * limb32 ^ 4) * limbs r) mod P1305"
proof -
  obtain q0 t0 q1 q2 q3 where r: "r = [of_nat (4 * q0 + t0), of_nat (4 * q1), of_nat (4 * q2), of_nat (4 * q3)]"
    and b: "t0 < 4" "q0 \<le> 67108863" "q1 \<le> 67108863" "q2 \<le> 67108863" "q3 \<le> 67108863"
    by (rule clamped_split [OF assms(1)])
  have "length h = Suc (Suc (Suc (Suc (Suc 0))))" using assms(2) by (simp add: acc_ok_def)
  then obtain h0 h1 h2 h3 h4 where h: "h = [h0, h1, h2, h3, h4]" by (auto simp: length_Suc_conv)
  have h4: "unat h4 \<le> 4" using assms(2) h by (simp add: acc_ok_def)
  have "length inp = Suc (Suc (Suc (Suc 0)))" using assms(4) by simp
  then obtain i0 i1 i2 i3 where i: "inp = [i0, i1, i2, i3]" by (auto simp: length_Suc_conv)
  define s0 s1 s2 s3 s4 where s: "s0 = unat h0 + unat i0" "s1 = unat h1 + unat i1" "s2 = unat h2 + unat i2"
    "s3 = unat h3 + unat i3" "s4 = unat h4 + unat e"
  define x0 where x0: "x0 = s0 * (4 * q0 + t0) + s1 * (5 * q3) + s2 * (5 * q2) + s3 * (5 * q1) + s4 * (5 * q0)"
  define x1 where x1: "x1 = s0 * (4 * q1) + s1 * (4 * q0 + t0) + s2 * (5 * q3) + s3 * (5 * q2) + s4 * (5 * q1)"
  define x2 where x2: "x2 = s0 * (4 * q2) + s1 * (4 * q1) + s2 * (4 * q0 + t0) + s3 * (5 * q3) + s4 * (5 * q2)"
  define x3 where x3: "x3 = s0 * (4 * q3) + s1 * (4 * q2) + s2 * (4 * q1) + s3 * (4 * q0 + t0) + s4 * (5 * q3)"
  define u5 where u5: "u5 = s4 * t0 + x3 div limb32"
  define u0 where u0: "u0 = u5 div 4 * 5 + x0 mod limb32"
  define u1 where u1: "u1 = u0 div limb32 + x1 mod limb32 + x0 div limb32"
  define u2 where u2: "u2 = u1 div limb32 + x2 mod limb32 + x1 div limb32"
  define u3 where u3: "u3 = u2 div limb32 + x3 mod limb32 + x2 div limb32"
  define u4 where u4: "u4 = u3 div limb32 + u5 mod 4"
  note n = poly_block_nat [OF h h4 assms(3) i r b s x0 x1 x2 x3 u5 u0 u1 u2 u3 u4]
  note c = carries [OF n(1-5) u5 u0 u1 u2 u3 u4]
  have small: "4 * q0 + t0 < limb32" "4 * q1 < limb32" "4 * q2 < limb32" "4 * q3 < limb32"
    using b by (simp_all add: limb32_def)
  have u4s: "u4 < limb32" using c(7) by (simp add: limb32_def)
  then show "acc_ok (poly_block r e inp h)" using c(7) by (simp add: n(6) acc_ok_def unat_small32)
  have m: "x mod limb32 < limb32" for x by (simp add: limb32_def)
  have L: "limbs (poly_block r e inp h)
      = u0 mod limb32 + limb32 * (u1 mod limb32 + limb32 * (u2 mod limb32 + limb32 * (u3 mod limb32 + limb32 * u4)))"
    unfolding n(6) by (subst limbs_of_nat) (use m u4s in simp_all)
  have R: "limbs r = 4 * q0 + t0 + limb32 * (4 * q1 + limb32 * (4 * q2 + limb32 * (4 * q3)))"
    unfolding r using small by (simp only: limbs.simps unat_small32) simp
  have S: "limbs h + limbs inp + unat e * limb32 ^ 4 = s0 + limb32 * (s1 + limb32 * (s2 + limb32 * (s3 + limb32 * s4)))"
    unfolding h i s by (simp add: algebra_simps numeral_eq_Suc)
  have p: "int P1305 = 4 * int limb32 ^ 4 - 5" by (simp add: P1305_def limb32_def)
  have "(s0 + limb32 * (s1 + limb32 * (s2 + limb32 * (s3 + limb32 * s4)))) * limbs r
    = x0 + limb32 * (x1 + limb32 * (x2 + limb32 * (x3 + limb32 * (s4 * t0))))
      + P1305 * (s1 * q3 + s2 * q2 + s3 * q1 + s4 * q0 + limb32 * (s2 * q3 + s3 * q2 + s4 * q1)
          + limb32 ^ 2 * (s3 * q3 + s4 * q2) + limb32 ^ 3 * (s4 * q3))"
    unfolding R x0 x1 x2 x3 of_nat_eq_iff [where 'a = int, symmetric] of_nat_add of_nat_mult of_nat_power p of_nat_numeral
    by (rule column_product)
  from block_mod [OF S this c(8)]
  show "limbs (poly_block r e inp h) mod P1305 = ((limbs h + limbs inp + unat e * limb32 ^ 4) * limbs r) mod P1305"
    unfolding L .
qed

section \<open>The reference\<close>

text \<open>RFC 8439, section 2.5: the message in blocks of 16 bytes, each with a 1 appended, read as
  little-endian numbers; Horner's scheme modulo the prime with the clamped first half of the key;
  the second half is added at the end.\<close>

function poly_num :: "nat \<Rightarrow> nat \<Rightarrow> byte list \<Rightarrow> nat" where
  "poly_num r a m = (if m = [] then a else poly_num r ((a + le_num (take 16 m @ [1])) * r mod P1305) (drop 16 m))"
  by auto
termination by (relation "measure (\<lambda>(r, a, m). length m)") auto

declare poly_num.simps [simp del]

primrec le_bytes :: "nat \<Rightarrow> nat \<Rightarrow> byte list" where
  "le_bytes 0 v = []"
| "le_bytes (Suc n) v = of_nat v # le_bytes n (v div 256)"

definition poly_multiplier :: "byte list \<Rightarrow> nat" where
  "poly_multiplier key = le_num (take 16 key) AND 0x0ffffffc0ffffffc0ffffffc0fffffff"

definition poly1305_spec :: "byte list \<Rightarrow> byte list \<Rightarrow> byte list" where
  "poly1305_spec key m =
     le_bytes 16 ((poly_num (poly_multiplier key) 0 m + le_num (take 16 (drop 16 key))) mod 2 ^ 128)"

lemma poly_num_Nil [simp]: "poly_num r a [] = a"
  by (simp add: poly_num.simps)

lemma poly_num_append:
  "16 dvd length x \<Longrightarrow> poly_num r a (x @ y) = poly_num r (poly_num r a x) y"
proof (induction "length x" arbitrary: x a rule: less_induct)
  case less
  show ?case
  proof (cases "x = []")
    case False
    with less.prems have l: "16 \<le> length x" by (auto intro: dvd_imp_le)
    have "poly_num r a (x @ y) = poly_num r ((a + le_num (take 16 x @ [1])) * r mod P1305) (drop 16 x @ y)"
      using False l by (subst poly_num.simps) simp
    also have "\<dots> = poly_num r (poly_num r ((a + le_num (take 16 x @ [1])) * r mod P1305) (drop 16 x)) y"
      using False l less.prems by (intro less.hyps) (auto simp: dvd_diff_nat)
    also have "poly_num r ((a + le_num (take 16 x @ [1])) * r mod P1305) (drop 16 x) = poly_num r a x"
      using False by (subst (2) poly_num.simps) simp
    finally show ?thesis .
  qed simp
qed

lemma poly_num_block: "length b \<le> 16 \<Longrightarrow> b \<noteq> [] \<Longrightarrow> poly_num r a b = (a + le_num (b @ [1])) * r mod P1305"
  by (subst poly_num.simps) simp

lemma le_num_append: "le_num (x @ y) = le_num x + 256 ^ length x * le_num y"
  by (induction x) (simp_all add: algebra_simps)

lemma le_num_less: "le_num x < 256 ^ length x"
proof (induction x)
  case (Cons b x)
  have "unat b < 256" using unsigned_less [of b] by simp
  then show ?case using Cons by simp
qed simp

lemma le_num_zeros [simp]: "le_num (replicate n 0) = 0"
  by (induction n) simp_all

lemma bytes_bound:
  fixes a b c d :: nat
  assumes "a \<le> 255" "b \<le> 255" "c \<le> 255" "d \<le> 255"
  shows "a + 256 * (b + 256 * (c + 256 * d)) < 4294967296"
  using assms by simp

lemma unat_get32: "unat (get32 d c b a) = unat a + 256 * (unat b + 256 * (unat c + 256 * unat d))"
proof -
  let ?a = "ucast a :: u32" and ?b = "push_bit 8 (ucast b) :: u32" and ?c = "push_bit 16 (ucast c) :: u32"
    and ?d = "push_bit 24 (ucast d) :: u32"
  have "?c + ?d = ?c OR ?d" by (rule disjunctive_add) (auto simp: bit_simps dest: bit_imp_le_length)
  moreover have "?b + (?c OR ?d) = ?b OR (?c OR ?d)" by (rule disjunctive_add) (auto simp: bit_simps dest: bit_imp_le_length)
  moreover have "?a + (?b OR (?c OR ?d)) = ?a OR (?b OR (?c OR ?d))"
    by (rule disjunctive_add) (auto simp: bit_simps dest: bit_imp_le_length)
  ultimately have e: "get32 d c b a = ?a + (?b + (?c + ?d))" by (simp add: get32_def or.assoc or.commute or.left_commute)
  have lt: "unat w \<le> 255" for w :: byte 
    using unsigned_less [of w, where 'a = nat] by simp
  have u: "(ucast w :: u32) = of_nat (unat w)" for w :: byte
    using lt [of w] by (simp add: word_unat_eq_iff unsigned_ucast_eq unat_of_nat take_bit_eq_mod)
  have "get32 d c b a = of_nat (unat a + 256 * (unat b + 256 * (unat c + 256 * unat d)))"
    unfolding e u push_bit_of_nat [symmetric] of_nat_add [symmetric] push_bit_eq_mult of_nat_mult [symmetric]
    by (simp add: algebra_simps)
  moreover have "unat a + 256 * (unat b + 256 * (unat c + 256 * unat d)) < limb32"
    unfolding limb32_def by (rule bytes_bound [OF lt lt lt lt])
  ultimately show ?thesis by (simp only: unat_small32)
qed

lemma limbs_load: "limbs (load32_le_buf bs) = le_num bs" if "4 dvd length bs"
  using that
proof (induction bs rule: load32_le_buf.induct)
  case (1 a b c d bs)
  then have "4 dvd length bs" using dvd_add_triv_left_iff [of 4 "length bs"] by (simp add: numeral_eq_Suc)
  with 1 show ?case by (simp add: unat_get32 limb32_def algebra_simps)
qed (simp_all add: dvd_def, presburger+)

lemma length_load: "length (load32_le_buf bs) = length bs div 4"
  by (induction bs rule: load32_le_buf.induct) auto

section \<open>Streaming\<close>

lemma poly_loop_correct:
  assumes "clamped r" "acc_ok h" "16 * n \<le> length m"
  shows "acc_ok (poly_loop r 1 n m h)
    \<and> limbs (poly_loop r 1 n m h) mod P1305 = poly_num (limbs r) (limbs h mod P1305) (take (16 * n) m)"
  using assms(2,3)
proof (induction n arbitrary: h m)
  case (Suc n)
  let ?b = "take 16 m" and ?h = "poly_block r 1 (load32_le_buf (take 16 m)) h"
  have l: "length ?b = 16" using Suc.prems(2) by simp
  have "length (load32_le_buf ?b) = 4" using l by (simp add: length_load)
  note c = poly_block_correct [OF assms(1) Suc.prems(1) _ this, of 1]
  have "limbs (load32_le_buf ?b) + unat (1 :: u32) * limb32 ^ 4 = le_num (?b @ [1])"
    using l by (subst limbs_load) (simp_all add: le_num_append limb32_def)
  then have e: "limbs ?h mod P1305 = (limbs h mod P1305 + le_num (?b @ [1])) * limbs r mod P1305"
    using c(2) by (simp add: add.assoc mod_mult_left_eq mod_add_left_eq) (metis mod_add_left_eq mod_mult_left_eq)
  have t: "take (16 * Suc n) m = ?b @ take (16 * n) (drop 16 m)" by (simp add: take_add)
  have "poly_num (limbs r) (limbs h mod P1305) (take (16 * Suc n) m)
      = poly_num (limbs r) (limbs ?h mod P1305) (take (16 * n) (drop 16 m))"
    unfolding t using l poly_num_append [of ?b] poly_num_block [of ?b] by (cases "?b = []") (simp_all add: e)
  then show ?case using Suc.IH [of ?h "drop 16 m"] c(1) Suc.prems(2) by simp
qed simp

text \<open>What the context holds after the bytes \<open>m\<close>: the whole blocks are in the accumulator, the rest
  is in the chunk.\<close>

definition poly_absorbed :: "byte list \<Rightarrow> poly1305_ctx \<Rightarrow> bool" where
  "poly_absorbed m ctx \<longleftrightarrow> clamped (poly_r ctx) \<and> acc_ok (poly_h ctx) \<and> length (poly_c ctx) = 16
     \<and> c_idx ctx = length m mod 16 \<and> take (c_idx ctx) (poly_c ctx) = drop (16 * (length m div 16)) m
     \<and> limbs (poly_h ctx) mod P1305 = poly_num (limbs (poly_r ctx)) 0 (take (16 * (length m div 16)) m)"

lemma poly_store_fields [simp]:
  "poly_h (poly_store bs ctx) = poly_h ctx" "poly_r (poly_store bs ctx) = poly_r ctx" "poly_pad (poly_store bs ctx) = poly_pad ctx"
  "c_idx (poly_store bs ctx) = c_idx ctx + length bs" "length (poly_c (poly_store bs ctx)) = length (poly_c ctx)"
  unfolding poly_store_def by (induction bs arbitrary: ctx) simp_all

lemma poly_store_chunk:
  "c_idx ctx + length bs \<le> length (poly_c ctx) \<Longrightarrow>
    take (c_idx ctx + length bs) (poly_c (poly_store bs ctx)) = take (c_idx ctx) (poly_c ctx) @ bs"
proof (induction bs arbitrary: ctx)
  case (Cons b bs)
  let ?ctx = "ctx\<lparr>poly_c := (poly_c ctx)[c_idx ctx := b], c_idx := c_idx ctx + 1\<rparr>"
  have "poly_store (b # bs) ctx = poly_store bs ?ctx" by (simp add: poly_store_def)
  moreover have "take (c_idx ctx + 1) ((poly_c ctx)[c_idx ctx := b]) = take (c_idx ctx) (poly_c ctx) @ [b]"
    using Cons.prems by (simp add: take_Suc_conv_app_nth)
  ultimately show ?case using Cons.IH [of ?ctx] Cons.prems by simp
qed (simp add: poly_store_def)

lemma gap_16: "x < 16 \<Longrightarrow> gap x 16 = (16 - x) mod 16"
proof -
  assume "x < 16"
  moreover have "list_all (\<lambda>x. gap x 16 = (16 - x) mod 16) [0..<16]" unfolding gap_def by code_simp
  ultimately show ?thesis by (simp add: list_all_iff)
qed

lemma below_16:
  fixes a b :: nat
  assumes "a mod 16 + b < 16"
  shows "(a + b) div 16 = a div 16" "(a + b) mod 16 = a mod 16 + b"
proof -
  obtain q r where "a = 16 * q + r" "r < 16" by (metis mult_div_mod_eq mod_less_divisor zero_less_numeral)
  then show "(a + b) div 16 = a div 16" "(a + b) mod 16 = a mod 16 + b" using assms by (simp_all add: add.assoc)
qed

lemma up_to_16: "(a + (16 - a mod 16) mod 16) mod 16 = (0 :: nat)"
proof -
  have "(a + (16 - a mod 16) mod 16) mod 16 = (a mod 16 + (16 - a mod 16)) mod 16" by (simp only: mod_simps)
  also have "a mod 16 + (16 - a mod 16) = 16" by (simp add: less_imp_le)
  finally show ?thesis by simp
qed

text \<open>Appending bytes keeps the relation: filling the chunk, a full chunk, whole blocks.\<close>

lemma absorb_chunk:
  assumes "poly_absorbed m ctx" "length m mod 16 + length bs < 16"
  shows "poly_absorbed (m @ bs) (poly_store bs ctx)"
proof -
  have i: "c_idx ctx = length m mod 16" "length (poly_c ctx) = 16" using assms(1) by (simp_all add: poly_absorbed_def)
  have d: "length (m @ bs) div 16 = length m div 16" "length (m @ bs) mod 16 = length m mod 16 + length bs"
    using below_16 [OF assms(2)] by simp_all
  have "16 * (length m div 16) \<le> length m" by simp
  then show ?thesis
    using assms i poly_store_chunk [of ctx bs] unfolding poly_absorbed_def d by simp
qed

lemma absorb_full:
  assumes "poly_absorbed m ctx" "length m mod 16 + length bs = 16"
  shows "poly_absorbed (m @ bs) ((poly_blocks (poly_store bs ctx) (poly_c (poly_store bs ctx)) 1 1)\<lparr>c_idx := 0\<rparr>)"
proof -
  let ?ctx = "poly_store bs ctx"
  have a: "clamped (poly_r ctx)" "acc_ok (poly_h ctx)" "length (poly_c ctx) = 16" "c_idx ctx = length m mod 16"
    "take (c_idx ctx) (poly_c ctx) = drop (16 * (length m div 16)) m"
    "limbs (poly_h ctx) mod P1305 = poly_num (limbs (poly_r ctx)) 0 (take (16 * (length m div 16)) m)"
    using assms(1) unfolding poly_absorbed_def by blast+
  have d: "length (m @ bs) = 16 * (length m div 16 + 1)" 
  proof -
    have "length m + length bs = 16 * (length m div 16) + (length m mod 16 + length bs)"
      by (simp only: add.assoc [symmetric] mult_div_mod_eq)
    then show ?thesis using assms(2) by simp
  qed
  have t: "take (c_idx ctx + length bs) (poly_c ?ctx) = take (c_idx ctx) (poly_c ctx) @ bs"
    by (rule poly_store_chunk) (use a(3,4) assms(2) in simp)
  have "take 16 (poly_c ?ctx) = poly_c ?ctx" by (rule take_all) (simp add: a(3))
  then have c: "poly_c ?ctx = drop (16 * (length m div 16)) m @ bs" using t unfolding a(5) unfolding a(4) assms(2) by metis
  have m: "m @ bs = take (16 * (length m div 16)) m @ poly_c ?ctx" unfolding c by simp
  have l: "16 dvd length (take (16 * (length m div 16)) m)" by simp
  show ?thesis
    using poly_loop_correct [OF a(1,2), of 1 "poly_c ?ctx"] a(1,3,6) d poly_num_append [OF l, of _ _ "poly_c ?ctx", folded m]
    unfolding poly_absorbed_def poly_blocks_def by simp
qed

lemma absorb_blocks:
  assumes "poly_absorbed m ctx" "length m mod 16 = 0" "length bs = 16 * n" 
  shows "poly_absorbed (m @ bs) (poly_blocks ctx (bs @ rest) n 1)"
proof -
  have a: "clamped (poly_r ctx)" "acc_ok (poly_h ctx)" "length (poly_c ctx) = 16" "c_idx ctx = 0"
    "limbs (poly_h ctx) mod P1305 = poly_num (limbs (poly_r ctx)) 0 m"
    using assms(1,2) by (auto simp: poly_absorbed_def)
  have d: "length (m @ bs) mod 16 = 0" "16 * (length (m @ bs) div 16) = length (m @ bs)" "16 dvd length m"
    using assms(2,3) by auto
  show ?thesis
    using poly_loop_correct [OF a(1,2), of n "bs @ rest"] a d(1,2) assms(3) poly_num_append [OF d(3)]
    unfolding poly_absorbed_def poly_blocks_def d(2) by simp
qed

lemma absorb_update:
  assumes "poly_absorbed m ctx"
  shows "poly_absorbed (m @ bs) (crypto_poly1305_update bs ctx)"
proof (cases "bs = []")
  case True
  then show ?thesis using assms by (simp add: crypto_poly1305_update_def)
next
  case False
  define g where "g = min (gap (c_idx ctx) 16) (length bs)"
  define c1 where "c1 = poly_store (take g bs) ctx"
  define c2 where "c2 = (if c_idx c1 = 16 then (poly_blocks c1 (poly_c c1) 1 1)\<lparr>c_idx := 0\<rparr> else c1)"
  define rest where "rest = drop g bs"
  define n where "n = length rest div 16"
  have u: "crypto_poly1305_update bs ctx = poly_store (drop (16 * n) rest) (poly_blocks c2 rest n 1)"
    using False unfolding crypto_poly1305_update_def Let_def g_def c1_def c2_def rest_def n_def by simp
  have i: "c_idx ctx = length m mod 16" "c_idx c1 = length m mod 16 + g"
    using assms by (simp_all add: poly_absorbed_def c1_def g_def)
  have g: "g = min ((16 - length m mod 16) mod 16) (length bs)" unfolding g_def i(1) by (simp add: gap_16)
  have lg: "length (take g bs) = g" by (simp add: g_def)
  have le: "length m mod 16 + g \<le> 16" unfolding g by (cases "length m mod 16 = 0") auto
  have c2: "poly_absorbed (m @ take g bs) c2"
  proof (cases "length m mod 16 + g = 16")
    case True
    then show ?thesis using absorb_full [OF assms, of "take g bs"] i(2) lg by (simp add: c2_def c1_def)
  next
    case False
    then show ?thesis using absorb_chunk [OF assms, of "take g bs"] i(2) lg le by (simp add: c2_def c1_def)
  qed
  have whole: "rest = [] \<or> length (m @ take g bs) mod 16 = 0"
  proof (cases "g = length bs")
    case False
    then have e: "g = (16 - length m mod 16) mod 16" unfolding g by (auto simp: min_def split: if_splits)
    then show ?thesis using up_to_16 [of "length m"] lg by simp
  qed (simp add: rest_def)
  show ?thesis
  proof (cases "rest = []")
    case True
    then have "take g bs = bs" by (simp add: rest_def)
    then show ?thesis using c2 True unfolding u n_def by (simp add: poly_blocks_def poly_store_def)
  next
    case False
    with whole have w: "length (m @ take g bs) mod 16 = 0" by simp
    have "length (take (16 * n) rest) = 16 * n" unfolding n_def by simp
    note b = absorb_blocks [OF c2 w this, of "drop (16 * n) rest"]
    have "length (drop (16 * n) rest) < 16" unfolding n_def by (simp add: minus_mult_div_eq_mod)
    moreover have "length ((m @ take g bs) @ take (16 * n) rest) mod 16 = 0"
      using w \<open>length (take (16 * n) rest) = 16 * n\<close>
      unfolding length_append [of _ "take (16 * n) rest"] by (simp only: mod_mult_self2)
    ultimately have "poly_absorbed (((m @ take g bs) @ take (16 * n) rest) @ drop (16 * n) rest) (crypto_poly1305_update bs ctx)"
      unfolding u using b by (intro absorb_chunk) simp_all
    then show ?thesis unfolding append_assoc append_take_drop_id rest_def .
  qed
qed

section \<open>Setting the key\<close>

lemma limb32_exp: "limb32 = 2 ^ 32"
  by (simp add: limb32_def)

lemma bit_limb:
  fixes a b :: nat
  assumes "a < limb32"
  shows "bit (a + limb32 * b) n = (if n < 32 then bit a n else bit b (n - 32))"
proof -
  have "take_bit 32 (a + limb32 * b) = a" "drop_bit 32 (a + limb32 * b) = b"
    using assms by (simp_all add: limb32_def take_bit_eq_mod drop_bit_eq_div)
  moreover have "bit (a + limb32 * b) n = bit (take_bit 32 (a + limb32 * b)) n" if "n < 32"
    using that by (simp add: bit_take_bit_iff)
  moreover have "bit (a + limb32 * b) n = bit (drop_bit 32 (a + limb32 * b)) (n - 32)" if "\<not> n < 32"
    using that by (simp only: bit_drop_bit_eq comp_def) simp
  ultimately show ?thesis by presburger
qed

lemma and_limb:
  fixes a b c d :: nat
  assumes "a < limb32" "c < limb32"
  shows "(a + limb32 * b) AND (c + limb32 * d) = (a AND c) + limb32 * (b AND d)"
proof -
  have "a AND c < limb32" 
  proof -
    have "take_bit 32 a = a" "take_bit 32 c = c" using assms by (simp_all add: limb32_def take_bit_eq_mod)
    then have "take_bit 32 (a AND c) = a AND c" by simp
    then show ?thesis by (metis take_bit_nat_less_exp limb32_exp)
  qed
  then show ?thesis using assms by (intro bit_eqI) (simp add: bit_and_iff bit_limb)
qed

lemma limbs_and: "length a = length b \<Longrightarrow> limbs (map2 (AND) a b) = limbs a AND limbs b"
proof (induction a b rule: list_induct2)
  case (Cons x xs y ys)
  have lt: "unat w < limb32" for w :: u32 using unsigned_less [of w] by (simp add: limb32_def)
  show ?case using Cons by (simp add: unsigned_and_eq and_limb [OF lt lt])
qed simp

lemma clamp_word:
  fixes w :: u32
  shows "unat (w AND 0x0ffffffc) < 268435456" "unat (w AND 0x0ffffffc) mod 4 = 0" "unat (w AND 0x0fffffff) < 268435456"
proof -
  have m: "unat (v AND mask 28) < 268435456" for v :: u32 unfolding and_mask_mod by simp
  have "w AND 0x0ffffffc = (w AND 0x0ffffffc) AND mask 28" by (simp add: mask_eq_exp_minus_1 and.assoc)
  then show "unat (w AND 0x0ffffffc) < 268435456" using m by metis
  have "(w AND 0x0ffffffc) AND mask 2 = 0" by (simp add: mask_eq_exp_minus_1 and.assoc)
  then show "unat (w AND 0x0ffffffc) mod 4 = 0" using and_mask_mod [of "w AND 0x0ffffffc" 2] by simp
  show "unat (w AND 0x0fffffff) < 268435456" using m [of w] by (simp add: mask_eq_exp_minus_1)
qed

lemma init_correct:
  assumes "length key = 32" "length (poly_c ctx) = 16"
  shows "poly_absorbed [] (crypto_poly1305_init key ctx)"
    "limbs (poly_r (crypto_poly1305_init key ctx)) = poly_multiplier key"
    "limbs (poly_pad (crypto_poly1305_init key ctx)) = le_num (take 16 (drop 16 key))"
    "length (poly_pad (crypto_poly1305_init key ctx)) = 4"
proof -
  have "length (load32_le_buf (take 16 key)) = Suc (Suc (Suc (Suc 0)))" using assms(1) by (simp add: length_load)
  then obtain a b c d where r: "load32_le_buf (take 16 key) = [a, b, c, d]" by (auto simp: length_Suc_conv)
  let ?r = "[a AND 0x0fffffff, b AND 0x0ffffffc, c AND 0x0ffffffc, d AND 0x0ffffffc]"
  have pr: "poly_r (crypto_poly1305_init key ctx) = ?r"
  proof -
    have "[1..<4] = [1, 2, 3 :: nat]" by (simp add: upt_rec)
    then show ?thesis by (simp add: crypto_poly1305_init_def r Let_def)
  qed
  have "clamped ?r" using clamp_word by (simp add: clamped_def)
  then show "poly_absorbed [] (crypto_poly1305_init key ctx)"
    using assms(2) pr by (simp add: poly_absorbed_def acc_ok_def) (simp add: crypto_poly1305_init_def Let_def acc_ok_def numeral_eq_Suc)
  have "limbs ?r = limbs (map2 (AND) [a, b, c, d] [0x0fffffff, 0x0ffffffc, 0x0ffffffc, 0x0ffffffc])" by simp
  also have "\<dots> = limbs (load32_le_buf (take 16 key)) AND limbs [0x0fffffff, 0x0ffffffc, 0x0ffffffc, 0x0ffffffc]"
    unfolding r by (rule limbs_and) simp
  also have "\<dots> = poly_multiplier key"
    using assms(1) by (subst limbs_load) (simp_all add: poly_multiplier_def limb32_def)
  finally show "limbs (poly_r (crypto_poly1305_init key ctx)) = poly_multiplier key" unfolding pr .
  show "limbs (poly_pad (crypto_poly1305_init key ctx)) = le_num (take 16 (drop 16 key))"
    "length (poly_pad (crypto_poly1305_init key ctx)) = 4"
    using assms(1) by (simp_all add: crypto_poly1305_init_def Let_def limbs_load length_load)
qed

section \<open>The tag\<close>

lemma le_bytes_add: "le_bytes (m + n) v = le_bytes m v @ le_bytes n (v div 256 ^ m)"
  by (induction m arbitrary: v) (simp_all add: div_mult2_eq)

lemma of_nat_byte_mod: "(of_nat (v mod (256 * k)) :: byte) = of_nat v"
proof -
  have "unat (of_nat (v mod (256 * k)) :: byte) = unat (of_nat v :: byte)"
    by (simp add: unat_of_nat mod_mod_cancel)
  then show ?thesis by (metis unsigned_word_eqI)
qed

lemma le_bytes_mod: "le_bytes n (v mod 256 ^ n) = le_bytes n v"
proof (induction n arbitrary: v)
  case (Suc n)
  have "v mod 256 ^ Suc n div 256 = (v div 256) mod 256 ^ n"
    by (simp add: mod_mult2_eq div_mult_self1_is_m mult.commute)
  then show ?case using Suc [of "v div 256"] of_nat_byte_mod [of v "256 ^ n"] by simp
qed simp

lemma mod_mult_div: "v mod (a * b) div a = v div a mod b" if "0 < a" for v :: nat
  using that by (simp add: mod_mult2_eq)

lemma byte_of_word: "(ucast (drop_bit k (of_nat v :: u32)) :: byte) = of_nat (v div 2 ^ k)" if "limb32 = 2 ^ k * (256 * n)"
proof -
  have "unat (ucast (drop_bit k (of_nat v :: u32)) :: byte) = v mod limb32 div 2 ^ k mod 256"
    unfolding unsigned_ucast_eq unat_drop by (simp add: unat_of_nat take_bit_eq_mod limb32_def)
  also have "\<dots> = v div 2 ^ k mod 256" unfolding that by (simp add: mod_mult_div mod_mod_cancel)
  finally have "unat (ucast (drop_bit k (of_nat v :: u32)) :: byte) = unat (of_nat (v div 2 ^ k) :: byte)"
    by (simp add: unat_of_nat)
  then show ?thesis by (metis unsigned_word_eqI)
qed

lemma store_le_bytes: "store32_le (of_nat v) = le_bytes 4 v"
proof -
  have four: "le_bytes 4 v = [of_nat v, of_nat (v div 256), of_nat (v div 65536), of_nat (v div 16777216)]"
  proof -
    have "(4 :: nat) = Suc (Suc (Suc (Suc 0)))" by simp
    then show ?thesis by (simp only: le_bytes.simps div_mult2_eq [symmetric]) simp
  qed
  show ?thesis
    unfolding store32_le_def four
    using byte_of_word [of 0 16777216 v] byte_of_word [of 8 65536 v] byte_of_word [of 16 256 v] byte_of_word [of 24 1 v]
    by (simp add: limb32_def)
qed

lemma mac_loop_bytes:
  "length hs = length ps \<Longrightarrow> c < limb32 \<Longrightarrow> mac_loop (zip hs ps) (of_nat c) = le_bytes (4 * length hs) (c + limbs hs + limbs ps)"
proof (induction hs ps arbitrary: c rule: list_induct2)
  case (Cons h hs p ps)
  let ?v = "c + (unat h + unat p)"
  let ?t = "c + limbs (h # hs) + limbs (p # ps)"
  have lt: "unat w < limb32" for w :: u32 using unsigned_less [of w] by (simp add: limb32_def)
  have b: "?v < 18446744073709551616" "?v div limb32 < limb32"
    using lt [of h] lt [of p] Cons.prems by (simp_all add: limb32_def)
  have t: "?t = limb32 * (limbs hs + limbs ps) + ?v" by (simp add: algebra_simps)
  have l: "limb32 = 256 ^ 4" by (simp add: limb32_def)
  have m: "?t mod 256 ^ 4 = ?v mod 256 ^ 4" unfolding t l by (rule mod_mult_self4)
  have d: "?t div 256 ^ 4 = ?v div limb32 + limbs hs + limbs ps"
    using div_mult_self4 [of "256 ^ 4 :: nat" "limbs hs + limbs ps" ?v] unfolding t l by simp
  have e: "(of_nat c :: u64) + (ucast h + ucast p) = of_nat ?v" by (simp only: ucast_nat64 of_nat_add)
  have "mac_loop (zip (h # hs) (p # ps)) (of_nat c) = le_bytes 4 ?v @ mac_loop (zip hs ps) (of_nat (?v div limb32))"
    by (simp only: zip_Cons_Cons mac_loop.simps fst_conv snd_conv Let_def e ucast_of_nat64 store_le_bytes
        drop_nat64 [OF b(1), of 32] limb32_exp)
  also have "\<dots> = le_bytes 4 ?t @ le_bytes (4 * length hs) (?t div 256 ^ 4)"
    using Cons.IH [OF b(2)] le_bytes_mod [of 4 ?t] le_bytes_mod [of 4 ?v] m d by metis
  also have "\<dots> = le_bytes (4 * length (h # hs)) ?t" using le_bytes_add [of 4 "4 * length hs" ?t] by simp
  finally show ?case .
qed simp

lemma carry_fold:
  "c < limb32 \<Longrightarrow> fold (\<lambda>hi c. drop_bit 32 (c + ucast hi)) hs (of_nat c :: u64) = of_nat ((c + limbs hs) div limb32 ^ length hs)"
proof (induction hs arbitrary: c)
  case (Cons h hs)
  have lt: "unat h < limb32" using unsigned_less [of h] by (simp add: limb32_def)
  have b: "c + unat h < 18446744073709551616" "(c + unat h) div limb32 < limb32" using lt Cons.prems by (simp_all add: limb32_def)
  have "drop_bit 32 ((of_nat c :: u64) + ucast h) = of_nat ((c + unat h) div limb32)"
    unfolding ucast_nat64 of_nat_add [symmetric] drop_nat64 [OF b(1)] by (simp add: limb32_exp)
  moreover have "(c + limbs (h # hs)) div limb32 = (c + unat h) div limb32 + limbs hs"
    by (simp add: limb32_def add.assoc [symmetric])
  ultimately show ?case using Cons.IH [OF b(2)] by (simp add: div_mult2_eq)
qed simp

text \<open>The conditional subtraction of the prime, done by its carry.\<close>

lemma final_reduce:
  assumes "v < 5 * 2 ^ 128"
  shows "(v + (v + 5) div 2 ^ 130 * 5 + s) mod 2 ^ 128 = (v mod P1305 + s) mod 2 ^ 128"
proof (cases "v < P1305")
  case True
  then have "(v + 5) div 2 ^ 130 = 0" by (simp add: P1305_def)
  then show ?thesis using True by simp
next
  case False
  then have "v mod P1305 = v - P1305" using assms by (simp add: mod_if le_mod_geq P1305_def)
  moreover have d: "(v + 5) div 2 ^ 130 = 1"
    using False assms by (intro div_nat_eqI) (simp_all add: P1305_def)
  have "v + (v + 5) div 2 ^ 130 * 5 + s = (v - P1305 + s) + 4 * 2 ^ 128" unfolding d using False by (simp add: P1305_def)
  ultimately show ?thesis by (simp only: mod_mult_self1)
qed

lemma final_block:
  assumes "poly_absorbed m ctx"
  obtains h where "crypto_poly1305_final ctx = mac_loop (zip (take 4 h) (poly_pad ctx)) (drop_bit 2 (carry_in h + ucast (h ! 4)) * 5)"
    "acc_ok h" "limbs h mod P1305 = poly_num (limbs (poly_r ctx)) 0 m"
proof (cases "c_idx ctx = 0")
  case True
  then have "crypto_poly1305_final ctx = mac_loop (zip (take 4 (poly_h ctx)) (poly_pad ctx))
      (drop_bit 2 (carry_in (poly_h ctx) + ucast (poly_h ctx ! 4)) * 5)"
    by (simp add: crypto_poly1305_final_def Let_def)
  then show ?thesis using assms True by (intro that [of "poly_h ctx"]) (auto simp: poly_absorbed_def)
next
  case False
  let ?i = "c_idx ctx" and ?k = "length m div 16"
  have a: "clamped (poly_r ctx)" "acc_ok (poly_h ctx)" "length (poly_c ctx) = 16" "?i = length m mod 16"
    "take ?i (poly_c ctx) = drop (16 * ?k) m" "limbs (poly_h ctx) mod P1305 = poly_num (limbs (poly_r ctx)) 0 (take (16 * ?k) m)"
    using assms unfolding poly_absorbed_def by blast+
  let ?t = "drop (16 * ?k) m"
  let ?c = "(?t @ replicate (16 - ?i) 0)[?i := 1]"
  have i: "?i < 16" unfolding a(4) by simp
  have lt: "length ?t = ?i" using a(4) by (simp add: minus_mult_div_eq_mod)
  have c: "?c = ?t @ [1] @ replicate (15 - ?i) 0"
  proof -
    have "16 - ?i = Suc (15 - ?i)" using i by simp
    then have "replicate (16 - ?i) (0 :: byte) = 0 # replicate (15 - ?i) 0" by (simp only: replicate_Suc)
    then show ?thesis using lt by (simp add: list_update_append)
  qed
  let ?h = "poly_block (poly_r ctx) 0 (load32_le_buf ?c) (poly_h ctx)"
  have l: "length ?c = 16" using lt i by simp
  have "crypto_poly1305_final ctx = mac_loop (zip (take 4 ?h) (poly_pad ctx)) (drop_bit 2 (carry_in ?h + ucast (?h ! 4)) * 5)"
    using False l by (simp add: crypto_poly1305_final_def Let_def poly_blocks_def a(5))
  moreover have ll: "length (load32_le_buf ?c) = 4" using l unfolding length_load l by simp
  note pb = poly_block_correct [OF a(1,2) _ ll, of 0]
  moreover have "limbs ?h mod P1305 = poly_num (limbs (poly_r ctx)) 0 m"
  proof -
    have "limbs (load32_le_buf ?c) = le_num ?c" by (rule limbs_load) (subst l, simp)
    also have "\<dots> = le_num (?t @ [1])" unfolding c by (simp add: le_num_append)
    finally have "limbs ?h mod P1305 = (limbs (poly_h ctx) mod P1305 + le_num (?t @ [1])) * limbs (poly_r ctx) mod P1305"
      using pb(2) by simp (metis mod_add_left_eq mod_mult_left_eq)
    also have "\<dots> = poly_num (limbs (poly_r ctx)) (limbs (poly_h ctx) mod P1305) ?t"
      using poly_num_block [of ?t] lt i False by force
    also have "\<dots> = poly_num (limbs (poly_r ctx)) 0 (take (16 * ?k) m @ ?t)"
      unfolding a(6) by (rule poly_num_append [symmetric]) simp
    finally show ?thesis by simp
  qed
  ultimately show ?thesis by (intro that [of ?h]) simp_all
qed

lemma sixteen: "(4 :: nat) * 4 = 16"
  by simp

lemma final_correct:
  assumes "poly_absorbed m ctx" "length (poly_pad ctx) = 4"
  shows "crypto_poly1305_final ctx
    = le_bytes 16 ((poly_num (limbs (poly_r ctx)) 0 m + limbs (poly_pad ctx)) mod 2 ^ 128)"
proof -
  obtain h where h: "crypto_poly1305_final ctx = mac_loop (zip (take 4 h) (poly_pad ctx)) (drop_bit 2 (carry_in h + ucast (h ! 4)) * 5)"
    "acc_ok h" "limbs h mod P1305 = poly_num (limbs (poly_r ctx)) 0 m"
    by (rule final_block [OF assms(1)])
  have "length h = Suc (Suc (Suc (Suc (Suc 0))))" using h(2) by (simp add: acc_ok_def)
  then obtain h0 h1 h2 h3 h4 where hh: "h = [h0, h1, h2, h3, h4]" by (auto simp: length_Suc_conv)
  let ?lo = "limbs (take 4 h)" and ?w = "limb32 ^ 4"
  have h4: "unat (h ! 4) \<le> 4" using h(2) by (simp add: acc_ok_def)
  have lo: "?lo < ?w"
  proof -
    have lt: "unat w < limb32" for w :: u32 using unsigned_less [of w] by (simp add: limb32_def)
    show ?thesis unfolding hh using lt [of h0] lt [of h1] lt [of h2] lt [of h3] by (simp add: limb32_def)
  qed
  have v: "limbs h = ?lo + ?w * unat (h ! 4)" unfolding hh by (simp add: algebra_simps numeral_eq_Suc)
  have w: "?w = 2 ^ 128" by (simp add: limb32_def)
  have "carry_in h = of_nat ((5 + ?lo) div ?w)"
    using carry_fold [of 5 "take 4 h"] h(2) by (simp add: carry_in_def limb32_def acc_ok_def)
  then have "carry_in h + ucast (h ! 4) = of_nat ((5 + ?lo) div ?w + unat (h ! 4))" by (simp only: ucast_nat64 of_nat_add)
  also have "(5 + ?lo) div ?w + unat (h ! 4) = (limbs h + 5) div ?w"
    using div_mult_self4 [of ?w "unat (h ! 4)" "5 + ?lo"] unfolding v by (simp add: limb32_def ac_simps)
  finally have c: "carry_in h + ucast (h ! 4) = of_nat ((limbs h + 5) div ?w)" .
  have small: "limbs h < 5 * 2 ^ 128" using v lo h4 unfolding w by simp
  then have d: "(limbs h + 5) div ?w < 6" unfolding w by (intro less_mult_imp_div_less) simp
  have e: "(limbs h + 5) div ?w div 4 = (limbs h + 5) div 2 ^ 130" unfolding w by (simp add: div_mult2_eq [symmetric])
  have k: "drop_bit 2 (carry_in h + ucast (h ! 4)) * 5 = of_nat ((limbs h + 5) div 2 ^ 130 * 5)"
    unfolding c using drop_nat64 [of "(limbs h + 5) div ?w" 2] d e by simp
  have "(limbs h + 5) div 2 ^ 130 * 5 < limb32"
    using d e div_le_dividend [of "(limbs h + 5) div ?w" 4] by (simp add: limb32_def)
  moreover have "length (take 4 h) = length (poly_pad ctx)" "length (take 4 h) = 4" using h(2) assms(2) by (simp_all add: acc_ok_def)
  ultimately have "mac_loop (zip (take 4 h) (poly_pad ctx)) (of_nat ((limbs h + 5) div 2 ^ 130 * 5))
      = le_bytes (4 * 4) ((limbs h + 5) div 2 ^ 130 * 5 + ?lo + limbs (poly_pad ctx))"
    using mac_loop_bytes [of "take 4 h" "poly_pad ctx"] by metis
  then have "crypto_poly1305_final ctx = le_bytes 16 ((limbs h + 5) div 2 ^ 130 * 5 + ?lo + limbs (poly_pad ctx))"
    unfolding h(1) k by (metis sixteen)
  also have "\<dots> = le_bytes 16 (((limbs h + 5) div 2 ^ 130 * 5 + ?lo + limbs (poly_pad ctx)) mod 2 ^ 128)"
    using le_bytes_mod [of 16] by simp
  also have "((limbs h + 5) div 2 ^ 130 * 5 + ?lo + limbs (poly_pad ctx)) mod 2 ^ 128
      = (limbs h + (limbs h + 5) div 2 ^ 130 * 5 + limbs (poly_pad ctx)) mod 2 ^ 128"
  proof -
    have "limbs h + (limbs h + 5) div 2 ^ 130 * 5 + limbs (poly_pad ctx)
        = ((limbs h + 5) div 2 ^ 130 * 5 + ?lo + limbs (poly_pad ctx)) + unat (h ! 4) * 2 ^ 128"
      unfolding v [folded w] w [symmetric] by (simp only: ac_simps)
    then show ?thesis by (simp only: mod_mult_self1)
  qed
  finally show ?thesis unfolding final_reduce [OF small] h(3) .
qed

lemma update_keeps_key:
  "poly_r (crypto_poly1305_update bs ctx) = poly_r ctx" "poly_pad (crypto_poly1305_update bs ctx) = poly_pad ctx"
  by (simp_all add: crypto_poly1305_update_def Let_def poly_blocks_def)

interpretation mac: streaming "\<lambda>m ctx. poly_absorbed m ctx \<and> poly_r ctx = r \<and> poly_pad ctx = pad \<and> length pad = 4"
    crypto_poly1305_update crypto_poly1305_final "\<lambda>m. le_bytes 16 ((poly_num (limbs r) 0 m + limbs pad) mod 2 ^ 128)"
  by unfold_locales (auto simp: absorb_update update_keeps_key final_correct)

lemma stream_correct:
  assumes "length key = 32" "length (poly_c ctx) = 16"
  shows "crypto_poly1305_final (fold crypto_poly1305_update pieces (crypto_poly1305_init key ctx))
    = poly1305_spec key (concat pieces)"
  using mac.digest_pieces [of "[]" "crypto_poly1305_init key ctx", OF conjI [OF init_correct(1) [OF assms]], of _ _ pieces]
    init_correct(2-4) [OF assms] by (simp add: poly1305_spec_def)

corollary crypto_poly1305_spec: "length key = 32 \<Longrightarrow> crypto_poly1305 m key = poly1305_spec key m"
  using stream_correct [of key poly_ctx0 "[m]"] by (simp add: crypto_poly1305_def poly_ctx0_def)

lemma length_le_bytes [simp]: "length (le_bytes n v) = n"
  by (induction n arbitrary: v) simp_all

corollary length_poly1305: "length key = 32 \<Longrightarrow> length (dossh_poly1305 m key) = 16"
  by (simp add: dossh_poly1305_def crypto_poly1305_spec poly1305_spec_def)

text \<open>C30. The authenticator is the standard's.  Whatever way a message is cut into pieces, initialising
  with a 32-byte key, absorbing the pieces one after the other (empty ones included) and finishing
  gives the 16-byte Poly1305 tag that RFC 8439 defines for the whole message; no intermediate sum of
  the limb arithmetic wraps, and the final conditional subtraction is exact.\<close>

theorem poly1305_stream_correct:
  assumes "length key = 32" "length (poly_c ctx) = 16"
  shows "crypto_poly1305_final (fold crypto_poly1305_update pieces (crypto_poly1305_init key ctx))
    = poly1305_spec key (concat pieces)"
  by (rule stream_correct [OF assms])

theorem poly1305_stream_correct_witness:
  "crypto_poly1305_final (fold crypto_poly1305_update [[1, 2, 3], [], replicate 40 7] (crypto_poly1305_init (replicate 32 9) poly_ctx0))
    = poly1305_spec (replicate 32 9) ([1, 2, 3] @ replicate 40 7)"
  using poly1305_stream_correct [of "replicate 32 9" poly_ctx0 "[[1, 2, 3], [], replicate 40 7]"] by (simp add: poly_ctx0_def)

end
