(* ===== verification/Ssh.thy ===== *)
theory Ssh
  imports Sshwire Rng Poly1305
begin

text \<open>
  \<open>ssh.c\<close>: the SSH server of one connection, from the version exchange through key exchange,
  the encrypted transport and user authentication to the session channel.

  The struct \<open>ssh_conn\<close> of \<open>ssh.h\<close> is the record of that name; the shared static buffers and the
  configuration of \<open>ssh.c\<close>, with the state of the random generator, are the fields the record \<open>ssh\<close>
  adds to it, so a value of type \<open>ssh\<close> is one connection together with the shared part.  A buffer
  with a length variable (\<open>g_ob\<close>, \<open>g_cout\<close>, \<open>i_s\<close>, the C strings) is the list of its valid bytes;
  the input buffer \<open>ib\<close> keeps all its 2048 bytes, also the stale ones behind \<open>ib_len\<close>, because the
  program can be made to look at them.

  X25519 and Ed25519 of the vendored library are the parameter record \<open>crypto\<close>, beside the
  hardware of the random generator; ChaCha20, Poly1305 and SHA-256 are the models of theories
  Chacha, Poly1305 and Sha256.  A handler returns \<open>None\<close> where the program reads outside the input buffer.
\<close>

section \<open>Parameters and constants\<close>

record crypto =
  hw :: rng_hw
  x25519 :: "byte list \<Rightarrow> byte list \<Rightarrow> byte list"
  x25519_public_key :: "byte list \<Rightarrow> byte list"
  ed25519_sign :: "byte list \<Rightarrow> byte list \<Rightarrow> byte list"
  ed25519_verify :: "byte list \<Rightarrow> byte list \<Rightarrow> byte list \<Rightarrow> bool"

definition SSH_IB_SZ :: nat where "SSH_IB_SZ = 2048"
definition SSH_OB_SZ :: nat where "SSH_OB_SZ = 2048"
definition SSH_CIN_SZ :: nat where "SSH_CIN_SZ = 256"
definition SSH_COUT_SZ :: nat where "SSH_COUT_SZ = 512"
definition SSH_CHAN_CHUNK :: nat where "SSH_CHAN_CHUNK = 200"
definition SSH_LOCAL_WINDOW :: nat where "SSH_LOCAL_WINDOW = 32768"
definition SSH_CHAN_MAXPKT :: nat where "SSH_CHAN_MAXPKT = 1024"
definition SSH_MAX_AUTH_TRIES :: nat where "SSH_MAX_AUTH_TRIES = 3"
definition SSH_ENC_MAX_PLEN :: nat where "SSH_ENC_MAX_PLEN = 247"
definition g_scratch_sz :: nat where "g_scratch_sz = SSH_IB_SZ + 128"
definition SERVER_ID :: "byte list" where "SERVER_ID = str ''SSH-2.0-DOSSH_0.9''"
definition SERVER_ID_CRLF :: "byte list" where "SERVER_ID_CRLF = SERVER_ID @ [0x0D, 0x0A]"

datatype ssh_state =
  SSH_ST_VERSION | SSH_ST_EXPECT_KEXINIT | SSH_ST_EXPECT_ECDH_INIT | SSH_ST_EXPECT_CLIENT_NEWKEYS
| SSH_ST_EXPECT_SERVICE_REQUEST | SSH_ST_AUTH | SSH_ST_SESSION | SSH_ST_CLOSED | SSH_ST_ERROR

section \<open>State\<close>

record ssh_conn =
  ssh_st :: ssh_state
  err :: bool
  err_msg :: string
  svc_done :: bool
  cli_ver :: "byte list"
  ib :: "byte list"
  ib_len :: nat
  i_s :: "byte list"
  hctx :: sha256_ctx
  session_id :: "byte list"
  have_session_id :: bool
  ek_c2s :: "byte list"
  ek_s2c :: "byte list"
  keys_ready :: bool
  recv_encrypted :: bool
  send_encrypted :: bool
  send_seq :: u32
  recv_seq :: u32
  cli_first_follows :: byte
  discard_next :: bool
  svc_name :: "byte list"
  authenticated :: bool
  auth_fails :: nat
  auth_user :: "byte list"
  chan_open :: bool
  peer_chan :: u32
  local_chan :: u32
  peer_window :: u32
  peer_maxpkt :: u32
  local_window :: u32
  pty :: bool
  shell_ready :: bool
  term_cols :: nat
  term_rows :: nat
  chan_eof :: bool
  chan_sent_eof :: bool
  chan_sent_close :: bool
  chan_closed :: bool

record ssh = ssh_conn +
  g_ob :: "byte list"
  g_q_c :: "byte list"
  g_q_s :: "byte list"
  g_eph_sk :: "byte list"
  g_k_raw :: "byte list"
  g_kmpint :: "byte list"
  g_ks_blob :: "byte list"
  g_H :: "byte list"
  g_cin :: "byte list"
  g_cin_head :: nat
  g_cin_tail :: nat
  g_cout :: "byte list"
  g_hostkey_sk :: "byte list"
  g_hostkey_pk :: "byte list"
  g_password :: "byte list"
  g_have_password :: bool
  g_authkeys :: "byte list list"
  g_rng :: rng_state

text \<open>\<open>memset(c, 0, sizeof(*c))\<close>.\<close>

definition ssh_conn_zero :: ssh_conn where
  "ssh_conn_zero = \<lparr>
     ssh_st = SSH_ST_VERSION, err = False, err_msg = [], svc_done = False, cli_ver = [],
     ib = replicate SSH_IB_SZ 0, ib_len = 0, i_s = [], hctx = sha_ctx0,
     session_id = replicate 32 0, have_session_id = False,
     ek_c2s = replicate 64 0, ek_s2c = replicate 64 0, keys_ready = False,
     recv_encrypted = False, send_encrypted = False, send_seq = 0, recv_seq = 0,
     cli_first_follows = 0, discard_next = False, svc_name = [],
     authenticated = False, auth_fails = 0, auth_user = [],
     chan_open = False, peer_chan = 0, local_chan = 0, peer_window = 0, peer_maxpkt = 0, local_window = 0,
     pty = False, shell_ready = False, term_cols = 0, term_rows = 0,
     chan_eof = False, chan_sent_eof = False, chan_sent_close = False, chan_closed = False\<rparr>"

text \<open>The static storage at program start.\<close>

definition rng_zero :: rng_state where
  "rng_zero = \<lparr>pool = replicate POOL_WORDS 0, pool_idx = 0, pool_stir = 0, drbg_key = replicate 32 0,
     drbg_ctr = 0, drbg_calls = 0, drbg_ready = False, hw_reads = 0\<rparr>"

definition ssh_zero :: ssh where
  "ssh_zero = ssh_conn.extend ssh_conn_zero
     (ssh.fields [] (replicate 32 0) (replicate 32 0) (replicate 32 0) (replicate 32 0) [] [] (replicate 32 0)
        (replicate SSH_CIN_SZ 0) 0 0 [] (replicate 64 0) (replicate 32 0) [] False [] rng_zero)"

definition fail :: "string \<Rightarrow> ssh \<Rightarrow> ssh" where
  "fail why s = (if ssh_st s \<noteq> SSH_ST_ERROR then s\<lparr>ssh_st := SSH_ST_ERROR, err := True, err_msg := why\<rparr> else s)"

section \<open>Output queue and packet framing\<close>

definition ob_append :: "byte list \<Rightarrow> ssh \<Rightarrow> ssh" where
  "ob_append d s =
     (if length (g_ob s) + length d > SSH_OB_SZ then fail ''output overflow'' s
      else s\<lparr>g_ob := g_ob s @ d\<rparr>)"

definition ib_consume :: "nat \<Rightarrow> ssh \<Rightarrow> ssh" where
  "ib_consume k s =
     (if k \<ge> ib_len s then s\<lparr>ib_len := 0\<rparr>
      else (let n = ib_len s - k in s\<lparr>ib := take n (drop k (ib s)) @ drop n (ib s), ib_len := n\<rparr>))"

definition rand :: "crypto \<Rightarrow> nat \<Rightarrow> ssh \<Rightarrow> byte list \<times> ssh" where
  "rand cr n s = (let (bs, r) = rng_bytes (hw cr) n (g_rng s) in (bs, s\<lparr>g_rng := r\<rparr>))"

definition pad_to8 :: "nat \<Rightarrow> nat" where
  "pad_to8 n = (let padlen = 8 - n mod 8 in if padlen < 4 then padlen + 8 else padlen)"

definition send_unenc :: "crypto \<Rightarrow> byte list \<Rightarrow> ssh \<Rightarrow> ssh" where
  "send_unenc cr payload s =
     (let padlen = pad_to8 (4 + 1 + length payload);
          pkt_len = 1 + length payload + padlen;
          s = ob_append (put_u32 pkt_len @ [of_nat padlen]) s;
          s = ob_append payload s;
          (pad, s) = rand cr padlen s;
          s = ob_append pad s
      in s\<lparr>send_seq := send_seq s + 1\<rparr>)"

definition aead_seal :: "crypto \<Rightarrow> byte list \<Rightarrow> ssh \<Rightarrow> byte list \<times> ssh" where
  "aead_seal cr payload s =
     (let k_main = take 32 (ek_s2c s); k_header = drop 32 (ek_s2c s);
          padlen = pad_to8 (1 + length payload);
          pkt_len = 1 + length payload + padlen;
          (pad, s) = rand cr padlen s;
          body = [of_nat padlen] @ payload @ pad;
          nonce = seqbuf8 (send_seq s);
          enc_len = dossh_chacha20_djb (Some (put_u32 pkt_len)) 4 k_header nonce 0;
          polykey = dossh_chacha20_djb None 32 k_main nonce 0;
          enc_body = dossh_chacha20_djb (Some body) pkt_len k_main nonce 1;
          tag = dossh_poly1305 (enc_len @ enc_body) polykey
      in (enc_len @ enc_body @ tag, s\<lparr>send_seq := send_seq s + 1\<rparr>))"

definition send_enc :: "crypto \<Rightarrow> byte list \<Rightarrow> ssh \<Rightarrow> ssh" where
  "send_enc cr payload s =
     (if length payload > SSH_ENC_MAX_PLEN then fail ''enc payload too large'' s
      else (let (wire, s) = aead_seal cr payload s in ob_append wire s))"

definition send_packet :: "crypto \<Rightarrow> byte list \<Rightarrow> ssh \<Rightarrow> ssh" where
  "send_packet cr payload s =
     (if send_encrypted s then send_enc cr payload s else send_unenc cr payload s)"

section \<open>KEXINIT\<close>

definition build_our_kexinit :: "crypto \<Rightarrow> ssh \<Rightarrow> ssh" where
  "build_our_kexinit cr s =
     (let (cookie, s) = rand cr 16 s
      in s\<lparr>i_s := [20] @ cookie
           @ put_nl ''curve25519-sha256,curve25519-sha256@libssh.org''
           @ put_nl ''ssh-ed25519''
           @ put_nl ''chacha20-poly1305@openssh.com'' @ put_nl ''chacha20-poly1305@openssh.com''
           @ put_nl ''none'' @ put_nl ''none'' @ put_nl ''none'' @ put_nl ''none''
           @ put_nl [] @ put_nl [] @ [0] @ [0, 0, 0, 0]\<rparr>)"

text \<open>The ten name-lists of the client's KEXINIT: their offsets and lengths and the offset after
  them; \<open>Some None\<close> is the return value -1.\<close>

primrec read_lists :: "byte list \<Rightarrow> nat \<Rightarrow> nat \<Rightarrow> nat \<Rightarrow> ((nat \<times> nat) list \<times> nat) option option" where
  "read_lists pl len 0 off = Some (Some ([], off))"
| "read_lists pl len (Suc k) off =
     (if w16 (off + 4) > len then Some None
      else do { l \<leftarrow> rd_len pl off;
                let off = w16 (off + 4);
                if w16 (off + l) > len then Some None
                else do { r \<leftarrow> read_lists pl len k (w16 (off + l));
                          case r of None \<Rightarrow> Some None
                          | Some (ls, off') \<Rightarrow> Some (Some ((off, l) # ls, off')) } })"

datatype negotiated = Negotiated | Malformed | NoCommon

definition negotiate :: "byte list \<Rightarrow> nat \<Rightarrow> ssh \<Rightarrow> (negotiated \<times> ssh) option" where
  "negotiate pl len s =
     do { r \<leftarrow> read_lists pl len 10 17;
          case r of None \<Rightarrow> Some (Malformed, s)
          | Some (nls, off) \<Rightarrow>
            if w16 (off + 1) > len then Some (Malformed, s)
            else do {
              ff \<leftarrow> rd_byte pl off;
              let s = s\<lparr>cli_first_follows := ff\<rparr>;
              k1 \<leftarrow> nl_has pl (nls ! 0) ''curve25519-sha256'';
              k2 \<leftarrow> (if k1 then Some True else nl_has pl (nls ! 0) ''curve25519-sha256@libssh.org'');
              if \<not> k2 then Some (NoCommon, s) else do {
              h \<leftarrow> nl_has pl (nls ! 1) ''ssh-ed25519'';
              if \<not> h then Some (NoCommon, s) else do {
              e1 \<leftarrow> nl_has pl (nls ! 2) ''chacha20-poly1305@openssh.com'';
              if \<not> e1 then Some (NoCommon, s) else do {
              e2 \<leftarrow> nl_has pl (nls ! 3) ''chacha20-poly1305@openssh.com'';
              if \<not> e2 then Some (NoCommon, s) else do {
              tok \<leftarrow> nl_first pl (nls ! 0);
              t1 \<leftarrow> tok_eq pl tok ''curve25519-sha256'';
              kex_ok \<leftarrow> (if t1 then Some True else tok_eq pl tok ''curve25519-sha256@libssh.org'');
              tok \<leftarrow> nl_first pl (nls ! 1);
              hk_ok \<leftarrow> tok_eq pl tok ''ssh-ed25519'';
              Some (Negotiated, s\<lparr>discard_next := (ff \<noteq> 0 \<and> \<not> (kex_ok \<and> hk_ok))\<rparr>) }}}}} }"

section \<open>Transport handlers\<close>

definition handle_kexinit :: "byte list \<Rightarrow> nat \<Rightarrow> ssh \<Rightarrow> ssh option" where
  "handle_kexinit pl plen s =
     do { (r, s) \<leftarrow> negotiate pl plen s;
          case r of
            Malformed \<Rightarrow> Some (fail ''malformed KEXINIT'' s)
          | NoCommon \<Rightarrow> Some (fail ''no common algorithm'' s)
          | Negotiated \<Rightarrow>
            do { ic \<leftarrow> slice pl 0 plen;
                 let h = sha256_init (hctx s);
                 let h = hash_str (cli_ver s) h;
                 let h = hash_str SERVER_ID h;
                 let h = hash_str ic h;
                 let h = hash_str (i_s s) h;
                 Some (s\<lparr>hctx := h, ssh_st := SSH_ST_EXPECT_ECDH_INIT\<rparr>) } }"

text \<open>\<open>handle_ecdh_init\<close> from the point where the client's value has been copied.\<close>

definition ecdh_reply :: "crypto \<Rightarrow> byte list \<Rightarrow> ssh \<Rightarrow> ssh" where
  "ecdh_reply cr qc s =
     (let s = s\<lparr>g_q_c := qc\<rparr>;
          (sk, s) = rand cr 32 s;
          s = s\<lparr>g_eph_sk := sk, g_q_s := x25519_public_key cr sk, g_k_raw := x25519 cr sk qc\<rparr>
      in if list_all (\<lambda>b. b = 0) (g_k_raw s) then fail ''degenerate shared secret'' s
         else
           (let s = s\<lparr>g_kmpint := build_kmpint (g_k_raw s), g_ks_blob := build_ks_blob (g_hostkey_pk s)\<rparr>;
                h = hash_str (g_ks_blob s) (hctx s);
                h = hash_str (g_q_c s) h;
                h = hash_str (g_q_s s) h;
                h = sha256_update (g_kmpint s) h;
                (H, h) = sha256_final h;
                s = s\<lparr>hctx := h, g_H := H\<rparr>;
                s = (if have_session_id s then s else s\<lparr>session_id := H, have_session_id := True\<rparr>);
                sig = ed25519_sign cr (g_hostkey_sk s) H;
                sigblob = put_str (str ''ssh-ed25519'') @ put_str sig;
                rep = [31] @ put_str (g_ks_blob s) @ put_str (g_q_s s) @ put_str sigblob;
                s = send_packet cr rep s;
                s = s\<lparr>ek_c2s := derive_key (g_kmpint s) (g_H s) (session_id s) 0x43 64\<rparr>;
                s = s\<lparr>ek_s2c := derive_key (g_kmpint s) (g_H s) (session_id s) 0x44 64\<rparr>;
                s = s\<lparr>keys_ready := True\<rparr>;
                s = send_packet cr [21] s
            in s\<lparr>send_encrypted := True, ssh_st := SSH_ST_EXPECT_CLIENT_NEWKEYS\<rparr>))"

definition handle_ecdh_init :: "crypto \<Rightarrow> byte list \<Rightarrow> nat \<Rightarrow> ssh \<Rightarrow> ssh option" where
  "handle_ecdh_init cr pl plen s =
     (if discard_next s then Some (s\<lparr>discard_next := False\<rparr>)
      else if plen < 5 then Some (fail ''short KEX_ECDH_INIT'' s)
      else do { qlen \<leftarrow> rd_len pl 1;
                if qlen \<noteq> 32 \<or> 1 + 4 + qlen > plen then Some (fail ''bad Q_C'' s)
                else do { qc \<leftarrow> slice pl 5 32; Some (ecdh_reply cr qc s) } })"

definition handle_client_newkeys :: "ssh \<Rightarrow> ssh" where
  "handle_client_newkeys s = s\<lparr>recv_encrypted := True, ssh_st := SSH_ST_EXPECT_SERVICE_REQUEST\<rparr>"

definition handle_service_request :: "crypto \<Rightarrow> byte list \<Rightarrow> nat \<Rightarrow> ssh \<Rightarrow> ssh option" where
  "handle_service_request cr pl plen s =
     (if plen < 5 then Some (fail ''short SERVICE_REQUEST'' s)
      else do { slen \<leftarrow> rd_len pl 1;
                if w16 (1 + 4 + slen) > plen \<or> slen \<ge> 64 then Some (fail ''bad service name'' s)
                else do { name \<leftarrow> slice pl 5 slen;
                          let s = s\<lparr>svc_name := name, svc_done := True\<rparr>;
                          let s = send_packet cr ([6] @ put_str name) s;
                          Some (s\<lparr>ssh_st := SSH_ST_AUTH\<rparr>) } })"

section \<open>User authentication\<close>

definition auth_methods :: "ssh \<Rightarrow> string" where
  "auth_methods s =
     (let m = (if g_authkeys s \<noteq> [] then ''publickey'' else []);
          m = (if g_have_password s then (if m \<noteq> [] then m @ '','' else m) @ ''password'' else m)
      in if m = [] then ''password'' else m)"

definition send_userauth_failure :: "crypto \<Rightarrow> ssh \<Rightarrow> ssh" where
  "send_userauth_failure cr s = send_packet cr ([51] @ put_nl (auth_methods s) @ [0]) s"

definition send_userauth_success :: "crypto \<Rightarrow> ssh \<Rightarrow> ssh" where
  "send_userauth_success cr s =
     (send_packet cr [52] s)\<lparr>authenticated := True, ssh_st := SSH_ST_SESSION\<rparr>"

definition send_disconnect :: "crypto \<Rightarrow> nat \<Rightarrow> string \<Rightarrow> ssh \<Rightarrow> ssh" where
  "send_disconnect cr reason desc s =
     (send_packet cr ([1] @ put_u32 reason @ put_nl desc @ put_nl []) s)\<lparr>ssh_st := SSH_ST_CLOSED\<rparr>"

definition auth_reject :: "crypto \<Rightarrow> bool \<Rightarrow> ssh \<Rightarrow> ssh" where
  "auth_reject cr count_it s =
     (let s = (if count_it then s\<lparr>auth_fails := w16 (auth_fails s + 1)\<rparr> else s)
      in if auth_fails s \<ge> SSH_MAX_AUTH_TRIES
         then send_disconnect cr 14 ''too many authentication failures'' s
         else send_userauth_failure cr s)"

definition authkey_is_authorized :: "ssh \<Rightarrow> byte list \<Rightarrow> bool" where
  "authkey_is_authorized s key = list_ex (\<lambda>k. k = key) (g_authkeys s)"

text \<open>Bodies of the packet are passed as offset and length, and read where the program copies them.\<close>

definition send_pk_ok :: "crypto \<Rightarrow> byte list \<Rightarrow> nat \<times> nat \<Rightarrow> nat \<times> nat \<Rightarrow> ssh \<Rightarrow> ssh option" where
  "send_pk_ok cr pl algo blob s =
     (if w16 (1 + 4 + snd algo + 4 + snd blob) > 128 then Some (auth_reject cr True s)
      else do { a \<leftarrow> slice pl (fst algo) (snd algo);
                b \<leftarrow> slice pl (fst blob) (snd blob);
                Some (send_packet cr ([60] @ put_str a @ put_str b) s) })"

text \<open>\<open>Some None\<close> is the return value 0.\<close>

definition build_pk_signed_data ::
  "byte list \<Rightarrow> nat \<times> nat \<Rightarrow> nat \<times> nat \<Rightarrow> nat \<times> nat \<Rightarrow> nat \<times> nat \<Rightarrow> ssh \<Rightarrow> byte list option option" where
  "build_pk_signed_data pl user service algo blob s =
     (if w16 ((4 + 32) + 1 + (4 + snd user) + (4 + snd service) + (4 + 9) + 1 + (4 + snd algo) + (4 + snd blob))
         > g_scratch_sz then Some None
      else do { u \<leftarrow> slice pl (fst user) (snd user);
                v \<leftarrow> slice pl (fst service) (snd service);
                a \<leftarrow> slice pl (fst algo) (snd algo);
                b \<leftarrow> slice pl (fst blob) (snd blob);
                Some (Some (put_str (session_id s) @ [50] @ put_str u @ put_str v @ put_nl ''publickey'' @ [1]
                            @ put_str a @ put_str b)) })"

text \<open>\<open>handle_pubkey_auth\<close> in three parts: the signed request, the key and the probe, the packet.\<close>

definition pubkey_signed ::
  "crypto \<Rightarrow> byte list \<Rightarrow> nat \<Rightarrow> nat \<Rightarrow> nat \<times> nat \<Rightarrow> nat \<times> nat \<Rightarrow> nat \<times> nat \<Rightarrow> nat \<times> nat \<Rightarrow> byte list \<Rightarrow> ssh \<Rightarrow> ssh option" where
  "pubkey_signed cr pl plen off user service algo blob key s =
     do { r \<leftarrow> rd_string pl plen off;
          case r of None \<Rightarrow> Some (auth_reject cr True s)
          | Some (so, siglen, _) \<Rightarrow> do {
          rs \<leftarrow> ed25519_sig_from_blob (drop so pl) siglen;
          case rs of None \<Rightarrow> Some (auth_reject cr True s)
          | Some rawsig \<Rightarrow>
          if \<not> authkey_is_authorized s key then Some (auth_reject cr True s) else do {
          d \<leftarrow> build_pk_signed_data pl user service algo blob s;
          case d of None \<Rightarrow> Some (auth_reject cr True s)
          | Some sdata \<Rightarrow>
            Some (if ed25519_verify cr rawsig key sdata then send_userauth_success cr s
                  else auth_reject cr True s) }} }"

definition pubkey_offer ::
  "crypto \<Rightarrow> byte list \<Rightarrow> nat \<Rightarrow> nat \<Rightarrow> byte \<Rightarrow> nat \<times> nat \<Rightarrow> nat \<times> nat \<Rightarrow> nat \<times> nat \<Rightarrow> nat \<times> nat \<Rightarrow> ssh \<Rightarrow> ssh option" where
  "pubkey_offer cr pl plen off have_sig user service algo blob s =
     do { algo_ok \<leftarrow> body_is pl (fst algo) (snd algo) ''ssh-ed25519'';
          if \<not> algo_ok then Some (auth_reject cr True s) else do {
          k \<leftarrow> ed25519_key_from_blob (drop (fst blob) pl) (snd blob);
          case k of None \<Rightarrow> Some (auth_reject cr True s)
          | Some key \<Rightarrow>
            if have_sig = 0 then
              (if \<not> authkey_is_authorized s key then Some (auth_reject cr True s)
               else send_pk_ok cr pl algo blob s)
            else pubkey_signed cr pl plen off user service algo blob key s }}"

definition handle_pubkey_auth ::
  "crypto \<Rightarrow> byte list \<Rightarrow> nat \<Rightarrow> nat \<Rightarrow> nat \<times> nat \<Rightarrow> nat \<times> nat \<Rightarrow> ssh \<Rightarrow> ssh option" where
  "handle_pubkey_auth cr pl plen off user service s =
     (if w16 (off + 1) > plen then Some (auth_reject cr True s)
      else do {
        have_sig \<leftarrow> rd_byte pl off;
        r \<leftarrow> rd_string pl plen (w16 (off + 1));
        case r of None \<Rightarrow> Some (auth_reject cr True s)
        | Some (ao, algolen, off) \<Rightarrow> do {
        r \<leftarrow> rd_string pl plen off;
        case r of None \<Rightarrow> Some (auth_reject cr True s)
        | Some (bo, bloblen, off) \<Rightarrow>
          pubkey_offer cr pl plen off have_sig user service (ao, algolen) (bo, bloblen) s }})"

definition handle_password_auth :: "crypto \<Rightarrow> byte list \<Rightarrow> nat \<Rightarrow> nat \<Rightarrow> ssh \<Rightarrow> ssh option" where
  "handle_password_auth cr pl plen off s =
     (if w16 (off + 1) > plen then Some (auth_reject cr True s)
      else do {
        change \<leftarrow> rd_byte pl off;
        if change \<noteq> 0 then Some (auth_reject cr True s) else do {
        r \<leftarrow> rd_string pl plen (w16 (off + 1));
        case r of None \<Rightarrow> Some (auth_reject cr True s)
        | Some (po, pwlen, _) \<Rightarrow>
          if pwlen = length (g_password s) then do {
            pw \<leftarrow> slice pl po pwlen;
            Some (if pw = g_password s then send_userauth_success cr s else auth_reject cr True s) }
          else Some (auth_reject cr True s) }})"

definition handle_userauth_request :: "crypto \<Rightarrow> byte list \<Rightarrow> nat \<Rightarrow> ssh \<Rightarrow> ssh option" where
  "handle_userauth_request cr pl plen s =
     do { r \<leftarrow> rd_string pl plen 1;
          case r of None \<Rightarrow> Some (fail ''short USERAUTH_REQUEST'' s)
          | Some (uo, ulen, off) \<Rightarrow> do {
          r \<leftarrow> rd_string pl plen off;
          case r of None \<Rightarrow> Some (fail ''bad USERAUTH_REQUEST'' s)
          | Some (so, slen, off) \<Rightarrow> do {
          r \<leftarrow> rd_string pl plen off;
          case r of None \<Rightarrow> Some (fail ''bad USERAUTH_REQUEST'' s)
          | Some (mo, mlen, off) \<Rightarrow> do {
          u \<leftarrow> slice pl uo (min ulen 63);
          let s = s\<lparr>auth_user := u\<rparr>;
          if \<not> g_have_password s \<and> g_authkeys s = [] then Some (send_userauth_success cr s) else do {
          is_pk \<leftarrow> body_is pl mo mlen ''publickey'';
          if is_pk then
            (if g_authkeys s = [] then Some (auth_reject cr True s)
             else handle_pubkey_auth cr pl plen off (uo, ulen) (so, slen) s)
          else do {
          is_pw \<leftarrow> (if g_have_password s then body_is pl mo mlen ''password'' else Some False);
          if is_pw then handle_password_auth cr pl plen off s
          else do {
          is_none \<leftarrow> body_is pl mo mlen ''none'';
          Some (auth_reject cr (\<not> is_none) s) }}}}}} }"

section \<open>The session channel\<close>

definition chan_reply :: "crypto \<Rightarrow> byte \<Rightarrow> ssh \<Rightarrow> ssh" where
  "chan_reply cr type s = send_packet cr ([type] @ be32 (peer_chan s)) s"

definition handle_channel_open :: "crypto \<Rightarrow> byte list \<Rightarrow> nat \<Rightarrow> ssh \<Rightarrow> ssh option" where
  "handle_channel_open cr pl plen s =
     (if 1 + 4 > plen then Some (fail ''short CHANNEL_OPEN'' s)
      else do {
        tlen \<leftarrow> rd_len pl 1;
        let off = w16 (5 + tlen);
        if w16 (off + 12) > plen then Some (fail ''bad CHANNEL_OPEN'' s) else do {
        sender \<leftarrow> rd_u32 pl off;
        iwin \<leftarrow> rd_u32 pl (w16 (off + 4));
        maxp \<leftarrow> rd_u32 pl (w16 (off + 8));
        is_session \<leftarrow> (if chan_open s then Some False else body_is pl 5 tlen ''session'');
        if \<not> is_session then
          Some (send_packet cr ([92] @ be32 sender @ put_u32 (if chan_open s then 1 else 3)
                  @ put_nl ''only one session channel'' @ put_nl []) s)
        else do {
          let s = s\<lparr>peer_chan := sender, peer_window := iwin, peer_maxpkt := maxp, local_chan := 0,
                    local_window := of_nat SSH_LOCAL_WINDOW, chan_open := True\<rparr>;
          Some (send_packet cr ([91] @ be32 sender @ be32 (local_chan s) @ be32 (local_window s)
                  @ put_u32 SSH_CHAN_MAXPKT) s) }}})"

definition set_winsize :: "byte list \<Rightarrow> nat \<Rightarrow> nat \<Rightarrow> ssh \<Rightarrow> ssh option" where
  "set_winsize pl plen off s =
     (if w16 (off + 8) \<le> plen then
        do { cols \<leftarrow> rd_len pl off; rows \<leftarrow> rd_len pl (w16 (off + 4));
             Some (s\<lparr>term_cols := cols, term_rows := rows\<rparr>) }
      else Some s)"

definition handle_channel_request :: "crypto \<Rightarrow> byte list \<Rightarrow> nat \<Rightarrow> ssh \<Rightarrow> ssh option" where
  "handle_channel_request cr pl plen s =
     (if 1 + 4 > plen \<or> 5 + 4 > plen then Some s
      else do {
        rtlen \<leftarrow> rd_len pl 5;
        let off = w16 (9 + rtlen);
        if w16 (off + 1) > plen then Some s else do {
        want_reply \<leftarrow> rd_byte pl off;
        let off = w16 (off + 1);
        is_pty \<leftarrow> body_is pl 9 rtlen ''pty-req'';
        is_shell \<leftarrow> body_is pl 9 rtlen ''shell'';
        is_exec \<leftarrow> body_is pl 9 rtlen ''exec'';
        is_win \<leftarrow> body_is pl 9 rtlen ''window-change'';
        (granted, s) \<leftarrow>
          (if is_pty then do {
             s \<leftarrow> (if w16 (off + 4) \<le> plen
                   then do { tl \<leftarrow> rd_len pl off; set_winsize pl plen (w16 (off + (4 + tl))) s }
                   else Some s);
             Some (True, s\<lparr>pty := True\<rparr>) }
           else if is_shell \<or> is_exec then Some (True, s\<lparr>shell_ready := True\<rparr>)
           else if is_win then do { s \<leftarrow> set_winsize pl plen off s; Some (True, s) }
           else Some (False, s));
        Some (if want_reply \<noteq> 0 then chan_reply cr (if granted then 99 else 100) s else s) }})"

definition adjust_local_window :: "crypto \<Rightarrow> nat \<Rightarrow> ssh \<Rightarrow> ssh" where
  "adjust_local_window cr consumed s =
     (let s = s\<lparr>local_window := (if unat (local_window s) \<ge> consumed then local_window s - of_nat consumed else 0)\<rparr>
      in if unat (local_window s) \<ge> SSH_LOCAL_WINDOW div 2 then s
         else
           (let add = SSH_LOCAL_WINDOW - unat (local_window s);
                s = send_packet cr ([93] @ be32 (peer_chan s) @ put_u32 add) s
            in s\<lparr>local_window := local_window s + of_nat add\<rparr>))"

text \<open>The loop of \<open>handle_channel_data\<close>: \<open>k\<close> bytes from offset \<open>i\<close> of the packet on.\<close>

definition cin_put :: "byte \<Rightarrow> ssh \<Rightarrow> ssh" where
  "cin_put b s =
     (let next = (g_cin_tail s + 1) mod SSH_CIN_SZ
      in if next = g_cin_head s then s
         else s\<lparr>g_cin := (g_cin s)[g_cin_tail s := b], g_cin_tail := next\<rparr>)"

primrec cin_loop :: "byte list \<Rightarrow> nat \<Rightarrow> nat \<Rightarrow> ssh \<Rightarrow> ssh option" where
  "cin_loop pl i 0 s = Some s"
| "cin_loop pl i (Suc k) s =
     (if (g_cin_tail s + 1) mod SSH_CIN_SZ = g_cin_head s then Some s
      else do { b \<leftarrow> rd_byte pl i; cin_loop pl (i + 1) k (cin_put b s) })"

definition handle_channel_data :: "crypto \<Rightarrow> byte list \<Rightarrow> nat \<Rightarrow> ssh \<Rightarrow> ssh option" where
  "handle_channel_data cr pl plen s =
     (if plen < 9 then Some s
      else do {
        dlen \<leftarrow> rd_len pl 5;
        let dlen = (if w16 (9 + dlen) > plen then plen - 9 else dlen);
        s \<leftarrow> cin_loop pl 9 dlen s;
        Some (adjust_local_window cr dlen s) })"

definition handle_channel_window_adjust :: "byte list \<Rightarrow> nat \<Rightarrow> ssh \<Rightarrow> ssh option" where
  "handle_channel_window_adjust pl plen s =
     (if plen < 9 then Some s
      else do { v \<leftarrow> rd_u32 pl 5; Some (s\<lparr>peer_window := peer_window s + v\<rparr>) })"

definition handle_global_request :: "crypto \<Rightarrow> byte list \<Rightarrow> nat \<Rightarrow> ssh \<Rightarrow> ssh option" where
  "handle_global_request cr pl plen s =
     (if 1 + 4 > plen then Some s
      else do {
        nlen \<leftarrow> rd_len pl 1;
        let off = w16 (1 + (4 + nlen));
        if off < plen then
          do { w \<leftarrow> rd_byte pl off; Some (if w \<noteq> 0 then send_packet cr [82] s else s) }
        else Some s })"

section \<open>The channel as a byte pipe\<close>

text \<open>The loop of \<open>ssh_channel_flush\<close> over the staged bytes \<open>rest\<close> still to send.\<close>

definition flush_take :: "byte list \<Rightarrow> ssh \<Rightarrow> nat" where
  "flush_take rest s = min (min (min (length rest) SSH_CHAN_CHUNK) (unat (peer_window s))) (unat (peer_maxpkt s))"

function flush_loop :: "crypto \<Rightarrow> byte list \<Rightarrow> ssh \<Rightarrow> byte list \<times> ssh" where
  "flush_loop cr rest s =
     (let n = flush_take rest s
      in if rest = [] \<or> n = 0 \<or> length (g_ob s) + n + 64 > SSH_OB_SZ then (rest, s)
         else
           (let s = send_packet cr ([94] @ be32 (peer_chan s) @ put_str (take n rest)) s
            in if ssh_st s = SSH_ST_ERROR then (rest, s)
               else flush_loop cr (drop n rest) (s\<lparr>peer_window := peer_window s - of_nat n\<rparr>)))"
  by pat_completeness auto

termination
proof (relation "measure (\<lambda>(_, rest, _). length rest)", goal_cases)
  case (2 cr rest s n s')
  then show ?case by (cases rest) auto
qed simp

declare flush_loop.simps [simp del]

definition ssh_channel_flush :: "crypto \<Rightarrow> ssh \<Rightarrow> ssh" where
  "ssh_channel_flush cr s =
     (if \<not> chan_open s \<or> chan_closed s then s\<lparr>g_cout := []\<rparr>
      else (let (rest, s) = flush_loop cr (g_cout s) s in s\<lparr>g_cout := rest\<rparr>))"

definition ssh_channel_close :: "crypto \<Rightarrow> ssh \<Rightarrow> ssh" where
  "ssh_channel_close cr s =
     (if \<not> chan_open s \<or> chan_sent_close s then s
      else
        (let s = ssh_channel_flush cr s;
             s = (if shell_ready s
                  then send_packet cr ([98] @ be32 (peer_chan s) @ put_nl ''exit-status'' @ [0] @ put_u32 0) s
                  else s);
             s = (if chan_sent_eof s then s
                  else (send_packet cr ([96] @ be32 (peer_chan s)) s)\<lparr>chan_sent_eof := True\<rparr>);
             s = send_packet cr ([97] @ be32 (peer_chan s)) s
         in s\<lparr>chan_sent_close := True, chan_closed := True\<rparr>))"

section \<open>Dispatch\<close>

definition handle_session :: "crypto \<Rightarrow> byte \<Rightarrow> byte list \<Rightarrow> nat \<Rightarrow> ssh \<Rightarrow> ssh option" where
  "handle_session cr msg pl plen s =
     (if msg = 90 then handle_channel_open cr pl plen s
      else if msg = 98 then handle_channel_request cr pl plen s
      else if msg = 94 then handle_channel_data cr pl plen s
      else if msg = 93 then handle_channel_window_adjust pl plen s
      else if msg = 96 then Some (s\<lparr>chan_eof := True\<rparr>)
      else if msg = 97 then
        (let s = (if chan_sent_close s then s else ssh_channel_close cr s)
         in Some (s\<lparr>chan_closed := True, ssh_st := SSH_ST_CLOSED\<rparr>))
      else Some s)"

definition handle_packet :: "crypto \<Rightarrow> byte list \<Rightarrow> nat \<Rightarrow> ssh \<Rightarrow> ssh option" where
  "handle_packet cr pl plen s =
     do { msg \<leftarrow> (if plen = 0 then Some 0 else rd_byte pl 0);
          if msg = 1 then Some (s\<lparr>ssh_st := SSH_ST_CLOSED\<rparr>)
          else if msg = 2 \<or> msg = 4 \<or> msg = 3 then Some s
          else if msg = 80 then handle_global_request cr pl plen s
          else (case ssh_st s of
            SSH_ST_EXPECT_KEXINIT \<Rightarrow>
              if msg \<noteq> 20 then Some (fail ''expected KEXINIT'' s) else handle_kexinit pl plen s
          | SSH_ST_EXPECT_ECDH_INIT \<Rightarrow>
              if msg \<noteq> 30 \<and> \<not> discard_next s then Some (fail ''expected KEX_ECDH_INIT'' s)
              else handle_ecdh_init cr pl plen s
          | SSH_ST_EXPECT_CLIENT_NEWKEYS \<Rightarrow>
              if msg \<noteq> 21 then Some (fail ''expected NEWKEYS'' s) else Some (handle_client_newkeys s)
          | SSH_ST_EXPECT_SERVICE_REQUEST \<Rightarrow>
              if msg \<noteq> 5 then Some (fail ''expected SERVICE_REQUEST'' s) else handle_service_request cr pl plen s
          | SSH_ST_AUTH \<Rightarrow>
              if msg = 50 then handle_userauth_request cr pl plen s else Some s
          | SSH_ST_SESSION \<Rightarrow> handle_session cr msg pl plen s
          | _ \<Rightarrow> Some (fail ''unexpected packet'' s)) }"

section \<open>Inbound decoding\<close>

text \<open>What one call of \<open>try_version\<close> or \<open>try_packet\<close> returns: 1, 0 or -1.\<close>

datatype progress = Progressed | NeedMore | Failed

text \<open>The scan for the end of the version line: \<open>k\<close> bytes from index \<open>i\<close> on are left.\<close>

primrec scan_line :: "byte list \<Rightarrow> nat \<Rightarrow> nat \<Rightarrow> progress \<times> nat" where
  "scan_line buf 0 i = (NeedMore, 0)"
| "scan_line buf (Suc k) i =
     (if buf ! i = 0x0A then (Progressed, i)
      else if i > 300 then (Failed, i)
      else scan_line buf k (i + 1))"

definition try_version :: "ssh \<Rightarrow> progress \<times> ssh" where
  "try_version s =
     (case scan_line (ib s) (ib_len s) 0 of
        (NeedMore, _) \<Rightarrow> (NeedMore, s)
      | (Failed, _) \<Rightarrow> (Failed, fail ''version line too long'' s)
      | (Progressed, i) \<Rightarrow>
          (let linelen = (if i > 0 \<and> ib s ! (i - 1) = 0x0D then i - 1 else i);
               s = (if linelen \<ge> 4 \<and> take 4 (ib s) = str ''SSH-''
                    then s\<lparr>cli_ver := take (min linelen 255) (ib s), ssh_st := SSH_ST_EXPECT_KEXINIT\<rparr>
                    else s)
           in (Progressed, ib_consume (i + 1) s)))"

definition try_plain :: "crypto \<Rightarrow> ssh \<Rightarrow> (progress \<times> ssh) option" where
  "try_plain cr s =
     (if ib_len s < 4 then Some (NeedMore, s)
      else do {
        pkt_len \<leftarrow> rd_len (ib s) 0;
        if pkt_len < 1 \<or> w16 (pkt_len + 4) > SSH_IB_SZ then Some (Failed, fail ''packet too large'' s)
        else do {
        let need = w16 (4 + pkt_len);
        if ib_len s < need then Some (NeedMore, s)
        else do {
        padlen \<leftarrow> rd_byte (ib s) 4;
        if unat padlen + 1 > pkt_len then Some (Failed, fail ''bad padding'' s)
        else do {
        s \<leftarrow> handle_packet cr (drop 5 (ib s)) (pkt_len - 1 - unat padlen) s;
        let s = ib_consume need s;
        Some (Progressed, s\<lparr>recv_seq := recv_seq s + 1\<rparr>) }}}})"

definition try_cipher :: "crypto \<Rightarrow> ssh \<Rightarrow> (progress \<times> ssh) option" where
  "try_cipher cr s =
     (if ib_len s < 4 then Some (NeedMore, s)
      else do {
        let k_main = take 32 (ek_c2s s);
        let k_header = drop 32 (ek_c2s s);
        let nonce = seqbuf8 (recv_seq s);
        pkt_len \<leftarrow> rd_len (dossh_chacha20_djb (Some (take 4 (ib s))) 4 k_header nonce 0) 0;
        if pkt_len < 8 \<or> pkt_len mod 8 \<noteq> 0 \<or> w16 (4 + pkt_len + 16) > SSH_IB_SZ
        then Some (Failed, fail ''bad encrypted length'' s)
        else do {
        let need = w16 (4 + pkt_len + 16);
        if ib_len s < need then Some (NeedMore, s)
        else do {
        let polykey = dossh_chacha20_djb None 32 k_main nonce 0;
        covered \<leftarrow> slice (ib s) 0 (w16 (4 + pkt_len));
        tag \<leftarrow> slice (ib s) (w16 (4 + pkt_len)) 16;
        if dossh_poly1305 covered polykey \<noteq> tag then Some (Failed, fail ''MAC verification failed'' s)
        else do {
        body \<leftarrow> slice (ib s) 4 pkt_len;
        let s = s\<lparr>ib := take 4 (ib s) @ dossh_chacha20_djb (Some body) pkt_len k_main nonce 1 @ drop (4 + pkt_len) (ib s)\<rparr>;
        padlen \<leftarrow> rd_byte (ib s) 4;
        if unat padlen + 1 > pkt_len then Some (Failed, fail ''bad padding'' s)
        else do {
        s \<leftarrow> handle_packet cr (drop 5 (ib s)) (pkt_len - 1 - unat padlen) s;
        let s = ib_consume need s;
        Some (Progressed, s\<lparr>recv_seq := recv_seq s + 1\<rparr>) }}}}})"

definition try_packet :: "crypto \<Rightarrow> ssh \<Rightarrow> (progress \<times> ssh) option" where
  "try_packet cr s = (if recv_encrypted s then try_cipher cr s else try_plain cr s)"

section \<open>The public interface\<close>

definition ssh_reset :: "crypto \<Rightarrow> byte list \<Rightarrow> byte list \<Rightarrow> ssh \<Rightarrow> ssh" where
  "ssh_reset cr hostkey_sk hostkey_pk s =
     (let s = ssh_conn.extend ssh_conn_zero (ssh_conn.more s);
          s = s\<lparr>g_hostkey_sk := hostkey_sk, g_hostkey_pk := hostkey_pk, ssh_st := SSH_ST_VERSION,
                g_ob := [], g_cin_head := 0, g_cin_tail := 0, g_cout := []\<rparr>;
          s = ob_append SERVER_ID_CRLF s;
          s = build_our_kexinit cr s
      in send_unenc cr (i_s s) s)"

text \<open>The loop of \<open>ssh_input\<close>, for at most \<open>fuel\<close> iterations.  \<open>Fault\<close> is an out-of-bounds read,
  \<open>Looping\<close> that the fuel was not enough.\<close>

datatype 'a run = Finished 'a | Fault | Looping

primrec input_loop :: "crypto \<Rightarrow> nat \<Rightarrow> ssh \<Rightarrow> ssh run" where
  "input_loop cr 0 s = Looping"
| "input_loop cr (Suc fuel) s =
     (if ssh_st s = SSH_ST_ERROR \<or> ssh_st s = SSH_ST_CLOSED then Finished s
      else (case (if ssh_st s = SSH_ST_VERSION then Some (try_version s) else try_packet cr s) of
              None \<Rightarrow> Fault
            | Some (Progressed, s) \<Rightarrow> input_loop cr fuel s
            | Some (_, s) \<Rightarrow> Finished s))"

definition ssh_input :: "crypto \<Rightarrow> nat \<Rightarrow> byte list \<Rightarrow> ssh \<Rightarrow> ssh run" where
  "ssh_input cr fuel data s =
     (if ssh_st s = SSH_ST_ERROR then Finished s
      else if ib_len s + length data > SSH_IB_SZ then Finished (fail ''input overflow'' s)
      else input_loop cr fuel
             (s\<lparr>ib := take (ib_len s) (ib s) @ data @ drop (ib_len s + length data) (ib s),
                ib_len := ib_len s + length data\<rparr>))"

definition ssh_output :: "nat \<Rightarrow> ssh \<Rightarrow> byte list \<times> ssh" where
  "ssh_output mx s = (take mx (g_ob s), s\<lparr>g_ob := drop mx (g_ob s)\<rparr>)"

definition ssh_discard_output :: "ssh \<Rightarrow> ssh" where
  "ssh_discard_output s = s\<lparr>g_ob := []\<rparr>"

definition ssh_state_name :: "ssh \<Rightarrow> string" where
  "ssh_state_name s =
     (case ssh_st s of
        SSH_ST_VERSION \<Rightarrow> ''VERSION''
      | SSH_ST_EXPECT_KEXINIT \<Rightarrow> ''EXPECT_KEXINIT''
      | SSH_ST_EXPECT_ECDH_INIT \<Rightarrow> ''EXPECT_ECDH_INIT''
      | SSH_ST_EXPECT_CLIENT_NEWKEYS \<Rightarrow> ''EXPECT_CLIENT_NEWKEYS''
      | SSH_ST_EXPECT_SERVICE_REQUEST \<Rightarrow> ''EXPECT_SERVICE_REQUEST''
      | SSH_ST_AUTH \<Rightarrow> ''AUTH''
      | SSH_ST_SESSION \<Rightarrow> ''SESSION''
      | SSH_ST_CLOSED \<Rightarrow> ''CLOSED''
      | SSH_ST_ERROR \<Rightarrow> ''ERROR'')"

definition ssh_failed :: "ssh \<Rightarrow> bool" where
  "ssh_failed s \<longleftrightarrow> ssh_st s = SSH_ST_ERROR"

definition ssh_set_password :: "byte list \<Rightarrow> ssh \<Rightarrow> ssh" where
  "ssh_set_password pw s =
     (let k = take 63 (takeWhile (\<lambda>b. b \<noteq> 0) pw) in s\<lparr>g_password := k, g_have_password := (k \<noteq> [])\<rparr>)"

definition ssh_set_authorized_keys :: "byte list list \<Rightarrow> ssh \<Rightarrow> ssh" where
  "ssh_set_authorized_keys keys s = s\<lparr>g_authkeys := keys\<rparr>"

definition ssh_channel_ready :: "ssh \<Rightarrow> bool" where
  "ssh_channel_ready s \<longleftrightarrow> chan_open s \<and> shell_ready s \<and> \<not> chan_closed s"

definition ssh_channel_getc :: "ssh \<Rightarrow> (byte \<times> ssh) option" where
  "ssh_channel_getc s =
     (if g_cin_head s = g_cin_tail s then None
      else Some (g_cin s ! g_cin_head s, s\<lparr>g_cin_head := (g_cin_head s + 1) mod SSH_CIN_SZ\<rparr>))"

definition ssh_channel_putc :: "byte \<Rightarrow> ssh \<Rightarrow> bool \<times> ssh" where
  "ssh_channel_putc b s =
     (if \<not> shell_ready s \<or> chan_closed s then (False, s)
      else if length (g_cout s) \<ge> SSH_COUT_SZ then (False, s)
      else (True, s\<lparr>g_cout := g_cout s @ [b]\<rparr>))"

definition ssh_channel_avail :: "ssh \<Rightarrow> nat" where
  "ssh_channel_avail s =
     (if \<not> ssh_channel_ready s then 0
      else min (min SSH_CHAN_CHUNK (unat (peer_window s))) (unat (peer_maxpkt s)))"

definition ssh_channel_emit :: "crypto \<Rightarrow> byte list \<Rightarrow> nat \<Rightarrow> ssh \<Rightarrow> byte list \<times> ssh" where
  "ssh_channel_emit cr plain outmax s =
     (let n = length plain
      in if \<not> ssh_channel_ready s \<or> \<not> send_encrypted s then ([], s)
         else if n = 0 \<or> n > SSH_CHAN_CHUNK then ([], s)
         else if n > unat (peer_window s) \<or> n > unat (peer_maxpkt s) then ([], s)
         else if n + 40 > outmax then ([], s)
         else
           (let pkt = [94] @ be32 (peer_chan s) @ put_str plain
            in aead_seal cr pkt (s\<lparr>peer_window := peer_window s - of_nat n\<rparr>)))"

definition ssh_winsize :: "ssh \<Rightarrow> nat \<times> nat" where
  "ssh_winsize s = (if term_cols s \<noteq> 0 then term_cols s else 80, if term_rows s \<noteq> 0 then term_rows s else 25)"

section \<open>A concrete instance of the parameters\<close>

text \<open>Functions of the right shape for the concrete runs of the development; no theorem depends on
  their values.\<close>

definition toy_crypto :: crypto where
  "toy_crypto = \<lparr>hw = wit_hw, x25519 = (\<lambda>sk q. take 32 q), x25519_public_key = (\<lambda>sk. take 32 sk),
     ed25519_sign = (\<lambda>sk m. take 32 m @ replicate 32 0), ed25519_verify = (\<lambda>sig pk m. sig = replicate 64 7)\<rparr>"

end
