(* ===== verification/Dosshd.thy ===== *)
theory Dosshd
  imports Keyboard Telnet Render Netapi Ssh
begin

text \<open>
  The resident part of \<open>dosshd/dosshd.c\<close>: what one timer tick does with the transports, the
  renderer and the keyboard.  The record \<open>dossh\<close> is the resident state: the states of the other
  components and the statics of \<open>dosshd.c\<close>.  The per-slot array \<open>ssh_slots\<close> is a list of
  \<open>ssh_conn\<close>; the statics of \<open>ssh.c\<close>, one copy for all slots, are the fields \<open>ssh\<close> adds in
  \<open>g_shared\<close> (its connection fields are never read), and \<open>on_slot\<close> runs an operation of theory Ssh
  on one slot together with them.

  A tick sees one video memory and BIOS data area \<open>v\<close> (the tick counter included): the handler
  runs between two changes of them.  Frames the packet driver delivers arrive between ticks.

  The UART is \<open>u_rx\<close>, the bytes waiting in the receiver, \<open>u_tx\<close>, the bytes written, and \<open>u_polls\<close>, a
  script of the transmitter: a poll that finds \<open>Some bs\<close> is busy while \<open>bs\<close> arrive, a poll that
  finds \<open>None\<close> (or the end of the script) is free.

  An SSH input call may fail as a whole (theory Ssh); the operations that make one have a result of
  type \<open>run\<close>.
\<close>

section \<open>State\<close>

datatype hw_event =
    NetRelease byte nat      \<comment> \<open>\<open>net_release(int, handle)\<close>\<close>
  | WarmFlag                 \<comment> \<open>1234h stored at 0040:0072\<close>
  | CpuReset                 \<comment> \<open>FEh written to the keyboard controller\<close>
  | Chain1C                  \<comment> \<open>the previous INT 1Ch handler runs\<close>

record dossh =
  kb :: kbd
  ak :: ansikey
  scr :: render
  nt :: net
  tslots :: "tslot list"
  tcf :: tconf
  g_net :: bool
  net_ip :: "byte list"
  net_port :: nat
  in_tick :: bool
  g_ssh_mode :: bool
  g_ssh_serial :: bool
  g_ssh_ser_started :: bool
  ssh_slots :: "ssh_conn list"
  g_shared :: ssh
  ssh_active :: "bool list"
  ssh_ready_seen :: "bool list"
  host_sk :: "byte list"
  host_pk :: "byte list"
  g_ssh_pw :: "byte list"
  g_ssh_have_pw :: bool
  authkeys :: "byte list list"
  g_ssh_cols :: nat
  g_ssh_rows :: nat
  g_ssh_stir :: w16bit
  u_rx :: "byte list"
  u_tx :: "byte list"
  u_polls :: "byte list option list"
  events :: "hw_event list"

definition TX_BUDGET :: nat where "TX_BUDGET = 512"
definition SSH_RING_RESERVE :: nat where "SSH_RING_RESERVE = 512"
definition SSH_MAX_AUTHKEYS :: nat where "SSH_MAX_AUTHKEYS = 8"

text \<open>The iterations given to \<open>ssh_input\<close>: one more than its buffer holds.\<close>

definition ssh_fuel :: nat where "ssh_fuel = SSH_IB_SZ + 1"

definition at_slot :: "dossh \<Rightarrow> nat \<Rightarrow> ssh" where
  "at_slot s i = ssh_conn.extend (ssh_slots s ! i) (ssh_conn.more (g_shared s))"

definition set_slot :: "nat \<Rightarrow> ssh \<Rightarrow> dossh \<Rightarrow> dossh" where
  "set_slot i c s = s\<lparr>ssh_slots := (ssh_slots s)[i := ssh_conn.truncate c], g_shared := c\<rparr>"

definition on_slot :: "nat \<Rightarrow> (ssh \<Rightarrow> ssh) \<Rightarrow> dossh \<Rightarrow> dossh" where
  "on_slot i f s = set_slot i (f (at_slot s i)) s"

text \<open>\<open>rng_stir(x ^ g_ssh_stir++)\<close>.\<close>

definition stir :: "rng_hw \<Rightarrow> w16bit \<Rightarrow> dossh \<Rightarrow> dossh" where
  "stir h x s =
     s\<lparr>g_shared := (g_shared s)\<lparr>g_rng := rng_stir h (x XOR g_ssh_stir s) (g_rng (g_shared s))\<rparr>,
       g_ssh_stir := g_ssh_stir s + 1\<rparr>"

section \<open>Keyboard and serial input\<close>

text \<open>\<open>uart_init\<close> programs the UART and clears its FIFOs.\<close>

definition uart_init :: "dossh \<Rightarrow> dossh" where
  "uart_init s = s\<lparr>u_rx := []\<rparr>"

definition key_byte :: "byte \<Rightarrow> dossh \<Rightarrow> dossh" where
  "key_byte b s = (let (a, evs) = ansi_key_byte (ak s) b in s\<lparr>ak := a, kb := fold perform evs (kb s)\<rparr>)"

definition pump_rx :: "dossh \<Rightarrow> dossh" where
  "pump_rx s = fold key_byte (u_rx s) (s\<lparr>u_rx := []\<rparr>)"

text \<open>The wait of \<open>tx_pump\<close> for the transmitter, which pumps the receiver at every busy poll.\<close>

fun thr_wait :: "byte list option list \<Rightarrow> dossh \<Rightarrow> dossh" where
  "thr_wait [] s = s\<lparr>u_polls := []\<rparr>"
| "thr_wait (None # ps) s = s\<lparr>u_polls := ps\<rparr>"
| "thr_wait (Some bs # ps) s = thr_wait ps (pump_rx (s\<lparr>u_rx := u_rx s @ bs\<rparr>))"

definition uart_out :: "byte \<Rightarrow> dossh \<Rightarrow> dossh" where
  "uart_out b s = s\<lparr>u_tx := u_tx s @ [b]\<rparr>"

section \<open>Screen output\<close>

text \<open>\<open>render_next_byte\<close> and \<open>render_pushback\<close> on the resident state.\<close>

definition next_byte :: "vga \<Rightarrow> bool \<Rightarrow> dossh \<Rightarrow> byte option \<times> dossh" where
  "next_byte v serial s = (let (b, r) = render_next_byte v serial (scr s) in (b, s\<lparr>scr := r\<rparr>))"

definition push_back :: "byte \<Rightarrow> dossh \<Rightarrow> dossh" where
  "push_back b s = s\<lparr>scr := render_pushback b (scr s)\<rparr>"

primrec tx_loop :: "vga \<Rightarrow> nat \<Rightarrow> dossh \<Rightarrow> dossh" where
  "tx_loop v 0 s = s"
| "tx_loop v (Suc budget) s =
     (case next_byte v (\<not> g_net s) s of
        (None, s) \<Rightarrow> s
      | (Some b, s) \<Rightarrow>
          if g_net s then
            (let (ok, n) = net_tx_putc b (nt s); s = s\<lparr>nt := n\<rparr>
             in if \<not> ok then push_back b s else tx_loop v budget s)
          else tx_loop v budget (uart_out b (thr_wait (u_polls s) s)))"

definition tx_pump :: "vga \<Rightarrow> dossh \<Rightarrow> dossh" where
  "tx_pump v s = tx_loop v TX_BUDGET s"

section \<open>The telnet tick\<close>

text \<open>The calls a function of \<open>telnet.c\<close> makes.\<close>

fun call :: "vga \<Rightarrow> tn_effect \<Rightarrow> dossh \<Rightarrow> dossh" where
  "call v (TxPutc i c) s = s\<lparr>nt := snd (net_tx_putc_slot i c (nt s))\<rparr>"
| "call v (tn_effect.SlotReady i) s = s\<lparr>nt := net_slot_ready i True (nt s)\<rparr>"
| "call v (tn_effect.SlotDrop i) s = s\<lparr>nt := net_slot_drop i (nt s)\<rparr>"
| "call v (KeyByte b) s = key_byte b s"
| "call v RenderReset s = s\<lparr>scr := render_reset v (scr s)\<rparr>"

definition on_telnet :: "vga \<Rightarrow> nat \<Rightarrow> (tslot \<Rightarrow> tslot \<times> tn_effect list) \<Rightarrow> dossh \<Rightarrow> dossh" where
  "on_telnet v i f s =
     (let (t, evs) = f (tslots s ! i) in fold (call v) evs (s\<lparr>tslots := (tslots s)[i := t]\<rparr>))"

text \<open>The loop over new connections runs at most once per slot, the loop over received bytes at
  most \<open>RCV_SZ\<close> times.\<close>

primrec begin_loop :: "vga \<Rightarrow> nat \<Rightarrow> dossh \<Rightarrow> dossh" where
  "begin_loop v 0 s = s"
| "begin_loop v (Suc k) s =
     (case net_take_new_slot (nt s) of
        (None, n) \<Rightarrow> s\<lparr>nt := n\<rparr>
      | (Some i, n) \<Rightarrow> begin_loop v k (on_telnet v i (telnet_begin (tcf s) i) (s\<lparr>nt := n\<rparr>)))"

primrec telnet_loop :: "vga \<Rightarrow> nat \<Rightarrow> nat \<Rightarrow> dossh \<Rightarrow> dossh" where
  "telnet_loop v i 0 s = s"
| "telnet_loop v i (Suc k) s =
     (case net_rx_getc i (nt s) of
        (None, n) \<Rightarrow> s\<lparr>nt := n\<rparr>
      | (Some b, n) \<Rightarrow> telnet_loop v i k (on_telnet v i (\<lambda>t. telnet_in (tcf s) i t b) (s\<lparr>nt := n\<rparr>)))"

definition net_tick :: "vga \<Rightarrow> dossh \<Rightarrow> dossh" where
  "net_tick v s =
     (let s = s\<lparr>nt := net_poll (bda_ticks v) (nt s)\<rparr>;
          s = begin_loop v (net_slots (nt s)) s;
          s = fold (\<lambda>i. telnet_loop v i RCV_SZ) [0..<net_slots (nt s)] s
      in if net_connected (nt s)
         then (let s = tx_pump v s in s\<lparr>nt := net_tx_flush (bda_ticks v) (nt s)\<rparr>)
         else s)"

section \<open>SSH output\<close>

definition put_slot :: "nat \<Rightarrow> byte \<Rightarrow> dossh \<Rightarrow> dossh" where
  "put_slot i b s = s\<lparr>nt := snd (net_tx_putc_slot i b (nt s))\<rparr>"

text \<open>\<open>ssh_output\<close> into a buffer of \<open>n\<close> bytes.\<close>

definition take_output :: "nat \<Rightarrow> nat \<Rightarrow> dossh \<Rightarrow> byte list \<times> dossh" where
  "take_output i n s = (let (bs, c) = ssh_output n (at_slot s i) in (bs, set_slot i c s))"

lemma extend_split [simp]: "ssh_conn.extend (ssh_conn.truncate c) (ssh_conn.more c) = c" for c :: ssh
  by (cases c) (simp add: ssh_conn.defs)

lemma at_set_slot [simp]: "i < length (ssh_slots s) \<Longrightarrow> at_slot (set_slot i c s) i = c"
  by (simp add: at_slot_def set_slot_def)

lemma set_slot_shared [simp]: "g_shared (set_slot i c s) = c" "nt (set_slot i c s) = nt s"
  by (simp_all add: set_slot_def)

lemma g_ob_at_slot [simp]: "g_ob (at_slot s i) = g_ob (g_shared s)"
  unfolding at_slot_def by (cases "g_shared s") (simp add: ssh_conn.defs)

lemma put_slot_shared: "g_shared (fold (put_slot i) bs s) = g_shared s"
  by (induction bs arbitrary: s) (simp_all add: put_slot_def)

function ssh_pump_output :: "nat \<Rightarrow> dossh \<Rightarrow> dossh" where
  "ssh_pump_output i s =
     (let room = net_tx_room_slot i (nt s)
      in if room = 0 then s
         else
           (let (bs, s) = take_output i (min room 128) s
            in if bs = [] then s else ssh_pump_output i (fold (put_slot i) bs s)))"
  by pat_completeness auto

termination
proof (relation "measure (\<lambda>(i, s). length (g_ob (g_shared s)))", goal_cases)
  case (2 i s room p bs s')
  then show ?case by (auto simp: put_slot_shared take_output_def ssh_output_def)
qed simp

declare ssh_pump_output.simps [simp del]

text \<open>\<open>ssh_tx_pump\<close>: the screen staged for the serial client.\<close>

primrec ssh_tx_loop :: "vga \<Rightarrow> nat \<Rightarrow> dossh \<Rightarrow> dossh" where
  "ssh_tx_loop v 0 s = s"
| "ssh_tx_loop v (Suc budget) s =
     (case next_byte v False s of
        (None, s) \<Rightarrow> s
      | (Some b, s) \<Rightarrow>
          (let (ok, c) = ssh_channel_putc b (at_slot s 0); s = set_slot 0 c s
           in if \<not> ok then push_back b s else ssh_tx_loop v budget s))"

definition ssh_tx_pump :: "vga \<Rightarrow> dossh \<Rightarrow> dossh" where
  "ssh_tx_pump v s = ssh_tx_loop v TX_BUDGET s"

section \<open>The screen broadcast of the SSH server\<close>

definition live :: "nat \<Rightarrow> dossh \<Rightarrow> bool" where
  "live i s \<longleftrightarrow> ssh_active s ! i \<and> net_slot_connected i (nt s) \<and> ssh_channel_ready (at_slot s i)"

text \<open>The first loop of a round: the size of the chunk (\<open>cap\<close>), whether a slot is ready (\<open>any\<close>), and
  the eviction of dead slots.\<close>

definition cap_slot :: "nat \<Rightarrow> nat \<times> bool \<times> dossh \<Rightarrow> nat \<times> bool \<times> dossh" where
  "cap_slot i st =
     (case st of (cap, any, s) \<Rightarrow>
        if \<not> live i s then (cap, any, s)
        else
          (let room = net_tx_room_slot i (nt s);
               netcap = (if room > SSH_RING_RESERVE + 40 then room - SSH_RING_RESERVE - 40 else 0);
               a = min (ssh_channel_avail (at_slot s i)) netcap
           in if a = 0 \<and> net_slot_stalled i (nt s)
              then (cap, True, s\<lparr>nt := net_slot_drop i (nt s), ssh_active := (ssh_active s)[i := False]\<rparr>)
              else (min cap a, True, s)))"

primrec gather :: "vga \<Rightarrow> nat \<Rightarrow> dossh \<Rightarrow> byte list \<times> dossh" where
  "gather v 0 s = ([], s)"
| "gather v (Suc k) s =
     (case next_byte v False s of
        (None, s) \<Rightarrow> ([], s)
      | (Some b, s) \<Rightarrow> (let (bs, s) = gather v k s in (b # bs, s)))"

definition emit_slot :: "crypto \<Rightarrow> byte list \<Rightarrow> nat \<Rightarrow> dossh \<Rightarrow> dossh" where
  "emit_slot cr plain i s =
     (if \<not> live i s then s
      else (let (wire, c) = ssh_channel_emit cr plain (SSH_CHAN_CHUNK + 40) (at_slot s i)
            in fold (put_slot i) wire (set_slot i c s)))"

function bcast_loop :: "crypto \<Rightarrow> vga \<Rightarrow> nat \<Rightarrow> dossh \<Rightarrow> dossh" where
  "bcast_loop cr v budget s =
     (let (cap, any, s) = fold cap_slot [0..<net_slots (nt s)] (SSH_CHAN_CHUNK, False, s);
          cap = min cap budget
      in if \<not> any \<or> cap = 0 then s
         else
           (let (plain, s) = gather v cap s
            in if plain = [] then s
               else
                 (let s = fold (emit_slot cr plain) [0..<net_slots (nt s)] s;
                      budget = budget - length plain
                  in if budget = 0 then s else bcast_loop cr v budget s)))"
  by pat_completeness auto

termination
  by (relation "measure (\<lambda>(cr, v, budget, s). budget)") auto

declare bcast_loop.simps [simp del]

definition ssh_net_broadcast :: "crypto \<Rightarrow> vga \<Rightarrow> dossh \<Rightarrow> dossh" where
  "ssh_net_broadcast cr v s = bcast_loop cr v TX_BUDGET s"

section \<open>The SSH workers\<close>

text \<open>\<open>ssh_reset\<close>, \<open>ssh_set_password\<close> and \<open>ssh_set_authorized_keys\<close> for a new session.\<close>

definition ssh_start :: "crypto \<Rightarrow> nat \<Rightarrow> dossh \<Rightarrow> dossh" where
  "ssh_start cr i s =
     (let s = on_slot i (ssh_reset cr (host_sk s) (host_pk s)) s;
          s = (if g_ssh_have_pw s then on_slot i (ssh_set_password (g_ssh_pw s)) s else s)
      in if authkeys s \<noteq> [] then on_slot i (ssh_set_authorized_keys (authkeys s)) s else s)"

primrec accept_loop :: "crypto \<Rightarrow> nat \<Rightarrow> dossh \<Rightarrow> dossh" where
  "accept_loop cr 0 s = s"
| "accept_loop cr (Suc k) s =
     (case net_take_new_slot (nt s) of
        (None, n) \<Rightarrow> s\<lparr>nt := n\<rparr>
      | (Some i, n) \<Rightarrow>
          (let s = ssh_start cr i (s\<lparr>nt := n\<rparr>);
               s = s\<lparr>ssh_active := (ssh_active s)[i := True], ssh_ready_seen := (ssh_ready_seen s)[i := False],
                     g_ssh_cols := 80, g_ssh_rows := 25\<rparr>
           in accept_loop cr k (ssh_pump_output i s)))"

primrec read_wire :: "crypto \<Rightarrow> nat \<Rightarrow> nat \<Rightarrow> dossh \<Rightarrow> byte list \<times> dossh" where
  "read_wire cr i 0 s = ([], s)"
| "read_wire cr i (Suc k) s =
     (case net_rx_getc i (nt s) of
        (None, n) \<Rightarrow> ([], s\<lparr>nt := n\<rparr>)
      | (Some b, n) \<Rightarrow> (let (bs, s) = read_wire cr i k (stir (hw cr) (ucast b) (s\<lparr>nt := n\<rparr>)) in (b # bs, s)))"

definition slot_input :: "crypto \<Rightarrow> nat \<Rightarrow> byte list \<Rightarrow> dossh \<Rightarrow> dossh run" where
  "slot_input cr i bs s =
     (if bs = [] then Finished s
      else (case ssh_input cr ssh_fuel bs (at_slot s i) of
              Finished c \<Rightarrow> Finished (set_slot i c s) | Fault \<Rightarrow> Fault | Looping \<Rightarrow> Looping))"

text \<open>The keystroke loop; \<open>finish\<close> is what follows \<open>ssh_channel_close\<close> at a Ctrl-D.  The ring holds
  fewer than \<open>SSH_CIN_SZ\<close> bytes.\<close>

primrec key_loop :: "crypto \<Rightarrow> nat \<Rightarrow> (dossh \<Rightarrow> dossh) \<Rightarrow> nat \<Rightarrow> dossh \<Rightarrow> dossh" where
  "key_loop cr i finish 0 s = s"
| "key_loop cr i finish (Suc k) s =
     (case ssh_channel_getc (at_slot s i) of
        None \<Rightarrow> s
      | Some (b, c) \<Rightarrow>
          (let s = set_slot i c s
           in if g_eof_exit (tcf s) \<and> b = 0x04 then finish (on_slot i (ssh_channel_close cr) s)
              else key_loop cr i finish k (key_byte b s)))"

definition resize :: "vga \<Rightarrow> nat \<Rightarrow> dossh \<Rightarrow> dossh" where
  "resize v i s =
     (let (cols, rows) = ssh_winsize (at_slot s i)
      in if cols \<noteq> g_ssh_cols s \<or> rows \<noteq> g_ssh_rows s
         then s\<lparr>g_ssh_cols := cols, g_ssh_rows := rows, scr := render_reset v (scr s)\<rparr> else s)"

definition shell_up :: "vga \<Rightarrow> nat \<Rightarrow> dossh \<Rightarrow> dossh" where
  "shell_up v i s =
     (if ssh_channel_ready (at_slot s i) then
        (let s = (if \<not> ssh_ready_seen s ! i
                  then s\<lparr>ssh_ready_seen := (ssh_ready_seen s)[i := True], scr := render_reset v (scr s)\<rparr> else s)
         in resize v i s)
      else s)"

definition teardown :: "nat \<Rightarrow> dossh \<Rightarrow> dossh" where
  "teardown i s =
     (if chan_closed (at_slot s i) \<or> ssh_failed (at_slot s i) \<or> ssh_st (at_slot s i) = SSH_ST_CLOSED
      then (let s = on_slot i ssh_discard_output (ssh_pump_output i s)
            in s\<lparr>nt := net_slot_drop i (nt s), ssh_active := (ssh_active s)[i := False]\<rparr>)
      else s)"

definition serve_slot :: "crypto \<Rightarrow> vga \<Rightarrow> nat \<Rightarrow> dossh \<Rightarrow> dossh run" where
  "serve_slot cr v i s =
     (if \<not> ssh_active s ! i then Finished s
      else if \<not> net_slot_connected i (nt s) then Finished (s\<lparr>ssh_active := (ssh_active s)[i := False]\<rparr>)
      else
        (let (bs, s) = read_wire cr i 512 s
         in case slot_input cr i bs s of
              Fault \<Rightarrow> Fault | Looping \<Rightarrow> Looping
            | Finished s \<Rightarrow>
                (let s = ssh_pump_output i s;
                     s = key_loop cr i (\<lambda>s. let s = ssh_pump_output i s in s\<lparr>nt := net_tx_flush (bda_ticks v) (nt s)\<rparr>)
                           SSH_CIN_SZ s
                 in Finished (teardown i (shell_up v i s)))))"

primrec serve_slots :: "crypto \<Rightarrow> vga \<Rightarrow> nat list \<Rightarrow> dossh \<Rightarrow> dossh run" where
  "serve_slots cr v [] s = Finished s"
| "serve_slots cr v (i # is) s =
     (case serve_slot cr v i s of Finished s \<Rightarrow> serve_slots cr v is s | Fault \<Rightarrow> Fault | Looping \<Rightarrow> Looping)"

definition ssh_net_worker :: "crypto \<Rightarrow> vga \<Rightarrow> dossh \<Rightarrow> dossh run" where
  "ssh_net_worker cr v s =
     (let s = s\<lparr>nt := net_poll (bda_ticks v) (nt s)\<rparr>;
          s = accept_loop cr (net_slots (nt s)) s
      in case serve_slots cr v [0..<net_slots (nt s)] s of
           Fault \<Rightarrow> Fault | Looping \<Rightarrow> Looping
         | Finished s \<Rightarrow>
             (let s = ssh_net_broadcast cr v s;
                  s = s\<lparr>nt := net_tx_flush (bda_ticks v) (nt s)\<rparr>
              in Finished (stir (hw cr) 0 s)))"

text \<open>The wait of the serial output: after 60001 busy polls the byte is written all the same.\<close>

fun thr_guard :: "nat \<Rightarrow> byte list option list \<Rightarrow> dossh \<Rightarrow> dossh" where
  "thr_guard k [] s = s\<lparr>u_polls := []\<rparr>"
| "thr_guard k (None # ps) s = s\<lparr>u_polls := ps\<rparr>"
| "thr_guard k (Some bs # ps) s =
     (let s = s\<lparr>u_rx := u_rx s @ bs\<rparr> in if k + 1 > 60000 then s\<lparr>u_polls := ps\<rparr> else thr_guard (k + 1) ps s)"

definition guarded_out :: "byte \<Rightarrow> dossh \<Rightarrow> dossh" where
  "guarded_out b s = uart_out b (thr_guard 0 (u_polls s) s)"

function serial_out_loop :: "nat \<Rightarrow> dossh \<Rightarrow> dossh" where
  "serial_out_loop budget s =
     (if budget = 0 then s
      else (let (bs, s) = take_output 0 (min budget 128) s
            in if bs = [] then s else serial_out_loop (budget - length bs) (fold guarded_out bs s)))"
  by pat_completeness auto

termination by (relation "measure fst") auto

declare serial_out_loop.simps [simp del]

definition ssh_serial_pump_output :: "dossh \<Rightarrow> dossh" where
  "ssh_serial_pump_output s = serial_out_loop 1024 s"

definition ssh_serial_worker :: "crypto \<Rightarrow> vga \<Rightarrow> dossh \<Rightarrow> dossh run" where
  "ssh_serial_worker cr v s =
     (let rb = take 256 (u_rx s);
          s = fold (\<lambda>b. stir (hw cr) (ucast b)) rb (s\<lparr>u_rx := drop 256 (u_rx s)\<rparr>);
          s = (if rb \<noteq> [] \<and> (\<not> g_ssh_ser_started s \<or> ssh_st (at_slot s 0) = SSH_ST_ERROR
                               \<or> ssh_st (at_slot s 0) = SSH_ST_CLOSED)
               then (let s = ssh_start cr 0 s
                     in s\<lparr>g_ssh_cols := 80, g_ssh_rows := 25, g_ssh_ser_started := True, scr := render_reset v (scr s)\<rparr>)
               else s)
      in case slot_input cr 0 rb s of
           Fault \<Rightarrow> Fault | Looping \<Rightarrow> Looping
         | Finished s \<Rightarrow>
             Finished
               (if \<not> g_ssh_ser_started s then s
                else
                  (let s = ssh_serial_pump_output s;
                       s = (if ssh_channel_ready (at_slot s 0) then
                              (let s = key_loop cr 0 ssh_serial_pump_output SSH_CIN_SZ (resize v 0 s)
                               in ssh_serial_pump_output (on_slot 0 (ssh_channel_flush cr) (ssh_tx_pump v s)))
                            else s)
                   in stir (hw cr) 0 s)))"

definition ssh_worker :: "crypto \<Rightarrow> vga \<Rightarrow> dossh \<Rightarrow> dossh run" where
  "ssh_worker cr v s = (if g_ssh_serial s then ssh_serial_worker cr v s else ssh_net_worker cr v s)"

section \<open>The interrupt handlers\<close>

definition do_reboot :: "dossh \<Rightarrow> dossh" where
  "do_reboot s =
     (let s = s\<lparr>kb := (kb s)\<lparr>g_reboot := False\<rparr>\<rparr>;
          s = (if g_net s then s\<lparr>events := events s @ [NetRelease (pkt_int (nt s)) (pkt_handle (nt s))]\<rparr> else s)
      in s\<lparr>events := events s @ [WarmFlag, CpuReset]\<rparr>)"

definition tick_work :: "crypto \<Rightarrow> vga \<Rightarrow> dossh \<Rightarrow> dossh run" where
  "tick_work cr v s =
     (let (a, evs) = ansi_key_tick (ak s);
          s = s\<lparr>ak := a, kb := fold perform evs (kb s)\<rparr>
      in if g_ssh_mode s then ssh_worker cr v s
         else Finished (if g_net s then net_tick v s else tx_pump v (pump_rx s)))"

definition tick_isr :: "crypto \<Rightarrow> vga \<Rightarrow> dossh \<Rightarrow> dossh run" where
  "tick_isr cr v s =
     (case (if in_tick s then Finished s else tick_work cr v (s\<lparr>in_tick := True\<rparr>)) of
        Fault \<Rightarrow> Fault | Looping \<Rightarrow> Looping
      | Finished t \<Rightarrow>
          (let t = (if in_tick s then t else t\<lparr>in_tick := False\<rparr>);
               t = (if g_reboot (kb t) then do_reboot t else t)
           in Finished (t\<lparr>events := events t @ [Chain1C]\<rparr>)))"

end
