(* ===== verification/Tntick.thy ===== *)
theory Tntick
  imports Dosshd
begin

text \<open>
  The telnet half of the timer tick, \<open>net_tick\<close> of \<open>dosshd/dosshd.c\<close>: the loop that drains the
  receive ring of one slot into \<open>telnet_in\<close> carries out exactly one telnet session on the bytes of
  the ring, up to the first drop, and what it does to the keyboard and to the slot's admission is
  what the effects of that session say.
\<close>

section \<open>What the calls of telnet change\<close>

definition type_key :: "byte \<Rightarrow> ansikey \<times> kbd \<Rightarrow> ansikey \<times> kbd" where
  "type_key b ak_kb = (let (a, evs) = ansi_key_byte (fst ak_kb) b in (a, fold perform evs (snd ak_kb)))"

definition keyboard :: "dossh \<Rightarrow> ansikey \<times> kbd" where
  "keyboard s = (ak s, kb s)"

definition gate_flag :: "nat \<Rightarrow> tn_effect \<Rightarrow> bool \<Rightarrow> bool" where
  "gate_flag i e r = (if e = tn_effect.SlotReady i then True else if e = tn_effect.SlotDrop i then False else r)"

abbreviation received :: "nat \<Rightarrow> dossh \<Rightarrow> byte list" where
  "received i s \<equiv> rring (conns (nt s) ! i)"

abbreviation admitted :: "nat \<Rightarrow> dossh \<Rightarrow> bool" where
  "admitted i s \<equiv> ready (conns (nt s) ! i)"

lemma key_byte_frame: "nt (key_byte b s) = nt s" "tslots (key_byte b s) = tslots s" "tcf (key_byte b s) = tcf s"
  "keyboard (key_byte b s) = type_key b (keyboard s)"
  by (simp_all add: key_byte_def keyboard_def type_key_def case_prod_beta)

lemma rring_frame: "rring (sbuf_put ch c) = rring c" "rring (c\<lparr>ready := r\<rparr>) = rring c"
  "rring (tcp_reset_listen c) = []" "ready (sbuf_put ch c) = ready c" "\<not> ready (tcp_reset_listen c)"
  by (simp_all add: rring_def r_used_def sbuf_put_def tcp_reset_listen_def ring_list_def)

lemma call_stack:
  assumes "net_ok (nt s)"
  shows "net_ok (nt (call v e s)) \<and> length (conns (nt (call v e s))) = length (conns (nt s))"
proof (cases e)
  case (TxPutc j c)
  then show ?thesis using do_nop_ok [OF assms, of "PutcSlot j c"] by simp
next
  case (SlotReady j)
  then show ?thesis using do_nop_ok [OF assms, of "nop.SlotReady j True"] by simp
next
  case (SlotDrop j)
  then show ?thesis using do_nop_ok [OF assms, of "nop.SlotDrop j"] by simp
qed (use assms in \<open>simp_all add: key_byte_frame\<close>)

lemma keyboard_frame [simp]: "keyboard (s\<lparr>nt := n\<rparr>) = keyboard s" "keyboard (s\<lparr>scr := r\<rparr>) = keyboard s"
  "keyboard (s\<lparr>tslots := ts\<rparr>) = keyboard s"
  by (simp_all add: keyboard_def)

lemma call_frame: "tslots (call v e s) = tslots s" "tcf (call v e s) = tcf s"
  "keyboard (call v e s) = fold type_key (keys_of [e]) (keyboard s)"
proof -
  show "tslots (call v e s) = tslots s" by (cases e) (simp_all add: key_byte_frame)
  show "tcf (call v e s) = tcf s" by (cases e) (simp_all add: key_byte_frame)
  have "keys_of [TxPutc j c] = []" for j c by (simp add: keys_of_def)
  then show "keyboard (call v e s) = fold type_key (keys_of [e]) (keyboard s)"
    by (cases e) (simp_all add: key_byte_frame)
qed

lemma call_slot:
  assumes "i < length (conns (nt s))"
  shows "received i (call v e s) = (if e = tn_effect.SlotDrop i then [] else received i s)"
    "admitted i (call v e s) = gate_flag i e (admitted i s)"
proof -
  note defs = net_tx_putc_slot_def net_slot_ready_def net_slot_drop_def put_conn_def Let_def
    nth_list_update rring_frame key_byte_frame gate_flag_def
  show "received i (call v e s) = (if e = tn_effect.SlotDrop i then [] else received i s)"
    using assms by (cases e) (auto simp: defs)
  show "admitted i (call v e s) = gate_flag i e (admitted i s)"
    using assms by (cases e) (auto simp: defs)
qed

lemma calls_effect:
  assumes "net_ok (nt s)" "i < length (conns (nt s))" "s' = fold (call v) evs s"
  shows "net_ok (nt s') \<and> length (conns (nt s')) = length (conns (nt s)) \<and> tslots s' = tslots s \<and> tcf s' = tcf s
    \<and> keyboard s' = fold type_key (keys_of evs) (keyboard s)
    \<and> received i s' = (if tn_effect.SlotDrop i \<in> set evs then [] else received i s)
    \<and> admitted i s' = fold (gate_flag i) evs (admitted i s)"
  using assms
proof (induction evs arbitrary: s)
  case (Cons e evs)
  have "keys_of (e # evs) = keys_of [e] @ keys_of evs" by (simp add: keys_of_def)
  moreover have "i < length (conns (nt (call v e s)))" "s' = fold (call v) evs (call v e s)"
    using Cons.prems call_stack [OF Cons.prems(1), of v e] by simp_all
  note Cons.IH [OF _ this]
  ultimately show ?case
    using call_stack [OF Cons.prems(1), of v e] call_frame [of v e s] call_slot [OF Cons.prems(2), of v e] by auto
qed simp

section \<open>One slot of the tick\<close>

text \<open>After \<open>net_slot_drop\<close> the loop of the tick finds nothing more to read.\<close>

lemma drop_ends_stream:
  "i < length (conns n) \<Longrightarrow> fst (net_rx_getc i (net_slot_drop i n)) = None"
  by (simp add: net_rx_getc_def net_slot_drop_def put_conn_def Let_def conn_getc_def tcp_reset_listen_def)

lemma getc_step:
  assumes "net_ok n" "i < length (conns n)"
  shows "rring (conns n ! i) = [] \<Longrightarrow> net_rx_getc i n = (None, n)"
    and "rring (conns n ! i) = b # bs \<Longrightarrow> \<exists>n'. net_rx_getc i n = (Some b, n') \<and> net_ok n'
      \<and> length (conns n') = length (conns n) \<and> rring (conns n' ! i) = bs \<and> ready (conns n' ! i) = ready (conns n ! i)"
proof -
  note c = conn_getc_ok [OF net_ok_conn [OF assms]]
  show "rring (conns n ! i) = [] \<Longrightarrow> net_rx_getc i n = (None, n)"
    using c(1) assms(2) by (simp add: net_rx_getc_def)
  assume "rring (conns n ! i) = b # bs"
  from c(2) [OF this] assms show "\<exists>n'. net_rx_getc i n = (Some b, n') \<and> net_ok n'
      \<and> length (conns n') = length (conns n) \<and> rring (conns n' ! i) = bs \<and> ready (conns n' ! i) = ready (conns n ! i)"
    by (auto simp: net_rx_getc_def intro: net_ok_update)
qed

text \<open>The loop of \<open>net_tick\<close> over one slot is a telnet session on what the slot has received: the
  slot's telnet state becomes the session's, the keyboard gets the session's key bytes and nothing
  else, and the slot is admitted to the broadcast as the session says.\<close>

lemma telnet_loop_session:
  assumes "net_ok (nt s)" "i < length (conns (nt s))" "i < length (tslots s)" "length (received i s) \<le> k"
    "telnet_session (tcf s) i (tslots s ! i) (received i s) = (t, evs)" "s' = telnet_loop v i k s"
  shows "tslots s' ! i = t \<and> keyboard s' = fold type_key (keys_of evs) (keyboard s)
    \<and> admitted i s' = fold (gate_flag i) evs (admitted i s)"
  using assms
proof (induction k arbitrary: s t evs)
  case (Suc k)
  show ?case
  proof (cases "received i s")
    case Nil
    with getc_step(1) [OF Suc.prems(1,2)] Suc.prems(5,6) show ?thesis by simp
  next
    case (Cons b bs)
    from getc_step(2) [OF Suc.prems(1,2) Cons] obtain n where n: "net_rx_getc i (nt s) = (Some b, n)" "net_ok n"
      "length (conns n) = length (conns (nt s))" "rring (conns n ! i) = bs" "ready (conns n ! i) = admitted i s"
      by blast
    obtain t1 ev where t1: "telnet_in (tcf s) i (tslots s ! i) b = (t1, ev)" by fastforce
    define s1 where "s1 = fold (call v) ev (s\<lparr>nt := n, tslots := (tslots s)[i := t1]\<rparr>)"
    have s1: "net_ok (nt s1)" "length (conns (nt s1)) = length (conns (nt s))" "tslots s1 = (tslots s)[i := t1]"
      "tcf s1 = tcf s" "keyboard s1 = fold type_key (keys_of ev) (keyboard s)"
      "received i s1 = (if tn_effect.SlotDrop i \<in> set ev then [] else bs)"
      "admitted i s1 = fold (gate_flag i) ev (admitted i s)"
      using calls_effect [of "s\<lparr>nt := n, tslots := (tslots s)[i := t1]\<rparr>" i s1 v ev] n Suc.prems(2)
      by (simp_all add: s1_def)
    have loop: "s' = telnet_loop v i k s1"
      using Suc.prems(6) n(1) t1 by (simp add: on_telnet_def s1_def)
    obtain t2 evs2 where r: "telnet_session (tcf s1) i (tslots s1 ! i) (received i s1) = (t2, evs2)" by fastforce
    have len: "length (received i s1) \<le> k" using s1(6) Cons Suc.prems(4) by (simp del: length_rring)
    have st: "t = t2" "evs = ev @ evs2"
      using Suc.prems(3,5) Cons t1 r s1(3,4,6) by (auto split: if_splits)
    show ?thesis
      using Suc.IH [OF s1(1) _ _ len r loop] Suc.prems(2,3) s1 st by simp
  qed
qed (simp del: length_rring)

end
