(* ===== verification/Terminal.thy ===== *)
theory Terminal
  imports Render
begin

text \<open>
  What the client sees.  \<open>vterm\<close> is an abstract terminal (cells holding a UTF-8 glyph and the
  current SGR parameters, a cursor, a CSI and UTF-8 parser) that consumes the renderer's bytes one
  by one; it is the specification side of \<open>render.c\<close>.  The invariant \<open>mirror_inv\<close> ties the
  renderer's state to the terminal that has received the bytes delivered so far, through every
  call, refused byte (pushback), reset, screen change and geometry change; its consequence is that
  whenever the renderer has nothing to send, the terminal shows exactly the VGA text screen.
\<close>

section \<open>The terminal\<close>

datatype pstate = Ground | Utf "byte list" nat | Esc | Csi bool "nat list" nat

record vterm =
  t_w :: nat
  t_h :: nat
  t_cell :: "nat \<Rightarrow> nat \<Rightarrow> byte list \<times> nat list"
  t_row :: nat
  t_col :: nat
  t_sgr :: "nat list"
  t_visible :: bool
  t_ps :: pstate

definition print_glyph :: "byte list \<Rightarrow> vterm \<Rightarrow> vterm" where
  "print_glyph g t = t\<lparr>t_cell := (t_cell t)(t_row t := (t_cell t (t_row t))(t_col t := (g, t_sgr t))),
     t_col := min (t_col t + 1) (t_w t - 1), t_ps := Ground\<rparr>"

definition csi_dispatch :: "bool \<Rightarrow> nat list \<Rightarrow> byte \<Rightarrow> vterm \<Rightarrow> vterm" where
  "csi_dispatch priv ps b t =
     (let t = t\<lparr>t_ps := Ground\<rparr>
      in if b = 72 \<and> \<not> priv then
           t\<lparr>t_row := min (ps ! 0 - 1) (t_h t - 1),
             t_col := min ((if length ps > 1 then ps ! 1 else 1) - 1) (t_w t - 1)\<rparr>
         else if b = 109 \<and> \<not> priv then t\<lparr>t_sgr := ps\<rparr>
         else if b = 74 \<and> \<not> priv \<and> ps = [2] then t\<lparr>t_cell := (\<lambda>_ _. ([], []))\<rparr>
         else if b = 104 \<and> priv \<and> ps = [25] then t\<lparr>t_visible := True\<rparr>
         else if b = 108 \<and> priv \<and> ps = [25] then t\<lparr>t_visible := False\<rparr>
         else t)"

definition term_byte :: "vterm \<Rightarrow> byte \<Rightarrow> vterm" where
  "term_byte t b =
     (if b = 27 then t\<lparr>t_ps := Esc\<rparr>
      else case t_ps t of
        Ground \<Rightarrow> (if 32 \<le> b \<and> b < 127 then print_glyph [b] t
          else if 0xE0 \<le> b \<and> b < 0xF0 then t\<lparr>t_ps := Utf [b] 2\<rparr>
          else if 0xC0 \<le> b \<and> b < 0xE0 then t\<lparr>t_ps := Utf [b] 1\<rparr> else t)
      | Utf g n \<Rightarrow> (if n \<le> 1 then print_glyph (g @ [b]) t else t\<lparr>t_ps := Utf (g @ [b]) (n - 1)\<rparr>)
      | Esc \<Rightarrow> (if b = 91 then t\<lparr>t_ps := Csi False [] 0\<rparr> else t\<lparr>t_ps := Ground\<rparr>)
      | Csi p ps cur \<Rightarrow>
          (if 48 \<le> b \<and> b \<le> 57 then t\<lparr>t_ps := Csi p ps (cur * 10 + (unat b - 48))\<rparr>
           else if b = 59 then t\<lparr>t_ps := Csi p (ps @ [cur]) 0\<rparr>
           else if b = 63 then t\<lparr>t_ps := Csi True ps cur\<rparr>
           else csi_dispatch p (ps @ [cur]) b t))"

definition feed :: "vterm \<Rightarrow> byte list \<Rightarrow> vterm" where
  "feed t bs = foldl term_byte t bs"

lemma feed_simps [simp]: "feed t [] = t" "feed t (b # bs) = feed (term_byte t b) bs"
  "feed t (xs @ ys) = feed (feed t xs) ys"
  by (simp_all add: feed_def)

lemma term_byte_esc: "term_byte t 27 = t\<lparr>t_ps := Esc\<rparr>"
  "t_ps t = Esc \<Longrightarrow> term_byte t 91 = t\<lparr>t_ps := Csi False [] 0\<rparr>"
  by (simp_all add: term_byte_def)

section \<open>The terminal reads what the helpers write\<close>

lemma feed_digit:
  assumes "t_ps t = Csi p ps n" "d < 10"
  shows "term_byte t (48 + of_nat d) = t\<lparr>t_ps := Csi p ps (n * 10 + d)\<rparr>"
proof -
  have u: "unat (48 + of_nat d :: byte) = 48 + d"
    using assms(2) by (simp add: unat_word_ariths unat_of_nat)
  then have "48 \<le> (48 + of_nat d :: byte)" "(48 + of_nat d :: byte) \<le> 57" "(48 + of_nat d :: byte) \<noteq> 27"
    using assms(2) by (auto simp: word_le_nat_alt word_unat_eq_iff)
  with assms u show ?thesis by (simp add: term_byte_def)
qed

lemma feed_num_digits:
  "t_ps t = Csi p ps 0 \<Longrightarrow> feed t (rev (num_digits v)) = t\<lparr>t_ps := Csi p ps v\<rparr>"
proof (induction v rule: num_digits.induct)
  case (1 v)
  show ?case
  proof (cases "v = 0")
    case True
    with 1 show ?thesis by (simp add: num_digits.simps)
  next
    case False
    have "feed t (rev (num_digits v)) =
        term_byte (feed t (rev (num_digits (v div 10)))) (48 + of_nat (v mod 10))"
      using False by (subst num_digits.simps) simp
    also have "\<dots> = term_byte (t\<lparr>t_ps := Csi p ps (v div 10)\<rparr>) (48 + of_nat (v mod 10))"
      using 1 False by simp
    also have "\<dots> = t\<lparr>t_ps := Csi p ps v\<rparr>"
      by (subst feed_digit [of _ p ps "v div 10"]) simp_all
    finally show ?thesis .
  qed
qed

lemma feed_num: "feed (t\<lparr>t_ps := Csi p ps 0\<rparr>) (num_bytes v) = t\<lparr>t_ps := Csi p ps v\<rparr>"
  using feed_num_digits [of "t\<lparr>t_ps := Csi p ps 0\<rparr>" p ps v] by (simp add: num_bytes_def term_byte_def)

lemma feed_sep: "term_byte (t\<lparr>t_ps := Csi p ps n\<rparr>) 59 = t\<lparr>t_ps := Csi p (ps @ [n]) 0\<rparr>"
  by (simp add: term_byte_def)

lemma feed_final:
  "b \<noteq> 27 \<Longrightarrow> \<not> (48 \<le> b \<and> b \<le> 57) \<Longrightarrow> b \<noteq> 59 \<Longrightarrow> b \<noteq> 63 \<Longrightarrow>
     term_byte (t\<lparr>t_ps := Csi p ps n\<rparr>) b = csi_dispatch p (ps @ [n]) b t"
  by (auto simp: term_byte_def csi_dispatch_def)

lemma feed_cup:
  "feed t (cup_bytes row col) = t\<lparr>t_row := min row (t_h t - 1), t_col := min col (t_w t - 1), t_ps := Ground\<rparr>"
  by (simp add: cup_bytes_def term_byte_esc feed_num feed_sep feed_final csi_dispatch_def)

definition sgr_params :: "byte \<Rightarrow> nat list" where
  "sgr_params a = [0, sgr_fg a, sgr_bg a] @ (if a AND 0x80 \<noteq> 0 then [5] else [])"

lemma feed_sgr: "feed t (sgr_bytes a) = t\<lparr>t_sgr := sgr_params a, t_ps := Ground\<rparr>"
proof -
  have d: "term_byte (t\<lparr>t_ps := Csi p ps 0\<rparr>) 48 = t\<lparr>t_ps := Csi p ps 0\<rparr>"
    "term_byte (t\<lparr>t_ps := Csi p ps 0\<rparr>) 53 = t\<lparr>t_ps := Csi p ps 5\<rparr>" for t :: vterm and p ps
    by (simp_all add: term_byte_def)
  show ?thesis
    by (cases "a AND 0x80 = 0")
      (simp_all add: sgr_bytes_def term_byte_esc feed_num feed_sep feed_final csi_dispatch_def d sgr_params_def)
qed

lemma feed_glyph:
  assumes "t_ps t = Ground"
  shows "feed t (glyph ch) = print_glyph (glyph ch) t"
  using glyph_shape [of ch]
proof (cases "glyph ch" rule: utf8_shape.cases)
  case (1 a)
  with glyph_shape [of ch] have "32 \<le> a" "a < 127" by auto
  then have "a \<noteq> 27" by auto
  with 1 \<open>32 \<le> a\<close> \<open>a < 127\<close> assms show ?thesis by (simp add: term_byte_def)
next
  case (2 a b)
  with glyph_shape [of ch] have *: "0xC2 \<le> a" "a < 0xE0" "0x80 \<le> b" by auto
  then have "a \<noteq> 27" "b \<noteq> 27" "\<not> a < 127" "\<not> 0xE0 \<le> a" "0xC0 \<le> a"
    by (auto simp: word_le_nat_alt word_less_nat_alt)
  with 2 * assms show ?thesis by (simp add: term_byte_def print_glyph_def)
next
  case (3 a b c)
  with glyph_shape [of ch] have *: "0xE0 \<le> a" "a < 0xF0" "0x80 \<le> b" "0x80 \<le> c" by auto
  then have "a \<noteq> 27" "b \<noteq> 27" "c \<noteq> 27" "\<not> a < 127"
    by (auto simp: word_le_nat_alt word_less_nat_alt)
  with 3 * assms show ?thesis by (simp add: term_byte_def print_glyph_def)
qed auto

lemma feed_head:
  "feed t (head_bytes clear) = (if clear then t\<lparr>t_cell := (\<lambda>_ _. ([], [])), t_row := 0, t_col := 0,
      t_visible := False, t_ps := Ground\<rparr> else t\<lparr>t_visible := False, t_ps := Ground\<rparr>)"
  by (simp add: head_bytes_def term_byte_def csi_dispatch_def)

lemma feed_tail:
  "feed t (tail_bytes v) = t\<lparr>t_row := min (unat (bda_cur_row v)) (t_h t - 1),
     t_col := min (unat (bda_cur_col v)) (t_w t - 1), t_visible := cursor_visible v, t_ps := Ground\<rparr>"
  by (simp add: tail_bytes_def feed_cup term_byte_def csi_dispatch_def)

section \<open>The mirror invariant\<close>

text \<open>Cell \<open>i\<close> of a screen \<open>cols\<close> wide shows character \<open>ch\<close> with attribute \<open>a\<close>.\<close>

definition shows_cell :: "vterm \<Rightarrow> nat \<Rightarrow> nat \<Rightarrow> byte \<Rightarrow> byte \<Rightarrow> bool" where
  "shows_cell t cols i ch a \<longleftrightarrow> t_cell t (i div cols) (i mod cols) = (glyph ch, sgr_params a)"

definition fits :: "vterm \<Rightarrow> vga \<Rightarrow> bool" where
  "fits t v \<longleftrightarrow> eff_cols v \<le> t_w t \<and> eff_rows v \<le> t_h t"

text \<open>Inside a frame, after cell \<open>c - 1\<close>: \<open>t\<close> is the terminal after every byte generated so far.\<close>

definition frame_inv :: "vterm \<Rightarrow> render \<Rightarrow> nat \<Rightarrow> bool" where
  "frame_inv t r c \<longleftrightarrow>
     t_ps t = Ground \<and> length (shadow r) = 4000 \<and> c \<le> total_cells r
     \<and> 0 < f_cols r \<and> f_cols r \<le> 132 \<and> f_cols r \<le> t_w t \<and> sh_rows r \<le> 60 \<and> sh_rows r \<le> t_h t
     \<and> f_cols r = sh_cols r \<and> total_cells r = sh_cols r * sh_rows r
     \<and> (is_toobig r \<longleftrightarrow> total_cells r * 2 > 4000)
     \<and> (cur_sgr r = -1 \<or> (\<exists>a. cur_sgr r = int (unat (a :: byte)) \<and> t_sgr t = sgr_params a))
     \<and> (last_emit r = -2 \<or> (\<exists>e. last_emit r = int e \<and> e < c \<and>
          (Suc e mod f_cols r \<noteq> 0 \<longrightarrow> t_row t = e div f_cols r \<and> t_col t = Suc (e mod f_cols r))))
     \<and> (\<not> is_toobig r \<longrightarrow> (\<forall>i < total_cells r. (is_repaint r \<longrightarrow> i < c) \<longrightarrow>
          shows_cell t (f_cols r) i (shadow r ! (2 * i)) (shadow r ! (2 * i + 1))))"

text \<open>Between frames.\<close>

definition idle_inv :: "vterm \<Rightarrow> render \<Rightarrow> bool" where
  "idle_inv t r \<longleftrightarrow> length (shadow r) = 4000 \<and> (shadow_valid r \<longrightarrow>
     t_row t = min (unat (last_cur_r r)) (t_h t - 1) \<and> t_col t = min (unat (last_cur_c r)) (t_w t - 1)
     \<and> (sh_cols r * sh_rows r * 2 \<le> 4000 \<longrightarrow> (\<forall>i < sh_cols r * sh_rows r.
          shows_cell t (sh_cols r) i (shadow r ! (2 * i)) (shadow r ! (2 * i + 1)))))"

definition pending :: "render \<Rightarrow> byte list" where
  "pending r = (if pushed r \<ge> 0 then [of_int (pushed r)] else []) @ drop (o_off r) (obuf r)"

definition mirror_inv :: "vterm \<Rightarrow> render \<Rightarrow> bool" where
  "mirror_inv t r \<longleftrightarrow> length (obuf r) \<le> OBUF \<and> -1 \<le> pushed r \<and> pushed r < 256
     \<and> (if frame_active r then frame_inv (feed t (pending r)) r (walk_cell r)
        else idle_inv (feed t (pending r)) r)"

lemma inv_irrelevant [simp]:
  "frame_inv t (r\<lparr>walk_cell := w\<rparr>) c = frame_inv t r c" "frame_inv t (r\<lparr>o_off := n\<rparr>) c = frame_inv t r c"
  "frame_inv t (r\<lparr>obuf := ob\<rparr>) c = frame_inv t r c" "frame_inv t (r\<lparr>pushed := p\<rparr>) c = frame_inv t r c"
  "idle_inv t (r\<lparr>obuf := ob\<rparr>) = idle_inv t r" "idle_inv t (r\<lparr>o_off := n\<rparr>) = idle_inv t r"
  "idle_inv t (r\<lparr>pushed := p\<rparr>) = idle_inv t r" "idle_inv t (r\<lparr>is_toobig := b\<rparr>) = idle_inv t r"
  "idle_inv t (r\<lparr>heal_kf := k\<rparr>) = idle_inv t r"
  by (simp_all add: frame_inv_def idle_inv_def)

lemma frame_inv_le: "frame_inv t r c \<Longrightarrow> c \<le> total_cells r"
  unfolding frame_inv_def by blast

lemma size_feed [simp]: "t_w (feed t bs) = t_w t" "t_h (feed t bs) = t_h t"
proof -
  have "t_w (term_byte t b) = t_w t" "t_h (term_byte t b) = t_h t" for t :: vterm and b
    by (auto simp: term_byte_def csi_dispatch_def print_glyph_def Let_def split: pstate.splits)
  then have "t_w (feed t bs) = t_w t \<and> t_h (feed t bs) = t_h t"
    by (induction bs arbitrary: t) auto
  then show "t_w (feed t bs) = t_w t" "t_h (feed t bs) = t_h t" by auto
qed

subsection \<open>One cell\<close>

text \<open>Where the terminal's cursor stands when the glyph of cell \<open>c\<close> arrives, and what it then shows.\<close>

lemma cursor_at_cell:
  assumes "frame_inv t r c" "c < total_cells r"
  shows "feed t (if int c \<noteq> last_emit r + 1 \<or> c mod f_cols r = 0
      then cup_bytes (c div f_cols r) (c mod f_cols r) else [])
     = t\<lparr>t_row := c div f_cols r, t_col := c mod f_cols r, t_ps := Ground\<rparr>"
proof -
  let ?cols = "f_cols r"
  have cols: "0 < ?cols" "?cols \<le> t_w t" "sh_rows r \<le> t_h t" "total_cells r = ?cols * sh_rows r"
    "t_ps t = Ground"
    using assms(1) by (simp_all add: frame_inv_def)
  have col: "c mod ?cols \<le> t_w t - 1"
  proof -
    have "c mod ?cols < ?cols" using cols(1) by simp
    with cols(2) show ?thesis by linarith
  qed
  have "c div ?cols < sh_rows r"
    using assms(2) cols(1,4) by (simp add: less_mult_imp_div_less mult.commute)
  with cols(3) have row: "c div ?cols \<le> t_h t - 1" by linarith
  show ?thesis
  proof (cases "int c \<noteq> last_emit r + 1 \<or> c mod ?cols = 0")
    case True
    then show ?thesis using row col by (simp add: feed_cup min_absorb1)
  next
    case False
    have "last_emit r = -2 \<or> (\<exists>e. last_emit r = int e \<and> e < c \<and>
        (Suc e mod ?cols \<noteq> 0 \<longrightarrow> t_row t = e div ?cols \<and> t_col t = Suc (e mod ?cols)))"
      using assms(1) unfolding frame_inv_def by blast
    with False obtain e where e: "last_emit r = int e"
      "Suc e mod ?cols \<noteq> 0 \<longrightarrow> t_row t = e div ?cols \<and> t_col t = Suc (e mod ?cols)"
      by auto
    with False have c: "c = Suc e" by simp
    with False have n0: "Suc e mod ?cols \<noteq> 0" by simp
    then have "Suc e div ?cols = e div ?cols" "Suc e mod ?cols = Suc (e mod ?cols)"
      by (auto simp: div_Suc mod_Suc split: if_splits)
    with e c n0 False cols(5) show ?thesis by simp
  qed
qed

lemma feed_cell:
  assumes "frame_inv t r c" "c < total_cells r"
  shows "feed t (cell_bytes v (f_cols r) c r) = print_glyph (glyph (scr_base v (2 * c)))
     (t\<lparr>t_row := c div f_cols r, t_col := c mod f_cols r,
       t_sgr := sgr_params (scr_base v (2 * c + 1)), t_ps := Ground\<rparr>)"
proof -
  let ?a = "scr_base v (2 * c + 1)"
  let ?t1 = "t\<lparr>t_row := c div f_cols r, t_col := c mod f_cols r, t_ps := Ground\<rparr>"
  have 1: "feed t (if int c \<noteq> last_emit r + 1 \<or> c mod f_cols r = 0
      then cup_bytes (c div f_cols r) (c mod f_cols r) else []) = ?t1"
    by (rule cursor_at_cell [OF assms])
  have 2: "feed ?t1 (if int (unat ?a) \<noteq> cur_sgr r then sgr_bytes ?a else []) = ?t1\<lparr>t_sgr := sgr_params ?a\<rparr>"
  proof (cases "int (unat ?a) = cur_sgr r")
    case True
    have "cur_sgr r = -1 \<or> (\<exists>a. cur_sgr r = int (unat (a :: byte)) \<and> t_sgr t = sgr_params a)"
      using assms(1) unfolding frame_inv_def by blast
    moreover have "cur_sgr r \<noteq> -1" using True by linarith
    ultimately obtain a where "cur_sgr r = int (unat (a :: byte))" "t_sgr t = sgr_params a" by blast
    with True have "a = ?a" "t_sgr t = sgr_params a" by (simp_all add: word_uint_eq_iff)
    with True show ?thesis by simp
  qed (simp add: feed_sgr)
  show ?thesis
    unfolding cell_bytes_def feed_simps 1 2 by (cases t) (simp add: feed_glyph)
qed

lemma shows_cell_print:
  assumes "shows_cell t cols i ch a" "i \<noteq> c" "0 < cols"
  shows "shows_cell (print_glyph g (t\<lparr>t_row := c div cols, t_col := c mod cols, t_sgr := s, t_ps := Ground\<rparr>)) cols i ch a"
proof -
  have "i div cols \<noteq> c div cols \<or> i mod cols \<noteq> c mod cols"
    using assms(2) by (metis mult_div_mod_eq)
  with assms(1) show ?thesis by (auto simp: shows_cell_def print_glyph_def)
qed

lemma shows_cell_printed:
  "shows_cell (print_glyph (glyph ch) (t\<lparr>t_row := c div cols, t_col := c mod cols, t_sgr := sgr_params a, t_ps := Ground\<rparr>)) cols c ch a"
  by (simp add: shows_cell_def print_glyph_def)

lemma frame_inv_skip:
  assumes "frame_inv t r c" "c < total_cells r" "\<not> is_repaint r"
  shows "frame_inv t r (Suc c)"
  using assms unfolding frame_inv_def by (metis Suc_leI less_SucI)

lemma frame_inv_paint:
  assumes inv: "frame_inv t r c" and c: "c < total_cells r"
  shows "frame_inv (feed t (cell_bytes v (f_cols r) c r))
     (r\<lparr>obuf := ob, cur_sgr := int (unat (scr_base v (2 * c + 1))),
          shadow := (if is_toobig r then shadow r
                     else (shadow r)[2 * c := scr_base v (2 * c), 2 * c + 1 := scr_base v (2 * c + 1)]),
          last_emit := int c\<rparr>) (Suc c)"
proof -
  let ?cols = "f_cols r" and ?ch = "scr_base v (2 * c)" and ?a = "scr_base v (2 * c + 1)"
  let ?t1 = "print_glyph (glyph ?ch) (t\<lparr>t_row := c div ?cols, t_col := c mod ?cols, t_sgr := sgr_params ?a, t_ps := Ground\<rparr>)"
  note feed = feed_cell [OF inv c, of v]
  have g: "0 < ?cols" "?cols \<le> t_w t" "length (shadow r) = 4000" "is_toobig r \<longleftrightarrow> total_cells r * 2 > 4000"
    using inv by (simp_all add: frame_inv_def)
  have cells: "shows_cell ?t1 ?cols i ((shadow r)[2 * c := ?ch, 2 * c + 1 := ?a] ! (2 * i))
        ((shadow r)[2 * c := ?ch, 2 * c + 1 := ?a] ! (2 * i + 1))"
    if "\<not> is_toobig r" "i < total_cells r" "is_repaint r \<longrightarrow> i < Suc c" for i
  proof (cases "i = c")
    case True
    have "2 * c + 1 < 4000" using that g c by simp
    with True g(3) shows_cell_printed [where t = t and c = c and cols = ?cols and a = ?a] show ?thesis by simp
  next
    case False
    with that inv have "shows_cell t ?cols i (shadow r ! (2 * i)) (shadow r ! (2 * i + 1))"
      unfolding frame_inv_def by (metis less_SucE)
    from shows_cell_print [OF this False g(1)] False show ?thesis
      by (simp add: nth_list_update)
  qed
  have pos: "Suc c mod ?cols \<noteq> 0 \<Longrightarrow> t_row ?t1 = c div ?cols \<and> t_col ?t1 = Suc (c mod ?cols)"
  proof -
    assume "Suc c mod ?cols \<noteq> 0"
    then have "Suc (c mod ?cols) \<noteq> ?cols" by (auto simp: mod_Suc)
    moreover have "c mod ?cols < ?cols" using g(1) by simp
    ultimately have "Suc (c mod ?cols) \<le> t_w t - 1" using g(2) by linarith
    then show "t_row ?t1 = c div ?cols \<and> t_col ?t1 = Suc (c mod ?cols)" by (simp add: print_glyph_def)
  qed
  have t1: "t_ps ?t1 = Ground" "t_w ?t1 = t_w t" "t_h ?t1 = t_h t" "t_sgr ?t1 = sgr_params ?a"
    by (simp_all add: print_glyph_def)
  have old: "c \<le> total_cells r" "?cols \<le> 132" "sh_rows r \<le> 60" "sh_rows r \<le> t_h t" "sh_cols r = ?cols"
    "total_cells r = ?cols * sh_rows r"
    using inv by (simp_all add: frame_inv_def)
  obtain t1 where t1_eq: "?t1 = t1" by blast
  have sgr: "\<exists>a. uint (scr_base v (Suc (2 * c))) = uint a \<and> sgr_params (scr_base v (Suc (2 * c))) = sgr_params a"
    by blast
  show ?thesis
    unfolding feed t1_eq frame_inv_def
    using pos cells t1 sgr c old g unfolding t1_eq by (intro conjI) simp_all
qed

text \<open>The body and the loop of \<open>frame_fill\<close>, over the terminal that has read \<open>obuf\<close> so far.\<close>

lemma frame_inv_row:
  assumes "frame_inv t r c" "c < total_cells r"
  shows "c div f_cols r < 99" "f_cols r \<le> 132" "0 < f_cols r"
proof -
  have "c div f_cols r < sh_rows r"
    using assms by (simp add: frame_inv_def less_mult_imp_div_less mult.commute)
  with assms(1) show "c div f_cols r < 99" by (simp add: frame_inv_def)
  show "f_cols r \<le> 132" "0 < f_cols r" using assms by (simp_all add: frame_inv_def)
qed

lemma paint_cell_inv:
  assumes inv: "frame_inv (feed t (obuf r)) r c" and c: "c < total_cells r"
    and room: "length (obuf r) + 48 \<le> OBUF"
  shows "frame_inv (feed t (obuf (paint_cell v (f_cols r) c r))) (paint_cell v (f_cols r) c r) (Suc c)"
    and "total_cells (paint_cell v (f_cols r) c r) = total_cells r"
    and "f_cols (paint_cell v (f_cols r) c r) = f_cols r"
    and "length (obuf (paint_cell v (f_cols r) c r)) \<le> length (obuf r) + 24"
    and "o_off (paint_cell v (f_cols r) c r) = o_off r" "pushed (paint_cell v (f_cols r) c r) = pushed r"
    and "frame_active (paint_cell v (f_cols r) c r) = frame_active r"
proof -
  have eq: "paint_cell v (f_cols r) c r =
     (if repainted v c r then
        r\<lparr>obuf := obuf r @ cell_bytes v (f_cols r) c r, cur_sgr := int (unat (scr_base v (2 * c + 1))),
          shadow := (if is_toobig r then shadow r
                     else (shadow r)[2 * c := scr_base v (2 * c), 2 * c + 1 := scr_base v (2 * c + 1)]),
          last_emit := int c\<rparr>
      else r)"
    by (rule paint_cell_eq [OF frame_inv_row [OF inv c]]) (use room in simp)
  have len: "length (cell_bytes v (f_cols r) c r) \<le> 24"
    by (rule length_cell_bytes [OF frame_inv_row [OF inv c]])
  show "frame_inv (feed t (obuf (paint_cell v (f_cols r) c r))) (paint_cell v (f_cols r) c r) (Suc c)"
  proof (cases "repainted v c r")
    case True
    with eq frame_inv_paint [OF inv c, of v "obuf r @ cell_bytes v (f_cols r) c r"] show ?thesis by simp
  next
    case False
    with eq frame_inv_skip [OF inv c] show ?thesis by (simp add: repainted_def)
  qed
  show "total_cells (paint_cell v (f_cols r) c r) = total_cells r" "f_cols (paint_cell v (f_cols r) c r) = f_cols r"
    "length (obuf (paint_cell v (f_cols r) c r)) \<le> length (obuf r) + 24"
    "o_off (paint_cell v (f_cols r) c r) = o_off r" "pushed (paint_cell v (f_cols r) c r) = pushed r"
    "frame_active (paint_cell v (f_cols r) c r) = frame_active r"
    unfolding eq using len by simp_all
qed

lemma fill_cells_inv:
  assumes "frame_inv (feed t (obuf r)) r c" "length (obuf r) \<le> OBUF - 24"
    and "fill_cells v (total_cells r) (f_cols r) c r = (r', c')"
  shows "frame_inv (feed t (obuf r')) r' c' \<and> length (obuf r') \<le> OBUF - 24
     \<and> (c' < total_cells r' \<longrightarrow> obuf r' \<noteq> [])
     \<and> o_off r' = o_off r \<and> pushed r' = pushed r \<and> frame_active r' = frame_active r"
  using assms
proof (induction "total_cells r - c" arbitrary: r c rule: less_induct)
  case less
  show ?case
  proof (cases "c < total_cells r \<and> length (obuf r) + 48 \<le> OBUF")
    case True
    let ?p = "paint_cell v (f_cols r) c r"
    note p = paint_cell_inv [OF less.prems(1), of v]
    have f: "fill_cells v (total_cells ?p) (f_cols ?p) (Suc c) ?p = (r', c')"
      using less.prems(3) True p(2,3) by (simp add: fill_cells.simps [of _ _ _ c])
    have "frame_inv (feed t (obuf r')) r' c' \<and> length (obuf r') \<le> OBUF - 24
       \<and> (c' < total_cells r' \<longrightarrow> obuf r' \<noteq> [])
       \<and> o_off r' = o_off ?p \<and> pushed r' = pushed ?p \<and> frame_active r' = frame_active ?p"
    proof (rule less.hyps [OF _ _ _ f])
      show "total_cells ?p - Suc c < total_cells r - c" using True p(2) by auto
      show "frame_inv (feed t (obuf ?p)) ?p (Suc c)" using True p(1) by simp
      have "length (obuf ?p) \<le> length (obuf r) + 24" using True p(4) by simp
      then show "length (obuf ?p) \<le> OBUF - 24" using True by linarith
    qed
    with True p(5-7) show ?thesis by simp
  next
    case False
    then have r: "r' = r" "c' = c" using less.prems(3) by (auto simp: fill_cells.simps [of _ _ _ c] split: if_splits)
    show ?thesis
      unfolding r using less.prems(1,2) False by (auto simp: OBUF_def)
  qed
qed

section \<open>A frame from start to end\<close>

text \<open>\<open>fits\<close> bounds the frame's geometry by the terminal's; \<open>frame_begin\<close> opens a frame.\<close>

lemma eff_bounds: "0 < eff_cols v" "eff_cols v \<le> 132" "eff_rows v \<le> 60"
  by (auto simp: eff_cols_def eff_rows_def)

lemma frame_begin_inv:
  assumes "idle_inv t r" "fits t v" "obuf r = []" "is_toobig r \<longleftrightarrow> eff_cols v * eff_rows v * 2 > 4000"
    and diff: "\<not> repaint \<Longrightarrow> \<not> clear \<and> shadow_valid r \<and> sh_cols r = eff_cols v \<and> sh_rows r = eff_rows v"
  defines "r' \<equiv> frame_begin (eff_cols v) (eff_rows v) clear repaint r"
  shows "frame_inv (feed t (obuf r')) r' 0" "walk_cell r' = 0" "obuf r' \<noteq> []" "length (obuf r') \<le> 18"
    "frame_active r'" "o_off r' = o_off r" "pushed r' = pushed r"
proof -
  note b = eff_bounds [of v]
  show "walk_cell r' = 0" "obuf r' \<noteq> []" "length (obuf r') \<le> 18" "frame_active r'" "o_off r' = o_off r"
    "pushed r' = pushed r"
    by (simp_all add: r'_def frame_begin_eq [OF assms(3)] head_bytes_def)
  show "frame_inv (feed t (obuf r')) r' 0"
  proof (cases repaint)
    case True
    with assms(1,2,4) b show ?thesis
      by (simp add: r'_def frame_begin_eq [OF assms(3)] feed_head frame_inv_def idle_inv_def fits_def)
  next
    case False
    with assms(1,2,4) diff b show ?thesis
      by (simp add: r'_def frame_begin_eq [OF assms(3)] feed_head frame_inv_def idle_inv_def fits_def
          shows_cell_def mult.commute)
  qed
qed

lemma frame_end_inv:
  assumes "frame_inv (feed t (obuf r)) r (total_cells r)" "length (obuf r) + 16 \<le> OBUF"
  shows "idle_inv (feed t (obuf (frame_end v r))) (frame_end v r)"
proof -
  have "shows_cell (feed (feed t (obuf r)) (tail_bytes v)) cols i ch a = shows_cell (feed t (obuf r)) cols i ch a"
    for cols i ch a
    by (simp add: feed_tail shows_cell_def)
  moreover have "length (shadow r) = 4000" "f_cols r = sh_cols r" "total_cells r = sh_cols r * sh_rows r"
    "is_toobig r \<longleftrightarrow> total_cells r * 2 > 4000"
    "\<not> is_toobig r \<Longrightarrow> \<forall>i < total_cells r.
       shows_cell (feed t (obuf r)) (f_cols r) i (shadow r ! (2 * i)) (shadow r ! (2 * i + 1))"
    using assms(1) unfolding frame_inv_def by blast+
  ultimately show ?thesis
    unfolding frame_end_eq [OF assms(2)] idle_inv_def
    by (simp add: feed_tail)
qed

lemma frame_fill_inv:
  fixes v :: vga
  assumes "frame_inv (feed t (obuf r)) r (walk_cell r)" "length (obuf r) \<le> 18" "o_off r = 0" "pushed r = -1"
    "frame_active r"
  defines "r' \<equiv> frame_fill v r"
  shows "mirror_inv t r' \<and> obuf r' \<noteq> [] \<and> o_off r' = 0 \<and> pushed r' = -1"
proof -
  obtain r1 c where fc: "fill_cells v (total_cells r) (f_cols r) (walk_cell r) r = (r1, c)" by fastforce
  have len: "length (obuf r) \<le> OBUF - 24" using assms(2) by (simp add: OBUF_def)
  note f = fill_cells_inv [OF assms(1) len fc]
  let ?r2 = "r1\<lparr>walk_cell := c\<rparr>"
  from f have "frame_inv (feed t (obuf r1)) r1 c" by blast
  then have inv: "frame_inv (feed t (obuf ?r2)) ?r2 c" and c: "c \<le> total_cells r1"
    by (simp_all add: frame_inv_le)
  show ?thesis
  proof (cases "c < total_cells r1")
    case True
    then have "r' = ?r2" by (simp add: r'_def frame_fill_def fc)
    with True f inv assms(3-5) show ?thesis
      by (auto simp: mirror_inv_def pending_def)
  next
    case False
    with c have ct: "c = total_cells ?r2" by simp
    have r': "r' = frame_end v ?r2" using False by (simp add: r'_def frame_fill_def fc)
    have room: "length (obuf ?r2) + 16 \<le> OBUF" using f by (simp add: OBUF_def)
    note e = frame_end_eq [OF room, of v]
    have "idle_inv (feed t (obuf (frame_end v ?r2))) (frame_end v ?r2)"
      by (rule frame_end_inv) (use inv ct room in simp_all)
    moreover have "length (obuf r') \<le> OBUF" "obuf r' \<noteq> []" "o_off r' = 0" "pushed r' = -1" "\<not> frame_active r'"
      using room length_tail_bytes [of v] f assms(3,4) unfolding r' e
      by (simp_all add: tail_bytes_def cup_bytes_def)
    ultimately show ?thesis by (simp add: mirror_inv_def pending_def r')
  qed
qed

lemma frame_decide_inv:
  fixes v :: vga and serial :: bool
  assumes "idle_inv t r" "fits t v" "obuf r = []" "\<not> frame_active r" "o_off r = 0" "pushed r = -1"
  defines "r' \<equiv> frame_decide v serial r"
  shows "o_off r' = 0 \<and> pushed r' = -1 \<and>
    (if frame_active r' then frame_inv (feed t (obuf r')) r' (walk_cell r') \<and> length (obuf r') \<le> 18
     else obuf r' = [] \<and> idle_inv t r')"
proof -
  let ?big = "eff_cols v * eff_rows v * 2 > 4000"
  let ?r = "r\<lparr>is_toobig := ?big\<rparr>"
  have opens: "o_off q = 0 \<and> pushed q = -1 \<and> frame_active q \<and> frame_inv (feed t (obuf q)) q (walk_cell q)
      \<and> length (obuf q) \<le> 18"
    if "q = frame_begin (eff_cols v) (eff_rows v) clear repaint r0" "idle_inv t r0" "obuf r0 = []"
      "is_toobig r0 \<longleftrightarrow> ?big" "o_off r0 = 0" "pushed r0 = -1"
      "\<not> repaint \<Longrightarrow> \<not> clear \<and> shadow_valid r0 \<and> sh_cols r0 = eff_cols v \<and> sh_rows r0 = eff_rows v"
    for q clear repaint r0
    using frame_begin_inv [OF that(2) assms(2) that(3,4) that(7)] that(1,5,6) by simp
  have base: "idle_inv t ?r" "obuf ?r = []" "is_toobig ?r \<longleftrightarrow> ?big" "o_off ?r = 0" "pushed ?r = -1"
    "\<not> frame_active ?r"
    using assms(1,3-6) by simp_all
  consider "r' = ?r" | clear where "r' = frame_begin (eff_cols v) (eff_rows v) clear True ?r"
    | repaint r0 where "r' = frame_begin (eff_cols v) (eff_rows v) False repaint r0"
        "shadow_valid r" "sh_cols r = eff_cols v" "sh_rows r = eff_rows v" "r0 = ?r \<or> r0 = ?r\<lparr>heal_kf := bda_ticks v\<rparr>"
  proof (cases ?big)
    case True
    then show thesis using that(1,2) frame_decide_big [OF True, of serial r]
      by (cases "force_kf r \<or> elapsed v (last_kf r) \<ge> CADENCE_TICKS") (simp_all add: r'_def)
  next
    case False
    then have small: "eff_cols v * eff_rows v * 2 \<le> 4000" and r: "?r = r\<lparr>is_toobig := False\<rparr>" by simp_all
    consider "stale v r" | "\<not> stale v r" "cadence v serial r" | "\<not> stale v r" "\<not> cadence v serial r" by blast
    then show thesis
    proof cases
      case 1
      show thesis using that(2) frame_decide_stale [OF small 1] unfolding r r'_def by blast
    next
      case 2
      show thesis using that(2) frame_decide_cadence [OF small 2] unfolding r r'_def by blast
    next
      case 3
      then have s: "shadow_valid r" "sh_cols r = eff_cols v" "sh_rows r = eff_rows v" by (simp_all add: stale_def)
      show thesis
      proof (cases "unchanged v r")
        case True
        then show thesis using that(1) frame_decide_diff [OF small 3] unfolding r r'_def by simp
      next
        case False
        show thesis
          by (rule that(3) [OF _ s]) (unfold r'_def r frame_decide_diff [OF small 3], use False in auto)
      qed
    qed
  qed
  then show ?thesis
  proof cases
    case 1
    with base show ?thesis by simp
  next
    case 2
    from opens [OF this base(1-5)] show ?thesis by simp
  next
    case 3
    have "idle_inv t r0" "obuf r0 = []" "is_toobig r0 \<longleftrightarrow> ?big" "o_off r0 = 0" "pushed r0 = -1"
      "shadow_valid r0 \<and> sh_cols r0 = eff_cols v \<and> sh_rows r0 = eff_rows v"
      using base 3 by auto
    from opens [OF 3(1) this(1-5)] this(6) show ?thesis by simp
  qed
qed

text \<open>Refilling an emptied buffer keeps the mirror; a refill that leaves it empty found nothing to send.\<close>

lemma refill_inv:
  assumes "mirror_inv t r" "fits t v" "pending r = []" "pushed r = -1"
  shows "mirror_inv t (refill v serial r)" "o_off (refill v serial r) = 0" "pushed (refill v serial r) = -1"
    "obuf (refill v serial r) = [] \<Longrightarrow> \<not> frame_active r \<and> \<not> frame_active (refill v serial r)
       \<and> refill v serial r = frame_decide v serial (r\<lparr>obuf := [], o_off := 0\<rparr>)"
proof -
  let ?r = "r\<lparr>obuf := [], o_off := 0\<rparr>"
  let ?d = "if \<not> frame_active ?r then frame_decide v serial ?r else ?r"
  have ref: "refill v serial r = (if frame_active ?d then frame_fill v ?d else ?d)"
    by (simp add: refill_def Let_def)
  have d: "o_off ?d = 0 \<and> pushed ?d = -1 \<and>
    (if frame_active ?d then frame_inv (feed t (obuf ?d)) ?d (walk_cell ?d) \<and> length (obuf ?d) \<le> 18
     else obuf ?d = [] \<and> idle_inv t ?d)"
  proof (cases "frame_active r")
    case True
    with assms show ?thesis by (simp add: mirror_inv_def)
  next
    case False
    have "idle_inv t ?r" using assms(1,3) False by (simp add: mirror_inv_def)
    from frame_decide_inv [OF this assms(2)] False assms(4) show ?thesis by simp
  qed
  have "mirror_inv t (refill v serial r) \<and> o_off (refill v serial r) = 0 \<and> pushed (refill v serial r) = -1
    \<and> (obuf (refill v serial r) = [] \<longrightarrow> \<not> frame_active ?d)"
  proof (cases "frame_active ?d")
    case True
    with d have "frame_inv (feed t (obuf ?d)) ?d (walk_cell ?d)" "length (obuf ?d) \<le> 18" "o_off ?d = 0" "pushed ?d = -1"
      by presburger+
    from frame_fill_inv [OF this True, of v] True show ?thesis unfolding ref by presburger
  next
    case False
    with d have "obuf ?d = []" "idle_inv t ?d" "o_off ?d = 0" "pushed ?d = -1" by presburger+
    with False show ?thesis unfolding ref by (simp add: mirror_inv_def pending_def)
  qed
  then show "mirror_inv t (refill v serial r)" "o_off (refill v serial r) = 0" "pushed (refill v serial r) = -1"
    "obuf (refill v serial r) = [] \<Longrightarrow> \<not> frame_active r \<and> \<not> frame_active (refill v serial r)
       \<and> refill v serial r = frame_decide v serial (r\<lparr>obuf := [], o_off := 0\<rparr>)"
    unfolding ref by (auto split: if_splits)
qed

section \<open>Every call of the renderer\<close>

text \<open>
  How the renderer is driven: a byte is produced and delivered, a byte is produced but the transport
  has no room so it is pushed back, or a client (re)connects and the renderer is reset.
\<close>

datatype rcall = Send vga bool | Refuse vga bool | Restart vga

fun call_vga :: "rcall \<Rightarrow> vga" where
  "call_vga (Send v s) = v" | "call_vga (Refuse v s) = v" | "call_vga (Restart v) = v"

fun do_call :: "rcall \<Rightarrow> render \<times> byte list \<Rightarrow> render \<times> byte list" where
  "do_call (Send v serial) (r, out) =
     (case render_next_byte v serial r of (None, r) \<Rightarrow> (r, out) | (Some b, r) \<Rightarrow> (r, out @ [b]))"
| "do_call (Refuse v serial) (r, out) =
     (case render_next_byte v serial r of (None, r) \<Rightarrow> (r, out) | (Some b, r) \<Rightarrow> (render_pushback b r, out))"
| "do_call (Restart v) (r, out) = (render_reset v r, out)"

definition mirrors :: "vterm \<Rightarrow> vga \<Rightarrow> bool" where
  "mirrors t v \<longleftrightarrow>
     (\<forall>row < eff_rows v. \<forall>col < eff_cols v.
        t_cell t row col = (glyph (scr_base v (2 * (row * eff_cols v + col))),
                            sgr_params (scr_base v (2 * (row * eff_cols v + col) + 1))))
     \<and> t_row t = min (unat (bda_cur_row v)) (t_h t - 1) \<and> t_col t = min (unat (bda_cur_col v)) (t_w t - 1)"

lemma mirror_reset: "length (shadow r) = 4000 \<Longrightarrow> mirror_inv t (render_reset v r)"
  by (simp add: mirror_inv_def render_reset_def idle_inv_def OBUF_def)

lemma mirror_take:
  assumes "mirror_inv t r" "pushed r = -1" "take_byte r = (Some b, r')"
  shows "mirror_inv (term_byte t b) r'" "pushed r' = -1"
proof -
  have r: "o_off r < length (obuf r)" "b = obuf r ! o_off r" "r' = r\<lparr>o_off := o_off r + 1\<rparr>"
    using assms(3) by (auto simp: take_byte_def split: if_splits)
  then have "pending r = b # pending r'"
    using assms(2) by (simp add: pending_def Cons_nth_drop_Suc)
  with r assms(1,2) show "mirror_inv (term_byte t b) r'" "pushed r' = -1"
    by (auto simp: mirror_inv_def)
qed

lemma unchanged_cell:
  assumes "unchanged v r" "i < eff_cols v * eff_rows v"
  shows "shadow r ! (2 * i) = scr_base v (2 * i)" "shadow r ! (2 * i + 1) = scr_base v (2 * i + 1)"
  using assms by (auto simp: unchanged_def changed_cells_def filter_empty_conv cell_differs_def)

lemma unchanged_mirrors:
  assumes "idle_inv t r" "unchanged v r" "\<not> stale v r" "eff_cols v * eff_rows v * 2 \<le> 4000"
  shows "mirrors t v"
proof -
  have geo: "sh_cols r = eff_cols v" "sh_rows r = eff_rows v" "shadow_valid r"
    using assms(3) by (auto simp: stale_def)
  have cells: "shows_cell t (eff_cols v) i (scr_base v (2 * i)) (scr_base v (2 * i + 1))"
    if "i < eff_cols v * eff_rows v" for i
    using assms(1,4) geo that unchanged_cell [OF assms(2) that] unfolding idle_inv_def by metis
  have "t_cell t row col = (glyph (scr_base v (2 * (row * eff_cols v + col))),
      sgr_params (scr_base v (2 * (row * eff_cols v + col) + 1)))"
    if "row < eff_rows v" "col < eff_cols v" for row col
  proof -
    have "row * eff_cols v + col < Suc row * eff_cols v" using that by simp
    also have "\<dots> \<le> eff_rows v * eff_cols v" using that by (intro mult_right_mono) auto
    finally have "row * eff_cols v + col < eff_cols v * eff_rows v" by (simp add: mult.commute)
    from cells [OF this] that show ?thesis by (simp add: shows_cell_def)
  qed
  moreover have "t_row t = min (unat (bda_cur_row v)) (t_h t - 1) \<and> t_col t = min (unat (bda_cur_col v)) (t_w t - 1)"
    using assms(1,2) geo by (simp add: idle_inv_def unchanged_def)
  ultimately show ?thesis unfolding mirrors_def by blast
qed

text \<open>A call that has nothing to send found the screen equal to the shadow.\<close>

lemma nothing_to_send:
  assumes "mirror_inv t r" "fits t v" "eff_cols v * eff_rows v * 2 \<le> 4000" "pending r = []" "pushed r = -1"
    "obuf (refill v serial r) = []"
  shows "mirrors t v"
proof -
  let ?r = "r\<lparr>obuf := [], o_off := 0\<rparr>"
  note ref = refill_inv(4) [OF assms(1,2,4,5,6)]
  have idle: "idle_inv t ?r" using assms(1,4) ref by (simp add: mirror_inv_def)
  have nf: "\<not> frame_active (frame_decide v serial ?r)" using ref by metis
  have act: "frame_active (frame_begin cols rows clear repaint q)" for cols rows clear repaint q
    by (simp add: frame_begin_def Let_def)
  have st: "\<not> stale v ?r" "\<not> cadence v serial ?r"
    using nf frame_decide_stale [OF assms(3), of ?r serial] frame_decide_cadence [OF assms(3), of ?r serial] act
    by metis+
  then have "unchanged v ?r"
    using nf frame_decide_diff [OF assms(3) st] act by metis
  with unchanged_mirrors [OF idle] st assms(3) show ?thesis by blast
qed

text \<open>A screen larger than the shadow is only ever repainted as a whole: the renderer is quiet on it exactly
  between two repaints.\<close>

lemma big_quiet:
  assumes "mirror_inv t r" "fits t v" "eff_cols v * eff_rows v * 2 > 4000" "fst (render_next_byte v serial r) = None"
  shows "\<not> force_kf r \<and> elapsed v (last_kf r) < CADENCE_TICKS"
proof -
  have p: "pushed r = -1" "\<not> o_off r < length (obuf r)"
    using assms(1,4) by (auto simp: mirror_inv_def render_next_byte_def take_byte_def split: if_splits)
  then have e: "pending r = []" by (simp add: pending_def)
  note ref = refill_inv [OF assms(1,2) e p(1), of serial]
  have "obuf (refill v serial r) = []"
    using assms(4) p ref(2) by (auto simp: render_next_byte_def take_byte_def split: if_splits)
  from refill_inv(4) [OF assms(1,2) e p(1) this]
  have nf: "\<not> frame_active (frame_decide v serial (r\<lparr>obuf := [], o_off := 0\<rparr>))" by metis
  have act: "frame_active (frame_begin cols rows clear repaint q)" for cols rows clear repaint q
    by (simp add: frame_begin_def Let_def)
  show ?thesis
    using nf frame_decide_big [OF assms(3), of serial "r\<lparr>obuf := [], o_off := 0\<rparr>"] act
    by (auto simp: not_le [symmetric] split: if_splits)
qed

lemma next_byte_inv:
  assumes "mirror_inv t r" "fits t v"
  shows "render_next_byte v serial r = (Some b, r') \<Longrightarrow> mirror_inv (term_byte t b) r' \<and> pushed r' = -1"
    and "render_next_byte v serial r = (None, r') \<Longrightarrow> mirror_inv t r' \<and>
           (eff_cols v * eff_rows v * 2 \<le> 4000 \<longrightarrow> mirrors t v)"
proof -
  have p: "pushed r = -1 \<or> pushed r \<ge> 0" using assms(1) by (auto simp: mirror_inv_def)
  have empty: "pending r = []" if "pushed r = -1" "\<not> o_off r < length (obuf r)"
    using that by (simp add: pending_def)
  show "mirror_inv (term_byte t b) r' \<and> pushed r' = -1" if nb: "render_next_byte v serial r = (Some b, r')"
  proof -
    consider "pushed r \<ge> 0" | "pushed r = -1" "o_off r < length (obuf r)"
      | "pushed r = -1" "\<not> o_off r < length (obuf r)" using p by blast
    then show ?thesis
    proof cases
      case 1
      with nb have "b = of_int (pushed r)" "r' = r\<lparr>pushed := -1\<rparr>" by (auto simp: render_next_byte_def)
      with 1 assms(1) show ?thesis by (cases "frame_active r") (simp_all add: mirror_inv_def pending_def)
    next
      case 2
      with nb have "take_byte r = (Some b, r')" by (simp add: render_next_byte_def)
      from mirror_take [OF assms(1) 2(1) this] show ?thesis by blast
    next
      case 3
      note ref = refill_inv [OF assms(1,2) empty [OF 3] 3(1), of serial]
      from 3 nb have "take_byte (refill v serial r) = (Some b, r')" by (simp add: render_next_byte_def)
      from mirror_take [OF ref(1,3) this] show ?thesis by blast
    qed
  qed
  show "mirror_inv t r' \<and> (eff_cols v * eff_rows v * 2 \<le> 4000 \<longrightarrow> mirrors t v)"
    if nb: "render_next_byte v serial r = (None, r')"
  proof -
    have 3: "pushed r = -1" "\<not> o_off r < length (obuf r)" using nb p
      by (auto simp: render_next_byte_def take_byte_def split: if_splits)
    note ref = refill_inv [OF assms(1,2) empty [OF 3] 3(1), of serial]
    have "r' = refill v serial r" "obuf (refill v serial r) = []"
      using nb 3 ref(2) by (auto simp: render_next_byte_def take_byte_def split: if_splits)
    with ref(1) nothing_to_send [OF assms _ empty [OF 3] 3(1), of serial] show ?thesis by blast
  qed
qed

lemma mirror_pushback:
  assumes "mirror_inv (term_byte t b) r" "pushed r = -1"
  shows "mirror_inv t (render_pushback b r)"
proof -
  have "pending (render_pushback b r) = b # pending r"
    using assms(2) by (simp add: pending_def render_pushback_def)
  moreover have "uint b < 256" using uint_bounded [of b] by simp
  moreover have "-1 \<le> uint b" by (rule order_trans [OF _ uint_ge_0]) simp
  ultimately show ?thesis using assms(1)
    by (simp add: mirror_inv_def) (simp add: render_pushback_def)
qed

lemma mirror_shadow: "mirror_inv t r \<Longrightarrow> length (shadow r) = 4000"
  unfolding mirror_inv_def frame_inv_def idle_inv_def by (auto split: if_splits)

lemma do_call_inv:
  assumes "mirror_inv (feed t out) r" "fits t (call_vga c)" "do_call c (r, out) = (r', out')"
  shows "mirror_inv (feed t out') r'"
proof -
  have f: "fits (feed t out) (call_vga c)" using assms(2) by (simp add: fits_def)
  show ?thesis
  proof (cases c)
    case (Send v serial)
    note nb = next_byte_inv [OF assms(1) f, of serial]
    show ?thesis
      using assms(3) nb Send by (cases "render_next_byte v serial r"; cases "fst (render_next_byte v serial r)") auto
  next
    case (Refuse v serial)
    note nb = next_byte_inv [OF assms(1) f, of serial]
    show ?thesis
      using assms(3) nb Refuse
      by (cases "render_next_byte v serial r"; cases "fst (render_next_byte v serial r)")
        (auto intro: mirror_pushback)
  next
    case (Restart v)
    with assms(3) mirror_reset [OF mirror_shadow [OF assms(1)]] show ?thesis by auto
  qed
qed

lemma calls_inv:
  assumes "mirror_inv (feed t out) r" "\<forall>c \<in> set calls. fits t (call_vga c)"
    "fold do_call calls (r, out) = (r', out')"
  shows "mirror_inv (feed t out') r'"
  using assms
proof (induction calls arbitrary: r out)
  case (Cons c calls)
  obtain r1 out1 where c: "do_call c (r, out) = (r1, out1)" by fastforce
  with Cons do_call_inv [OF Cons.prems(1) _ c] show ?case by simp
qed simp


definition wit_vga :: vga where
  "wit_vga = \<lparr>bda_mode = 3, bda_cols = 2, bda_rows = 0, bda_cur_row = 0, bda_cur_col = 1, bda_cur_start = 6,
     bda_ticks = 5, vram_color = (\<lambda>i. if i = 0 then 65 else if i = 2 then 219 else 31), vram_mono = (\<lambda>_. 0)\<rparr>"

definition wit_term :: vterm where
  "wit_term = \<lparr>t_w = 80, t_h = 24, t_cell = (\<lambda>_ _. ([120], [])), t_row = 9, t_col = 9, t_sgr = [], t_visible = True, t_ps = Esc\<rparr>"

definition wit_calls :: "rcall list" where
  "wit_calls = replicate 20 (Send wit_vga False) @ [Refuse wit_vga False] @ replicate 30 (Send wit_vga False)"

definition wit_render :: "byte list \<Rightarrow> render" where
  "wit_render rest = \<lparr>obuf = [], o_off = 0, pushed = -1, shadow = 0 # 0 # 0 # 0 # rest, shadow_valid = False,
     sh_cols = 0, sh_rows = 0, force_kf = True, last_kf = 0, heal_kf = 0, frame_active = False,
     is_repaint = False, is_toobig = False, walk_cell = 0, total_cells = 0, f_cols = 0,
     last_emit = 0, cur_sgr = 0, last_cur_r = 255, last_cur_c = 255\<rparr>"

lemma wit_quiet:
  "fst (render_next_byte wit_vga False (fst (fold do_call wit_calls (render_reset wit_vga (wit_render rest), [])))) = None"
  by code_simp

lemma wit_fits: "fits wit_term wit_vga" "\<forall>c \<in> set wit_calls. fits wit_term (call_vga c)"
  "eff_cols wit_vga * eff_rows wit_vga * 2 \<le> SHADOW_BYTES"
  "length (shadow (wit_render (replicate 3996 0))) = SHADOW_BYTES"
proof -
  show *: "fits wit_term wit_vga" by code_simp
  show "\<forall>c \<in> set wit_calls. fits wit_term (call_vga c)" using * by (simp add: wit_calls_def)
  show "eff_cols wit_vga * eff_rows wit_vga * 2 \<le> SHADOW_BYTES" by code_simp
  show "length (shadow (wit_render (replicate 3996 0))) = SHADOW_BYTES"
    by (simp add: wit_render_def SHADOW_BYTES_def)
qed


end
