(* ===== verification/Sshauth.thy ===== *)
theory Sshauth
  imports Ssh
begin

text \<open>
  User authentication of \<open>ssh.c\<close>: which requests make \<open>handle_userauth_request\<close> set
  \<open>authenticated\<close>.  The frame lemmas on \<open>send_packet\<close> that open the theory say what sending leaves
  alone; they serve the other SSH theories too.
\<close>

section \<open>What sending changes\<close>

lemma fail_upd: "\<exists>st e m. fail why s = s\<lparr>ssh_st := st, err := e, err_msg := m\<rparr> \<and> (st = ssh_st s \<or> st = SSH_ST_ERROR)"
proof (cases "ssh_st s = SSH_ST_ERROR")
  case True
  then have "fail why s = s\<lparr>ssh_st := ssh_st s, err := err s, err_msg := err_msg s\<rparr>" by (simp add: fail_def)
  then show ?thesis by blast
next
  case False
  then show ?thesis unfolding fail_def by auto
qed

definition sent_only :: "ssh \<Rightarrow> ssh \<Rightarrow> bool" where
  "sent_only s s' \<longleftrightarrow> (\<exists>ob r q st e m.
     s' = s\<lparr>g_ob := ob, g_rng := r, send_seq := q, ssh_st := st, err := e, err_msg := m\<rparr>
     \<and> (st = ssh_st s \<or> st = SSH_ST_ERROR))"

lemma sent_onlyI:
  "s' = s\<lparr>g_ob := ob, g_rng := r, send_seq := q, ssh_st := st, err := e, err_msg := m\<rparr> \<Longrightarrow>
   st = ssh_st s \<or> st = SSH_ST_ERROR \<Longrightarrow> sent_only s s'"
  unfolding sent_only_def by blast

lemma sent_only_refl: "sent_only s s"
  by (rule sent_onlyI [where ob = "g_ob s" and r = "g_rng s" and q = "send_seq s" and st = "ssh_st s"
        and e = "err s" and m = "err_msg s"]) simp_all

lemma sent_only_trans [trans]: "sent_only s s' \<Longrightarrow> sent_only s' s'' \<Longrightarrow> sent_only s s''"
  unfolding sent_only_def by (elim exE conjE) (auto intro!: exI)

lemma sent_only_fail: "sent_only s (fail why s)"
proof -
  obtain st e m where f: "fail why s = s\<lparr>ssh_st := st, err := e, err_msg := m\<rparr>" "st = ssh_st s \<or> st = SSH_ST_ERROR"
    using fail_upd [of why s] by blast
  show ?thesis
    by (rule sent_onlyI [where ob = "g_ob s" and r = "g_rng s" and q = "send_seq s" and st = st and e = e and m = m])
      (simp_all add: f)
qed

lemma sent_only_append: "sent_only s (ob_append d s)"
proof (cases "length (g_ob s) + length d > SSH_OB_SZ")
  case True then show ?thesis by (simp add: ob_append_def sent_only_fail)
next
  case False
  show ?thesis
    by (rule sent_onlyI [where ob = "g_ob s @ d" and r = "g_rng s" and q = "send_seq s" and st = "ssh_st s"
          and e = "err s" and m = "err_msg s"]) (use False in \<open>simp_all add: ob_append_def\<close>)
qed

lemma sent_only_rand: "sent_only s (snd (rand cr n s))"
  by (rule sent_onlyI [where ob = "g_ob s" and r = "snd (rng_bytes (hw cr) n (g_rng s))" and q = "send_seq s"
        and st = "ssh_st s" and e = "err s" and m = "err_msg s"])
    (simp_all add: rand_def case_prod_beta Let_def)

lemma sent_only_seq: "sent_only s (s\<lparr>send_seq := q\<rparr>)"
  by (rule sent_onlyI [where ob = "g_ob s" and r = "g_rng s" and q = q and st = "ssh_st s"
        and e = "err s" and m = "err_msg s"]) simp_all

lemma sent_only_unenc: "sent_only s (send_unenc cr p s)"
proof -
  define n where "n = pad_to8 (4 + 1 + length p)"
  define s1 where "s1 = ob_append (put_u32 (1 + length p + n) @ [of_nat n]) s"
  define s2 where "s2 = ob_append p s1"
  define s3 where "s3 = snd (rand cr n s2)"
  define s4 where "s4 = ob_append (fst (rand cr n s2)) s3"
  have e: "send_unenc cr p s = s4\<lparr>send_seq := send_seq s4 + 1\<rparr>"
    by (simp add: send_unenc_def Let_def n_def s1_def s2_def s3_def s4_def case_prod_beta)
  have "sent_only s s1" unfolding s1_def by (rule sent_only_append)
  also have "sent_only s1 s2" unfolding s2_def by (rule sent_only_append)
  also have "sent_only s2 s3" unfolding s3_def by (rule sent_only_rand)
  also have "sent_only s3 s4" unfolding s4_def by (rule sent_only_append)
  also have "sent_only s4 (send_unenc cr p s)" unfolding e by (rule sent_only_seq)
  finally show ?thesis .
qed

lemma sent_only_seal: "sent_only s (snd (aead_seal cr p s))"
proof -
  have "snd (aead_seal cr p s) = (snd (rand cr (pad_to8 (1 + length p)) s))
      \<lparr>send_seq := send_seq (snd (rand cr (pad_to8 (1 + length p)) s)) + 1\<rparr>"
    by (simp add: aead_seal_def Let_def case_prod_beta)
  then show ?thesis using sent_only_trans [OF sent_only_rand sent_only_seq] by simp
qed

lemma sent_only_packet: "sent_only s (send_packet cr p s)"
proof (cases "send_encrypted s")
  case True
  then show ?thesis
    using sent_only_trans [OF sent_only_seal sent_only_append]
    by (simp add: send_packet_def send_enc_def sent_only_fail Let_def case_prod_beta)
qed (simp add: send_packet_def sent_only_unenc)

lemma sent_only_frame:
  assumes "sent_only s s'"
  shows "authenticated s' = authenticated s" "auth_fails s' = auth_fails s" "chan_open s' = chan_open s"
    "shell_ready s' = shell_ready s" "chan_closed s' = chan_closed s" "pty s' = pty s"
    "chan_sent_close s' = chan_sent_close s" "chan_sent_eof s' = chan_sent_eof s"
    "g_cin s' = g_cin s" "g_cin_head s' = g_cin_head s" "g_cin_tail s' = g_cin_tail s" "g_cout s' = g_cout s"
    "g_have_password s' = g_have_password s" "g_password s' = g_password s" "g_authkeys s' = g_authkeys s"
    "session_id s' = session_id s" "have_session_id s' = have_session_id s" "keys_ready s' = keys_ready s"
    "recv_encrypted s' = recv_encrypted s" "send_encrypted s' = send_encrypted s"
    "ib s' = ib s" "ib_len s' = ib_len s" "recv_seq s' = recv_seq s" "hctx s' = hctx s"
    "ek_c2s s' = ek_c2s s" "ek_s2c s' = ek_s2c s" "peer_chan s' = peer_chan s" "peer_window s' = peer_window s"
    "local_window s' = local_window s" "peer_maxpkt s' = peer_maxpkt s" "i_s s' = i_s s" "cli_ver s' = cli_ver s"
    "g_kmpint s' = g_kmpint s" "g_H s' = g_H s" "discard_next s' = discard_next s"
    "g_hostkey_sk s' = g_hostkey_sk s" "g_hostkey_pk s' = g_hostkey_pk s" "g_q_c s' = g_q_c s" "g_q_s s' = g_q_s s"
    "g_k_raw s' = g_k_raw s" "g_ks_blob s' = g_ks_blob s"
  using assms unfolding sent_only_def by auto

lemmas packet_frame [simp] = sent_only_frame [OF sent_only_packet]
lemmas fail_frame [simp] = sent_only_frame [OF sent_only_fail]
lemmas rand_frame [simp] = sent_only_frame [OF sent_only_rand]
lemmas append_frame [simp] = sent_only_frame [OF sent_only_append]
lemmas unenc_frame [simp] = sent_only_frame [OF sent_only_unenc]
lemmas seal_frame [simp] = sent_only_frame [OF sent_only_seal]

lemma sent_only_state: "sent_only s s' \<Longrightarrow> ssh_st s' = ssh_st s \<or> ssh_st s' = SSH_ST_ERROR"
  unfolding sent_only_def by auto

section \<open>The requests that are granted\<close>

text \<open>A packet payload, as bytes: any request while the box is open, one that carries the
  configured password, and one whose key is authorized and whose signature covers the session.\<close>

definition open_request :: "ssh \<Rightarrow> byte list \<Rightarrow> bool" where
  "open_request s pkt \<longleftrightarrow> \<not> g_have_password s \<and> g_authkeys s = []
     \<and> (\<exists>m user svc meth rest. pkt = [m] @ put_str user @ put_str svc @ put_str meth @ rest)"

definition password_request :: "ssh \<Rightarrow> byte list \<Rightarrow> bool" where
  "password_request s pkt \<longleftrightarrow> g_have_password s
     \<and> (\<exists>m user svc rest. pkt = [m] @ put_str user @ put_str svc @ put_nl ''password'' @ [0] @ put_str (g_password s) @ rest)"

definition ed25519_blob :: "byte list \<Rightarrow> byte list \<Rightarrow> bool" where
  "ed25519_blob blob field \<longleftrightarrow> (\<exists>rest. blob = put_nl ''ssh-ed25519'' @ put_str field @ rest)"

definition session_bound :: "ssh \<Rightarrow> byte list \<Rightarrow> byte list \<Rightarrow> byte list \<Rightarrow> byte list" where
  "session_bound s user svc blob = put_str (session_id s) @ [50] @ put_str user @ put_str svc
     @ put_nl ''publickey'' @ [1] @ put_nl ''ssh-ed25519'' @ put_str blob"

definition signed_tail :: "crypto \<Rightarrow> ssh \<Rightarrow> byte list \<Rightarrow> byte list \<Rightarrow> byte list \<Rightarrow> bool" where
  "signed_tail cr s user svc tail \<longleftrightarrow> (\<exists>flag blob sigblob key sig rest.
     tail = [flag] @ put_nl ''ssh-ed25519'' @ put_str blob @ put_str sigblob @ rest
     \<and> flag \<noteq> 0 \<and> ed25519_blob blob key \<and> length key = 32 \<and> ed25519_blob sigblob sig \<and> length sig = 64
     \<and> key \<in> set (g_authkeys s) \<and> ed25519_verify cr sig key (session_bound s user svc blob))"

definition pubkey_request :: "crypto \<Rightarrow> ssh \<Rightarrow> byte list \<Rightarrow> bool" where
  "pubkey_request cr s pkt \<longleftrightarrow> (\<exists>m user svc tail. signed_tail cr s user svc tail
     \<and> pkt = [m] @ put_str user @ put_str svc @ put_nl ''publickey'' @ tail)"

section \<open>The handlers\<close>

lemma reject_auth [simp]: "authenticated (auth_reject cr c s) = authenticated s"
  by (simp add: auth_reject_def send_disconnect_def send_userauth_failure_def Let_def)

lemma success_auth [simp]: "authenticated (send_userauth_success cr s)"
  by (simp add: send_userauth_success_def)

lemma password_auth_exact:
  assumes "plen \<le> length pl" "plen \<le> 2043" "off \<le> plen"
  shows "\<exists>s'. handle_password_auth cr pl plen off s = Some s'
     \<and> (authenticated s' \<longleftrightarrow> authenticated s \<or> (\<exists>rest. drop off (take plen pl) = [0] @ put_str (g_password s) @ rest))"
proof (cases "off = plen")
  case True
  then show ?thesis using assms by (simp add: handle_password_auth_def)
next
  case False
  then have off: "off < plen" using assms by simp
  have d: "drop off (take plen pl) = pl ! off # drop (off + 1) (take plen pl)"
    using off assms by (simp add: Cons_nth_drop_Suc [symmetric])
  have b: "rd_byte pl off = Some (pl ! off)" using off assms by (simp add: rd_byte_def)
  have w: "w16 (off + 1) = off + 1" using off assms by simp
  have le: "off + 1 \<le> plen" using off by simp
  have p16: "plen < 65536" using assms by simp
  from assms(1) p16 le show ?thesis
  proof (cases rule: rd_string_cases)
    case bad
    then show ?thesis using b w le
      by (auto simp: handle_password_auth_def d)
  next
    case (ok body rest)
    have l: "length body < 65536" using ok(3) p16 by simp
    have sl: "slice pl (off + 1 + 4) (length body) = Some body" using ok assms by (simp add: slice_def)
    have "(\<exists>rest. drop off (take plen pl) = [0] @ put_str (g_password s) @ rest)
       \<longleftrightarrow> pl ! off = 0 \<and> body = g_password s"
    proof
      assume "\<exists>rest. drop off (take plen pl) = [0] @ put_str (g_password s) @ rest"
      then obtain r where r: "pl ! off = 0" "put_str body @ rest = put_str (g_password s) @ r" using ok(1) by (auto simp: d)
      have "length (put_str (g_password s) @ r) \<le> plen"
        using arg_cong [OF ok(1) [unfolded r(2)], of length] by simp
      then have "length (g_password s) < 65536" using p16 by (simp add: put_str_def)
      from put_str_inj [OF l this r(2)] r(1) show "pl ! off = 0 \<and> body = g_password s" by simp
    qed (use ok(1) in \<open>auto simp: d\<close>)
    then show ?thesis using b w le ok(2) sl by (auto simp: handle_password_auth_def)
  qed
qed

lemma blob_field_cases:
  assumes "len \<le> length v" "len < 65536"
  obtains (none) "blob_field n v len = Some None" "\<nexists>key. ed25519_blob (take len v) key \<and> length key = n"
  | (some) key where "blob_field n v len = Some (Some key)" "ed25519_blob (take len v) key" "length key = n"
proof -
  have z: "drop 0 (take len v) = take len v" by simp
  from assms le0 show thesis
  proof (cases rule: rd_string_cases)
    case bad
    have "blob_field n v len = Some None" using bad(1) by (simp add: blob_field_def)
    moreover have "\<nexists>key. ed25519_blob (take len v) key \<and> length key = n"
      using bad(2) by (auto simp: ed25519_blob_def put_nl_def)
    ultimately show thesis by (rule none)
  next
    case (ok name rest)
    have is_name: "body_is v 4 (length name) ''ssh-ed25519'' = Some (name = str ''ssh-ed25519'')"
      using ok assms by (intro body_is_eq) simp_all
    have l: "length name < 65536" using ok(3) assms by simp
    have nm: "name = str ''ssh-ed25519'' \<and> (\<exists>r'. rest = put_str key @ r')" if "ed25519_blob (take len v) key" for key
      using that ok(1) put_str_inj [OF l, of "str ''ssh-ed25519''" rest] by (auto simp: ed25519_blob_def put_nl_def)
    show thesis
    proof (cases "name = str ''ssh-ed25519''")
      case False
      then have "blob_field n v len = Some None" using ok(2) is_name by (simp add: blob_field_def)
      with False nm none show thesis by blast
    next
      case True
      then have l11: "length name = 11" by simp
      have off: "4 + length name \<le> len" using ok(3) by simp
      from assms off show thesis
      proof (cases rule: rd_string_cases)
        case bad
        then have "blob_field n v len = Some None" using ok(2) is_name True by (simp add: blob_field_def)
        moreover have "\<nexists>key. ed25519_blob (take len v) key \<and> length key = n"
          using bad(2) nm ok(5) [unfolded add_0] by blast
        ultimately show thesis by (rule none)
      next
        case key: (ok field rest')
        have rest: "rest = put_str field @ rest'" using key(1) ok(5) by simp
        have eb: "ed25519_blob (take len v) field"
          using ok(1) True rest by (auto simp: ed25519_blob_def put_nl_def)
        have uniq: "k = field" if "ed25519_blob (take len v) k" "length k < 65536" for k
          using nm [OF that(1)] rest put_str_inj [of field k rest'] key(3) assms(2) that(2) by auto
        have sl: "slice v (4 + length name + 4) (length field) = Some field"
          using key assms by (simp add: slice_def)
        show thesis
        proof (cases "length field = n")
          case True
          then have "blob_field n v len = Some (Some field)"
            using ok(2) is_name key(2) sl \<open>name = str ''ssh-ed25519''\<close> by (simp add: blob_field_def)
          from some [OF this eb True] show thesis .
        next
          case False
          then have "blob_field n v len = Some None"
            using ok(2) is_name key(2) True by (simp add: blob_field_def)
          moreover have "length k < 65536" if "ed25519_blob (take len v) k" for k
          proof -
            from that obtain r where "take len v = put_nl ''ssh-ed25519'' @ put_str k @ r" by (auto simp: ed25519_blob_def)
            from arg_cong [OF this, of length] show ?thesis using assms by (simp add: put_str_def put_nl_def)
          qed
          ultimately show thesis using none uniq False by blast
        qed
      qed
    qed
  qed
qed

text \<open>A packet tail that starts with three strings in a row; the strings are determined.\<close>

lemma put_str_prefix:
  assumes "put_str a @ r = put_str b @ r'" "length (put_str a @ r) < 65536"
  shows "a = b \<and> r = r'"
proof -
  have "length (put_str b @ r') < 65536" using assms by simp
  then show ?thesis using put_str_inj [OF _ _ assms(1)] assms(2) by (simp add: put_str_def)
qed

lemma pk_ok_auth:
  assumes "fst algo + snd algo \<le> length pl" "fst blob + snd blob \<le> length pl"
  shows "\<exists>s'. send_pk_ok cr pl algo blob s = Some s' \<and> authenticated s' = authenticated s"
  using assms by (simp add: send_pk_ok_def slice_def)

text \<open>The verification step of \<open>handle_pubkey_auth\<close>, its preimage within the scratch buffer.\<close>

lemma signed_data:
  assumes "fst user + snd user \<le> length pl" "fst svc + snd svc \<le> length pl"
    "fst algo + snd algo \<le> length pl" "fst blob + snd blob \<le> length pl"
    "snd user + snd svc + snd algo + snd blob \<le> 2043"
    "take (snd algo) (drop (fst algo) pl) = str ''ssh-ed25519''"
  shows "build_pk_signed_data pl user svc algo blob s
    = Some (Some (session_bound s (take (snd user) (drop (fst user) pl)) (take (snd svc) (drop (fst svc) pl))
        (take (snd blob) (drop (fst blob) pl))))"
  using assms by (simp add: build_pk_signed_data_def g_scratch_sz_def SSH_IB_SZ_def slice_def session_bound_def put_nl_def)

lemma blob_unique:
  assumes "ed25519_blob b k" "ed25519_blob b k'" "length b < 65536" shows "k = k'"
proof -
  obtain r r' where e: "b = put_nl ''ssh-ed25519'' @ put_str k @ r" "b = put_nl ''ssh-ed25519'' @ put_str k' @ r'"
    using assms unfolding ed25519_blob_def by blast
  then have "put_str k @ r = put_str k' @ r'" "length (put_str k @ r) < 65536" using assms(3) by auto
  then show ?thesis using put_str_prefix by blast
qed

lemma signed_tail_parsed:
  assumes "tail = [flag] @ put_str algo @ put_str blob @ rest" "length tail < 65536"
  shows "signed_tail cr s user svc tail \<longleftrightarrow> algo = str ''ssh-ed25519'' \<and> flag \<noteq> 0 \<and>
    (\<exists>sigblob key sig rest'. rest = put_str sigblob @ rest' \<and> ed25519_blob blob key \<and> length key = 32
       \<and> ed25519_blob sigblob sig \<and> length sig = 64 \<and> key \<in> set (g_authkeys s)
       \<and> ed25519_verify cr sig key (session_bound s user svc blob))" (is "?l \<longleftrightarrow> ?r")
proof
  assume ?l
  then obtain blob' sigblob key sig rest' where
    t: "put_str algo @ put_str blob @ rest = put_nl ''ssh-ed25519'' @ put_str blob' @ put_str sigblob @ rest'"
    and f: "flag \<noteq> 0" "ed25519_blob blob' key" "length key = 32" "ed25519_blob sigblob sig" "length sig = 64"
      "key \<in> set (g_authkeys s)" "ed25519_verify cr sig key (session_bound s user svc blob')"
    using assms(1) by (auto simp: signed_tail_def)
  have a: "algo = str ''ssh-ed25519'' \<and> put_str blob @ rest = put_str blob' @ put_str sigblob @ rest'"
    using put_str_prefix [OF t [unfolded put_nl_def]] assms by simp
  then have "blob = blob' \<and> rest = put_str sigblob @ rest'"
    using put_str_prefix [of blob rest blob'] assms by simp
  with a f show ?r by blast
qed (auto simp: signed_tail_def assms(1) put_nl_def)

definition granted :: "ssh option \<Rightarrow> ssh \<Rightarrow> bool \<Rightarrow> bool" where
  "granted res s P \<longleftrightarrow> (\<exists>s'. res = Some s' \<and> (authenticated s' \<longleftrightarrow> authenticated s \<or> P))"

lemma granted_reject: "\<not> P \<Longrightarrow> granted (Some (auth_reject cr c s)) s P"
  by (simp add: granted_def)

lemma pubkey_signed_exact:
  assumes "plen \<le> length pl" "plen \<le> 2043" "off \<le> plen"
    and sd: "build_pk_signed_data pl user svc algo blob s = Some (Some sdata)"
  shows "granted (pubkey_signed cr pl plen off user svc algo blob key s) s
    (\<exists>sigblob sig rest. drop off (take plen pl) = put_str sigblob @ rest \<and> ed25519_blob sigblob sig \<and> length sig = 64
       \<and> key \<in> set (g_authkeys s) \<and> ed25519_verify cr sig key sdata)" (is "granted ?res s ?P")
proof -
  have p16: "plen < 65536" using assms by simp
  from assms(1) p16 assms(3) show ?thesis
  proof (cases rule: rd_string_cases)
    case bad
    have "\<not> ?P" using bad(2) by blast
    then show ?thesis using bad(1) by (simp add: pubkey_signed_def granted_reject)
  next
    case (ok sigblob rest)
    let ?so = "off + 4"
    have len: "length sigblob \<le> length (drop ?so pl)" "length sigblob < 65536" using ok(3) assms by simp_all
    have sv: "take (length sigblob) (drop ?so pl) = sigblob" by (rule ok(4))
    have total: "length (put_str sigblob @ rest) < 65536"
      using arg_cong [OF ok(1), of length] p16 by simp
    have su: "sb = sigblob" if "drop off (take plen pl) = put_str sb @ q" for sb q
      using put_str_prefix [OF _ total, of sb q] that ok(1) by simp
    from len show ?thesis
    proof (cases rule: blob_field_cases [where n = 64])
      case none
      then have "\<not> ?P" unfolding sv using su by blast
      then show ?thesis using ok(2) none(1) by (simp add: pubkey_signed_def ed25519_sig_from_blob_def granted_reject)
    next
      case (some sig)
      have "?P \<longleftrightarrow> key \<in> set (g_authkeys s) \<and> ed25519_verify cr sig key sdata"
        using some(2,3) ok(1) su blob_unique [OF _ some(2) [unfolded sv] len(2)] unfolding sv by blast
      then show ?thesis using ok(2) some(1) sd
        by (auto simp: pubkey_signed_def ed25519_sig_from_blob_def authkey_is_authorized_def list_ex_iff granted_def)
    qed
  qed
qed

lemma pubkey_offer_exact:
  assumes "plen \<le> length pl" "plen \<le> 2043" "off \<le> plen"
    and algo: "ao + length algo \<le> plen" "take (length algo) (drop ao pl) = algo"
    and blob: "bo + length blob \<le> plen" "take (length blob) (drop bo pl) = blob"
    and user: "uo + length user \<le> plen" "take (length user) (drop uo pl) = user"
    and svc: "so + length svc \<le> plen" "take (length svc) (drop so pl) = svc"
    and total: "length user + length svc + length algo + length blob \<le> 2043"
  shows "granted (pubkey_offer cr pl plen off flag (uo, length user) (so, length svc) (ao, length algo) (bo, length blob) s) s
    (algo = str ''ssh-ed25519'' \<and> flag \<noteq> 0 \<and>
      (\<exists>sigblob key sig rest. drop off (take plen pl) = put_str sigblob @ rest \<and> ed25519_blob blob key \<and> length key = 32
       \<and> ed25519_blob sigblob sig \<and> length sig = 64 \<and> key \<in> set (g_authkeys s)
       \<and> ed25519_verify cr sig key (session_bound s user svc blob)))" (is "granted ?res s ?P")
proof -
  have is_algo: "body_is pl ao (length algo) ''ssh-ed25519'' = Some (algo = str ''ssh-ed25519'')"
    using algo assms(1) by (intro body_is_eq) simp_all
  show ?thesis
  proof (cases "algo = str ''ssh-ed25519''")
    case False
    then show ?thesis using is_algo by (simp add: pubkey_offer_def granted_reject)
  next
    case True
    have blen: "length blob \<le> length (drop bo pl)" "length blob < 65536" using blob(1) assms(1,2) by simp_all
    from blen show ?thesis
    proof (cases rule: blob_field_cases [where n = 32])
      case none
      then have "\<not> ?P" unfolding blob(2) by blast
      then show ?thesis using is_algo True none(1)
        by (simp add: pubkey_offer_def ed25519_key_from_blob_def granted_reject)
    next
      case (some key)
      have uniq: "k = key" if "ed25519_blob blob k" for k
        using blob_unique [OF that some(2) [unfolded blob(2)]] blen by simp
      have sd: "build_pk_signed_data pl (uo, length user) (so, length svc) (ao, length algo) (bo, length blob) s
          = Some (Some (session_bound s user svc blob))"
        using signed_data [of "(uo, length user)" pl "(so, length svc)" "(ao, length algo)" "(bo, length blob)" s]
          assms True by simp
      show ?thesis
      proof (cases "flag = 0")
        case flag: True
        obtain s' where "send_pk_ok cr pl (ao, length algo) (bo, length blob) s = Some s'" "authenticated s' = authenticated s"
          using pk_ok_auth [of "(ao, length algo)" pl "(bo, length blob)" cr s] algo blob assms(1) by auto
        then show ?thesis using is_algo True some(1) flag
          by (simp add: pubkey_offer_def ed25519_key_from_blob_def granted_def)
      next
        case flag: False
        have "?P \<longleftrightarrow> (\<exists>sigblob sig rest. drop off (take plen pl) = put_str sigblob @ rest \<and> ed25519_blob sigblob sig
            \<and> length sig = 64 \<and> key \<in> set (g_authkeys s) \<and> ed25519_verify cr sig key (session_bound s user svc blob))"
          using True flag some(2,3) uniq unfolding blob(2) by blast
        then show ?thesis using is_algo True some(1) flag pubkey_signed_exact [OF assms(1-3) sd, of cr key]
          by (simp add: pubkey_offer_def ed25519_key_from_blob_def)
      qed
    qed
  qed
qed

lemma signed_tail_Cons: "\<not> signed_tail cr s user svc []"
  by (simp add: signed_tail_def)

lemma pubkey_auth_exact:
  assumes "plen \<le> length pl" "plen \<le> 2043" "off \<le> plen"
    and user: "uo + length user \<le> plen" "take (length user) (drop uo pl) = user"
    and svc: "so + length svc \<le> plen" "take (length svc) (drop so pl) = svc"
    and before: "length user + length svc \<le> off"
  shows "granted (handle_pubkey_auth cr pl plen off (uo, length user) (so, length svc) s) s
           (signed_tail cr s user svc (drop off (take plen pl)))"
proof (cases "off = plen")
  case True
  then show ?thesis using assms(2) by (simp add: handle_pubkey_auth_def granted_reject signed_tail_Cons)
next
  case False
  then have off: "off < plen" using assms by simp
  define flag where "flag = pl ! off"
  have d: "drop off (take plen pl) = flag # drop (off + 1) (take plen pl)"
    using off assms by (simp add: flag_def Cons_nth_drop_Suc [symmetric])
  have start: "handle_pubkey_auth cr pl plen off u v s =
      do { r \<leftarrow> rd_string pl plen (off + 1);
           case r of None \<Rightarrow> Some (auth_reject cr True s)
           | Some (ao, algolen, off) \<Rightarrow> do {
             r \<leftarrow> rd_string pl plen off;
             case r of None \<Rightarrow> Some (auth_reject cr True s)
             | Some (bo, bloblen, off) \<Rightarrow> pubkey_offer cr pl plen off flag u v (ao, algolen) (bo, bloblen) s } }" for u v
    using off assms by (simp add: handle_pubkey_auth_def rd_byte_def flag_def)
  have le: "off + 1 \<le> plen" and p16: "plen < 65536" using off assms by simp_all
  from assms(1) p16 le show ?thesis
  proof (cases rule: rd_string_cases)
    case bad
    have "\<not> signed_tail cr s user svc (drop off (take plen pl))"
      using bad(2) by (auto simp: signed_tail_def d put_nl_def)
    then show ?thesis unfolding start bad(1) by (simp add: granted_reject)
  next
    case a: (ok algo r1)
    from assms(1) p16 a(3) show ?thesis
    proof (cases rule: rd_string_cases)
      case bad
      have "\<not> signed_tail cr s user svc (drop off (take plen pl))"
      proof
        assume "signed_tail cr s user svc (drop off (take plen pl))"
        then obtain blob q where t: "put_str algo @ r1 = put_nl ''ssh-ed25519'' @ put_str blob @ q"
          unfolding signed_tail_def d a(1) by auto
        have "length (put_str algo @ r1) < 65536" using arg_cong [OF a(1), of length] p16 by simp
        with put_str_prefix [OF t [unfolded put_nl_def]] have "r1 = put_str blob @ q" by blast
        with bad(2) a(5) show False by blast
      qed
      then show ?thesis unfolding start a(2) using bad(1) by (simp add: granted_reject)
    next
      case bl: (ok blob r2)
      have t: "drop off (take plen pl) = [flag] @ put_str algo @ put_str blob @ r2"
        unfolding d a(1) using a(5) bl(1) by simp
      have lt: "length (drop off (take plen pl)) < 65536" using p16 by simp
      have "length user + length svc + length algo + length blob \<le> 2043"
        using before bl(3) assms(2) by simp
      note offer = pubkey_offer_exact [OF assms(1,2) bl(3) _ a(4) _ bl(4) user svc this, of cr flag s]
      show ?thesis
        unfolding start a(2) signed_tail_parsed [OF t lt]
        using offer a(3) bl(2,3,5) by simp
    qed
  qed
qed

section \<open>The theorem\<close>

lemma request_prefix:
  assumes "pkt = m # put_str user @ put_str svc @ put_str meth @ rest" "length pkt < 65536"
    "pkt = [m'] @ put_str user' @ put_str svc' @ put_str meth' @ rest'"
  shows "user = user' \<and> svc = svc' \<and> meth = meth' \<and> rest = rest'"
proof -
  have "put_str user @ put_str svc @ put_str meth @ rest = put_str user' @ put_str svc' @ put_str meth' @ rest'"
    "length (put_str user @ put_str svc @ put_str meth @ rest) < 65536" using assms by auto
  from put_str_prefix [OF this] have u: "user = user'" "put_str svc @ put_str meth @ rest = put_str svc' @ put_str meth' @ rest'" by auto
  have "length (put_str svc @ put_str meth @ rest) < 65536" using assms(1,2) by simp
  from put_str_prefix [OF u(2) this] have v: "svc = svc'" "put_str meth @ rest = put_str meth' @ rest'" by auto
  have "length (put_str meth @ rest) < 65536" using assms(1,2) by simp
  from put_str_prefix [OF v(2) this] u v show ?thesis by simp
qed

text \<open>What the request does once its three strings have been read.\<close>

definition after_method :: "crypto \<Rightarrow> byte list \<Rightarrow> nat \<Rightarrow> nat \<Rightarrow> nat \<times> nat \<Rightarrow> nat \<times> nat \<Rightarrow> byte list \<Rightarrow> ssh \<Rightarrow> ssh option" where
  "after_method cr pl plen off user svc meth s =
     (if \<not> g_have_password s \<and> g_authkeys s = [] then Some (send_userauth_success cr s)
      else if meth = str ''publickey'' then
        (if g_authkeys s = [] then Some (auth_reject cr True s) else handle_pubkey_auth cr pl plen off user svc s)
      else if g_have_password s \<and> meth = str ''password'' then handle_password_auth cr pl plen off s
      else Some (auth_reject cr (meth \<noteq> str ''none'') s))"

lemma userauth_parsed:
  assumes "plen \<le> length pl" "plen \<le> 2043" "1 \<le> plen"
    and pkt: "take plen pl = [m] @ put_str user @ put_str svc @ put_str meth @ rest"
  defines "off \<equiv> 13 + length user + length svc + length meth"
  shows "handle_userauth_request cr pl plen s
      = after_method cr pl plen off (5, length user) (9 + length user, length svc) meth (s\<lparr>auth_user := take 63 user\<rparr>)"
    and "take (length user) (drop 5 pl) = user" "take (length svc) (drop (9 + length user) pl) = svc"
    and "drop off (take plen pl) = rest" "off \<le> plen"
proof -
  have p16: "plen < 65536" using assms by simp
  have d1: "drop 1 (take plen pl) = put_str user @ put_str svc @ put_str meth @ rest" by (simp add: pkt)
  note u = rd_string_Some [OF assms(1) p16 assms(3) d1]
  have d2: "drop (1 + 4 + length user) (take plen pl) = put_str svc @ put_str meth @ rest" by (rule u(4))
  note v = rd_string_Some [OF assms(1) p16 u(2) d2]
  note w = rd_string_Some [OF assms(1) p16 v(2) v(4)]
  have e: "1 + 4 + length user = 5 + length user" "1 + 4 + length user + 4 = 9 + length user"
    "1 + 4 + length user + 4 + length svc = 9 + length user + length svc"
    "1 + 4 + length user + 4 + length svc + 4 = 13 + length user + length svc"
    "1 + 4 + length user + 4 + length svc + 4 + length meth = off" by (simp_all add: off_def)
  show user: "take (length user) (drop 5 pl) = user" using u(3) by simp
  show svc: "take (length svc) (drop (9 + length user) pl) = svc" using v(3) by (simp add: e)
  show "drop off (take plen pl) = rest" "off \<le> plen" using w(2,4) unfolding e(5) by simp_all
  have sl: "slice pl 5 (min (length user) 63) = Some (take 63 user)"
  proof -
    have "take (min (length user) 63) (drop 5 pl) = take 63 (take (length user) (drop 5 pl))"
      by (simp only: take_take min.commute [of "length user" 63])
    moreover have "5 + min (length user) 63 \<le> length pl" using u(2) assms(1) by simp
    ultimately show ?thesis by (simp add: slice_def user)
  qed
  have m: "body_is pl (13 + length user + length svc) (length meth) x = Some (meth = str x)" for x
    using w(2,3) assms(1) unfolding e(4) by (intro body_is_eq) simp_all
  have r: "rd_string pl plen 1 = Some (Some (5, length user, 5 + length user))"
    "rd_string pl plen (5 + length user) = Some (Some (9 + length user, length svc, 9 + length user + length svc))"
    "rd_string pl plen (9 + length user + length svc) = Some (Some (13 + length user + length svc, length meth, off))"
    using u(1) v(1) w(1) by (simp_all add: off_def add.assoc)
  show "handle_userauth_request cr pl plen s
      = after_method cr pl plen off (5, length user) (9 + length user, length svc) meth (s\<lparr>auth_user := take 63 user\<rparr>)"
  proof -
    obtain L where L: "length meth = L" by simp
    show ?thesis
      using r(3) m unfolding L
      by (simp add: handle_userauth_request_def after_method_def r(1,2) [simplified] sl Let_def)
  qed
qed

lemma userauth_unparsed:
  assumes "plen \<le> length pl" "plen \<le> 2043" "1 \<le> plen"
    and no: "\<nexists>user svc meth rest. drop 1 (take plen pl) = put_str user @ put_str svc @ put_str meth @ rest"
  shows "\<exists>why. handle_userauth_request cr pl plen s = Some (fail why s)"
proof -
  have p16: "plen < 65536" using assms by simp
  from assms(1) p16 assms(3) show ?thesis
  proof (cases rule: rd_string_cases)
    case bad then show ?thesis by (auto simp: handle_userauth_request_def)
  next
    case u: (ok user r1)
    from assms(1) p16 u(3) show ?thesis
    proof (cases rule: rd_string_cases)
      case bad then show ?thesis using u(2) by (auto simp: handle_userauth_request_def)
    next
      case v: (ok svc r2)
      from assms(1) p16 v(3) show ?thesis
      proof (cases rule: rd_string_cases)
        case bad then show ?thesis using u(2) v(2) by (auto simp: handle_userauth_request_def)
      next
        case w: (ok meth r3)
        with u v have "drop 1 (take plen pl) = put_str user @ put_str svc @ put_str meth @ r3" by simp
        with no show ?thesis by blast
      qed
    qed
  qed
qed

lemma request_frame:
  "open_request (s\<lparr>auth_user := u\<rparr>) = open_request s" "password_request (s\<lparr>auth_user := u\<rparr>) = password_request s"
  "signed_tail cr (s\<lparr>auth_user := u\<rparr>) = signed_tail cr s"
  by (simp_all add: fun_eq_iff open_request_def password_request_def signed_tail_def session_bound_def)

lemma granted_requests:
  assumes "plen \<le> length pl" "plen \<le> 2043" "1 \<le> plen" "\<not> authenticated s"
  shows "\<exists>s'. handle_userauth_request cr pl plen s = Some s'
     \<and> (authenticated s' \<longleftrightarrow> open_request s (take plen pl) \<or> password_request s (take plen pl)
          \<or> pubkey_request cr s (take plen pl))"
proof (cases "\<exists>user svc meth rest. drop 1 (take plen pl) = put_str user @ put_str svc @ put_str meth @ rest")
  case False
  have "\<nexists>m user svc meth rest. take plen pl = [m] @ put_str user @ put_str svc @ put_str meth @ rest"
  proof
    assume "\<exists>m user svc meth rest. take plen pl = [m] @ put_str user @ put_str svc @ put_str meth @ rest"
    then have "\<exists>user svc meth rest. drop 1 (take plen pl) = put_str user @ put_str svc @ put_str meth @ rest"
      by (elim exE) (simp, blast)
    with False show False by blast
  qed
  then have "\<not> open_request s (take plen pl)" "\<not> password_request s (take plen pl)" "\<not> pubkey_request cr s (take plen pl)"
    unfolding open_request_def password_request_def pubkey_request_def put_nl_def by blast+
  with userauth_unparsed [OF assms(1-3), of cr s] False assms(4) show ?thesis by auto
next
  case True
  then obtain user svc meth rest where d: "drop 1 (take plen pl) = put_str user @ put_str svc @ put_str meth @ rest" by blast
  have pkt: "take plen pl = [pl ! 0] @ put_str user @ put_str svc @ put_str meth @ rest"
    using d assms by (cases pl; cases plen) simp_all
  define off where "off = 13 + length user + length svc + length meth"
  note parsed = userauth_parsed [OF assms(1-3) pkt, folded off_def]
  define s1 where "s1 = s\<lparr>auth_user := take 63 user\<rparr>"
  have lt: "length (take plen pl) < 65536" using assms by simp
  note uniq = request_prefix [OF pkt [unfolded append_Cons append_Nil] lt]
  have pw: "password_request s (take plen pl) \<longleftrightarrow> g_have_password s \<and> meth = str ''password'' \<and> (\<exists>r. rest = [0] @ put_str (g_password s) @ r)"
    using uniq pkt unfolding password_request_def put_nl_def by blast
  have pk: "pubkey_request cr s (take plen pl) \<longleftrightarrow> meth = str ''publickey'' \<and> signed_tail cr s user svc rest"
    using uniq pkt unfolding pubkey_request_def put_nl_def by blast
  have op: "open_request s (take plen pl) \<longleftrightarrow> \<not> g_have_password s \<and> g_authkeys s = []"
    using pkt unfolding open_request_def by blast
  have no_keys: "signed_tail cr s user svc rest \<Longrightarrow> g_authkeys s \<noteq> []" by (auto simp: signed_tail_def)
  have pa: "granted (handle_password_auth cr pl plen off s1) s1 (\<exists>r. rest = [0] @ put_str (g_password s) @ r)"
    using password_auth_exact [OF assms(1,2) parsed(5), of cr s1] by (simp add: granted_def parsed(4) s1_def)
  have ka: "granted (handle_pubkey_auth cr pl plen off (5, length user) (9 + length user, length svc) s1) s1 (signed_tail cr s user svc rest)"
    using pubkey_auth_exact [OF assms(1,2) parsed(5) _ parsed(2) _ parsed(3), of cr s1] parsed(4,5)
    by (simp add: off_def s1_def request_frame)
  show ?thesis
    using pa ka no_keys assms(4) unfolding parsed(1) s1_def [symmetric] after_method_def pw pk op granted_def
    by (auto simp: s1_def)
qed

text \<open>C4. Who is let in.  For a USERAUTH_REQUEST that lies in the input buffer, the handler always
  returns, and it marks the connection authenticated exactly when the request is well formed and
  either the box is open (neither password nor keys configured), or it is a password request
  carrying the configured password, or it is a publickey request with a non-zero signature flag for
  an authorized ed25519 key whose signature verifies over this session's identifier, the user, the
  service and the key.  A probe, a change-password request, a wrong password, an unauthorized key,
  a bad signature and an unknown method never do.\<close>

theorem userauth_exact:
  assumes "plen \<le> length pl" "plen \<le> 2043" "1 \<le> plen" "\<not> authenticated s"
  shows "\<exists>s'. handle_userauth_request cr pl plen s = Some s'
     \<and> (authenticated s' \<longleftrightarrow> open_request s (take plen pl) \<or> password_request s (take plen pl)
          \<or> pubkey_request cr s (take plen pl))"
  by (rule granted_requests [OF assms])

definition wit_pkt :: "byte list" where
  "wit_pkt = [50] @ put_nl ''a'' @ put_nl ''ssh-connection'' @ put_nl ''password'' @ [0] @ put_nl ''x'' @ []"

theorem userauth_exact_witness:
  "\<exists>s'. handle_userauth_request toy_crypto wit_pkt (length wit_pkt)
          (ssh_zero\<lparr>g_have_password := True, g_password := str ''x''\<rparr>) = Some s' \<and> authenticated s'"
proof -
  let ?s = "ssh_zero\<lparr>g_have_password := True, g_password := str ''x''\<rparr>"
  have "password_request ?s (take (length wit_pkt) wit_pkt)"
  proof -
    have "take (length wit_pkt) wit_pkt = [50] @ put_str (str ''a'') @ put_str (str ''ssh-connection'')
        @ put_nl ''password'' @ [0] @ put_str (g_password ?s) @ []"
      by (simp add: wit_pkt_def put_nl_def)
    moreover have "g_have_password ?s" by simp
    ultimately show ?thesis unfolding password_request_def by blast
  qed
  moreover have "length wit_pkt \<le> 2043" "1 \<le> length wit_pkt"
    by (simp_all add: wit_pkt_def put_nl_def put_str_def put_u32_def)
  moreover have "\<not> authenticated ?s" by (simp add: ssh_zero_def ssh_conn_zero_def ssh_conn.defs ssh.defs)
  ultimately show ?thesis using userauth_exact [of "length wit_pkt" wit_pkt ?s toy_crypto] by blast
qed

end
