(* ===== verification/Sshsession.thy ===== *)
theory Sshsession
  imports Sshauth
begin

text \<open>
  The connection as a state machine: an invariant of every reachable state of one SSH connection,
  from \<open>ssh_reset\<close> through any sequence of calls of the public interface, and what follows from it.
  Nothing of the session (the channel, the shell, the keystrokes, the screen) exists before the
  connection is authenticated and encrypted, and authentication has exactly the causes of theory
  Sshauth.
\<close>

section \<open>The invariant\<close>

definition keyed :: "ssh \<Rightarrow> bool" where
  "keyed s \<longleftrightarrow> keys_ready s \<and> recv_encrypted s \<and> send_encrypted s \<and> have_session_id s"

fun pre_auth :: "ssh_state \<Rightarrow> bool" where
  "pre_auth SSH_ST_SESSION = False"
| "pre_auth SSH_ST_CLOSED = False"
| "pre_auth SSH_ST_ERROR = False"
| "pre_auth _ = True"

definition session_data :: "ssh \<Rightarrow> bool" where
  "session_data s \<longleftrightarrow> chan_open s \<or> shell_ready s \<or> pty s \<or> g_cin_head s \<noteq> g_cin_tail s"

definition sess_inv :: "ssh \<Rightarrow> bool" where
  "sess_inv s \<longleftrightarrow> (authenticated s \<longrightarrow> keyed s) \<and> (session_data s \<longrightarrow> authenticated s)
     \<and> (pre_auth (ssh_st s) \<longrightarrow> \<not> authenticated s) \<and> (ssh_st s = SSH_ST_SESSION \<longrightarrow> authenticated s)
     \<and> (ssh_st s \<in> {SSH_ST_EXPECT_SERVICE_REQUEST, SSH_ST_AUTH} \<longrightarrow> keyed s)
     \<and> (ssh_st s = SSH_ST_EXPECT_CLIENT_NEWKEYS \<longrightarrow> keys_ready s \<and> send_encrypted s \<and> have_session_id s)"

lemma keyed_sent: "sent_only s s' \<Longrightarrow> keyed s' = keyed s"
  by (simp add: keyed_def sent_only_frame)

lemma session_data_sent: "sent_only s s' \<Longrightarrow> session_data s' = session_data s"
  by (simp add: session_data_def sent_only_frame)

lemma sess_inv_sent: "sent_only s s' \<Longrightarrow> sess_inv s \<Longrightarrow> sess_inv s'"
  using sent_only_state [of s s'] unfolding sess_inv_def
  by (auto simp: keyed_sent session_data_sent sent_only_frame)

lemma sess_inv_closed: "sess_inv s \<Longrightarrow> sess_inv (s\<lparr>ssh_st := SSH_ST_CLOSED\<rparr>)"
  by (simp add: sess_inv_def keyed_def session_data_def)

lemma sess_inv_fields [simp]:
  "sess_inv (s\<lparr>auth_fails := n\<rparr>) = sess_inv s" "sess_inv (s\<lparr>auth_user := u\<rparr>) = sess_inv s"
  "sess_inv (s\<lparr>cli_first_follows := b\<rparr>) = sess_inv s" "sess_inv (s\<lparr>discard_next := d\<rparr>) = sess_inv s"
  "sess_inv (s\<lparr>recv_seq := q\<rparr>) = sess_inv s" "sess_inv (s\<lparr>ib := xs\<rparr>) = sess_inv s"
  "sess_inv (s\<lparr>ib_len := n\<rparr>) = sess_inv s" "sess_inv (s\<lparr>g_ob := xs\<rparr>) = sess_inv s"
  "sess_inv (s\<lparr>g_cout := xs\<rparr>) = sess_inv s" "sess_inv (s\<lparr>peer_window := pw\<rparr>) = sess_inv s"
  "sess_inv (s\<lparr>hctx := h\<rparr>) = sess_inv s" "sess_inv (s\<lparr>cli_ver := xs\<rparr>) = sess_inv s"
  by (simp_all add: sess_inv_def keyed_def session_data_def)

lemmas inv_packet [simp, intro] = sess_inv_sent [OF sent_only_packet]
lemmas inv_fail [simp, intro] = sess_inv_sent [OF sent_only_fail]

lemma inv_consume [simp]: "sess_inv (ib_consume k s) = sess_inv s"
  by (simp add: ib_consume_def Let_def)

section \<open>Before authentication\<close>

lemma negotiate_upd:
  assumes "negotiate pl len s = Some (r, s')"
  shows "\<exists>ff d. s' = s\<lparr>cli_first_follows := ff, discard_next := d\<rparr>"
proof -
  have a: "s = s\<lparr>cli_first_follows := cli_first_follows s, discard_next := discard_next s\<rparr>"
    "s\<lparr>cli_first_follows := ff\<rparr> = s\<lparr>cli_first_follows := ff, discard_next := discard_next s\<rparr>" for ff
    by simp_all
  show ?thesis
    using assms unfolding negotiate_def
    by (auto simp: bind_eq_Some_conv Let_def split: option.splits if_splits) (metis a)+
qed

lemma inv_kexinit:
  assumes "sess_inv s" "ssh_st s = SSH_ST_EXPECT_KEXINIT" "handle_kexinit pl plen s = Some s'"
  shows "sess_inv s' \<and> authenticated s' = authenticated s"
proof -
  obtain r t where n: "negotiate pl plen s = Some (r, t)"
    using assms(3) by (auto simp: handle_kexinit_def bind_eq_Some_conv)
  obtain ff d where t: "t = s\<lparr>cli_first_follows := ff, discard_next := d\<rparr>" using negotiate_upd [OF n] by blast
  have "sess_inv t" "\<not> authenticated s" using assms(1,2) by (simp_all add: t) (simp add: sess_inv_def)
  moreover have "sess_inv (t\<lparr>hctx := h, ssh_st := SSH_ST_EXPECT_ECDH_INIT\<rparr>)" for h
    using assms(1,2) by (auto simp: t sess_inv_def keyed_def session_data_def)
  ultimately show ?thesis
    using assms(3) n t
    by (cases r) (auto simp: handle_kexinit_def bind_eq_Some_conv Let_def)
qed

lemma inv_ecdh_reply:
  assumes "sess_inv s" "ssh_st s = SSH_ST_EXPECT_ECDH_INIT"
  shows "sess_inv (ecdh_reply cr qc s) \<and> authenticated (ecdh_reply cr qc s) = authenticated s"
proof -
  have na: "\<not> authenticated s" "\<not> session_data s" using assms by (auto simp: sess_inv_def)
  let ?s0 = "s\<lparr>g_q_c := qc\<rparr>"
  define s1 where "s1 = snd (rand cr 32 (s\<lparr>g_q_c := qc\<rparr>))"
  define s2 where "s2 = s1\<lparr>g_eph_sk := fst (rand cr 32 (s\<lparr>g_q_c := qc\<rparr>)),
     g_q_s := x25519_public_key cr (fst (rand cr 32 (s\<lparr>g_q_c := qc\<rparr>))),
     g_k_raw := x25519 cr (fst (rand cr 32 (s\<lparr>g_q_c := qc\<rparr>))) qc\<rparr>"
  have "sess_inv ?s0" "\<not> session_data ?s0" using assms(1) na by (simp_all add: sess_inv_def keyed_def session_data_def)
  then have s1: "sess_inv s1" "\<not> authenticated s1" "\<not> session_data s1"
    using na sess_inv_sent [OF sent_only_rand] session_data_sent [OF sent_only_rand] by (simp_all add: s1_def)
  then have s2: "sess_inv s2" "\<not> authenticated s2" "\<not> session_data s2"
    by (simp_all add: s2_def sess_inv_def keyed_def session_data_def)
  have fin: "sess_inv (t\<lparr>send_encrypted := True, ssh_st := SSH_ST_EXPECT_CLIENT_NEWKEYS\<rparr>)"
    if "\<not> authenticated t" "\<not> session_data t" "keys_ready t" "have_session_id t" for t
    using that by (simp add: sess_inv_def keyed_def session_data_def)
  show ?thesis
    using s2 na unfolding ecdh_reply_def Let_def case_prod_beta s1_def [symmetric] s2_def [symmetric]
    by (auto intro!: fin simp: session_data_def)
qed

lemma inv_ecdh_init:
  assumes "sess_inv s" "ssh_st s = SSH_ST_EXPECT_ECDH_INIT" "handle_ecdh_init cr pl plen s = Some s'"
  shows "sess_inv s' \<and> authenticated s' = authenticated s"
  using assms inv_ecdh_reply [OF assms(1,2)]
  by (auto simp: handle_ecdh_init_def bind_eq_Some_conv split: if_splits)

lemma inv_newkeys:
  assumes "sess_inv s" "ssh_st s = SSH_ST_EXPECT_CLIENT_NEWKEYS"
  shows "sess_inv (handle_client_newkeys s) \<and> authenticated (handle_client_newkeys s) = authenticated s"
  using assms by (auto simp: handle_client_newkeys_def sess_inv_def keyed_def session_data_def)

lemma inv_service_request:
  assumes "sess_inv s" "ssh_st s = SSH_ST_EXPECT_SERVICE_REQUEST" "handle_service_request cr pl plen s = Some s'"
  shows "sess_inv s' \<and> authenticated s' = authenticated s"
proof -
  have na: "\<not> authenticated s" "\<not> session_data s" "keyed s" using assms by (auto simp: sess_inv_def)
  have "sess_inv ((send_packet cr p (s\<lparr>svc_name := nm, svc_done := True\<rparr>))\<lparr>ssh_st := SSH_ST_AUTH\<rparr>)" for p nm
    using na by (simp add: sess_inv_def keyed_def session_data_def)
  then show ?thesis using assms na
    by (auto simp: handle_service_request_def bind_eq_Some_conv Let_def split: if_splits)
qed

section \<open>Authentication\<close>

lemma inv_reject: "sess_inv s \<Longrightarrow> sess_inv (auth_reject cr c s)"
  by (simp add: auth_reject_def send_disconnect_def send_userauth_failure_def Let_def sess_inv_closed)

lemma inv_success: "sess_inv s \<Longrightarrow> keyed s \<Longrightarrow> sess_inv (send_userauth_success cr s)"
  by (simp add: send_userauth_success_def sess_inv_def keyed_def session_data_def)

lemmas inv_auth = inv_reject inv_success

lemma inv_pk_ok [wp]: "sess_inv s \<Longrightarrow> ensures (send_pk_ok cr pl a b s) sess_inv"
  unfolding send_pk_ok_def by (intro wp) (simp_all add: inv_auth)

lemma inv_pubkey_signed [wp]:
  "sess_inv s \<Longrightarrow> keyed s \<Longrightarrow> ensures (pubkey_signed cr pl plen off u v a b key s) sess_inv"
  unfolding pubkey_signed_def by (intro wp) (simp_all add: inv_auth)

lemma inv_pubkey_offer [wp]:
  "sess_inv s \<Longrightarrow> keyed s \<Longrightarrow> ensures (pubkey_offer cr pl plen off fl u v a b s) sess_inv"
  unfolding pubkey_offer_def by (intro wp) (simp_all add: inv_auth)

lemma inv_pubkey_auth [wp]:
  "sess_inv s \<Longrightarrow> keyed s \<Longrightarrow> ensures (handle_pubkey_auth cr pl plen off u v s) sess_inv"
  unfolding handle_pubkey_auth_def by (intro wp) (simp_all add: inv_auth)

lemma inv_password_auth [wp]:
  "sess_inv s \<Longrightarrow> keyed s \<Longrightarrow> ensures (handle_password_auth cr pl plen off s) sess_inv"
  unfolding handle_password_auth_def by (intro wp) (simp_all add: inv_auth)

lemma keyed_user [simp]: "keyed (s\<lparr>auth_user := u\<rparr>) = keyed s"
  by (simp add: keyed_def)

lemma inv_userauth:
  "sess_inv s \<Longrightarrow> keyed s \<Longrightarrow> ensures (handle_userauth_request cr pl plen s) sess_inv"
  unfolding handle_userauth_request_def by (intro wp) (simp_all add: inv_auth)

section \<open>The session phase\<close>

definition stays :: "ssh \<Rightarrow> ssh \<Rightarrow> bool" where
  "stays s s' \<longleftrightarrow> authenticated s' = authenticated s \<and> keyed s' = keyed s
     \<and> ssh_st s' \<in> {ssh_st s, SSH_ST_CLOSED, SSH_ST_ERROR}"

lemma stays_refl [simp]: "stays s s"
  by (simp add: stays_def)

lemma stays_trans [trans]: "stays s s' \<Longrightarrow> stays s' s'' \<Longrightarrow> stays s s''"
  by (auto simp: stays_def)

lemma stays_sent: "sent_only s s' \<Longrightarrow> stays s s'"
  using sent_only_state [of s s'] by (auto simp: stays_def keyed_sent sent_only_frame)

lemma stays_packet [simp]: "stays s (send_packet cr p t)" if "stays s t"
  using stays_trans [OF that stays_sent [OF sent_only_packet]] .

lemma stays_fail [simp]: "stays s (fail why s)"
  by (rule stays_sent [OF sent_only_fail])

lemma stays_fields [simp]:
  "stays s (t\<lparr>term_cols := a\<rparr>) = stays s t" "stays s (t\<lparr>term_rows := b\<rparr>) = stays s t" "stays s (t\<lparr>pty := p\<rparr>) = stays s t"
  "stays s (t\<lparr>shell_ready := q\<rparr>) = stays s t" "stays s (t\<lparr>peer_window := w\<rparr>) = stays s t"
  "stays s (t\<lparr>local_window := w\<rparr>) = stays s t" "stays s (t\<lparr>g_cout := xs\<rparr>) = stays s t"
  "stays s (t\<lparr>g_cin := xs\<rparr>) = stays s t" "stays s (t\<lparr>g_cin_tail := n\<rparr>) = stays s t" "stays s (t\<lparr>g_cin_head := n\<rparr>) = stays s t"
  "stays s (t\<lparr>chan_open := o'\<rparr>) = stays s t" "stays s (t\<lparr>peer_chan := v\<rparr>) = stays s t"
  "stays s (t\<lparr>peer_maxpkt := v\<rparr>) = stays s t" "stays s (t\<lparr>local_chan := v\<rparr>) = stays s t"
  "stays s (t\<lparr>chan_eof := e\<rparr>) = stays s t" "stays s (t\<lparr>chan_sent_eof := e\<rparr>) = stays s t"
  "stays s (t\<lparr>chan_sent_close := e\<rparr>) = stays s t" "stays s (t\<lparr>chan_closed := e\<rparr>) = stays s t"
  "stays s (t\<lparr>ib := xs\<rparr>) = stays s t" "stays s (t\<lparr>ib_len := n\<rparr>) = stays s t" "stays s (t\<lparr>recv_seq := u\<rparr>) = stays s t"
  "stays s (t\<lparr>g_ob := xs\<rparr>) = stays s t"
  by (simp_all add: stays_def keyed_def)

lemma stays_closed [simp]: "stays s t \<Longrightarrow> stays s (t\<lparr>ssh_st := SSH_ST_CLOSED\<rparr>)"
  by (simp add: stays_def keyed_def)

lemma stays_open [wp]: "ensures (handle_channel_open cr pl plen s) (stays s)"
  unfolding handle_channel_open_def by (intro wp) simp_all

lemma stays_winsize: "stays s t \<Longrightarrow> ensures (set_winsize pl plen off t) (stays s)"
  unfolding set_winsize_def by (intro wp) simp_all

lemma stays_chan_reply [simp]: "stays s t \<Longrightarrow> stays s (chan_reply cr ty t)"
  by (simp add: chan_reply_def)

lemma ensures_map_pair: "ensures m P \<Longrightarrow> ensures (m \<bind> (\<lambda>s. Some (b, s))) (\<lambda>(_, s). P s)"
  by (auto simp: ensures_def bind_eq_Some_conv)

lemma stays_request [wp]: "ensures (handle_channel_request cr pl plen s) (stays s)"
proof -
  have pty: "ensures (do { s \<leftarrow> (if w16 (off + 4) \<le> plen
                   then do { tl \<leftarrow> rd_len pl off; set_winsize pl plen (w16 (off + (4 + tl))) s }
                   else Some s);
             Some (True, s\<lparr>pty := True\<rparr>) }) (\<lambda>(_, t). stays s t)" for off
    by (rule ensures_seq [where Q = "stays s"]) (intro wp stays_winsize stays_refl | simp)+
  have win: "ensures (do { s \<leftarrow> set_winsize pl plen off s; Some (True, s) }) (\<lambda>(_, t). stays s t)" for off
    by (rule ensures_map_pair) (simp add: stays_winsize)
  show ?thesis
    unfolding handle_channel_request_def Let_def
    by (intro wp ensures_seq [where Q = "\<lambda>(_, t). stays s t" and f = "case_prod _"] pty win) auto
qed

lemma stays_adjust [simp]: "stays s t \<Longrightarrow> stays s (adjust_local_window cr n t)"
  by (simp add: adjust_local_window_def Let_def)

lemma stays_cin: "stays s t \<Longrightarrow> ensures (cin_loop pl i k t) (stays s)"
proof (induction k arbitrary: i t)
  case (Suc k)
  have "stays s (cin_put b t)" for b using Suc.prems by (simp add: cin_put_def Let_def)
  then show ?case by (simp, intro conjI impI wp Suc) (simp_all add: Suc.prems)
qed (simp add: ensures_def)

lemma stays_data [wp]: "ensures (handle_channel_data cr pl plen s) (stays s)"
  unfolding handle_channel_data_def Let_def
  by (intro wp ensures_seq [OF stays_cin [OF stays_refl]]) simp_all

lemma stays_window [wp]: "ensures (handle_channel_window_adjust pl plen s) (stays s)"
  unfolding handle_channel_window_adjust_def by (intro wp) simp_all

lemma stays_global [wp]: "ensures (handle_global_request cr pl plen s) (stays s)"
  unfolding handle_global_request_def by (intro wp) simp_all

lemma stays_flush_loop: "stays s t \<Longrightarrow> stays s (snd (flush_loop cr rest t))"
proof (induction cr rest t rule: flush_loop.induct)
  case (1 cr rest t)
  then show ?case by (subst flush_loop.simps) (simp add: Let_def)
qed

lemma stays_flush [simp]: "stays s t \<Longrightarrow> stays s (ssh_channel_flush cr t)"
  using stays_flush_loop [of s t cr "g_cout t"] by (simp add: ssh_channel_flush_def case_prod_beta)

lemma stays_close [simp]: "stays s t \<Longrightarrow> stays s (ssh_channel_close cr t)"
  by (simp add: ssh_channel_close_def Let_def)

lemma stays_session: "ensures (handle_session cr msg pl plen s) (stays s)"
  unfolding handle_session_def by (intro wp) simp_all

lemma sess_inv_stays:
  "sess_inv s \<Longrightarrow> authenticated s \<Longrightarrow> \<not> pre_auth (ssh_st s) \<Longrightarrow> stays s s' \<Longrightarrow> sess_inv s'"
  by (auto simp: sess_inv_def stays_def)

text \<open>A global request outside the session: it only sends.\<close>

lemma inv_global: "sess_inv s \<Longrightarrow> ensures (handle_global_request cr pl plen s) (\<lambda>t. sess_inv t \<and> authenticated t = authenticated s)"
  unfolding handle_global_request_def by (intro wp) simp_all

section \<open>Packets and calls\<close>

text \<open>What a packet may do to \<open>authenticated\<close>: only a USERAUTH_REQUEST in state AUTH can set it.\<close>

definition auth_step :: "crypto \<Rightarrow> byte list \<Rightarrow> nat \<Rightarrow> ssh \<Rightarrow> ssh \<Rightarrow> bool" where
  "auth_step cr pl plen s s' \<longleftrightarrow> sess_inv s' \<and>
     (authenticated s' = authenticated s
      \<or> ssh_st s = SSH_ST_AUTH \<and> 1 \<le> plen \<and> rd_byte pl 0 = Some 50 \<and> handle_userauth_request cr pl plen s = Some s')"

lemma packet_auth_step:
  assumes "sess_inv s" shows "ensures (handle_packet cr pl plen s) (auth_step cr pl plen s)"
proof -
  have same: "ensures m (auth_step cr pl plen s)" if "ensures m (\<lambda>t. sess_inv t \<and> authenticated t = authenticated s)" for m
    using that by (auto simp: ensures_def auth_step_def)
  have opt: "ensures m (auth_step cr pl plen s)" if "\<And>t. m = Some t \<Longrightarrow> sess_inv t \<and> authenticated t = authenticated s" for m
    using that by (auto simp: ensures_def auth_step_def)
  have sess: "ensures (handle_session cr msg pl plen s) (auth_step cr pl plen s)" if "ssh_st s = SSH_ST_SESSION" for msg
  proof (rule same, rule ensures_mono [OF stays_session])
    fix t assume "stays s t"
    moreover have "authenticated s" using assms that by (simp add: sess_inv_def)
    ultimately show "sess_inv t \<and> authenticated t = authenticated s"
      using sess_inv_stays [OF assms] that by (auto simp: stays_def)
  qed
  have auth: "ensures (handle_userauth_request cr pl plen s) (auth_step cr pl plen s)"
    if "ssh_st s = SSH_ST_AUTH" "rd_byte pl 0 = Some 50" "plen \<noteq> 0"
  proof -
    have "keyed s" using assms that(1) by (simp add: sess_inv_def)
    then show ?thesis using inv_userauth [OF assms] that by (auto simp: ensures_def auth_step_def)
  qed
  have fl: "ensures (Some (fail why s)) (auth_step cr pl plen s)" for why using assms by (intro opt) auto
  have self: "ensures (Some s) (auth_step cr pl plen s)" using assms by (intro opt) auto
  have kex: "ssh_st s = SSH_ST_EXPECT_KEXINIT \<Longrightarrow> ensures (handle_kexinit pl plen s) (auth_step cr pl plen s)"
    using inv_kexinit [OF assms] by (intro opt) blast
  have ecdh: "ssh_st s = SSH_ST_EXPECT_ECDH_INIT \<Longrightarrow> ensures (handle_ecdh_init cr pl plen s) (auth_step cr pl plen s)"
    using inv_ecdh_init [OF assms] by (intro opt) blast
  have nk: "ssh_st s = SSH_ST_EXPECT_CLIENT_NEWKEYS \<Longrightarrow> ensures (Some (handle_client_newkeys s)) (auth_step cr pl plen s)"
    using inv_newkeys [OF assms] by (intro opt) blast
  have svc: "ssh_st s = SSH_ST_EXPECT_SERVICE_REQUEST \<Longrightarrow> ensures (handle_service_request cr pl plen s) (auth_step cr pl plen s)"
    using inv_service_request [OF assms] by (intro opt) blast
  have dispatch: "ensures (case ssh_st s of
            SSH_ST_EXPECT_KEXINIT \<Rightarrow> if msg \<noteq> 20 then Some (fail ''expected KEXINIT'' s) else handle_kexinit pl plen s
          | SSH_ST_EXPECT_ECDH_INIT \<Rightarrow> if msg \<noteq> 30 \<and> \<not> discard_next s then Some (fail ''expected KEX_ECDH_INIT'' s) else handle_ecdh_init cr pl plen s
          | SSH_ST_EXPECT_CLIENT_NEWKEYS \<Rightarrow> if msg \<noteq> 21 then Some (fail ''expected NEWKEYS'' s) else Some (handle_client_newkeys s)
          | SSH_ST_EXPECT_SERVICE_REQUEST \<Rightarrow> if msg \<noteq> 5 then Some (fail ''expected SERVICE_REQUEST'' s) else handle_service_request cr pl plen s
          | SSH_ST_AUTH \<Rightarrow> if msg = 50 then handle_userauth_request cr pl plen s else Some s
          | SSH_ST_SESSION \<Rightarrow> handle_session cr msg pl plen s
          | _ \<Rightarrow> Some (fail ''unexpected packet'' s)) (auth_step cr pl plen s)"
    if "(if plen = 0 then Some 0 else rd_byte pl 0) = Some msg" for msg
  proof -
    have m: "ssh_st s = SSH_ST_AUTH \<Longrightarrow> msg = 50 \<Longrightarrow> ensures (handle_userauth_request cr pl plen s) (auth_step cr pl plen s)"
      using that auth by (simp split: if_splits)
    show ?thesis
      by (cases "ssh_st s") (simp_all add: fl self nk kex ecdh svc sess m)
  qed
  show ?thesis
    unfolding handle_packet_def
    by (intro ensures_bind ensures_if same [OF inv_global] dispatch assms)
      (auto simp: ensures_def auth_step_def assms sess_inv_closed)
qed

end
