(* ===== verification/Sshnego.thy ===== *)
theory Sshnego
  imports Ssh
begin

text \<open>
  Algorithm negotiation of \<open>ssh.c\<close>: on every well-formed KEXINIT, \<open>negotiate\<close> decides exactly by
  membership of the required names in the client's comma-separated lists.
\<close>

section \<open>Name lists\<close>

text \<open>The wire form of a list of names, and the names of a wire form (\<open>cur\<close> is the name being read).\<close>

fun joined :: "byte list list \<Rightarrow> byte list" where
  "joined [] = []"
| "joined [x] = x"
| "joined (x # xs) = x @ [0x2C] @ joined xs"

fun names :: "byte list \<Rightarrow> byte list \<Rightarrow> byte list list" where
  "names cur [] = [cur]"
| "names cur (b # bs) = (if b = 0x2C then cur # names [] bs else names (cur @ [b]) bs)"

definition plain_name :: "byte list \<Rightarrow> bool" where
  "plain_name x \<longleftrightarrow> x \<noteq> [] \<and> 0x2C \<notin> set x"

lemma names_plain: "0x2C \<notin> set x \<Longrightarrow> names cur (x @ ys) = names (cur @ x) ys"
  by (induction x arbitrary: cur) auto

lemma names_joined: "list_all plain_name xs \<Longrightarrow> names [] (joined xs) = (if xs = [] then [[]] else xs)"
proof (induction xs rule: joined.induct)
  case (2 x)
  then show ?case using names_plain [of x "[]" "[]"] by (simp add: plain_name_def)
next
  case (3 x y zs)
  then show ?case using names_plain [of x "[]" "[0x2C] @ joined (y # zs)"] by (simp add: plain_name_def)
qed simp

text \<open>A stretch of the packet view.\<close>

abbreviation part :: "byte list \<Rightarrow> nat \<Rightarrow> nat \<Rightarrow> byte list" where
  "part pl off n \<equiv> take n (drop off pl)"

lemma part_Suc: "off < length pl \<Longrightarrow> part pl off (Suc k) = pl ! off # part pl (Suc off) k"
  by (simp add: Cons_nth_drop_Suc [symmetric])

lemma part_snoc: "off + k < length pl \<Longrightarrow> part pl off (Suc k) = part pl off k @ [pl ! (off + k)]"
  by (simp add: take_Suc_conv_app_nth)

lemma nl_match_eq:
  assumes "start \<le> i" "base + i \<le> length pl" shows "nl_match pl base start i name = Some (part pl (base + start) (i - start) = name)"
  using assms by (auto simp: nl_match_def slice_def)

lemma nl_loop_eq:
  assumes "start \<le> i" "base + i + k \<le> length pl"
  shows "nl_loop pl base name k i start
     = Some (name \<in> set (names (part pl (base + start) (i - start)) (part pl (base + i) k)))"
  using assms
proof (induction k arbitrary: i start)
  case 0
  then show ?case by (simp add: nl_match_eq) blast
next
  case (Suc k)
  have b: "rd_byte pl (base + i) = Some (pl ! (base + i))" using Suc.prems by (simp add: rd_byte_def)
  have p: "part pl (base + i) (Suc k) = pl ! (base + i) # part pl (base + Suc i) k" using Suc.prems part_Suc by simp
  have c: "part pl (base + start) (Suc i - start) = part pl (base + start) (i - start) @ [pl ! (base + i)]"
    using part_snoc [of "base + start" "i - start" pl] Suc.prems by (simp add: Suc_diff_le)
  show ?case
    using Suc.IH [of "Suc i" "Suc i"] Suc.IH [of start "Suc i"] Suc.prems
    by (simp add: b p c nl_match_eq del: take_Suc_Cons)
qed

lemma str_eq_Nil [simp]: "str s = [] \<longleftrightarrow> s = []" "[] = str s \<longleftrightarrow> s = []"
  using length_str [of s] by (metis length_0_conv)+

lemma nl_has_eq:
  assumes "fst l + snd l \<le> length pl" "part pl (fst l) (snd l) = joined xs" "list_all plain_name xs" "name \<noteq> []"
  shows "nl_has pl l name = Some (str name \<in> set xs)"
  using nl_loop_eq [of 0 0 "fst l" "snd l" pl "str name"] names_joined [OF assms(3)] assms
  by (auto simp: nl_has_def)

lemma nl_first_loop_eq:
  "base + i + k \<le> length pl \<Longrightarrow>
     nl_first_loop pl base k i = Some (i + length (takeWhile (\<lambda>b. b \<noteq> 0x2C) (part pl (base + i) k)))"
proof (induction k arbitrary: i)
  case (Suc k)
  then show ?case
    using Suc.IH [of "Suc i"] part_Suc [of "base + i" pl k]
    by (simp add: rd_byte_def del: take_Suc_Cons)
qed simp

lemma first_joined: "list_all plain_name xs \<Longrightarrow> takeWhile (\<lambda>b. b \<noteq> 0x2C) (joined xs) = (if xs = [] then [] else hd xs)"
  by (induction xs rule: joined.induct) (auto simp: plain_name_def takeWhile_append takeWhile_eq_all_conv)

lemma tok_first_eq:
  assumes "fst l + snd l \<le> length pl" "part pl (fst l) (snd l) = joined xs" "list_all plain_name xs" "name \<noteq> []"
  shows "do { tok \<leftarrow> nl_first pl l; tok_eq pl tok name } = Some (xs \<noteq> [] \<and> hd xs = str name)"
    and "\<exists>tok. nl_first pl l = Some tok \<and> tok_eq pl tok name = Some (xs \<noteq> [] \<and> hd xs = str name)"
proof -
  let ?n = "length (takeWhile (\<lambda>b. b \<noteq> 0x2C) (part pl (fst l) (snd l)))"
  have f: "nl_first pl l = Some (fst l, ?n)" using nl_first_loop_eq [of "fst l" 0 "snd l" pl] assms(1) by (simp add: nl_first_def)
  have le: "?n \<le> snd l" using length_takeWhile_le [of "\<lambda>b. b \<noteq> 0x2C" "part pl (fst l) (snd l)"] by simp
  have "part pl (fst l) ?n = takeWhile (\<lambda>b. b \<noteq> 0x2C) (part pl (fst l) (snd l))"
    using takeWhile_eq_take [of "\<lambda>b. b \<noteq> 0x2C" "part pl (fst l) (snd l)"] le by (simp add: min_absorb1)
  then have t: "part pl (fst l) ?n = (if xs = [] then [] else hd xs)" unfolding assms(2) first_joined [OF assms(3)] .
  have "tok_eq pl (fst l, ?n) name = Some (part pl (fst l) ?n = str name)"
    using body_is_eq [of "fst l" ?n pl "part pl (fst l) ?n" name] assms(1) le by (simp add: body_is_def)
  then have "tok_eq pl (fst l, ?n) name = Some (xs \<noteq> [] \<and> hd xs = str name)" unfolding t using assms(4) by auto
  with f show "do { tok \<leftarrow> nl_first pl l; tok_eq pl tok name } = Some (xs \<noteq> [] \<and> hd xs = str name)"
    "\<exists>tok. nl_first pl l = Some tok \<and> tok_eq pl tok name = Some (xs \<noteq> [] \<and> hd xs = str name)" by auto
qed

section \<open>The ten lists of a KEXINIT\<close>

fun spans :: "nat \<Rightarrow> byte list list \<Rightarrow> (nat \<times> nat) list" where
  "spans off [] = []"
| "spans off (l # ls) = (off + 4, length l) # spans (off + 4 + length l) ls"

lemma read_lists_ok:
  assumes "len \<le> length pl" "len < 65536" "off \<le> len" "drop off (take len pl) = concat (map put_str ls) @ rest"
  shows "read_lists pl len (length ls) off = Some (Some (spans off ls, len - length rest))"
  using assms
proof (induction ls arbitrary: off)
  case Nil
  have "length (drop off (take len pl)) = length rest" using Nil(4) by simp
  with Nil(1-3) show ?case by simp
next
  case (Cons l ls)
  have d: "drop off (take len pl) = put_str l @ concat (map put_str ls) @ rest" using Cons.prems(4) by simp
  note r = rd_string_Some [OF Cons.prems(1,2,3) d]
  have v: "rd_u32 pl off = Some (of_nat (length l))"
  proof (rule rd_u32_be32)
    have "drop off pl = drop off (take len pl) @ drop len pl"
      using Cons.prems(1,3) append_take_drop_id [of len pl] by (metis drop_append drop_eq_Nil diff_is_0_eq drop0 length_take min.absorb2)
    then show "drop off pl = be32 (of_nat (length l)) @ (l @ concat (map put_str ls) @ rest @ drop len pl)"
      by (simp add: d put_str_def put_u32_def)
  qed
  have n: "rd_len pl off = Some (length l)" using v r(2) Cons.prems(2) by (simp add: rd_len_def unat_of_nat)
  have "read_lists pl len (length ls) (off + 4 + length l) = Some (Some (spans (off + 4 + length l) ls, len - length rest))"
    by (rule Cons.IH) (use Cons.prems r in simp_all)
  then show ?case using n r(2) Cons.prems(2) by (simp add: Let_def)
qed

lemma spans_part:
  assumes "drop off pl = concat (map put_str ls) @ rest" "i < length ls"
  shows "fst (spans off ls ! i) + snd (spans off ls ! i) \<le> length pl"
    and "part pl (fst (spans off ls ! i)) (snd (spans off ls ! i)) = ls ! i"
proof -
  have "fst (spans off ls ! i) + snd (spans off ls ! i) \<le> length pl
    \<and> part pl (fst (spans off ls ! i)) (snd (spans off ls ! i)) = ls ! i"
    using assms
  proof (induction ls arbitrary: off i)
    case (Cons l ls)
    have d: "drop off pl = put_u32 (length l) @ l @ concat (map put_str ls) @ rest" using Cons.prems(1) by (simp add: put_str_def [of l])
    have d4: "drop (off + 4) pl = l @ concat (map put_str ls) @ rest"
      using arg_cong [OF d, of "drop 4"] by (simp add: put_u32_def add.commute)
    have "drop (off + 4 + length l) pl = drop (length l) (drop (off + 4) pl)" by (simp add: ac_simps)
    then have dl: "drop (off + 4 + length l) pl = concat (map put_str ls) @ rest" unfolding d4 by simp
    show ?case
    proof (cases i)
      case 0
      have "off + 4 \<le> length pl" using arg_cong [OF d, of length] by (simp add: put_u32_def)
      then have "off + 4 + length l \<le> length pl" using arg_cong [OF d4, of length] by simp
      then show ?thesis using 0 d4 by simp
    next
      case (Suc k)
      then show ?thesis using Cons.IH [OF dl, of k] Cons.prems(2) by simp
    qed
  qed simp
  then show "fst (spans off ls ! i) + snd (spans off ls ! i) \<le> length pl"
    "part pl (fst (spans off ls ! i)) (snd (spans off ls ! i)) = ls ! i" by blast+
qed

section \<open>What is negotiated\<close>

definition kexinit_payload :: "byte list \<Rightarrow> byte list list list \<Rightarrow> byte \<Rightarrow> byte list \<Rightarrow> byte list" where
  "kexinit_payload cookie nss ff rest = [20] @ cookie @ concat (map (\<lambda>ns. put_str (joined ns)) nss) @ [ff] @ rest"

definition offers :: "byte list list \<Rightarrow> string \<Rightarrow> bool" where
  "offers ns name \<longleftrightarrow> str name \<in> set ns"

definition guesses :: "byte list list \<Rightarrow> string \<Rightarrow> bool" where
  "guesses ns name \<longleftrightarrow> ns \<noteq> [] \<and> hd ns = str name"

lemma kexinit_view:
  assumes "length cookie = 16" "length nss = 10" "list_all (list_all plain_name) nss"
    "pl = kexinit_payload cookie nss ff rest" "length pl < 65536" "view = pl @ junk"
  shows "\<exists>nls off. read_lists view (length pl) 10 17 = Some (Some (nls, off)) \<and> off < length pl \<and> rd_byte view off = Some ff
    \<and> (\<forall>i < 10. fst (nls ! i) + snd (nls ! i) \<le> length view \<and> part view (fst (nls ! i)) (snd (nls ! i)) = joined (nss ! i)
         \<and> list_all plain_name (nss ! i))"
proof -
  let ?ls = "map joined nss"
  have ten: "length ?ls = 10" using assms(2) by simp
  have d: "drop 17 pl = concat (map put_str ?ls) @ ff # rest"
    using assms(1) by (simp add: assms(4) kexinit_payload_def comp_def)
  then have "length (drop 17 pl) \<ge> 1" by simp
  then have le: "17 \<le> length pl" by simp
  have off: "length pl - length (ff # rest) = 17 + length (concat (map put_str ?ls))"
    using arg_cong [OF d, of length] le by simp
  have dv: "drop 17 view = concat (map put_str ?ls) @ (ff # rest) @ junk" using d le by (simp add: assms(6))
  have "read_lists view (length pl) 10 17 = Some (Some (spans 17 ?ls, length pl - length (ff # rest)))"
    using read_lists_ok [of "length pl" view 17 ?ls "ff # rest"] d le assms(5,6) ten by simp
  moreover have "pl ! (17 + length (concat (map put_str ?ls))) = ff"
    using arg_cong [OF d, of "\<lambda>x. x ! length (concat (map put_str ?ls))"] le by (simp add: nth_append)
  moreover have "17 + length (concat (map put_str ?ls)) < length pl"
    using arg_cong [OF d, of length] le by (simp del: length_concat)
  ultimately have "read_lists view (length pl) 10 17 = Some (Some (spans 17 ?ls, length pl - length (ff # rest)))"
    "rd_byte view (length pl - length (ff # rest)) = Some ff" "length pl - length (ff # rest) < length pl"
    unfolding off by (simp_all add: rd_byte_def assms(6) nth_append del: length_concat)
  moreover have "fst (spans 17 ?ls ! i) + snd (spans 17 ?ls ! i) \<le> length view
      \<and> part view (fst (spans 17 ?ls ! i)) (snd (spans 17 ?ls ! i)) = joined (nss ! i) \<and> list_all plain_name (nss ! i)"
    if "i < 10" for i
    using spans_part [OF dv, of i] that ten assms(2,3) by (simp add: list_all_length)
  ultimately show ?thesis by blast
qed

lemma negotiate_eq:
  assumes "length cookie = 16" "length nss = 10" "list_all (list_all plain_name) nss"
    "pl = kexinit_payload cookie nss ff rest" "length pl < 65536"
  shows "negotiate (pl @ junk) (length pl) s =
    Some (if (offers (nss ! 0) ''curve25519-sha256'' \<or> offers (nss ! 0) ''curve25519-sha256@libssh.org'')
             \<and> offers (nss ! 1) ''ssh-ed25519''
             \<and> offers (nss ! 2) ''chacha20-poly1305@openssh.com'' \<and> offers (nss ! 3) ''chacha20-poly1305@openssh.com''
          then (Negotiated, s\<lparr>cli_first_follows := ff, discard_next := (ff \<noteq> 0
                  \<and> \<not> ((guesses (nss ! 0) ''curve25519-sha256'' \<or> guesses (nss ! 0) ''curve25519-sha256@libssh.org'')
                        \<and> guesses (nss ! 1) ''ssh-ed25519''))\<rparr>)
          else (NoCommon, s\<lparr>cli_first_follows := ff\<rparr>))"
proof -
  obtain nls off where r: "read_lists (pl @ junk) (length pl) 10 17 = Some (Some (nls, off))" "off < length pl"
    "rd_byte (pl @ junk) off = Some ff"
    and p: "\<And>i. i < 10 \<Longrightarrow> fst (nls ! i) + snd (nls ! i) \<le> length (pl @ junk)
        \<and> part (pl @ junk) (fst (nls ! i)) (snd (nls ! i)) = joined (nss ! i) \<and> list_all plain_name (nss ! i)"
    using kexinit_view [OF assms refl] by blast
  have has: "nl_has (pl @ junk) (nls ! i) name = Some (offers (nss ! i) name)" if "i < 10" "name \<noteq> []" for i name
    using nl_has_eq [of "nls ! i" "pl @ junk" "nss ! i" name] p [OF that(1)] that(2) by (simp add: offers_def)
  obtain tok where tok: "\<And>i. i < 10 \<Longrightarrow> nl_first (pl @ junk) (nls ! i) = Some (tok i)"
    and teq: "\<And>i name. i < 10 \<Longrightarrow> name \<noteq> [] \<Longrightarrow> tok_eq (pl @ junk) (tok i) name = Some (guesses (nss ! i) name)"
  proof -
    have "nl_first (pl @ junk) (nls ! i) = Some (the (nl_first (pl @ junk) (nls ! i)))
        \<and> (name \<noteq> [] \<longrightarrow> tok_eq (pl @ junk) (the (nl_first (pl @ junk) (nls ! i))) name = Some (guesses (nss ! i) name))"
      if "i < 10" for i name
      using tok_first_eq(2) [of "nls ! i" "pl @ junk" "nss ! i" name] tok_first_eq(2) [of "nls ! i" "pl @ junk" "nss ! i" "''x''"]
        p [OF that] by (auto simp: guesses_def)
    then show thesis using that [of "\<lambda>i. the (nl_first (pl @ junk) (nls ! i))"] by blast
  qed
  have w: "\<not> w16 (off + 1) > length pl" using r(2) assms(5) by simp
  show ?thesis
    unfolding negotiate_def r(1) bind.simps option.case prod.case if_not_P [OF w] r(3)
    by (auto simp: has tok teq Let_def)
qed

text \<open>C8. Algorithm negotiation is exact.  On every well-formed KEXINIT (a 16-byte cookie, ten lists of
  names, the follow flag), wherever it lies in the input buffer and whatever follows it, \<open>negotiate\<close>
  succeeds exactly when the client offers a curve25519-sha256 key exchange, an ssh-ed25519 host key
  and chacha20-poly1305 in both directions, at any place of its lists; and it arranges to drop the
  next packet exactly when the client has sent a guess and its first choices differ from these.\<close>

theorem negotiate_exact:
  assumes "length cookie = 16" "length nss = 10" "list_all (list_all plain_name) nss"
    "pl = kexinit_payload cookie nss ff rest" "length pl < 65536"
  shows "negotiate (pl @ junk) (length pl) s =
    Some (if (offers (nss ! 0) ''curve25519-sha256'' \<or> offers (nss ! 0) ''curve25519-sha256@libssh.org'')
             \<and> offers (nss ! 1) ''ssh-ed25519''
             \<and> offers (nss ! 2) ''chacha20-poly1305@openssh.com'' \<and> offers (nss ! 3) ''chacha20-poly1305@openssh.com''
          then (Negotiated, s\<lparr>cli_first_follows := ff, discard_next := (ff \<noteq> 0
                  \<and> \<not> ((guesses (nss ! 0) ''curve25519-sha256'' \<or> guesses (nss ! 0) ''curve25519-sha256@libssh.org'')
                        \<and> guesses (nss ! 1) ''ssh-ed25519''))\<rparr>)
          else (NoCommon, s\<lparr>cli_first_follows := ff\<rparr>))"
  by (rule negotiate_eq [OF assms])

definition wit_names :: "byte list list list" where
  "wit_names = [[str ''curve25519-sha256''], [str ''ssh-ed25519''], [str ''chacha20-poly1305@openssh.com''],
     [str ''chacha20-poly1305@openssh.com''], [], [], [], [], [], []]"

definition wit_kexinit :: "byte list" where
  "wit_kexinit = kexinit_payload (replicate 16 0) wit_names 0 [0, 0, 0, 0]"

lemma wit_kexinit_ok:
  "length wit_names = 10" "list_all (list_all plain_name) wit_names" "length wit_kexinit < 65536"
  by (simp_all add: wit_kexinit_def kexinit_payload_def wit_names_def put_str_def put_u32_def plain_name_def str_def)

theorem negotiate_exact_witness:
  "negotiate (wit_kexinit @ [1, 2, 3]) (length wit_kexinit) ssh_zero
     = Some (Negotiated, ssh_zero\<lparr>cli_first_follows := 0, discard_next := False\<rparr>)"
  using negotiate_exact [OF _ wit_kexinit_ok(1,2) wit_kexinit_def wit_kexinit_ok(3), of "[1, 2, 3]" ssh_zero]
  by (simp add: wit_names_def offers_def)

end
