(* ===== verification/Sshkex.thy ===== *)
theory Sshkex
  imports Sshsession Sshnego
begin

text \<open>
  The key exchange of \<open>ssh.c\<close> against RFC 4253 and RFC 5656: the exchange hash, which the program
  computes in pieces over two packets, the session identifier, the derived keys and the encoding of
  the shared secret.
\<close>

section \<open>The transcript hash\<close>

lemma hash_str_absorbed: "absorbed msg h \<Longrightarrow> absorbed (msg @ put_str xs) (hash_str xs h)"
  using update_absorbed [OF update_absorbed, of msg h "put_u32 (length xs)" xs] update_absorbed [of msg h "put_u32 0"]
  by (simp add: hash_str_def put_str_def Let_def)

lemma kexinit_transcript:
  assumes "length (sha_data (hctx s)) = 64" "handle_kexinit pl n s = Some t" "ssh_st s = SSH_ST_EXPECT_KEXINIT"
    "ssh_st t = SSH_ST_EXPECT_ECDH_INIT"
  shows "absorbed (put_str (cli_ver s) @ put_str SERVER_ID @ put_str (take n pl) @ put_str (i_s s)) (hctx t)
    \<and> have_session_id t = have_session_id s \<and> g_hostkey_pk t = g_hostkey_pk s"
proof -
  obtain r s' where r: "negotiate pl n s = Some (r, s')" and t: "handle_kexinit pl n s = Some t"
    using assms(2) by (auto simp: handle_kexinit_def bind_eq_Some_conv)
  obtain ff d where s': "s' = s\<lparr>cli_first_follows := ff, discard_next := d\<rparr>" using negotiate_upd [OF r] by blast
  have "absorbed [] (sha256_init (hctx s))" by (rule init_absorbed [OF assms(1)])
  from hash_str_absorbed [OF hash_str_absorbed [OF hash_str_absorbed [OF hash_str_absorbed [OF this]]],
      of "cli_ver s" SERVER_ID "take n pl" "i_s s"]
  show ?thesis
    using t assms(3,4) r s'
    by (cases r) (auto simp: handle_kexinit_def fail_def slice_def Let_def split: if_splits)
qed

section \<open>The reply\<close>

lemma sent_only_kex:
  assumes "sent_only s t"
  shows "g_H t = g_H s" "session_id t = session_id s" "g_kmpint t = g_kmpint s" "hctx t = hctx s" "g_eph_sk t = g_eph_sk s"
    "g_hostkey_pk t = g_hostkey_pk s" "have_session_id t = have_session_id s" "ek_c2s t = ek_c2s s" "ek_s2c t = ek_s2c s"
    "g_ks_blob t = g_ks_blob s" "g_q_c t = g_q_c s" "g_q_s t = g_q_s s" "g_k_raw t = g_k_raw s"
  using assms by (auto simp: sent_only_def)

lemmas packet_kex [simp] = sent_only_kex [OF sent_only_packet]
lemmas rand_kex [simp] = sent_only_kex [OF sent_only_rand]

definition two_blocks :: "byte list \<Rightarrow> byte list \<Rightarrow> byte list \<Rightarrow> byte \<Rightarrow> byte list" where
  "two_blocks K H sid letter =
     (let k1 = sha_spec (K @ H @ [letter] @ sid) in k1 @ sha_spec (K @ H @ k1))"

lemma derive_key_64: "derive_key K H sid letter 64 = two_blocks K H sid letter"
  unfolding derive_key_def two_blocks_def Let_def
  by (simp add: derive_loop.simps sha256_spec [symmetric])

lemma reply_fields:
  assumes "absorbed m (hctx s)" "\<not> have_session_id s" "ssh_st (ecdh_reply cr qc s) = SSH_ST_EXPECT_CLIENT_NEWKEYS"
    "ssh_st s = SSH_ST_EXPECT_ECDH_INIT"
  defines "u \<equiv> ecdh_reply cr qc s"
  shows "g_H u = sha_spec (m @ put_str (build_ks_blob (g_hostkey_pk s)) @ put_str qc
            @ put_str (x25519_public_key cr (g_eph_sk u)) @ build_kmpint (x25519 cr (g_eph_sk u) qc))"
    "session_id u = g_H u"
    "ek_c2s u = two_blocks (build_kmpint (x25519 cr (g_eph_sk u) qc)) (g_H u) (g_H u) 0x43"
    "ek_s2c u = two_blocks (build_kmpint (x25519 cr (g_eph_sk u) qc)) (g_H u) (g_H u) 0x44"
proof -
  define sk where "sk = fst (rand cr 32 (s\<lparr>g_q_c := qc\<rparr>))"
  define s1 where "s1 = snd (rand cr 32 (s\<lparr>g_q_c := qc\<rparr>))"
  have s1: "hctx s1 = hctx s" "have_session_id s1 = have_session_id s" "g_hostkey_pk s1 = g_hostkey_pk s" "g_q_c s1 = qc"
    by (simp_all add: s1_def)
  define s2 where "s2 = s1\<lparr>g_eph_sk := sk, g_q_s := x25519_public_key cr sk, g_k_raw := x25519 cr sk qc\<rparr>"
  have s2: "g_k_raw s2 = x25519 cr sk qc" "g_hostkey_pk s2 = g_hostkey_pk s" "g_q_c s2 = qc" "g_q_s s2 = x25519_public_key cr sk"
    "hctx s2 = hctx s" "have_session_id s2 = have_session_id s"
    by (simp_all add: s2_def s1)
  note reply = ecdh_reply_def [of cr qc s, unfolded Let_def case_prod_beta, folded sk_def s1_def, folded s2_def]
  have "ssh_st s2 \<noteq> SSH_ST_EXPECT_CLIENT_NEWKEYS"
    using sent_only_state [OF sent_only_rand [of "s\<lparr>g_q_c := qc\<rparr>" cr 32]] assms(4) by (auto simp: s2_def s1_def)
  then have nz: "\<not> list_all (\<lambda>b. b = 0) (g_k_raw s2)" using assms(3) unfolding reply by (auto simp: fail_def split: if_splits)
  define K where "K = build_kmpint (x25519 cr sk qc)"
  define h where "h = sha256_final (sha256_update K (hash_str (x25519_public_key cr sk)
     (hash_str qc (hash_str (build_ks_blob (g_hostkey_pk s)) (hctx s)))))"
  have "fst h = sha_spec (m @ put_str (build_ks_blob (g_hostkey_pk s)) @ put_str qc @ put_str (x25519_public_key cr sk) @ K)"
    unfolding h_def using final_absorbed [OF update_absorbed [OF hash_str_absorbed [OF hash_str_absorbed [OF hash_str_absorbed
            [OF assms(1)]]], of "build_ks_blob (g_hostkey_pk s)" qc "x25519_public_key cr sk" K]]
    by simp
  moreover have "\<exists>rep. u = (send_packet cr [21] ((send_packet cr rep
      (s2\<lparr>g_kmpint := K, g_ks_blob := build_ks_blob (g_hostkey_pk s), hctx := snd h, g_H := fst h, session_id := fst h, have_session_id := True\<rparr>))
        \<lparr>ek_c2s := derive_key K (fst h) (fst h) 0x43 64, ek_s2c := derive_key K (fst h) (fst h) 0x44 64, keys_ready := True\<rparr>))
      \<lparr>send_encrypted := True, ssh_st := SSH_ST_EXPECT_CLIENT_NEWKEYS\<rparr>"
    unfolding u_def reply if_not_P [OF nz] using assms(2) by (simp add: s2 K_def [symmetric] h_def [symmetric]) blast
  then have "g_eph_sk u = sk" "g_H u = fst h" "session_id u = fst h"
    "ek_c2s u = derive_key K (fst h) (fst h) 0x43 64" "ek_s2c u = derive_key K (fst h) (fst h) 0x44 64"
    by (auto simp: s2_def)
  ultimately show "g_H u = sha_spec (m @ put_str (build_ks_blob (g_hostkey_pk s)) @ put_str qc
            @ put_str (x25519_public_key cr (g_eph_sk u)) @ build_kmpint (x25519 cr (g_eph_sk u) qc))"
    "session_id u = g_H u"
    "ek_c2s u = two_blocks (build_kmpint (x25519 cr (g_eph_sk u) qc)) (g_H u) (g_H u) 0x43"
    "ek_s2c u = two_blocks (build_kmpint (x25519 cr (g_eph_sk u) qc)) (g_H u) (g_H u) 0x44"
    by (simp_all add: K_def derive_key_64)
qed

section \<open>The encodings of RFC 4251\<close>

text \<open>Section 5 of the RFC: a string is its length in four bytes, most significant first, and its bytes;
  an mpint is the string of the shortest big-endian bytes of a number, none for zero, with a
  leading zero byte when the first bit would be taken for a sign.\<close>

definition ssh_string :: "byte list \<Rightarrow> byte list" where
  "ssh_string xs = map (\<lambda>k. of_nat (length xs div 256 ^ k)) [3, 2, 1, 0] @ xs"

definition be_num :: "byte list \<Rightarrow> nat" where
  "be_num bs = foldl (\<lambda>n b. 256 * n + unat b) 0 bs"

fun be_bytes :: "nat \<Rightarrow> byte list" where
  "be_bytes n = (if n = 0 then [] else be_bytes (n div 256) @ [of_nat (n mod 256)])"

declare be_bytes.simps [simp del]

definition mpint :: "nat \<Rightarrow> byte list" where
  "mpint n = ssh_string (case be_bytes n of [] \<Rightarrow> [] | b # bs \<Rightarrow> if unat b \<ge> 128 then 0 # b # bs else b # bs)"

lemma byte_of_length: "k + 8 \<le> 32 \<Longrightarrow> ucast (drop_bit k (of_nat n :: u32)) = (of_nat (n div 2 ^ k) :: byte)"
  unfolding drop_bit_eq_div [symmetric]
  by (rule bit_word_eqI) (simp add: bit_simps)

lemma put_str_string: "put_str xs = ssh_string xs"
  using byte_of_length [of 24 "length xs"] byte_of_length [of 16 "length xs"] byte_of_length [of 8 "length xs"]
    byte_of_length [of 0 "length xs"]
  by (simp add: put_str_def put_u32_def ssh_string_def be32_def)

lemma be_num_snoc [simp]: "be_num [] = 0" "be_num (bs @ [b]) = 256 * be_num bs + unat b"
  by (simp_all add: be_num_def)

lemma be_num_Cons: "be_num (b # bs) = unat b * 256 ^ length bs + be_num bs"
proof (induction bs rule: rev_induct)
  case (snoc x xs)
  have "be_num (b # xs @ [x]) = 256 * be_num (b # xs) + unat x" using be_num_snoc(2) [of "b # xs" x] by simp
  with snoc show ?case by (simp add: algebra_simps)
qed (use be_num_snoc(2) [of "[]" b] in simp)

lemma be_bytes_num: "bs \<noteq> [] \<Longrightarrow> hd bs \<noteq> 0 \<Longrightarrow> be_bytes (be_num bs) = bs"
proof (induction bs rule: rev_induct)
  case (snoc x xs)
  have x: "unat x < 256" by (rule unat_byte_less)
  then have d: "be_num (xs @ [x]) div 256 = be_num xs" "be_num (xs @ [x]) mod 256 = unat x" by simp_all
  show ?case
  proof (cases "xs = []")
    case True
    then have "be_num (xs @ [x]) = unat x" by (simp add: be_num_def)
    with True snoc.prems x show ?thesis by (simp add: be_bytes.simps [of "unat x"] be_bytes.simps [of 0] unat_eq_0)
  next
    case False
    with snoc have ih: "be_bytes (be_num xs) = xs" by simp
    with False have "be_num xs \<noteq> 0" using be_bytes.simps [of 0] by metis
    then have "be_num (xs @ [x]) \<noteq> 0" by simp
    then show ?thesis unfolding be_bytes.simps [of "be_num (xs @ [x])"] d ih by simp
  qed
qed simp

lemma byte_sign_bit: "(b AND 0x80 \<noteq> 0) = (unat b \<ge> 128)" for b :: byte
proof -
  have lt: "unat b < 256" by (rule unat_byte_less)
  have "b AND 0x80 = b AND push_bit 7 1" by simp
  also have "\<dots> \<noteq> 0 \<longleftrightarrow> bit b 7"
    by (metis and_exp_eq_0_iff_not_bit push_bit_of_1)
  also have "\<dots> \<longleftrightarrow> odd (unat b div 128)"
  proof -
    have "bit (unat b) 7 = bit b 7" by (simp add: bit_unsigned_iff)
    then show ?thesis using bit_iff_odd [of "unat b" 7] by simp
  qed
  also have "\<dots> \<longleftrightarrow> unat b \<ge> 128"
  proof (cases "unat b \<ge> 128")
    case True
    then have "unat b div 128 = 1" using lt by auto
    with True show ?thesis by simp
  qed simp
  finally show ?thesis .
qed

text \<open>The program's encodings of the shared secret and of the host key.\<close>

lemma kmpint_mpint: "build_kmpint raw = mpint (be_num raw)"
proof -
  define v where "v = dropWhile (\<lambda>b. b = 0) raw"
  have n: "be_num raw = be_num v"
    unfolding v_def by (induction raw) (simp_all add: be_num_Cons)
  have m: "build_kmpint raw = (if v = [] then put_str [] else if unat (hd v) \<ge> 128 then put_str (0 # v) else put_str v)"
    unfolding build_kmpint_def Let_def v_def [symmetric] byte_sign_bit by (simp add: put_str_def)
  show ?thesis
  proof (cases v)
    case Nil
    with n m show ?thesis by (simp add: mpint_def be_bytes.simps [of 0] put_str_string)
  next
    case (Cons b bs)
    then have "be_bytes (be_num v) = v"
      using hd_dropWhile [of "\<lambda>b. b = 0" raw] by (intro be_bytes_num) (auto simp: v_def)
    with n m Cons show ?thesis by (simp add: mpint_def put_str_string)
  qed
qed

lemma ks_blob_string: "build_ks_blob pk = ssh_string (str ''ssh-ed25519'') @ ssh_string pk"
  by (simp add: build_ks_blob_def put_str_string)

text \<open>C5. The exchange hash and the keys are the standard's.  When the client's KEXINIT and
  KEX_ECDH_INIT have been accepted, the hash the program computed in pieces is the SHA-256 digest of
  the client and server identification strings, the two KEXINIT payloads, the host key blob (the
  strings \<open>ssh-ed25519\<close> and the public key), both ephemeral public keys, each as a string of RFC 4251,
  and the X25519 result, read as a big-endian number, as an mpint of RFC 4251; it becomes the session
  identifier; and the 64-byte keys of the two directions are the first two digest blocks RFC 4253
  derives from that mpint and the hash with the letters C and D.\<close>

theorem exchange_hash:
  assumes "length (sha_data (hctx s)) = 64" "\<not> have_session_id s" "ssh_st s = SSH_ST_EXPECT_KEXINIT"
    "handle_kexinit pl n s = Some t" "ssh_st t = SSH_ST_EXPECT_ECDH_INIT"
    "handle_ecdh_init cr pl' n' (t\<lparr>ib := b, ib_len := k, recv_seq := q\<rparr>) = Some u" "ssh_st u = SSH_ST_EXPECT_CLIENT_NEWKEYS"
  shows "\<exists>qc K. slice pl' 5 32 = Some qc \<and> K = mpint (be_num (x25519 cr (g_eph_sk u) qc))
     \<and> g_H u = sha_spec (ssh_string (cli_ver s) @ ssh_string SERVER_ID @ ssh_string (take n pl) @ ssh_string (i_s s)
          @ ssh_string (ssh_string (str ''ssh-ed25519'') @ ssh_string (g_hostkey_pk s))
          @ ssh_string qc @ ssh_string (x25519_public_key cr (g_eph_sk u)) @ K)
     \<and> session_id u = g_H u
     \<and> ek_c2s u = two_blocks K (g_H u) (session_id u) 0x43 \<and> ek_s2c u = two_blocks K (g_H u) (session_id u) 0x44"
proof -
  let ?t = "t\<lparr>ib := b, ib_len := k, recv_seq := q\<rparr>"
  have t: "absorbed (put_str (cli_ver s) @ put_str SERVER_ID @ put_str (take n pl) @ put_str (i_s s)) (hctx ?t)"
    "\<not> have_session_id ?t" "g_hostkey_pk ?t = g_hostkey_pk s" "ssh_st ?t = SSH_ST_EXPECT_ECDH_INIT"
    using kexinit_transcript [OF assms(1,4,3,5)] assms(2,5) by simp_all
  obtain qc where qc: "slice pl' 5 32 = Some qc" "u = ecdh_reply cr qc ?t"
    using assms(6,7) t(4) by (auto simp: handle_ecdh_init_def bind_eq_Some_conv fail_def split: if_splits)
  note f = reply_fields [OF t(1,2) _ t(4), of cr qc, folded qc(2), OF assms(7), unfolded kmpint_mpint ks_blob_string put_str_string]
  show ?thesis using qc(1) f t(3) by (intro exI [of _ qc] exI) auto
qed

theorem exchange_hash_witness:
  "\<exists>t u. handle_kexinit wit_kexinit (length wit_kexinit) (ssh_zero\<lparr>ssh_st := SSH_ST_EXPECT_KEXINIT\<rparr>) = Some t
     \<and> handle_ecdh_init toy_crypto ([30] @ put_str (replicate 32 1)) 37 t = Some u
     \<and> session_id u = g_H u \<and> ek_c2s u = two_blocks (ssh_string (replicate 32 1)) (g_H u) (g_H u) 0x43"
proof -
  let ?s = "ssh_zero\<lparr>ssh_st := SSH_ST_EXPECT_KEXINIT\<rparr>" and ?p = "[30] @ put_str (replicate 32 (1 :: byte))"
  have s: "length (sha_data (hctx ?s)) = 64" "\<not> have_session_id ?s" "ssh_st ?s = SSH_ST_EXPECT_KEXINIT"
    by (simp_all add: ssh_zero_def ssh_conn_zero_def ssh_conn.defs sha_ctx0_def)
  have "\<exists>s'. negotiate wit_kexinit (length wit_kexinit) ?s = Some (Negotiated, s') \<and> \<not> discard_next s'"
    using negotiate_eq [OF _ wit_kexinit_ok(1,2) wit_kexinit_def wit_kexinit_ok(3), of "[]" ?s]
    by (simp add: wit_names_def offers_def)
  then obtain t where t: "handle_kexinit wit_kexinit (length wit_kexinit) ?s = Some t" "ssh_st t = SSH_ST_EXPECT_ECDH_INIT"
    "\<not> discard_next t"
    by (auto simp: handle_kexinit_def slice_def Let_def)
  have b: "t = t\<lparr>ib := ib t, ib_len := ib_len t, recv_seq := recv_seq t\<rparr>" by simp
  have sl: "slice ?p 5 32 = Some (replicate 32 1)" by (simp add: slice_def put_str_def put_u32_def)
  have "rd_len ?p 1 = Some 32"
    using rd_u32_be32 [of 1 ?p "of_nat 32" "replicate 32 1"] by (simp add: rd_len_def put_str_def put_u32_def)
  then have u: "handle_ecdh_init toy_crypto ?p 37 t = Some (ecdh_reply toy_crypto (replicate 32 1) t)"
    using sl t(3) by (simp add: handle_ecdh_init_def del: append_Cons append_Nil)
  have "x25519 toy_crypto k (replicate 32 1) = replicate 32 1" for k by (simp add: toy_crypto_def)
  then have e: "ssh_st (ecdh_reply toy_crypto (replicate 32 1) t) = SSH_ST_EXPECT_CLIENT_NEWKEYS"
    unfolding ecdh_reply_def Let_def case_prod_beta by (simp add: list_all_iff)
  have "be_bytes (be_num (replicate 32 1)) = replicate 32 1" by (rule be_bytes_num) simp_all
  then have K: "mpint (be_num (x25519 toy_crypto k (replicate 32 1))) = ssh_string (replicate 32 1)" for k
    by (simp add: mpint_def toy_crypto_def numeral_eq_Suc)
  from exchange_hash [OF s t(1,2) _ e, of toy_crypto ?p 37 "recv_seq t" "ib_len t" "ib t"] u b sl
  show ?thesis using t(1) by (auto simp: K simp del: append_Cons append_Nil)
qed

end
