(* ===== verification/Sshinput.thy ===== *)
theory Sshinput
  imports Sshsession
begin

text \<open>
  The inbound path of \<open>ssh.c\<close>: packet decoding and the loop of \<open>ssh_input\<close>.  The first part shows
  what handlers leave alone (the input buffer, the configuration); then the invariant of theory
  Sshsession is carried over whole calls.
\<close>

section \<open>What handlers leave alone\<close>

definition key_len :: "ssh \<Rightarrow> bool" where
  "key_len s \<longleftrightarrow> length (ek_c2s s) = 64 \<and> length (ek_s2c s) = 64"

definition keeps :: "ssh \<Rightarrow> ssh \<Rightarrow> bool" where
  "keeps s t \<longleftrightarrow> ib t = ib s \<and> ib_len t = ib_len s \<and> recv_seq t = recv_seq s
     \<and> g_password t = g_password s \<and> g_have_password t = g_have_password s \<and> g_authkeys t = g_authkeys s
     \<and> (key_len s \<longrightarrow> key_len t)"

lemma keeps_refl [simp]: "keeps s s"
  by (simp add: keeps_def)

lemma keeps_sent: "sent_only s t \<Longrightarrow> keeps s t"
  by (simp add: keeps_def key_len_def sent_only_frame)

lemma keeps_trans: "keeps s t \<Longrightarrow> keeps t u \<Longrightarrow> keeps s u"
  by (simp add: keeps_def)

lemma keeps_packet [simp]: "keeps s t \<Longrightarrow> keeps s (send_packet cr p t)"
  by (simp add: keeps_def key_len_def)

lemma keeps_fail [simp]: "keeps s t \<Longrightarrow> keeps s (fail why t)"
  by (simp add: keeps_def key_len_def)

lemma keeps_fields [simp]:
  "keeps s (t\<lparr>term_cols := a\<rparr>) = keeps s t" "keeps s (t\<lparr>term_rows := b\<rparr>) = keeps s t" "keeps s (t\<lparr>pty := p\<rparr>) = keeps s t"
  "keeps s (t\<lparr>shell_ready := q\<rparr>) = keeps s t" "keeps s (t\<lparr>peer_window := w\<rparr>) = keeps s t"
  "keeps s (t\<lparr>local_window := w\<rparr>) = keeps s t" "keeps s (t\<lparr>g_cout := xs\<rparr>) = keeps s t"
  "keeps s (t\<lparr>g_cin := xs\<rparr>) = keeps s t" "keeps s (t\<lparr>g_cin_tail := n\<rparr>) = keeps s t"
  "keeps s (t\<lparr>chan_open := o'\<rparr>) = keeps s t" "keeps s (t\<lparr>peer_chan := v\<rparr>) = keeps s t"
  "keeps s (t\<lparr>peer_maxpkt := v\<rparr>) = keeps s t" "keeps s (t\<lparr>local_chan := v\<rparr>) = keeps s t"
  "keeps s (t\<lparr>chan_eof := e\<rparr>) = keeps s t" "keeps s (t\<lparr>chan_sent_eof := e\<rparr>) = keeps s t"
  "keeps s (t\<lparr>chan_sent_close := e\<rparr>) = keeps s t" "keeps s (t\<lparr>chan_closed := e\<rparr>) = keeps s t"
  "keeps s (t\<lparr>ssh_st := st\<rparr>) = keeps s t" "keeps s (t\<lparr>auth_user := u\<rparr>) = keeps s t"
  "keeps s (t\<lparr>auth_fails := n\<rparr>) = keeps s t" "keeps s (t\<lparr>authenticated := e\<rparr>) = keeps s t"
  "keeps s (t\<lparr>svc_name := xs\<rparr>) = keeps s t" "keeps s (t\<lparr>svc_done := e\<rparr>) = keeps s t"
  "keeps s (t\<lparr>recv_encrypted := e\<rparr>) = keeps s t" "keeps s (t\<lparr>send_encrypted := e\<rparr>) = keeps s t"
  "keeps s (t\<lparr>discard_next := e\<rparr>) = keeps s t" "keeps s (t\<lparr>cli_first_follows := by\<rparr>) = keeps s t"
  "keeps s (t\<lparr>hctx := h\<rparr>) = keeps s t" "keeps s (t\<lparr>g_q_c := xs\<rparr>) = keeps s t" "keeps s (t\<lparr>g_H := xs\<rparr>) = keeps s t"
  "keeps s (t\<lparr>session_id := xs\<rparr>) = keeps s t" "keeps s (t\<lparr>have_session_id := e\<rparr>) = keeps s t"
  "keeps s (t\<lparr>keys_ready := e\<rparr>) = keeps s t"
  "keeps s (t\<lparr>g_kmpint := xs\<rparr>) = keeps s t" "keeps s (t\<lparr>g_ks_blob := xs\<rparr>) = keeps s t"
  "keeps s (t\<lparr>g_eph_sk := xs\<rparr>) = keeps s t" "keeps s (t\<lparr>g_q_s := xs\<rparr>) = keeps s t" "keeps s (t\<lparr>g_k_raw := xs\<rparr>) = keeps s t"
  by (simp_all add: keeps_def key_len_def)

lemma keeps_keys [simp]:
  "keeps s t \<Longrightarrow> length xs = 64 \<Longrightarrow> keeps s (t\<lparr>ek_c2s := xs\<rparr>)"
  "keeps s t \<Longrightarrow> length xs = 64 \<Longrightarrow> keeps s (t\<lparr>ek_s2c := xs\<rparr>)"
  by (simp_all add: keeps_def key_len_def)

lemma keeps_rand [simp]: "keeps s t \<Longrightarrow> keeps s (snd (rand cr n t))"
  by (simp add: keeps_def key_len_def)

lemma keeps_auth [simp]:
  assumes "keeps s t"
  shows "keeps s (auth_reject cr c t)" "keeps s (send_userauth_success cr t)"
  using assms by (simp_all add: auth_reject_def send_disconnect_def send_userauth_failure_def send_userauth_success_def Let_def)

lemma keeps_negotiate: "ensures (negotiate pl len s) (\<lambda>(_, t). keeps s t)"
  using negotiate_upd [of pl len s] by (force simp: ensures_def)

lemma keeps_kexinit: "ensures (handle_kexinit pl plen s) (keeps s)"
  unfolding handle_kexinit_def
proof (rule ensures_seq [OF keeps_negotiate], goal_cases)
  case (1 x)
  obtain r t where x: "x = (r, t)" by (cases x)
  have "keeps s t" using 1 x by simp
  then show ?case unfolding x by (cases r) (auto simp: ensures_def bind_eq_Some_conv Let_def)
qed

lemma keeps_ecdh_reply: "keeps s (ecdh_reply cr qc s)"
proof -
  define t where "t = rand cr 32 (s\<lparr>g_q_c := qc\<rparr>)"
  have t: "keeps s (snd t)" by (simp add: t_def)
  show ?thesis unfolding ecdh_reply_def Let_def case_prod_beta t_def [symmetric] by (simp add: t)
qed

lemma keeps_handlers [wp]:
  "ensures (handle_ecdh_init cr pl plen s) (keeps s)" "ensures (handle_service_request cr pl plen s) (keeps s)"
  "ensures (handle_channel_open cr pl plen s) (keeps s)" "ensures (handle_channel_window_adjust pl plen s) (keeps s)"
  "ensures (handle_global_request cr pl plen s) (keeps s)"
  unfolding handle_ecdh_init_def handle_service_request_def handle_channel_open_def
    handle_channel_window_adjust_def handle_global_request_def
  by (intro wp; simp add: keeps_ecdh_reply)+

lemma keeps_pk_ok [wp]: "keeps s t \<Longrightarrow> ensures (send_pk_ok cr pl a b t) (keeps s)"
  unfolding send_pk_ok_def by (intro wp) simp_all

lemma keeps_pk_signed [wp]: "keeps s t \<Longrightarrow> ensures (pubkey_signed cr pl plen off u v a b key t) (keeps s)"
  unfolding pubkey_signed_def by (intro wp) simp_all

lemma keeps_pk_offer [wp]: "keeps s t \<Longrightarrow> ensures (pubkey_offer cr pl plen off fl u v a b t) (keeps s)"
  unfolding pubkey_offer_def by (intro wp) simp_all

lemma keeps_pubkey [wp]: "keeps s t \<Longrightarrow> ensures (handle_pubkey_auth cr pl plen off u v t) (keeps s)"
  unfolding handle_pubkey_auth_def by (intro wp) simp_all

lemma keeps_password [wp]: "keeps s t \<Longrightarrow> ensures (handle_password_auth cr pl plen off t) (keeps s)"
  unfolding handle_password_auth_def by (intro wp) simp_all

lemma keeps_userauth: "ensures (handle_userauth_request cr pl plen s) (keeps s)"
  unfolding handle_userauth_request_def by (intro wp) simp_all

lemma keeps_winsize: "keeps s t \<Longrightarrow> ensures (set_winsize pl plen off t) (keeps s)"
  unfolding set_winsize_def by (intro wp) simp_all

lemma keeps_request: "ensures (handle_channel_request cr pl plen s) (keeps s)"
proof -
  have pty: "ensures (do { s \<leftarrow> (if w16 (off + 4) \<le> plen
                   then do { tl \<leftarrow> rd_len pl off; set_winsize pl plen (w16 (off + (4 + tl))) s }
                   else Some s);
             Some (True, s\<lparr>pty := True\<rparr>) }) (\<lambda>(_, t). keeps s t)" for off
    by (rule ensures_seq [where Q = "keeps s"]) (intro wp keeps_winsize keeps_refl | simp)+
  have win: "ensures (do { s \<leftarrow> set_winsize pl plen off s; Some (True, s) }) (\<lambda>(_, t). keeps s t)" for off
    by (rule ensures_map_pair) (simp add: keeps_winsize)
  show ?thesis
    unfolding handle_channel_request_def Let_def chan_reply_def
    by (intro wp ensures_seq [where Q = "\<lambda>(_, t). keeps s t" and f = "case_prod _"] pty win) auto
qed

lemma keeps_cin: "keeps s t \<Longrightarrow> ensures (cin_loop pl i k t) (keeps s)"
proof (induction k arbitrary: i t)
  case (Suc k)
  have "keeps s (cin_put b t)" for b using Suc.prems by (simp add: cin_put_def Let_def)
  then show ?case by (simp, intro conjI impI wp Suc) (simp_all add: Suc.prems)
qed (simp add: ensures_def)

lemma keeps_data: "ensures (handle_channel_data cr pl plen s) (keeps s)"
  unfolding handle_channel_data_def Let_def adjust_local_window_def
  by (intro wp ensures_seq [OF keeps_cin [OF keeps_refl]]) simp_all

lemma keeps_flush_loop: "keeps s t \<Longrightarrow> keeps s (snd (flush_loop cr rest t))"
proof (induction cr rest t rule: flush_loop.induct)
  case (1 cr rest t)
  then show ?case by (subst flush_loop.simps) (simp add: Let_def)
qed

lemma keeps_close [simp]: "keeps s t \<Longrightarrow> keeps s (ssh_channel_close cr t)"
  using keeps_flush_loop [of s t cr "g_cout t"]
  by (simp add: ssh_channel_close_def ssh_channel_flush_def Let_def case_prod_beta)

lemma keeps_session: "ensures (handle_session cr msg pl plen s) (keeps s)"
  unfolding handle_session_def by (intro wp keeps_request keeps_data) simp_all

lemma packet_keeps: "ensures (handle_packet cr pl plen s) (keeps s)"
proof -
  have d: "ensures (case ssh_st s of
            SSH_ST_EXPECT_KEXINIT \<Rightarrow> if msg \<noteq> 20 then Some (fail ''expected KEXINIT'' s) else handle_kexinit pl plen s
          | SSH_ST_EXPECT_ECDH_INIT \<Rightarrow> if msg \<noteq> 30 \<and> \<not> discard_next s then Some (fail ''expected KEX_ECDH_INIT'' s) else handle_ecdh_init cr pl plen s
          | SSH_ST_EXPECT_CLIENT_NEWKEYS \<Rightarrow> if msg \<noteq> 21 then Some (fail ''expected NEWKEYS'' s) else Some (handle_client_newkeys s)
          | SSH_ST_EXPECT_SERVICE_REQUEST \<Rightarrow> if msg \<noteq> 5 then Some (fail ''expected SERVICE_REQUEST'' s) else handle_service_request cr pl plen s
          | SSH_ST_AUTH \<Rightarrow> if msg = 50 then handle_userauth_request cr pl plen s else Some s
          | SSH_ST_SESSION \<Rightarrow> handle_session cr msg pl plen s
          | _ \<Rightarrow> Some (fail ''unexpected packet'' s)) (keeps s)" for msg
    by (cases "ssh_st s")
      (simp_all add: keeps_kexinit keeps_handlers keeps_userauth keeps_session ensures_Some handle_client_newkeys_def)
  show ?thesis
    unfolding handle_packet_def
    by (intro ensures_bind ensures_if keeps_handlers d) (simp_all add: ensures_def)
qed

section \<open>One iteration of the input loop\<close>

definition buf_ok :: "ssh \<Rightarrow> bool" where
  "buf_ok s \<longleftrightarrow> length (ib s) = SSH_IB_SZ \<and> ib_len s \<le> SSH_IB_SZ"

lemma buf_ok_keeps: "keeps s t \<Longrightarrow> buf_ok s \<Longrightarrow> buf_ok t"
  by (simp add: buf_ok_def keeps_def)

lemma key_len_fields [simp]: "key_len (s\<lparr>recv_seq := q\<rparr>) = key_len s" "key_len (s\<lparr>ssh_st := st\<rparr>) = key_len s"
  "key_len (s\<lparr>cli_ver := v\<rparr>) = key_len s" "key_len (s\<lparr>g_ob := ob\<rparr>) = key_len s" "key_len (s\<lparr>ib := xs\<rparr>) = key_len s"
  "key_len (s\<lparr>ib_len := n\<rparr>) = key_len s" "key_len (fail why s) = key_len s" "key_len (ib_consume k s) = key_len s"
  by (simp_all add: key_len_def ib_consume_def Let_def)

lemma buf_ok_consume [simp]: "buf_ok s \<Longrightarrow> buf_ok (ib_consume k s)"
  by (auto simp: buf_ok_def ib_consume_def Let_def)

lemma buf_ok_fields [simp]: "buf_ok (s\<lparr>recv_seq := q\<rparr>) = buf_ok s" "buf_ok (s\<lparr>ssh_st := st\<rparr>) = buf_ok s"
  "buf_ok (s\<lparr>cli_ver := v\<rparr>) = buf_ok s" "buf_ok (s\<lparr>g_ob := ob\<rparr>) = buf_ok s"
  by (simp_all add: buf_ok_def)

text \<open>The configuration is the same, and if the connection became authenticated, some state on the
  way was waiting for authentication and met a request that is granted there.\<close>

definition admitted :: "crypto \<Rightarrow> ssh \<Rightarrow> byte list \<Rightarrow> bool" where
  "admitted cr s pkt \<longleftrightarrow> open_request s pkt \<or> password_request s pkt \<or> pubkey_request cr s pkt"

definition same_conf :: "ssh \<Rightarrow> ssh \<Rightarrow> bool" where
  "same_conf s t \<longleftrightarrow> g_password t = g_password s \<and> g_have_password t = g_have_password s \<and> g_authkeys t = g_authkeys s"

text \<open>The packet the next iteration of the input loop hands to \<open>handle_packet\<close>, with the state it is
  handled in: on the encrypted transport it is complete, its tag is the one of the received bytes
  under the connection's key and sequence number, and the payload is their decryption.\<close>

definition arrival :: "crypto \<Rightarrow> ssh \<Rightarrow> (ssh \<times> byte list) option" where
  "arrival cr s =
     (if ssh_st s = SSH_ST_VERSION \<or> ib_len s < 4 then None
      else if \<not> recv_encrypted s then
        do { n \<leftarrow> rd_len (ib s) 0; p \<leftarrow> rd_byte (ib s) 4;
             if n < unat p + 1 then None else Some (s, take (n - 1 - unat p) (drop 5 (ib s))) }
      else
        do { let nonce = seqbuf8 (recv_seq s);
             n \<leftarrow> rd_len (dossh_chacha20_djb (Some (take 4 (ib s))) 4 (drop 32 (ek_c2s s)) nonce 0) 0;
             covered \<leftarrow> slice (ib s) 0 (4 + n);
             tag \<leftarrow> slice (ib s) (4 + n) 16;
             body \<leftarrow> slice (ib s) 4 n;
             let u = s\<lparr>ib := take 4 (ib s) @ dossh_chacha20_djb (Some body) n (take 32 (ek_c2s s)) nonce 1 @ drop (4 + n) (ib s)\<rparr>;
             p \<leftarrow> rd_byte (ib u) 4;
             if ib_len s < 4 + n + 16 \<or> n < unat p + 1
               \<or> dossh_poly1305 covered (dossh_chacha20_djb None 32 (take 32 (ek_c2s s)) nonce 0) \<noteq> tag then None
             else Some (u, take (n - 1 - unat p) (drop 5 (ib u))) })"

text \<open>The change of the authentication flag between two states is explained by one of the packets
  \<open>R\<close>, in the state it was handled in.\<close>

definition justified :: "crypto \<Rightarrow> (ssh \<times> byte list) set \<Rightarrow> ssh \<Rightarrow> ssh \<Rightarrow> bool" where
  "justified cr R s t \<longleftrightarrow> same_conf s t \<and> (authenticated t \<longrightarrow> authenticated s
     \<or> (\<exists>(u, pkt) \<in> R. same_conf s u \<and> ssh_st u = SSH_ST_AUTH \<and> keyed u \<and> admitted cr u pkt))"

definition good :: "ssh \<Rightarrow> bool" where
  "good s \<longleftrightarrow> buf_ok s \<and> key_len s \<and> sess_inv s"

lemma justified_refl: "justified cr R s s"
  by (simp add: justified_def same_conf_def)

lemma justified_trans: "justified cr R s t \<Longrightarrow> justified cr R t u \<Longrightarrow> justified cr R s u"
  unfolding justified_def same_conf_def by (elim conjE) (smt (verit) case_prodE case_prodI bexE bexI)

lemma justified_mono: "justified cr R s t \<Longrightarrow> R \<subseteq> Q \<Longrightarrow> justified cr Q s t"
  unfolding justified_def by blast

lemma justified_same: "same_conf s t \<Longrightarrow> authenticated t = authenticated s \<Longrightarrow> justified cr R s t"
  by (simp add: justified_def)

lemma scan_version:
  assumes "scan_line buf k i = (Progressed, j)" shows "i \<le> j \<and> j < i + k"
  using assms by (induction k arbitrary: i) (fastforce split: if_splits)+

lemma version_good:
  assumes "good s" "ssh_st s = SSH_ST_VERSION"
  shows "good (snd (try_version s)) \<and> justified cr R s (snd (try_version s))"
proof -
  have "sess_inv (s\<lparr>cli_ver := v, ssh_st := SSH_ST_EXPECT_KEXINIT\<rparr>)" for v
    using assms by (auto simp: good_def sess_inv_def keyed_def session_data_def)
  moreover have "buf_ok (fail why s)" for why using assms(1) by (simp add: good_def buf_ok_def)
  moreover have "same_conf s (ib_consume k t) \<longleftrightarrow> same_conf s t" "authenticated (ib_consume k t) = authenticated t" for k t
    by (simp_all add: same_conf_def ib_consume_def Let_def)
  ultimately show ?thesis
    using assms(1) by (auto simp: try_version_def good_def Let_def justified_refl same_conf_def
        split: prod.splits progress.splits intro!: justified_same)
qed

lemma packet_good:
  assumes "good s" "ssh_st s = SSH_ST_AUTH \<Longrightarrow> plen \<le> length pl \<and> plen \<le> 2043 \<and> (s, take plen pl) \<in> R"
  shows "ensures (handle_packet cr pl plen s) (\<lambda>t. good t \<and> justified cr R s t)"
  unfolding ensures_def
proof (intro allI impI)
  fix t assume t: "handle_packet cr pl plen s = Some t"
  have inv: "sess_inv s" "buf_ok s" using assms(1) by (simp_all add: good_def)
  note st = ensuresD [OF packet_auth_step [OF inv(1)] t]
  have k: "keeps s t" by (rule ensuresD [OF packet_keeps t])
  then have g: "good t" and c: "same_conf s t"
    using st assms(1) buf_ok_keeps [OF k] by (auto simp: good_def auth_step_def same_conf_def keeps_def)
  show "good t \<and> justified cr R s t"
  proof (cases "authenticated t = authenticated s")
    case True then show ?thesis using g c by (simp add: justified_same)
  next
    case False
    then have a: "ssh_st s = SSH_ST_AUTH" "1 \<le> plen" "handle_userauth_request cr pl plen s = Some t"
      using st by (auto simp: auth_step_def)
    have na: "\<not> authenticated s" and ky: "keyed s" using inv(1) a(1) by (auto simp: sess_inv_def)
    have "admitted cr s (take plen pl)"
      using granted_requests [of plen pl s cr] assms(2) a na False by (auto simp: admitted_def)
    then show ?thesis using g c a(1) ky assms(2) by (auto simp: justified_def same_conf_def)
  qed
qed

lemma plain_good:
  assumes "good s" "\<not> recv_encrypted s"
  shows "ensures (try_plain cr s) (\<lambda>(_, t). good t \<and> justified cr R s t)"
proof -
  have na: "ssh_st s \<noteq> SSH_ST_AUTH" using assms by (auto simp: good_def sess_inv_def keyed_def)
  have f: "good (fail why s) \<and> justified cr R s (fail why s)" for why
    using assms(1) by (simp add: good_def buf_ok_def justified_def same_conf_def)
  have c: "good (ib_consume k t\<lparr>recv_seq := q\<rparr>) \<and> justified cr R s (ib_consume k t\<lparr>recv_seq := q\<rparr>)"
    if "good t \<and> justified cr R s t" for k q t
    using that by (auto simp: good_def justified_def same_conf_def ib_consume_def Let_def buf_ok_def)
  show ?thesis
    unfolding try_plain_def Let_def
    by (intro wp ensures_seq [OF packet_good [where R = R, OF assms(1)]]) (simp_all add: f c na assms(1) justified_refl)
qed

lemma cipher_len:
  assumes "w16 (4 + n) \<le> 2048" "n mod 8 = 0" "n < 65536" shows "w16 (4 + n) = 4 + n"
proof (cases "4 + n < 65536")
  case False
  then consider "n = 65532" | "n = 65533" | "n = 65534" | "n = 65535" using assms(3) by linarith
  then show ?thesis using assms(2) by cases simp_all
qed simp

lemma rd_len_less: "rd_len pl i = Some n \<Longrightarrow> n < 65536"
  by (auto simp: rd_len_def)

lemma slice_le: "slice pl i n = Some x \<Longrightarrow> i + n \<le> length pl \<and> length x = n"
  by (auto simp: slice_def split: if_splits)

lemma good_ib: "good s \<Longrightarrow> length xs = SSH_IB_SZ \<Longrightarrow> good (s\<lparr>ib := xs\<rparr>)"
  by (simp add: good_def buf_ok_def)

lemma cipher_good:
  assumes "good s" "recv_encrypted s" "ssh_st s \<noteq> SSH_ST_VERSION" "R = set_option (arrival cr s)"
  shows "ensures (try_cipher cr s) (\<lambda>(_, t). good t \<and> justified cr R s t)"
proof -
  have f: "good (fail why t) \<and> justified cr R s (fail why t)" if "good t \<and> justified cr R s t" for why t
    using that by (simp add: good_def buf_ok_def justified_def same_conf_def)
  have c: "good (ib_consume k t\<lparr>recv_seq := q\<rparr>) \<and> justified cr R s (ib_consume k t\<lparr>recv_seq := q\<rparr>)"
    if "good t \<and> justified cr R s t" for k q t
    using that by (auto simp: good_def justified_def same_conf_def ib_consume_def Let_def buf_ok_def)
  have keys: "length (take 32 (ek_c2s s)) = 32" "length (ib s) = 2048"
    using assms by (simp_all add: good_def key_len_def buf_ok_def SSH_IB_SZ_def)
  have dec: "good (s\<lparr>ib := xs\<rparr>) \<and> justified cr R s (s\<lparr>ib := xs\<rparr>)"
    if n: "rd_len ys 0 = Some n" "n mod 8 = 0" and cv: "slice (ib s) 0 (w16 (4 + n)) = Some cov"
      and b: "slice (ib s) 4 n = Some body"
      and xs: "xs = take 4 (ib s) @ dossh_chacha20_djb (Some body) n (take 32 (ek_c2s s)) (seqbuf8 (recv_seq s)) 1 @ drop (4 + n) (ib s)"
    for ys n cov body xs
  proof -
    have "length xs = 2048"
      using slice_le [OF b] keys by (simp add: xs chacha.crypt_length seqbuf8_def)
    then show ?thesis using good_ib [OF assms(1)] by (simp add: SSH_IB_SZ_def justified_def same_conf_def)
  qed
  have done_ok: "good t \<and> justified cr R s t"
    if "good u" "justified cr R s u" "handle_packet cr (drop 5 (ib u)) m u = Some t" "m \<le> 2043"
      "(u, take m (drop 5 (ib u))) \<in> R" for u t m
  proof -
    have l: "length (drop 5 (ib u)) = 2043" using that(1) by (simp add: good_def buf_ok_def SSH_IB_SZ_def)
    have "good t \<and> justified cr R u t"
      by (rule ensuresD [OF packet_good [OF that(1)] that(3)]) (use that(4,5) l in simp)
    then show ?thesis using that(2) justified_trans by blast
  qed
  have bound: "n \<le> 2044" if "rd_len ys 0 = Some n" "n mod 8 = 0" "slice (ib s) 0 (w16 (4 + n)) = Some cov" for ys n cov
    using cipher_len [of n] rd_len_less [OF that(1)] slice_le [OF that(3)] that(2) keys by auto
  show ?thesis
    unfolding try_cipher_def Let_def
  proof (intro wp, goal_cases)
    case 1 then show ?case by (simp add: assms(1) justified_refl)
  next
    case 2 then show ?case by (simp add: f assms(1) justified_refl)
  next
    case 3 then show ?case by (simp add: assms(1) justified_refl)
  next
    case 4 then show ?case by (simp add: f assms(1) justified_refl)
  next
    case 5 then show ?case by (auto intro!: f dest!: dec)
  next
    case (6 n cov tag body pad t)
    have m8: "n mod 8 = 0" using 6(3) by blast
    note d = dec [OF 6(2) m8 6(5,8)]
    let ?u = "s\<lparr>ib := take 4 (ib s) @ dossh_chacha20_djb (Some body) n (take 32 (ek_c2s s)) (seqbuf8 (recv_seq s)) 1 @ drop (4 + n) (ib s)\<rparr>"
    have n: "n \<le> 2044" using bound [OF 6(2) m8 6(5)] .
    then have w: "w16 (4 + n) = 4 + n" "w16 (4 + n + 16) = 4 + n + 16" by (simp_all add: w16_def)
    have "arrival cr s = Some (?u, take (n - 1 - unat pad) (drop 5 (ib ?u)))"
      using assms(2,3) 6(1,2,4-10) w by (simp add: arrival_def Let_def)
    then have "(?u, take (n - 1 - unat pad) (drop 5 (ib ?u))) \<in> R" using assms(4) by simp
    then have "good t \<and> justified cr R s t" using done_ok [OF _ _ 6(11)] d n by simp
    then show ?case using c by blast
  qed
qed

lemma packet_step_good:
  assumes "good s" "ssh_st s \<noteq> SSH_ST_VERSION"
  shows "ensures (try_packet cr s) (\<lambda>(_, t). good t \<and> justified cr (set_option (arrival cr s)) s t)"
  using plain_good [OF assms(1)] cipher_good [OF assms(1) _ assms(2) refl] by (simp add: try_packet_def)

section \<open>Whole calls\<close>

text \<open>One iteration of the loop; \<open>None\<close> is an out-of-bounds read.\<close>

definition iteration :: "crypto \<Rightarrow> ssh \<Rightarrow> (progress \<times> ssh) option" where
  "iteration cr s = (if ssh_st s = SSH_ST_VERSION then Some (try_version s) else try_packet cr s)"

definition ended :: "ssh \<Rightarrow> bool" where
  "ended s \<longleftrightarrow> ssh_st s = SSH_ST_ERROR \<or> ssh_st s = SSH_ST_CLOSED"

lemma input_loop_Suc:
  "input_loop cr (Suc fuel) s =
     (if ended s then Finished s
      else case iteration cr s of None \<Rightarrow> Fault
           | Some (p, t) \<Rightarrow> (if p = Progressed then input_loop cr fuel t else Finished t))"
  by (auto simp: ended_def iteration_def split: option.splits prod.splits progress.splits)

lemma iteration_good:
  assumes "good s" "iteration cr s = Some (p, t)" shows "good t \<and> justified cr (set_option (arrival cr s)) s t"
  using assms version_good [OF assms(1)] ensuresD [OF packet_step_good [OF assms(1)], of cr "(p, t)"]
  by (auto simp: iteration_def split: if_splits)

text \<open>The packets a run of the loop hands to \<open>handle_packet\<close>.\<close>

primrec arrivals :: "crypto \<Rightarrow> nat \<Rightarrow> ssh \<Rightarrow> (ssh \<times> byte list) set" where
  "arrivals cr 0 s = {}"
| "arrivals cr (Suc fuel) s =
     (if ended s then {}
      else set_option (arrival cr s)
        \<union> (case iteration cr s of Some (p, t) \<Rightarrow> if p = Progressed then arrivals cr fuel t else {} | None \<Rightarrow> {}))"

lemma loop_good:
  "good s \<Longrightarrow> input_loop cr fuel s = Finished t \<Longrightarrow> good t \<and> justified cr (arrivals cr fuel s) s t"
proof (induction fuel arbitrary: s)
  case 0 then show ?case by simp
next
  case (Suc fuel)
  show ?case
  proof (cases "ended s")
    case True with Suc.prems show ?thesis by (simp add: input_loop_Suc justified_refl del: input_loop.simps)
  next
    case False
    with Suc.prems obtain p u where u: "iteration cr s = Some (p, u)"
      by (auto simp: input_loop_Suc simp del: input_loop.simps split: option.splits)
    have g: "good u" "justified cr (arrivals cr (Suc fuel) s) s u"
      using iteration_good [OF Suc.prems(1) u] False by (auto intro: justified_mono)
    show ?thesis
    proof (cases "p = Progressed")
      case True
      then have "input_loop cr fuel u = Finished t"
        using Suc.prems(2) False u by (simp add: input_loop_Suc del: input_loop.simps)
      from Suc.IH [OF g(1) this] have "good t" "justified cr (arrivals cr (Suc fuel) s) u t"
        using False u True by (auto intro: justified_mono)
      then show ?thesis using g(2) justified_trans by blast
    next
      case no: False
      then show ?thesis using Suc.prems(2) False u g by (simp add: input_loop_Suc del: input_loop.simps)
    qed
  qed
qed

definition buffered :: "byte list \<Rightarrow> ssh \<Rightarrow> ssh" where
  "buffered data s =
     s\<lparr>ib := take (ib_len s) (ib s) @ data @ drop (ib_len s + length data) (ib s), ib_len := ib_len s + length data\<rparr>"

definition input_arrivals :: "crypto \<Rightarrow> nat \<Rightarrow> byte list \<Rightarrow> ssh \<Rightarrow> (ssh \<times> byte list) set" where
  "input_arrivals cr fuel data s =
     (if ssh_st s = SSH_ST_ERROR \<or> ib_len s + length data > SSH_IB_SZ then {} else arrivals cr fuel (buffered data s))"

lemma good_buffer: "good s \<Longrightarrow> ib_len s + length data \<le> SSH_IB_SZ \<Longrightarrow> good (buffered data s)"
  by (simp add: good_def buf_ok_def buffered_def)

lemma input_good:
  assumes "good s" "ssh_input cr fuel data s = Finished t"
  shows "good t \<and> justified cr (input_arrivals cr fuel data s) s t"
proof -
  have f: "good (fail why s) \<and> justified cr R s (fail why s)" for why R
    using assms(1) by (simp add: good_def buf_ok_def justified_def same_conf_def)
  show ?thesis
  proof (cases "ssh_st s = SSH_ST_ERROR \<or> ib_len s + length data > SSH_IB_SZ")
    case True with assms f show ?thesis by (auto simp: ssh_input_def justified_refl split: if_splits)
  next
    case False
    have "good (buffered data s)" using good_buffer [OF assms(1)] False by simp
    from loop_good [OF this, of cr fuel t] assms(2) False show ?thesis
      by (auto simp: ssh_input_def justified_def same_conf_def input_arrivals_def buffered_def)
  qed
qed

text \<open>The calls a client of \<open>ssh.h\<close> makes between resets.\<close>

datatype ssh_op =
  Input nat "byte list" | Output nat | Discard | Getc | Putc byte | Flush | Emit "byte list" nat | Close

fun do_op :: "crypto \<Rightarrow> ssh_op \<Rightarrow> ssh \<Rightarrow> ssh run" where
  "do_op cr (Input fuel data) s = ssh_input cr fuel data s"
| "do_op cr (Output n) s = Finished (snd (ssh_output n s))"
| "do_op cr Discard s = Finished (ssh_discard_output s)"
| "do_op cr Getc s = Finished (case ssh_channel_getc s of None \<Rightarrow> s | Some (_, t) \<Rightarrow> t)"
| "do_op cr (Putc b) s = Finished (snd (ssh_channel_putc b s))"
| "do_op cr Flush s = Finished (ssh_channel_flush cr s)"
| "do_op cr (Emit p n) s = Finished (snd (ssh_channel_emit cr p n s))"
| "do_op cr Close s = Finished (ssh_channel_close cr s)"

fun do_ops :: "crypto \<Rightarrow> ssh_op list \<Rightarrow> ssh \<Rightarrow> ssh run" where
  "do_ops cr [] s = Finished s"
| "do_ops cr (op # ops) s = (case do_op cr op s of Finished t \<Rightarrow> do_ops cr ops t | r \<Rightarrow> r)"

text \<open>The packets handled in the course of such a sequence, each with the state it was handled in.\<close>

fun op_arrivals :: "crypto \<Rightarrow> ssh_op \<Rightarrow> ssh \<Rightarrow> (ssh \<times> byte list) set" where
  "op_arrivals cr (Input fuel data) s = input_arrivals cr fuel data s"
| "op_arrivals cr _ s = {}"

fun ops_arrivals :: "crypto \<Rightarrow> ssh_op list \<Rightarrow> ssh \<Rightarrow> (ssh \<times> byte list) set" where
  "ops_arrivals cr [] s = {}"
| "ops_arrivals cr (op # ops) s =
     op_arrivals cr op s \<union> (case do_op cr op s of Finished t \<Rightarrow> ops_arrivals cr ops t | _ \<Rightarrow> {})"

lemma inv_flush_loop: "sess_inv t \<Longrightarrow> sess_inv (snd (flush_loop cr rest t))"
proof (induction cr rest t rule: flush_loop.induct)
  case (1 cr rest t)
  then show ?case by (subst flush_loop.simps) (simp add: Let_def)
qed

lemma inv_flush [simp]: "sess_inv s \<Longrightarrow> sess_inv (ssh_channel_flush cr s)"
  using inv_flush_loop [of s cr "g_cout s"] by (simp add: ssh_channel_flush_def case_prod_beta)

lemma sess_inv_close_flags [simp]:
  "sess_inv (s\<lparr>chan_sent_eof := e\<rparr>) = sess_inv s" "sess_inv (s\<lparr>chan_sent_close := e\<rparr>) = sess_inv s"
  "sess_inv (s\<lparr>chan_closed := e\<rparr>) = sess_inv s"
  by (simp_all add: sess_inv_def keyed_def session_data_def)

lemma inv_close [simp]: "sess_inv s \<Longrightarrow> sess_inv (ssh_channel_close cr s)"
  by (simp add: ssh_channel_close_def Let_def)

lemma keeps_flush: "keeps s (ssh_channel_flush cr s)"
  using keeps_flush_loop [of s s cr "g_cout s"] by (simp add: ssh_channel_flush_def case_prod_beta)

lemma good_keeps: "good s \<Longrightarrow> keeps s t \<Longrightarrow> sess_inv t \<Longrightarrow> good t"
  by (auto simp: good_def keeps_def buf_ok_def)

lemma justified_keeps: "keeps s t \<Longrightarrow> authenticated t = authenticated s \<Longrightarrow> justified cr R s t"
  by (rule justified_same) (auto simp: keeps_def same_conf_def)

lemma inv_getc: "sess_inv s \<Longrightarrow> ssh_channel_getc s = Some (b, t) \<Longrightarrow> sess_inv t"
  by (auto simp: ssh_channel_getc_def sess_inv_def keyed_def session_data_def split: if_splits)

lemma keeps_getc: "ssh_channel_getc s = Some (b, t) \<Longrightarrow> keeps s t \<and> authenticated t = authenticated s"
  by (auto simp: ssh_channel_getc_def keeps_def key_len_def split: if_splits)

lemma keeps_emit: "keeps s (snd (ssh_channel_emit cr p n s))"
  by (simp add: ssh_channel_emit_def Let_def) (simp add: keeps_def key_len_def)

lemma inv_emit: "sess_inv s \<Longrightarrow> sess_inv (snd (ssh_channel_emit cr p n s))"
  by (simp add: ssh_channel_emit_def Let_def sess_inv_sent [OF sent_only_seal])

lemma auth_emit: "authenticated (snd (ssh_channel_emit cr p n s)) = authenticated s"
  by (simp add: ssh_channel_emit_def Let_def)

lemma calm: "good s \<Longrightarrow> keeps s t \<Longrightarrow> sess_inv t \<Longrightarrow> authenticated t = authenticated s \<Longrightarrow> good t \<and> justified cr R s t"
  by (simp add: good_keeps justified_keeps)

lemma good_inv: "good s \<Longrightarrow> sess_inv s"
  by (simp add: good_def)

lemma op_good:
  assumes "good s" "do_op cr op s = Finished t" shows "good t \<and> justified cr (op_arrivals cr op s) s t"
proof (cases op)
  case (Input fuel data)
  with assms input_good show ?thesis by simp
next
  case Getc
  show ?thesis
  proof (cases "ssh_channel_getc s")
    case (Some x)
    obtain b u where x: "x = (b, u)" by (cases x)
    have "t = u" using assms(2) Getc Some x by simp
    then show ?thesis using inv_getc [OF good_inv [OF assms(1)]] keeps_getc [of s b u] Some x
      by (auto intro: good_keeps [OF assms(1)] justified_keeps)
  qed (use assms Getc in \<open>simp add: justified_refl\<close>)
next
  case Flush
  have "authenticated (ssh_channel_flush cr s) = authenticated s" using stays_flush [OF stays_refl] unfolding stays_def by blast
  from calm [OF assms(1) keeps_flush inv_flush [OF good_inv [OF assms(1)]] this] show ?thesis using Flush assms(2) by simp
next
  case Close
  have "authenticated (ssh_channel_close cr s) = authenticated s" using stays_close [OF stays_refl] unfolding stays_def by blast
  from calm [OF assms(1) keeps_close [OF keeps_refl] inv_close [OF good_inv [OF assms(1)]] this] show ?thesis using Close assms(2) by simp
next
  case (Emit p n)
  from calm [OF assms(1) keeps_emit [of s cr p n] inv_emit [OF good_inv [OF assms(1)]] auth_emit] show ?thesis using Emit assms(2) by simp
qed (use assms in \<open>auto simp: good_def buf_ok_def key_len_def ssh_output_def ssh_discard_output_def ssh_channel_putc_def
       justified_def same_conf_def split: if_splits\<close>)

lemma ops_good: "good s \<Longrightarrow> do_ops cr ops s = Finished t \<Longrightarrow> good t \<and> justified cr (ops_arrivals cr ops s) s t"
proof (induction ops arbitrary: s)
  case Nil then show ?case by (simp add: justified_refl)
next
  case (Cons op ops)
  then obtain u where u: "do_op cr op s = Finished u" "do_ops cr ops u = Finished t"
    by (auto split: run.splits)
  have "justified cr (ops_arrivals cr (op # ops) s) s u" "good u"
    using op_good [OF Cons.prems(1) u(1)] u(1) by (auto intro: justified_mono)
  moreover have "justified cr (ops_arrivals cr (op # ops) s) u t" "good t"
    using Cons.IH [OF \<open>good u\<close> u(2)] u(1) by (auto intro: justified_mono)
  ultimately show ?case using justified_trans by blast
qed

lemma extend_globals [simp]:
  "g_have_password (ssh_conn.extend c (ssh_conn.more s)) = g_have_password s"
  "g_password (ssh_conn.extend c (ssh_conn.more s)) = g_password s"
  "g_authkeys (ssh_conn.extend c (ssh_conn.more s)) = g_authkeys s"
  by (cases s; simp add: ssh_conn.defs)+

lemma reset_fields:
  "authenticated (ssh_reset cr sk pk s) = False" "chan_open (ssh_reset cr sk pk s) = False"
  "shell_ready (ssh_reset cr sk pk s) = False" "pty (ssh_reset cr sk pk s) = False"
  "g_cin_head (ssh_reset cr sk pk s) = g_cin_tail (ssh_reset cr sk pk s)"
  "length (ib (ssh_reset cr sk pk s)) = SSH_IB_SZ" "ib_len (ssh_reset cr sk pk s) = 0"
  "length (ek_c2s (ssh_reset cr sk pk s)) = 64" "length (ek_s2c (ssh_reset cr sk pk s)) = 64"
  "g_have_password (ssh_reset cr sk pk s) = g_have_password s" "g_password (ssh_reset cr sk pk s) = g_password s"
  "g_authkeys (ssh_reset cr sk pk s) = g_authkeys s" "recv_encrypted (ssh_reset cr sk pk s) = False"
  by (simp_all add: ssh_reset_def build_our_kexinit_def case_prod_beta Let_def)
    (simp_all add: ssh_conn_zero_def ssh_conn.defs)

lemma reset_state: "ssh_st (ssh_reset cr sk pk s) \<in> {SSH_ST_VERSION, SSH_ST_ERROR}"
proof -
  define s0 where "s0 = (ssh_conn.extend ssh_conn_zero (ssh_conn.more s))\<lparr>g_hostkey_sk := sk, g_hostkey_pk := pk,
     ssh_st := SSH_ST_VERSION, g_ob := [], g_cin_head := 0, g_cin_tail := 0, g_cout := []\<rparr>"
  define s1 where "s1 = ob_append SERVER_ID_CRLF s0"
  define s2 where "s2 = build_our_kexinit cr s1"
  have "ssh_st s0 = SSH_ST_VERSION" by (simp add: s0_def)
  then have "ssh_st s1 \<in> {SSH_ST_VERSION, SSH_ST_ERROR}"
    using sent_only_state [OF sent_only_append [of s0 SERVER_ID_CRLF]] by (auto simp: s1_def)
  then have "ssh_st s2 \<in> {SSH_ST_VERSION, SSH_ST_ERROR}"
    using sent_only_state [OF sent_only_rand [of s1 cr 16]] by (auto simp: s2_def build_our_kexinit_def case_prod_beta)
  moreover have "ssh_reset cr sk pk s = send_unenc cr (i_s s2) s2"
    by (simp add: ssh_reset_def Let_def s0_def s1_def s2_def)
  ultimately show ?thesis using sent_only_state [OF sent_only_unenc [of s2 cr "i_s s2"]] by auto
qed

lemma reset_good: "good (ssh_reset cr sk pk s)"
  using reset_state [of cr sk pk s] reset_fields [of cr sk pk s]
  by (auto simp: good_def buf_ok_def key_len_def sess_inv_def session_data_def)

text \<open>A fresh connection with the configuration \<open>ssh_set_password\<close> and \<open>ssh_set_authorized_keys\<close>
  leave.\<close>

definition fresh :: "crypto \<Rightarrow> byte list \<Rightarrow> byte list \<Rightarrow> byte list \<Rightarrow> byte list list \<Rightarrow> ssh \<Rightarrow> ssh" where
  "fresh cr sk pk pw keys s = ssh_set_authorized_keys keys (ssh_set_password pw (ssh_reset cr sk pk s))"

lemma fresh_good: "good (fresh cr sk pk pw keys s) \<and> \<not> authenticated (fresh cr sk pk pw keys s)"
  using reset_good [of cr sk pk s] reset_fields(1) [of cr sk pk s]
  by (simp add: fresh_def ssh_set_password_def ssh_set_authorized_keys_def Let_def good_def buf_ok_def key_len_def
      sess_inv_def keyed_def session_data_def)

lemma emit_needs_session: "fst (ssh_channel_emit cr p n t) \<noteq> [] \<Longrightarrow> session_data t"
  by (auto simp: ssh_channel_emit_def ssh_channel_ready_def session_data_def Let_def split: if_splits)

text \<open>C3. No session without authentication.  Take a connection just reset and configured, and any
  sequence of calls of the SSH interface (input in any pieces, output, keystroke reads, screen
  writes, flushes, closes).  Whenever afterwards a keystroke can be read, the channel is a live
  shell, or a screen packet would be produced, the connection is authenticated and both directions
  are encrypted; and if it is authenticated, one of the packets that arrived in the sequence,
  complete and with a valid tag under the connection's keys, was handled in the state that waits for
  authentication and is a request that is granted there: the box is open, or it carries the
  configured password, or a verified signature of an authorized key over that session.\<close>

theorem session_needs_auth:
  assumes "do_ops cr ops (fresh cr sk pk pw keys s) = Finished t"
  shows "(ssh_channel_getc t \<noteq> None \<or> ssh_channel_ready t \<or> fst (ssh_channel_emit cr plain n t) \<noteq> []
           \<longrightarrow> authenticated t \<and> keyed t)
     \<and> (authenticated t \<longrightarrow> (\<exists>(u, pkt) \<in> ops_arrivals cr ops (fresh cr sk pk pw keys s).
           same_conf (fresh cr sk pk pw keys s) u \<and> ssh_st u = SSH_ST_AUTH \<and> keyed u
           \<and> (open_request u pkt \<or> password_request u pkt \<or> pubkey_request cr u pkt)))"
proof -
  note fr = fresh_good [of cr sk pk pw keys s]
  have t: "good t" "justified cr (ops_arrivals cr ops (fresh cr sk pk pw keys s)) (fresh cr sk pk pw keys s) t" using ops_good [OF _ assms] fr by blast+
  have "sess_inv t" using t(1) by (rule good_inv)
  then have "ssh_channel_getc t \<noteq> None \<or> ssh_channel_ready t \<or> fst (ssh_channel_emit cr plain n t) \<noteq> []
           \<longrightarrow> authenticated t \<and> keyed t"
    using emit_needs_session [of cr plain n t]
    by (auto simp: sess_inv_def session_data_def ssh_channel_getc_def ssh_channel_ready_def split: if_splits)
  with t(2) fr show ?thesis by (auto simp: justified_def admitted_def)
qed

theorem session_needs_auth_witness:
  "ssh_channel_getc (ssh_discard_output (fresh toy_crypto [] [] (str ''x'') [] ssh_zero)) = None
   \<and> \<not> ssh_channel_ready (ssh_discard_output (fresh toy_crypto [] [] (str ''x'') [] ssh_zero))"
proof -
  let ?f = "fresh toy_crypto [] [] (str ''x'') [] ssh_zero"
  have "\<not> authenticated (ssh_discard_output ?f)" using fresh_good by (simp add: ssh_discard_output_def)
  moreover have "do_ops toy_crypto [Discard] ?f = Finished (ssh_discard_output ?f)" by simp
  ultimately show ?thesis using session_needs_auth by blast
qed

section \<open>Termination of the input loop\<close>

text \<open>A plain-text header whose length field is 0xFFFC modulo 65536: the 16-bit sum with the four
  header bytes is zero, so the packet passes the size check and is never consumed.\<close>

definition wedge :: "ssh \<Rightarrow> bool" where
  "wedge s \<longleftrightarrow> ssh_st s \<noteq> SSH_ST_VERSION \<and> \<not> recv_encrypted s \<and> ib_len s \<ge> 4 \<and> rd_len (ib s) 0 = Some 65532"

text \<open>The states an input loop passes through.\<close>

inductive loops :: "crypto \<Rightarrow> ssh \<Rightarrow> ssh \<Rightarrow> bool" for cr where
  start: "loops cr s s"
| step: "\<not> ended s \<Longrightarrow> iteration cr s = Some (Progressed, t) \<Longrightarrow> loops cr t u \<Longrightarrow> loops cr s u"

lemma consume_less: "0 < k \<Longrightarrow> 0 < ib_len s \<Longrightarrow> ib_len (ib_consume k s) < ib_len s"
  by (simp add: ib_consume_def Let_def)

lemma version_progress:
  assumes "try_version s = (Progressed, t)" shows "ib_len t < ib_len s"
proof -
  obtain i where i: "scan_line (ib s) (ib_len s) 0 = (Progressed, i)"
    using assms by (auto simp: try_version_def split: prod.splits progress.splits)
  have "i < ib_len s" using scan_version [OF i] by simp
  then show ?thesis
    using assms by (auto simp: try_version_def i Let_def ib_consume_def split: if_splits)
qed

lemma packet_ib_len: "handle_packet cr pl n s = Some t \<Longrightarrow> ib_len t = ib_len s"
  using ensuresD [OF packet_keeps] by (auto simp: keeps_def)

lemma w16_zero: "n < 65536 \<Longrightarrow> w16 (k + n) = 0 \<Longrightarrow> 0 < k \<Longrightarrow> k < 65536 \<Longrightarrow> n = 65536 - k"
  by (auto simp: w16_def mod_if split: if_splits)

lemma plain_progress:
  assumes "\<not> wedge s" "ssh_st s \<noteq> SSH_ST_VERSION" "\<not> recv_encrypted s" "try_plain cr s = Some (Progressed, t)"
  shows "ib_len t < ib_len s"
proof -
  obtain n u m where n: "rd_len (ib s) 0 = Some n" and l: "4 \<le> ib_len s"
    and u: "handle_packet cr (drop 5 (ib s)) m s = Some u"
    and t: "t = (ib_consume (w16 (4 + n)) u)\<lparr>recv_seq := recv_seq (ib_consume (w16 (4 + n)) u) + 1\<rparr>"
    using assms(4) by (auto simp: try_plain_def bind_eq_Some_conv Let_def split: if_splits)
  have "n \<noteq> 65532" using assms(1-3) n l by (auto simp: wedge_def)
  then have "0 < w16 (4 + n)" using w16_zero [of n 4] rd_len_less [OF n] by fastforce
  then show ?thesis using l consume_less [of "w16 (4 + n)" u] packet_ib_len [OF u] by (simp add: t)
qed

lemma cipher_progress:
  assumes "try_cipher cr s = Some (Progressed, t)" shows "ib_len t < ib_len s"
proof -
  have less: "ib_len (ib_consume (w16 (4 + n + 16)) u) < ib_len s"
    if "rd_len ys 0 = Some n" "n mod 8 = 0" "4 \<le> ib_len s" "ib_len v = ib_len s" "handle_packet cr pl m v = Some u"
    for ys n u v m pl
  proof -
    have "n \<noteq> 65516" using that(2) by auto
    then have "0 < w16 (20 + n)" using w16_zero [of n 20] rd_len_less [OF that(1)] by fastforce
    then show ?thesis using that(3,4) consume_less [of "w16 (20 + n)" u] packet_ib_len [OF that(5)] by (simp add: add.commute)
  qed
  have "ensures (try_cipher cr s) (\<lambda>(p, t). p = Progressed \<longrightarrow> ib_len t < ib_len s)"
    unfolding try_cipher_def Let_def
  proof (intro wp, goal_cases)
    case 6
    from less [OF 6(2) _ _ _ 6(11)] 6(1,3) show ?case by simp
  qed simp_all
  from ensuresD [OF this assms] show ?thesis by simp
qed

lemma iteration_progress:
  assumes "\<not> wedge s" "iteration cr s = Some (Progressed, t)" shows "ib_len t < ib_len s"
  using assms version_progress [of s t] plain_progress [of s cr t] cipher_progress [of cr s t]
  by (auto simp: iteration_def try_packet_def split: if_splits)

text \<open>C23. Input processing ends.  If no state the loop passes through has a plain-text packet header
  with the length 0xFFFC, the loop of ssh_input ends, on any buffer contents, within one iteration
  more than the number of buffered bytes: every iteration that makes progress consumes input.  In
  particular it always ends once the client's packets are encrypted.\<close>

theorem input_terminates:
  assumes "\<And>u. loops cr s u \<Longrightarrow> \<not> wedge u" "ib_len s < fuel"
  shows "input_loop cr fuel s \<noteq> Looping"
  using assms
proof (induction fuel arbitrary: s)
  case (Suc fuel)
  show ?case
  proof (cases "\<not> ended s \<and> (\<exists>t. iteration cr s = Some (Progressed, t))")
    case True
    then obtain t where t: "\<not> ended s" "iteration cr s = Some (Progressed, t)" by blast
    have "ib_len t < ib_len s" using iteration_progress [OF _ t(2)] Suc.prems(1) loops.start by blast
    then have "input_loop cr fuel t \<noteq> Looping"
      using Suc.prems loops.step [OF t] by (intro Suc.IH) auto
    then show ?thesis using t by (simp add: input_loop_Suc del: input_loop.simps)
  next
    case False
    then show ?thesis by (auto simp: input_loop_Suc simp del: input_loop.simps split: option.splits prod.splits)
  qed
qed simp

theorem input_terminates_witness:
  "input_loop toy_crypto 1 (ssh_zero\<lparr>ssh_st := SSH_ST_AUTH, recv_encrypted := True\<rparr>) \<noteq> Looping"
proof (rule input_terminates)
  let ?s = "ssh_zero\<lparr>ssh_st := SSH_ST_AUTH, recv_encrypted := True\<rparr>"
  show "ib_len ?s < 1" by (simp add: ssh_zero_def ssh_conn_zero_def ssh_conn.defs)
  then have it: "iteration toy_crypto ?s = Some (NeedMore, ?s)"
    by (simp add: iteration_def try_packet_def try_cipher_def)
  fix u assume "loops toy_crypto ?s u"
  then have "u = ?s" by cases (simp_all add: it)
  then show "\<not> wedge u" by (simp add: wedge_def)
qed

lemma w16_get32: "w16 (unat (get32 a b c d)) = unat (push_bit 8 (ucast c) OR ucast d :: u32)"
proof -
  have "take_bit 16 (get32 a b c d) = push_bit 8 (ucast c) OR ucast d"
    unfolding get32_def
    by (auto intro!: bit_word_eqI simp: bit_take_bit_iff bit_or_iff bit_push_bit_iff bit_ucast_iff byte_bit_high)
  moreover have "unat (take_bit 16 v) = w16 (unat v)" for v :: u32
    by (simp add: w16_def unat_mod take_bit_eq_mod)
  ultimately show ?thesis by metis
qed

lemma consume_none: "ib_len s \<noteq> 0 \<Longrightarrow> ib_consume 0 s = s"
  by (cases s) (simp add: ib_consume_def)

lemma ignored_packet:
  "rd_byte pl 0 = Some m \<Longrightarrow> m \<in> {2, 3, 4} \<Longrightarrow> n \<noteq> 0 \<Longrightarrow> handle_packet cr pl n s = Some s"
  unfolding handle_packet_def by (elim insertE) simp_all

text \<open>C24. A six-byte packet hangs the machine.  While the connection is not yet encrypted, an input
  whose length field is 0xFFFC modulo 65536 and whose payload starts with an IGNORE, UNIMPLEMENTED
  or DEBUG message makes the loop of ssh_input run for ever: no number of iterations is enough.\<close>

theorem ssh_input_hangs:
  assumes "ssh_st s \<notin> {SSH_ST_VERSION, SSH_ST_CLOSED, SSH_ST_ERROR}" "\<not> recv_encrypted s"
    "length (ib s) = SSH_IB_SZ" "ib_len s = 0" "m \<in> {2, 3, 4}"
  shows "ssh_input cr fuel [a, b, 0xFF, 0xFC, p, m] s = Looping"
proof -
  define data where "data = [a, b, 0xFF, 0xFC, p, m]"
  have loop: "input_loop cr fuel t = Looping"
    if "ssh_st t = ssh_st s" "\<not> recv_encrypted t" "ib t = data @ drop 6 (ib s)" "ib_len t = 6" for t
    using that
  proof (induction fuel arbitrary: t)
    case (Suc fuel)
    have "rd_len (ib t) 0 = Some 65532"
      by (simp add: Suc.prems rd_len_def rd_u32_def data_def w16_get32)
    moreover have "handle_packet cr (drop 5 (ib t)) (65532 - 1 - unat p) t = Some t"
      using assms(5) unat_byte_less [of p] by (intro ignored_packet [of _ m]) (simp_all add: Suc.prems rd_byte_def data_def)
    moreover have "rd_byte (ib t) 4 = Some p" "unat p + 1 \<le> 65532"
      using unat_byte_less [of p] by (simp_all add: Suc.prems rd_byte_def data_def)
    ultimately have "try_plain cr t = Some (Progressed, t\<lparr>recv_seq := recv_seq t + 1\<rparr>)"
      using Suc.prems(4) by (simp add: try_plain_def consume_none w16_def Let_def)
    moreover have "input_loop cr fuel (t\<lparr>recv_seq := recv_seq t + 1\<rparr>) = Looping"
      by (rule Suc.IH) (use Suc.prems in simp_all)
    ultimately show ?case using Suc.prems assms(1)
      by (simp add: input_loop_Suc ended_def iteration_def try_packet_def del: input_loop.simps)
  qed simp
  have "length data = 6" by (simp add: data_def)
  then have "ssh_input cr fuel data s = Looping"
    using assms loop [of "s\<lparr>ib := data @ drop 6 (ib s), ib_len := 6\<rparr>"]
    by (simp add: ssh_input_def SSH_IB_SZ_def)
  then show ?thesis by (simp add: data_def)
qed

theorem ssh_input_hangs_witness:
  "list_all (\<lambda>fuel. ssh_input toy_crypto fuel [0, 0, 0xFF, 0xFC, 0, 2] (ssh_zero\<lparr>ssh_st := SSH_ST_EXPECT_KEXINIT\<rparr>) = Looping)
     [0..<1000]"
  unfolding list_all_iff
  by (intro ballI ssh_input_hangs) (simp_all add: ssh_zero_def ssh_conn_zero_def ssh_conn.defs)

end
