(* ===== verification/Sshseal.thy ===== *)
theory Sshseal
  imports Sshinput
begin

text \<open>
  The encrypted packet format of \<open>ssh.c\<close>: what \<open>aead_seal\<close> produces is what \<open>try_packet\<close> accepts.
  The cipher is used through its interface \<open>stream_cipher\<close> (interpretation \<open>chacha\<close>).
\<close>

section \<open>Packet lengths\<close>

lemma pad_to8: "4 \<le> pad_to8 m" "pad_to8 m < 12" "8 dvd m + pad_to8 m"
proof -
  obtain q k where m: "m = 8 * q + k" "k < 8" using mult_div_mod_eq [of 8 m] by (metis mod_less_divisor zero_less_numeral)
  have k: "pad_to8 m = (if 8 - k < 4 then 16 - k else 8 - k)" using m by (auto simp: pad_to8_def Let_def)
  with m show "4 \<le> pad_to8 m" "pad_to8 m < 12" by auto
  have "m + pad_to8 m = 8 * (q + 1) \<or> m + pad_to8 m = 8 * (q + 2)" using m k by auto
  then show "8 dvd m + pad_to8 m" by (metis dvd_triv_left)
qed

lemma rd_len_put: "n < 65536 \<Longrightarrow> rd_len (put_u32 n) 0 = Some n"
  using rd_u32_be32 [of 0 "put_u32 n" "of_nat n" "[]"] by (simp add: rd_len_def put_u32_def unat_of_nat)

section \<open>Opening a packet\<close>

text \<open>\<open>try_packet\<close> on a buffer that starts with a whole encrypted packet.\<close>

lemma try_cipher_whole:
  assumes "ib r = el @ eb @ tag @ rest" "length el = 4" "length eb = n" "length tag = 16" "4 + n + 16 \<le> ib_len r"
    "dossh_chacha20_djb (Some el) 4 (drop 32 (ek_c2s r)) (seqbuf8 (recv_seq r)) 0 = put_u32 n"
    "8 \<le> n" "8 dvd n" "4 + n + 16 \<le> SSH_IB_SZ"
    "dossh_chacha20_djb (Some eb) n (take 32 (ek_c2s r)) (seqbuf8 (recv_seq r)) 1 = p # body" "unat p + 1 \<le> n"
  shows "try_cipher cr r =
    (if dossh_poly1305 (el @ eb) (dossh_chacha20_djb None 32 (take 32 (ek_c2s r)) (seqbuf8 (recv_seq r)) 0) \<noteq> tag
     then Some (Failed, fail ''MAC verification failed'' r)
     else (let u = r\<lparr>ib := el @ (p # body) @ tag @ rest\<rparr>
           in map_option (\<lambda>t. (Progressed, (ib_consume (4 + n + 16) t)\<lparr>recv_seq := recv_seq (ib_consume (4 + n + 16) t) + 1\<rparr>))
                (handle_packet cr (body @ tag @ rest) (n - 1 - unat p) u)))"
proof -
  have n: "n < 65536" "w16 (4 + n) = 4 + n" "w16 (4 + n + 16) = 4 + n + 16" using assms(9) by (simp_all add: SSH_IB_SZ_def w16_def)
  have len: "rd_len (dossh_chacha20_djb (Some (take 4 (ib r))) 4 (drop 32 (ek_c2s r)) (seqbuf8 (recv_seq r)) 0) 0 = Some n"
    using assms(1,2,6) rd_len_put [OF n(1)] by simp
  have sl: "slice (ib r) 0 (4 + n) = Some (el @ eb)" "slice (ib r) (4 + n) 16 = Some tag" "slice (ib r) 4 n = Some eb"
    using assms(1-4) by (simp_all add: slice_def)
  have u: "take 4 (ib r) @ (p # body) @ drop (4 + n) (ib r) = el @ (p # body) @ tag @ rest"
    using assms(1-3) by simp
  have rb: "rd_byte (el @ p # body @ tag @ rest) 4 = Some p" "drop 5 (el @ p # body @ tag @ rest) = body @ tag @ rest"
    using assms(2) by (simp_all add: rd_byte_def nth_append)
  have c: "\<not> ib_len r < 4" "\<not> (n < 8 \<or> n mod 8 \<noteq> 0 \<or> SSH_IB_SZ < 4 + n + 16)" "\<not> ib_len r < 4 + n + 16" "\<not> n < unat p + 1"
    using assms(5,7-9,11) by auto
  show ?thesis
    unfolding try_cipher_def Let_def
    by (simp only: if_not_P [OF c(1)] len bind.simps n if_not_P [OF c(2)] if_not_P [OF c(3)] sl assms(10) ssh_conn.simps u)
      (use rb c(4) in \<open>simp add: map_conv_bind_option o_def\<close>)
qed

section \<open>Sealing a packet\<close>

lemma seqbuf8_length [simp]: "length (seqbuf8 q) = 8"
  by (simp add: seqbuf8_def)

lemma rand_seq [simp]: "send_seq (snd (rand cr n s)) = send_seq s"
  by (simp add: rand_def case_prod_beta Let_def)

lemma mac_length:
  "length k = 64 \<Longrightarrow> length (dossh_poly1305 m (dossh_chacha20_djb None 32 (take 32 k) (seqbuf8 q) 0)) = 16"
  by (simp add: length_poly1305 chacha.crypt_stream)

text \<open>The three parts of a sealed packet, as the receiver needs them.\<close>

lemma seal_parts:
  assumes "rng_ok (g_rng s)" "length payload \<le> SSH_ENC_MAX_PLEN" "length (ek_s2c s) = 64"
  obtains el eb p pad n where "fst (aead_seal cr payload s)
      = el @ eb @ dossh_poly1305 (el @ eb) (dossh_chacha20_djb None 32 (take 32 (ek_s2c s)) (seqbuf8 (send_seq s)) 0)"
    "length el = 4" "length eb = n" "8 \<le> n" "8 dvd n" "n \<le> 259" "n = 1 + length payload + unat p" "length pad = unat p"
    "dossh_chacha20_djb (Some el) 4 (drop 32 (ek_s2c s)) (seqbuf8 (send_seq s)) 0 = put_u32 n"
    "dossh_chacha20_djb (Some eb) n (take 32 (ek_s2c s)) (seqbuf8 (send_seq s)) 1 = p # payload @ pad"
proof -
  define k where "k = pad_to8 (1 + length payload)"
  define n where "n = 1 + length payload + k"
  define pad where "pad = fst (rand cr k s)"
  define body where "body = of_nat k # payload @ pad"
  define el where "el = dossh_chacha20_djb (Some (put_u32 n)) 4 (drop 32 (ek_s2c s)) (seqbuf8 (send_seq s)) 0"
  define eb where "eb = dossh_chacha20_djb (Some body) n (take 32 (ek_s2c s)) (seqbuf8 (send_seq s)) 1"
  have k: "4 \<le> k" "k < 12" "8 dvd n" using pad_to8 [of "1 + length payload"] by (simp_all add: k_def n_def)
  have uk: "unat (of_nat k :: byte) = k" using k(2) by (simp add: unat_of_nat)
  have lp: "length pad = k" using bytes_ok(2) [OF assms(1)] by (simp add: pad_def rand_def case_prod_beta Let_def)
  have keys: "length (take 32 (ek_s2c s)) = 32" "length (drop 32 (ek_s2c s)) = 32" using assms(3) by simp_all
  have lb: "length body = n" and lu: "length (put_u32 n) = 4" by (simp_all add: body_def n_def lp put_u32_def)
  have "8 \<le> n" using k(1,3) dvd_imp_le [OF k(3)] by (simp add: n_def)
  moreover have "n \<le> 259" using k(2) assms(2) by (simp add: n_def SSH_ENC_MAX_PLEN_def)
  moreover have "fst (aead_seal cr payload s)
      = el @ eb @ dossh_poly1305 (el @ eb) (dossh_chacha20_djb None 32 (take 32 (ek_s2c s)) (seqbuf8 (send_seq s)) 0)"
    by (simp add: aead_seal_def Let_def case_prod_beta el_def eb_def body_def pad_def n_def k_def)
  moreover have "dossh_chacha20_djb (Some el) 4 (drop 32 (ek_s2c s)) (seqbuf8 (send_seq s)) 0 = put_u32 n"
    unfolding el_def by (rule chacha.crypt_crypt [OF keys(2) _ lu]) simp
  moreover have "dossh_chacha20_djb (Some eb) n (take 32 (ek_s2c s)) (seqbuf8 (send_seq s)) 1 = of_nat k # payload @ pad"
    unfolding eb_def using chacha.crypt_crypt [OF keys(1) _ lb] by (simp add: body_def)
  moreover have "length el = 4" "length eb = n"
    unfolding el_def eb_def using chacha.crypt_length keys lu lb by simp_all
  ultimately show thesis using that [of el eb n "of_nat k" pad] k(3) by (simp add: uk lp n_def)
qed

text \<open>C7. What is sealed is what is opened.  Let a packet be sealed with one end's sending key and
  sequence number, and let the other end, whose receiving key and sequence number are the same, find
  it at the front of its input buffer, with anything behind it.  Then \<open>try_packet\<close> handles exactly the
  payload that was sealed, consumes exactly the packet and advances the sequence number; and with
  any other tag in place of the packet's the connection fails and nothing is handled.\<close>

theorem seal_open:
  assumes "rng_ok (g_rng s)" "length payload \<le> SSH_ENC_MAX_PLEN" "length (ek_s2c s) = 64"
    "ek_c2s r = ek_s2c s" "recv_seq r = send_seq s" "recv_encrypted r"
    "fst (aead_seal cr payload s) = head @ tag" "length tag = 16" "ib r = head @ tag @ rest" "length head + 16 \<le> ib_len r"
  shows "(\<exists>lead pad. length lead = 5 \<and> try_packet cr r =
        map_option (\<lambda>t. (Progressed, (ib_consume (length head + 16) t)\<lparr>recv_seq := recv_seq (ib_consume (length head + 16) t) + 1\<rparr>))
          (handle_packet cr (payload @ pad) (length payload) (r\<lparr>ib := lead @ payload @ pad\<rparr>)))
    \<and> (\<forall>forged. length forged = 16 \<and> forged \<noteq> tag \<longrightarrow>
         try_packet cr (r\<lparr>ib := head @ forged @ rest\<rparr>)
           = Some (Failed, fail ''MAC verification failed'' (r\<lparr>ib := head @ forged @ rest\<rparr>)))"
proof -
  let ?mac = "\<lambda>x. dossh_poly1305 x (dossh_chacha20_djb None 32 (take 32 (ek_s2c s)) (seqbuf8 (send_seq s)) 0)"
  obtain el eb p pad n where w: "fst (aead_seal cr payload s) = el @ eb @ ?mac (el @ eb)"
    "length el = 4" "length eb = n" "8 \<le> n" "8 dvd n" "n \<le> 259" "n = 1 + length payload + unat p" "length pad = unat p"
    "dossh_chacha20_djb (Some el) 4 (drop 32 (ek_s2c s)) (seqbuf8 (send_seq s)) 0 = put_u32 n"
    "dossh_chacha20_djb (Some eb) n (take 32 (ek_s2c s)) (seqbuf8 (send_seq s)) 1 = p # payload @ pad"
    by (rule seal_parts [OF assms(1-3)])
  have "head @ tag = (el @ eb) @ ?mac (el @ eb)" using w(1) assms(7) by simp
  then have h: "head = el @ eb" "tag = ?mac (el @ eb)"
    using append_eq_append_conv [of head "el @ eb" tag "?mac (el @ eb)"] assms(8)
      mac_length [OF assms(3)] by simp_all
  have len: "length head = 4 + n" using w(2,3) h(1) by simp
  have fit: "4 + n + 16 \<le> SSH_IB_SZ" "4 + n + 16 \<le> ib_len r" using w(6) assms(10) len by (simp_all add: SSH_IB_SZ_def)
  have m: "n - 1 - unat p = length payload" "unat p + 1 \<le> n" using w(7) by simp_all
  have op: "try_packet cr (r\<lparr>ib := head @ x @ rest\<rparr>) =
      (if ?mac head \<noteq> x then Some (Failed, fail ''MAC verification failed'' (r\<lparr>ib := head @ x @ rest\<rparr>))
       else map_option (\<lambda>t. (Progressed, (ib_consume (4 + n + 16) t)\<lparr>recv_seq := recv_seq (ib_consume (4 + n + 16) t) + 1\<rparr>))
              (handle_packet cr ((payload @ pad) @ x @ rest) (length payload) (r\<lparr>ib := el @ (p # payload @ pad) @ x @ rest\<rparr>)))"
    if x: "length x = 16" for x
  proof -
    let ?r = "r\<lparr>ib := head @ x @ rest\<rparr>"
    have b: "ib ?r = el @ eb @ x @ rest" by (simp add: h(1))
    have k: "ek_c2s ?r = ek_s2c s" "recv_seq ?r = send_seq s" "ib_len ?r = ib_len r" "recv_encrypted ?r" using assms(4-6) by simp_all
    have "?r\<lparr>ib := y\<rparr> = r\<lparr>ib := y\<rparr>" for y by simp
    from try_cipher_whole [OF b w(2,3) x, of p "payload @ pad" cr, unfolded k this m Let_def, OF fit(2) w(9,4,5) fit(1) w(10) m(2)]
    show ?thesis using k(4) by (simp add: try_packet_def h(1))
  qed
  have r: "r\<lparr>ib := head @ tag @ rest\<rparr> = r" using assms(9) by simp
  have "try_packet cr (r\<lparr>ib := head @ forged @ rest\<rparr>)
      = Some (Failed, fail ''MAC verification failed'' (r\<lparr>ib := head @ forged @ rest\<rparr>))"
    if "length forged = 16" "forged \<noteq> tag" for forged
    using op [OF that(1)] that(2) h by metis
  moreover have "try_packet cr r =
      map_option (\<lambda>t. (Progressed, (ib_consume (length head + 16) t)\<lparr>recv_seq := recv_seq (ib_consume (length head + 16) t) + 1\<rparr>))
        (handle_packet cr (payload @ pad @ tag @ rest) (length payload) (r\<lparr>ib := (el @ [p]) @ payload @ pad @ tag @ rest\<rparr>))"
    using op [OF assms(8), unfolded r] h w(2,3) by (simp add: add.commute)
  moreover have "length (el @ [p]) = 5" using w(2) by simp
  ultimately show ?thesis by blast
qed

definition wit_sender :: ssh where
  "wit_sender = ssh_zero\<lparr>g_rng := wit_rng\<rparr>"

definition wit_receiver :: ssh where
  "wit_receiver = (let w = fst (aead_seal toy_crypto [2, 7] wit_sender)
     in ssh_zero\<lparr>recv_encrypted := True, ib := w @ replicate 100 0, ib_len := length w\<rparr>)"

theorem seal_open_witness: "\<exists>t. try_packet toy_crypto wit_receiver = Some (Progressed, t)"
proof -
  define w where "w = fst (aead_seal toy_crypto [2, 7] wit_sender)"
  have s: "rng_ok (g_rng wit_sender)" "length (ek_s2c wit_sender) = 64" "send_seq wit_sender = 0"
    "ek_s2c wit_sender = replicate 64 0"
    by (simp_all add: wit_sender_def rng_ok_def wit_rng_def POOL_WORDS_def ssh_zero_def ssh_conn_zero_def ssh_conn.defs)
  have r: "ek_c2s wit_receiver = ek_s2c wit_sender" "recv_seq wit_receiver = send_seq wit_sender" "recv_encrypted wit_receiver"
    "ib wit_receiver = w @ replicate 100 0" "ib_len wit_receiver = length w"
    by (simp_all add: s wit_receiver_def Let_def ssh_zero_def ssh_conn_zero_def ssh_conn.defs w_def)
  note p = mac_length [OF s(2)]
  obtain el eb q pad n where "w = el @ eb @ dossh_poly1305 (el @ eb) (dossh_chacha20_djb None 32 (take 32 (ek_s2c wit_sender)) (seqbuf8 (send_seq wit_sender)) 0)"
    by (rule seal_parts [OF s(1) _ s(2), of "[2, 7]" toy_crypto, folded w_def]) (simp_all add: SSH_ENC_MAX_PLEN_def)
  then obtain head tag where ht: "w = head @ tag" "length tag = 16" using p by (metis append.assoc)
  have "\<exists>lead pad. length lead = 5 \<and> try_packet toy_crypto wit_receiver =
        map_option (\<lambda>t. (Progressed, (ib_consume (length head + 16) t)\<lparr>recv_seq := recv_seq (ib_consume (length head + 16) t) + 1\<rparr>))
          (handle_packet toy_crypto ([2, 7] @ pad) (length [2, 7 :: byte]) (wit_receiver\<lparr>ib := lead @ [2, 7] @ pad\<rparr>))"
    using seal_open [OF s(1) _ s(2) r(1-3), of "[2, 7]" toy_crypto head tag "replicate 100 0"] ht r(4,5)
    by (simp add: SSH_ENC_MAX_PLEN_def w_def)
  moreover have "handle_packet toy_crypto ([2, 7] @ pad) (length [2, 7 :: byte]) u = Some u" for pad u
    by (rule ignored_packet [of _ 2]) (simp_all add: rd_byte_def)
  ultimately show ?thesis by force
qed

end
