(* ===== verification/Sshhost.thy ===== *)
theory Sshhost
  imports Sshkex Sshseal
begin

text \<open>
  The bytes \<open>handle_ecdh_init\<close> of \<open>ssh.c\<close> sends: the reply with the host key, the server's ephemeral key and
  the signature of the exchange hash, and the NEWKEYS packet, in the plain-text framing of RFC 4253.
\<close>

section \<open>Plain-text packets\<close>

definition plain_packet :: "byte list \<Rightarrow> byte list \<Rightarrow> byte list" where
  "plain_packet p pad = put_u32 (1 + length p + length pad) @ [of_nat (length pad)] @ p @ pad"

lemma rand_result:
  assumes "rng_ok (g_rng s)"
  obtains bs r where "rand cr n s = (bs, s\<lparr>g_rng := r\<rparr>)" "length bs = n" "rng_ok r"
proof
  show "rand cr n s = (fst (rng_bytes (hw cr) n (g_rng s)), s\<lparr>g_rng := snd (rng_bytes (hw cr) n (g_rng s))\<rparr>)"
    by (simp only: rand_def Let_def case_prod_beta)
qed (rule bytes_ok(2,1) [OF assms])+

lemma append_room: "length (g_ob s) + length d \<le> SSH_OB_SZ \<Longrightarrow> ob_append d s = s\<lparr>g_ob := g_ob s @ d\<rparr>"
  by (simp add: ob_append_def)

lemma unenc_output:
  assumes "rng_ok (g_rng s)" "length (g_ob s) + length p + 17 \<le> SSH_OB_SZ"
  shows "\<exists>pad r q. length pad = pad_to8 (5 + length p) \<and> rng_ok r
    \<and> send_unenc cr p s = s\<lparr>g_ob := g_ob s @ plain_packet p pad, g_rng := r, send_seq := q\<rparr>"
proof -
  define n where "n = pad_to8 (5 + length p)"
  have n: "n < 12" "pad_to8 (4 + 1 + length p) = n" using pad_to8(2) [of "5 + length p"] by (simp_all add: n_def)
  define s2 where "s2 = s\<lparr>g_ob := g_ob s @ put_u32 (1 + length p + n) @ [of_nat n] @ p\<rparr>"
  have h: "length (put_u32 k) = 4" for k by (simp add: put_u32_def)
  have "ob_append p (ob_append (put_u32 (1 + length p + n) @ [of_nat n]) s) = s2"
    using assms(2) by (simp add: append_room h s2_def)
  moreover obtain pad r where pad: "rand cr n s2 = (pad, s2\<lparr>g_rng := r\<rparr>)" "length pad = n" "rng_ok r"
    using rand_result [of s2 cr n] assms(1) by (auto simp: s2_def)
  moreover have "ob_append pad (s2\<lparr>g_rng := r\<rparr>) = s2\<lparr>g_rng := r, g_ob := g_ob s2 @ pad\<rparr>"
    using assms(2) n(1) pad(2) by (simp add: append_room h s2_def)
  ultimately have "send_unenc cr p s = s\<lparr>g_ob := g_ob s @ plain_packet p pad, g_rng := r, send_seq := send_seq s + 1\<rparr>"
    unfolding send_unenc_def Let_def n(2) by (simp add: plain_packet_def s2_def)
  then show ?thesis using pad(2,3) unfolding n_def by blast
qed

section \<open>The reply\<close>

definition ecdh_payload :: "byte list \<Rightarrow> byte list \<Rightarrow> byte list \<Rightarrow> byte list" where
  "ecdh_payload pk qs sig = [31] @ put_str (build_ks_blob pk) @ put_str qs @ put_str (put_nl ''ssh-ed25519'' @ put_str sig)"

lemma length_put_str [simp]: "length (put_str x) = 4 + length x"
  by (simp add: put_str_def put_u32_def)

lemma ecdh_payload_length: "length pk = 32 \<Longrightarrow> length qs = 32 \<Longrightarrow> length sig = 64 \<Longrightarrow> length (ecdh_payload pk qs sig) = 179"
  by (simp add: ecdh_payload_def build_ks_blob_def put_nl_def)

lemma reply_output:
  fixes qc :: "byte list"
  assumes "rng_ok (g_rng s)" "\<not> send_encrypted s" "length (g_ob s) \<le> 1024" "length (g_hostkey_pk s) = 32"
    "\<And>k. length (x25519_public_key cr k) = 32" "\<And>m. length (ed25519_sign cr (g_hostkey_sk s) m) = 64"
  defines "u \<equiv> ecdh_reply cr qc s"
  shows "if list_all (\<lambda>b. b = 0) (x25519 cr (g_eph_sk u) qc) then ssh_st u = SSH_ST_ERROR \<and> g_ob u = g_ob s
    else ssh_st u = SSH_ST_EXPECT_CLIENT_NEWKEYS
      \<and> (\<exists>pad1 pad2. length pad1 = 8 \<and> length pad2 = 10
          \<and> g_ob u = g_ob s @ plain_packet (ecdh_payload (g_hostkey_pk s) (x25519_public_key cr (g_eph_sk u))
                (ed25519_sign cr (g_hostkey_sk s) (g_H u))) pad1 @ plain_packet [21] pad2)"
proof -
  let ?s0 = "s\<lparr>g_q_c := qc\<rparr>"
  have "rng_ok (g_rng ?s0)" using assms(1) by simp
  then obtain sk r where r: "rand cr 32 ?s0 = (sk, ?s0\<lparr>g_rng := r\<rparr>)" "rng_ok r" by (rule rand_result)
  define s2 where "s2 = ?s0\<lparr>g_rng := r, g_eph_sk := sk, g_q_s := x25519_public_key cr sk, g_k_raw := x25519 cr sk qc\<rparr>"
  note reply = ecdh_reply_def [of cr qc s, unfolded Let_def r(1) prod.case, folded s2_def]
  show ?thesis
  proof (cases "list_all (\<lambda>b. b = 0) (x25519 cr sk qc)")
    case True
    then have "u = fail ''degenerate shared secret'' s2" unfolding u_def reply by (simp add: s2_def)
    then show ?thesis using True by (auto simp: fail_def s2_def)
  next
    case False
    define K where "K = build_kmpint (x25519 cr sk qc)"
    define h where "h = sha256_final (sha256_update K (hash_str (x25519_public_key cr sk)
       (hash_str qc (hash_str (build_ks_blob (g_hostkey_pk s)) (hctx s)))))"
    define p where "p = ecdh_payload (g_hostkey_pk s) (x25519_public_key cr sk) (ed25519_sign cr (g_hostkey_sk s) (fst h))"
    define s3 where "s3 = (let t = s2\<lparr>g_kmpint := K, g_ks_blob := build_ks_blob (g_hostkey_pk s), hctx := snd h, g_H := fst h\<rparr>
       in if have_session_id s then t else t\<lparr>session_id := fst h, have_session_id := True\<rparr>)"
    have nz: "\<not> list_all (\<lambda>b. b = 0) (g_k_raw s2)" using False by (simp add: s2_def)
    have u: "\<exists>a b. u = (send_packet cr [21] ((send_packet cr p s3)\<lparr>ek_c2s := a, ek_s2c := b, keys_ready := True\<rparr>))
        \<lparr>send_encrypted := True, ssh_st := SSH_ST_EXPECT_CLIENT_NEWKEYS\<rparr>"
      unfolding u_def reply if_not_P [OF nz]
      by (cases "have_session_id s") (auto simp: s2_def s3_def K_def h_def p_def ecdh_payload_def put_nl_def case_prod_beta Let_def)
    then obtain a b where u: "u = (send_packet cr [21] ((send_packet cr p s3)\<lparr>ek_c2s := a, ek_s2c := b, keys_ready := True\<rparr>))
        \<lparr>send_encrypted := True, ssh_st := SSH_ST_EXPECT_CLIENT_NEWKEYS\<rparr>" by blast
    have lp: "length p = 179" unfolding p_def by (rule ecdh_payload_length [OF assms(4-6)])
    have s3: "rng_ok (g_rng s3)" "\<not> send_encrypted s3" "g_ob s3 = g_ob s" "g_H s3 = fst h" "g_eph_sk s3 = sk"
      using r(2) assms(2) by (simp_all add: s3_def s2_def Let_def)
    have "length (g_ob s3) + length p + 17 \<le> SSH_OB_SZ" using assms(3) lp s3(3) by (simp add: SSH_OB_SZ_def)
    from unenc_output [OF s3(1) this, of cr] obtain pad1 r1 q1 where p1: "length pad1 = 8" "rng_ok r1"
      "send_packet cr p s3 = s3\<lparr>g_ob := g_ob s @ plain_packet p pad1, g_rng := r1, send_seq := q1\<rparr>"
      using s3(2,3) lp by (auto simp: send_packet_def pad_to8_def)
    define s4 where "s4 = s3\<lparr>g_ob := g_ob s @ plain_packet p pad1, g_rng := r1, send_seq := q1, ek_c2s := a, ek_s2c := b, keys_ready := True\<rparr>"
    have l1: "length (plain_packet p pad1) = 192" using lp p1(1) by (simp add: plain_packet_def put_u32_def)
    have s4: "rng_ok (g_rng s4)" "\<not> send_encrypted s4" "length (g_ob s4) + length [21 :: byte] + 17 \<le> SSH_OB_SZ"
      using p1(2) s3(2) assms(3) l1 by (simp_all add: s4_def SSH_OB_SZ_def)
    from unenc_output [OF s4(1,3), of cr] obtain pad2 r2 q2 where p2: "length pad2 = 10"
      "send_packet cr [21] s4 = s4\<lparr>g_ob := g_ob s4 @ plain_packet [21] pad2, g_rng := r2, send_seq := q2\<rparr>"
      using s4(2) by (auto simp: send_packet_def pad_to8_def)
    have "u = (send_packet cr [21] s4)\<lparr>send_encrypted := True, ssh_st := SSH_ST_EXPECT_CLIENT_NEWKEYS\<rparr>"
      unfolding u p1(3) s4_def by simp
    then have "g_ob u = g_ob s @ plain_packet p pad1 @ plain_packet [21] pad2" "g_H u = fst h" "g_eph_sk u = sk"
      "ssh_st u = SSH_ST_EXPECT_CLIENT_NEWKEYS"
      unfolding p2(2) by (simp_all add: s4_def s3(4,5))
    then show ?thesis using False p1(1) p2(1) unfolding p_def by auto
  qed
qed

end
