(* ===== verification/Sshkeys.thy ===== *)
theory Sshkeys
  imports Sshwire
begin

text \<open>
  The \<open>authorized_keys\<close> line: base64 decoding inverts encoding, and every line in OpenSSH's format
  yields the key it was written for.
\<close>

section \<open>base64\<close>

definition b64char :: "nat \<Rightarrow> byte" where
  "b64char n = str ''ABCDEFGHIJKLMNOPQRSTUVWXYZabcdefghijklmnopqrstuvwxyz0123456789+/'' ! n"

text \<open>The encoder without and with padding.\<close>

fun b64_digits :: "byte list \<Rightarrow> byte list" where
  "b64_digits [] = []"
| "b64_digits [a] = map b64char [unat a div 4, unat a mod 4 * 16]"
| "b64_digits [a, b] = map b64char [unat a div 4, unat a mod 4 * 16 + unat b div 16, unat b mod 16 * 4]"
| "b64_digits (a # b # c # bs) =
     map b64char [unat a div 4, unat a mod 4 * 16 + unat b div 16, unat b mod 16 * 4 + unat c div 64, unat c mod 64] @ b64_digits bs"

definition b64_encode :: "byte list \<Rightarrow> byte list" where
  "b64_encode bs = b64_digits bs @ replicate ((3 - length bs mod 3) mod 3) 0x3D"

lemma b64val_table: "list_all (\<lambda>n. b64val (b64char n) = Some n) [0..<64]"
  by code_simp

lemma b64val_char [simp]: "n < 64 \<Longrightarrow> b64val (b64char n) = Some n"
  using b64val_table by (simp add: list_all_iff)

lemma pad_no_digit: "b64val 0x3D = None"
  by (simp add: b64val_def)

text \<open>The four six-bit groups of three bytes, in range.\<close>

lemma six_bits: "unat (a :: byte) div 4 < 64" "unat a mod 4 * 16 + unat (b :: byte) div 16 < 64" "unat a mod 4 * 16 < 64"
  "unat b mod 16 * 4 + unat (c :: byte) div 64 < 64" "unat b mod 16 * 4 < 64" "unat c mod 64 < 64"
  using unat_byte_less [of a] unat_byte_less [of b] unat_byte_less [of c] by auto

lemma b64_digits_val: "list_all (\<lambda>b. b64val b \<noteq> None) (b64_digits bs)"
  by (induction bs rule: b64_digits.induct) (simp_all add: six_bits)

lemma word_mod: "n mod 256 = unat b \<Longrightarrow> of_nat n = (b :: byte)"
  by (simp add: word_unat_eq_iff unat_of_nat)

lemma regroup:
  fixes a b c :: byte
  shows "of_nat (unat a div 4 * 4 + (unat a mod 4 * 16 + unat b div 16) div 16) = a"
    "of_nat (unat a div 4 * 4 + unat a mod 4 * 16 div 16) = a"
    "of_nat ((unat a mod 4 * 16 + unat b div 16) * 16 + (unat b mod 16 * 4 + unat c div 64) div 4) = b"
    "of_nat ((unat a mod 4 * 16 + unat b div 16) * 16 + unat b mod 16 * 4 div 4) = b"
    "of_nat ((unat b mod 16 * 4 + unat c div 64) * 64 + unat c mod 64) = c"
proof -
  have d: "unat b div 16 < 16" "unat c div 64 < 4" using unat_byte_less [of b] unat_byte_less [of c] by auto
  have e: "(unat a mod 4 * 16 + unat b div 16) div 16 = unat a mod 4" "unat a mod 4 * 16 div 16 = unat a mod 4"
    "(unat b mod 16 * 4 + unat c div 64) div 4 = unat b mod 16" "unat b mod 16 * 4 div 4 = unat b mod 16"
    using d by simp_all
  have r: "(unat a mod 4 * 16 + unat b div 16) * 16 + unat b mod 16 = unat a mod 4 * 256 + unat b"
    "(unat b mod 16 * 4 + unat c div 64) * 64 + unat c mod 64 = unat b mod 16 * 256 + unat c"
    using div_mult_mod_eq [of "unat b" 16] div_mult_mod_eq [of "unat c" 64] by (simp_all add: algebra_simps)
  show "of_nat (unat a div 4 * 4 + (unat a mod 4 * 16 + unat b div 16) div 16) = a"
    "of_nat (unat a div 4 * 4 + unat a mod 4 * 16 div 16) = a"
    unfolding e by simp_all
  show "of_nat ((unat a mod 4 * 16 + unat b div 16) * 16 + (unat b mod 16 * 4 + unat c div 64) div 4) = b"
    "of_nat ((unat a mod 4 * 16 + unat b div 16) * 16 + unat b mod 16 * 4 div 4) = b"
    "of_nat ((unat b mod 16 * 4 + unat c div 64) * 64 + unat c mod 64) = c"
    unfolding e r using unat_byte_less [of b] unat_byte_less [of c] by (intro word_mod; simp)+
qed

lemma b64_loop_digits: "length bs \<le> room \<Longrightarrow> b64_loop (b64_digits bs) room = Some bs"
proof (induction bs arbitrary: room rule: b64_digits.induct)
  case (4 a b c bs)
  have ih: "b64_loop (b64_digits bs) (room - 3) = Some bs" and room: "room \<noteq> 0" "room \<noteq> 1" "room \<noteq> 2" using 4 by auto
  show ?case
    by (simp only: b64_digits.simps list.map append.simps b64_loop.simps b64val_char [OF six_bits(1)] b64val_char [OF six_bits(2)]
        b64val_char [OF six_bits(4)] b64val_char [OF six_bits(6)] bind.simps room if_False ih regroup)
next
  case (2 a)
  then have room: "room \<noteq> 0" by auto
  show ?case
    by (simp only: b64_digits.simps list.map b64_loop.simps b64val_char [OF six_bits(1)] b64val_char [OF six_bits(3)] bind.simps room if_False regroup)
next
  case (3 a b)
  then have room: "room \<noteq> 0" "room \<noteq> 1" by auto
  show ?case
    by (simp only: b64_digits.simps list.map b64_loop.simps b64val_char [OF six_bits(1)] b64val_char [OF six_bits(2)]
        b64val_char [OF six_bits(5)] bind.simps room if_False regroup)
qed simp

lemma digits_end: "b64_digits bs = [] \<or> last (b64_digits bs) \<noteq> 0x3D"
  using b64_digits_val [of bs] by (cases "b64_digits bs" rule: rev_cases) (auto simp: pad_no_digit)

lemma drop_pad_encode: "drop_pad (b64_encode bs) = b64_digits bs"
proof -
  have "dropWhile (\<lambda>b. b = 0x3D) (replicate n 0x3D @ ys) = dropWhile (\<lambda>b. b = 0x3D) ys" for n and ys :: "byte list"
    by (induction n) simp_all
  moreover have "dropWhile (\<lambda>b. b = 0x3D) (rev (b64_digits bs)) = rev (b64_digits bs)"
    using digits_end [of bs] by (cases "b64_digits bs" rule: rev_cases) auto
  ultimately show ?thesis by (simp add: drop_pad_def b64_encode_def)
qed

lemma b64_roundtrip: "length bs \<le> outmax \<Longrightarrow> b64_decode (b64_encode bs) outmax = bs"
  by (simp add: b64_decode_def drop_pad_encode b64_loop_digits)

section \<open>The key blob and the line\<close>

definition key_blob :: "byte list \<Rightarrow> byte list" where
  "key_blob key = put_str (str ''ssh-ed25519'') @ put_str key"

lemma key_from_blob:
  assumes "length key = 32" shows "ed25519_key_from_blob (key_blob key) (length (key_blob key)) = Some (Some key)"
proof -
  let ?b = "key_blob key"
  have l: "length ?b = 51" using assms by (simp add: key_blob_def put_str_def put_u32_def)
  have d0: "drop 0 (take (length ?b) ?b) = put_str (str ''ssh-ed25519'') @ put_str key" by (simp add: key_blob_def)
  note r0 = rd_string_Some [OF order_refl _ _ d0, unfolded l, simplified]
  have d1: "drop 15 (take (length ?b) ?b) = put_str key @ []" using r0(4) l by simp
  note r1 = rd_string_Some [OF order_refl _ _ d1, unfolded l, simplified, unfolded assms]
  have "body_is ?b 4 11 ''ssh-ed25519'' = Some True"
    using body_is_eq [of 4 11 ?b "str ''ssh-ed25519''" "''ssh-ed25519''"] l by (simp add: key_blob_def put_str_def put_u32_def)
  moreover have "slice ?b 19 32 = Some key" using r1 l assms by (simp add: slice_def)
  moreover have "rd_string ?b 51 0 = Some (Some (4, 11, 15))" using r0(1) by (simp add: eval_nat_numeral)
  ultimately show ?thesis using r1(1) by (simp add: ed25519_key_from_blob_def blob_field_def l)
qed

definition in_b64 :: "byte \<Rightarrow> bool" where
  "in_b64 b \<longleftrightarrow> b64val b \<noteq> None \<or> b = 0x3D"

lemma in_b64_encode: "list_all in_b64 (b64_encode bs)"
  using b64_digits_val [of bs] by (auto simp: b64_encode_def in_b64_def list_all_iff)

lemma blank_not_b64: "blank b \<Longrightarrow> \<not> in_b64 b"
  by (auto simp: blank_def in_b64_def b64val_def)

lemma dropWhile_blank:
  assumes "list_all blank ws" "ys = [] \<or> \<not> blank (hd ys)" shows "dropWhile blank (ws @ ys) = ys"
  using assms by (induction ws) (cases ys; simp)+

lemma takeWhile_b64:
  assumes "list_all in_b64 xs" "ys = [] \<or> \<not> in_b64 (hd ys)" shows "takeWhile in_b64 (xs @ ys) = xs"
  using assms by (induction xs) (cases ys; simp)+

text \<open>C9. Every authorized key line is understood.  Take any 32-byte Ed25519 public key and write it
  as OpenSSH does: optional blanks, the word ssh-ed25519, at least one blank, the base64 form of the
  key blob, then nothing or a comment that does not continue the base64 text.  Parsing the line
  returns exactly that key.  (More generally base64 decoding inverts encoding for every byte string
  that fits the output buffer, whatever its padding.)\<close>

theorem authkey_roundtrip:
  assumes "length key = 32" "list_all blank ws" "sep \<noteq> []" "list_all blank sep" "rest = [] \<or> \<not> in_b64 (hd rest)"
  shows "ssh_parse_authkey_line (ws @ str ''ssh-ed25519'' @ sep @ b64_encode (key_blob key) @ rest) = Some key
     \<and> (\<forall>bs. b64_decode (b64_encode bs) (length bs) = bs)"
proof -
  let ?e = "b64_encode (key_blob key)"
  have w: "str ''ssh-ed25519'' = [115, 115, 104, 45, 101, 100, 50, 53, 53, 49, 57]" by (simp add: str_def)
  have p1: "dropWhile blank (ws @ str ''ssh-ed25519'' @ sep @ ?e @ rest) = str ''ssh-ed25519'' @ sep @ ?e @ rest"
    by (rule dropWhile_blank [OF assms(2)]) (simp add: w blank_def)
  have "length (key_blob key) = 51" using assms(1) by (simp add: key_blob_def put_str_def put_u32_def)
  then have "key_blob key \<noteq> []" by auto
  then have ne: "?e \<noteq> []" by (cases "key_blob key" rule: b64_digits.cases) (simp_all add: b64_encode_def)
  have hd_e: "in_b64 (hd ?e)" using in_b64_encode [of "key_blob key"] ne by (cases ?e) auto
  have p2: "dropWhile blank (sep @ ?e @ rest) = ?e @ rest"
    by (rule dropWhile_blank [OF assms(4)]) (use ne hd_e blank_not_b64 in auto)
  have p3: "takeWhile (\<lambda>b. b64val b \<noteq> None \<or> b = 0x3D) (?e @ rest) = ?e"
    using takeWhile_b64 [OF in_b64_encode assms(5)] unfolding in_b64_def by simp
  have p4: "b64_decode ?e 80 = key_blob key" by (rule b64_roundtrip) (simp add: \<open>length (key_blob key) = 51\<close>)
  have h: "sep @ ?e @ rest \<noteq> []" "blank (hd (sep @ ?e @ rest))" using assms(3,4) by (cases sep; simp)+
  let ?w = "str ''ssh-ed25519''"
  have c: "\<not> (?w @ x = [] \<or> hd (?w @ x) = 0x23 \<or> hd (?w @ x) = 0x0D \<or> hd (?w @ x) = 0x0A)"
    "\<not> take 11 (?w @ x) \<noteq> ?w" "drop 11 (?w @ x) = x" for x by (simp_all add: w)
  have d: "\<not> (sep @ ?e @ rest = [] \<or> \<not> blank (hd (sep @ ?e @ rest)))" using h by simp
  have "ssh_parse_authkey_line (ws @ ?w @ sep @ ?e @ rest) = Some key"
    unfolding ssh_parse_authkey_line_def Let_def p1 if_not_P [OF c(1)] if_not_P [OF c(2)] c(3) if_not_P [OF d] p2 p3 p4
    by (simp add: key_from_blob [OF assms(1)])
  then show ?thesis by (simp add: b64_roundtrip)
qed

theorem authkey_roundtrip_witness:
  "ssh_parse_authkey_line ([0x20] @ str ''ssh-ed25519'' @ [0x20] @ b64_encode (key_blob (replicate 32 7)) @ str '' me@host'')
     = Some (replicate 32 7)"
  by (rule conjunct1 [OF authkey_roundtrip]) (simp_all add: blank_def in_b64_def b64val_def str_def)

end
