(* ===== verification/Sshchan.thy ===== *)
theory Sshchan
  imports Sshinput
begin

text \<open>
  The session channel of \<open>ssh.c\<close>: keystrokes arrive in CHANNEL_DATA packets, are kept in the ring
  \<open>g_cin\<close> and are taken out one by one by \<open>ssh_channel_getc\<close>.  The ring provides the interface
  \<open>bounded_fifo\<close> (interpretation \<open>cin\<close>); the flow-control window stays between half and all of
  \<open>SSH_LOCAL_WINDOW\<close>.
\<close>

section \<open>The keystroke ring\<close>

definition cin_ok :: "ssh \<Rightarrow> bool" where
  "cin_ok s \<longleftrightarrow> length (g_cin s) = SSH_CIN_SZ \<and> g_cin_head s < SSH_CIN_SZ \<and> g_cin_tail s < SSH_CIN_SZ"

definition keystrokes :: "ssh \<Rightarrow> byte list" where
  "keystrokes s = ring_list (g_cin s) (g_cin_head s) (ring_used SSH_CIN_SZ (g_cin_head s) (g_cin_tail s))"

lemma cin_put_ok:
  assumes "cin_ok s"
  shows "cin_ok (cin_put b s)"
    "keystrokes (cin_put b s) = (if length (keystrokes s) < SSH_CIN_SZ - 1 then keystrokes s @ [b] else keystrokes s)"
proof -
  let ?h = "g_cin_head s" and ?t = "g_cin_tail s"
  let ?n = "ring_used SSH_CIN_SZ ?h ?t"
  have r: "?h < SSH_CIN_SZ" "?t < SSH_CIN_SZ" "length (g_cin s) = SSH_CIN_SZ" using assms by (simp_all add: cin_ok_def)
  have le: "?n \<le> SSH_CIN_SZ - 1" using ring_used_less [of SSH_CIN_SZ ?h ?t] r(1) by simp
  have full: "Suc ?t mod SSH_CIN_SZ = ?h \<longleftrightarrow> ?n = SSH_CIN_SZ - 1" using ring_full [OF r(1,2)] by simp
  have z: "0 < SSH_CIN_SZ" by (simp add: SSH_CIN_SZ_def)
  show "cin_ok (cin_put b s)" using assms z by (simp add: cin_put_def cin_ok_def Let_def)
  show "keystrokes (cin_put b s) = (if length (keystrokes s) < SSH_CIN_SZ - 1 then keystrokes s @ [b] else keystrokes s)"
  proof (cases "?n < SSH_CIN_SZ - 1")
    case True
    then have nf: "Suc ?t mod SSH_CIN_SZ \<noteq> ?h" using full by simp
    have "ring_list ((g_cin s)[?t := b]) ?h (Suc ?n) = ring_list (g_cin s) ?h ?n @ [b]"
      using r True by (intro ring_list_put) simp_all
    then show ?thesis using True nf ring_used_put [OF r(1,2) nf] by (simp add: cin_put_def keystrokes_def Let_def)
  next
    case False
    then show ?thesis using le full by (simp add: cin_put_def keystrokes_def Let_def)
  qed
qed

lemma getc_ok:
  assumes "cin_ok s"
  shows "keystrokes s = [] \<Longrightarrow> ssh_channel_getc s = None"
    "keystrokes s = b # bs \<Longrightarrow> \<exists>t. ssh_channel_getc s = Some (b, t) \<and> cin_ok t \<and> keystrokes t = bs"
proof -
  let ?h = "g_cin_head s" and ?t = "g_cin_tail s"
  let ?n = "ring_used SSH_CIN_SZ ?h ?t"
  have r: "?h < SSH_CIN_SZ" "?t < SSH_CIN_SZ" "length (g_cin s) = SSH_CIN_SZ" using assms by (simp_all add: cin_ok_def)
  have len: "length (keystrokes s) = ?n" by (simp add: keystrokes_def)
  show "keystrokes s = [] \<Longrightarrow> ssh_channel_getc s = None"
    using len ring_used_zero [OF r(1,2)] by (simp add: ssh_channel_getc_def)
  assume bs: "keystrokes s = b # bs"
  then have n: "?n = Suc (length bs)" using len by simp
  then have ne: "?h \<noteq> ?t" using ring_used_zero [OF r(1,2)] by simp
  let ?s = "s\<lparr>g_cin_head := (?h + 1) mod SSH_CIN_SZ\<rparr>"
  have "keystrokes s = g_cin s ! ?h # ring_list (g_cin s) (Suc ?h mod SSH_CIN_SZ) (length bs)"
    unfolding keystrokes_def n using ring_list_Cons [of ?h "g_cin s" "length bs"] r by simp
  then have "g_cin s ! ?h = b" "keystrokes ?s = bs"
    using bs ring_used_get [OF r(1,2) ne] n by (simp_all add: keystrokes_def)
  moreover have "cin_ok ?s" using assms by (simp add: cin_ok_def SSH_CIN_SZ_def)
  ultimately show "\<exists>t. ssh_channel_getc s = Some (b, t) \<and> cin_ok t \<and> keystrokes t = bs"
    using ne by (auto simp: ssh_channel_getc_def)
qed

interpretation cin: bounded_fifo cin_ok keystrokes "\<lambda>_. SSH_CIN_SZ - 1" cin_put ssh_channel_getc
proof unfold_locales
  fix q assume "cin_ok q"
  then show "length (keystrokes q) \<le> SSH_CIN_SZ - 1"
    using ring_used_less [of SSH_CIN_SZ "g_cin_head q" "g_cin_tail q"] by (simp add: keystrokes_def cin_ok_def)
qed (simp_all add: cin_put_ok getc_ok)

section \<open>A CHANNEL_DATA packet\<close>

lemma cin_full_fold: "(g_cin_tail s + 1) mod SSH_CIN_SZ = g_cin_head s \<Longrightarrow> fold cin_put xs s = s"
  by (induction xs) (simp_all add: cin_put_def)

text \<open>The loop stops at the first byte that finds the ring full; going on would drop the rest too.\<close>

lemma cin_loop_fold: "drop i pl = data @ r \<Longrightarrow> cin_loop pl i (length data) s = Some (fold cin_put data s)"
proof (induction data arbitrary: i s)
  case (Cons b bs)
  have "rd_byte pl i = Some b" using Cons.prems nth_via_drop [of i pl b "bs @ r"] by (simp add: rd_byte_def not_le)
      (metis drop_all linorder_not_less list.distinct(1))
  moreover have "drop (Suc i) pl = bs @ r" using Cons.prems by (metis append_Cons drop_Suc drop_tl list.sel(3))
  ultimately show ?case using Cons.IH [of "Suc i"] cin_full_fold [of s "b # bs"] by simp
qed simp

lemma cin_put_window: "local_window (cin_put b s) = local_window s"
  by (simp add: cin_put_def Let_def)

lemma fold_cin_window: "local_window (fold cin_put bs s) = local_window s"
  by (induction bs arbitrary: s) (simp_all add: cin_put_window)

lemma adjust_keeps_cin:
  "g_cin (adjust_local_window cr n s) = g_cin s" "g_cin_head (adjust_local_window cr n s) = g_cin_head s"
  "g_cin_tail (adjust_local_window cr n s) = g_cin_tail s"
  by (simp_all add: adjust_local_window_def Let_def)

lemma adjust_window_bounds:
  assumes "unat (local_window s) \<le> SSH_LOCAL_WINDOW"
  shows "SSH_LOCAL_WINDOW div 2 \<le> unat (local_window (adjust_local_window cr n s))
    \<and> unat (local_window (adjust_local_window cr n s)) \<le> SSH_LOCAL_WINDOW"
proof -
  define w where "w = (if unat (local_window s) \<ge> n then local_window s - of_nat n else 0)"
  have w: "unat w \<le> SSH_LOCAL_WINDOW"
  proof (cases "unat (local_window s) \<ge> n")
    case True
    then have "unat (of_nat n :: u32) = n" using assms by (simp add: SSH_LOCAL_WINDOW_def unat_of_nat)
    then show ?thesis using True assms unat_sub [of "of_nat n" "local_window s"] by (simp add: w_def word_le_nat_alt)
  qed (simp add: w_def)
  have "unat (w + of_nat (SSH_LOCAL_WINDOW - unat w)) = SSH_LOCAL_WINDOW"
  proof -
    have "w + of_nat (SSH_LOCAL_WINDOW - unat w) = of_nat (unat w + (SSH_LOCAL_WINDOW - unat w))"
      by (simp only: of_nat_add of_nat_unat ucast_id)
    then show ?thesis using w by (simp add: SSH_LOCAL_WINDOW_def)
  qed
  moreover have "local_window (adjust_local_window cr n s)
      = (if unat w \<ge> SSH_LOCAL_WINDOW div 2 then w else w + of_nat (SSH_LOCAL_WINDOW - unat w))"
    by (simp add: adjust_local_window_def Let_def w_def [symmetric])
  ultimately show ?thesis using w by auto
qed

lemma handle_data_fold:
  assumes "pl = [94] @ be32 ch @ put_str data @ beyond" "length data < 65000"
  shows "handle_channel_data cr pl (9 + length data) s
    = Some (adjust_local_window cr (length data) (fold cin_put data s))"
proof -
  have d5: "drop 5 pl = be32 (of_nat (length data)) @ data @ beyond" by (simp add: assms(1) put_str_def put_u32_def)
  then have "rd_len pl 5 = Some (length data)"
    using rd_u32_be32 [OF d5] assms(2) by (simp add: rd_len_def unat_of_nat)
  moreover have "drop 9 pl = data @ beyond" by (simp add: assms(1) put_str_def put_u32_def)
  ultimately show ?thesis
    using cin_loop_fold [of 9 pl data beyond s] assms(2) by (simp add: handle_channel_data_def)
qed

lemma channel_data_lemma:
  assumes "pl = [94] @ be32 ch @ put_str data @ beyond" "length data < 65000"
    and "cin_ok s" "unat (local_window s) \<le> SSH_LOCAL_WINDOW"
  shows "\<exists>t. handle_channel_data cr pl (9 + length data) s = Some t
    \<and> cin_ok t \<and> keystrokes t = keystrokes s @ take (255 - length (keystrokes s)) data
    \<and> SSH_LOCAL_WINDOW div 2 \<le> unat (local_window t) \<and> unat (local_window t) \<le> SSH_LOCAL_WINDOW"
proof (intro exI conjI)
  let ?f = "fold cin_put data s"
  let ?t = "adjust_local_window cr (length data) ?f"
  show "handle_channel_data cr pl (9 + length data) s = Some ?t" by (rule handle_data_fold [OF assms(1,2)])
  have "cin_ok ?f" "keystrokes ?f = keystrokes s @ take (SSH_CIN_SZ - 1 - length (keystrokes s)) data"
    using cin.inv_fold_put [OF assms(3)] cin.contents_fold_put [OF assms(3)] by auto
  then show "cin_ok ?t" "keystrokes ?t = keystrokes s @ take (255 - length (keystrokes s)) data"
    by (simp_all add: cin_ok_def keystrokes_def adjust_keeps_cin SSH_CIN_SZ_def)
  show "SSH_LOCAL_WINDOW div 2 \<le> unat (local_window ?t)" "unat (local_window ?t) \<le> SSH_LOCAL_WINDOW"
    using adjust_window_bounds [of ?f cr "length data"] assms(4) by (simp_all add: fold_cin_window)
qed

text \<open>C25. A CHANNEL_DATA packet delivers its data: the bytes are appended, in order, behind the
  keystrokes that wait, as far as the 255 bytes of the ring reach (the rest is dropped), the ring stays
  well formed, and the window the client may still send in ends between half and all of
  \<open>SSH_LOCAL_WINDOW\<close>, so a client that respects it is never stalled.\<close>

theorem channel_data_delivers:
  assumes "pl = [94] @ be32 ch @ put_str data @ beyond" "length data < 65000"
    and "cin_ok s" "unat (local_window s) \<le> SSH_LOCAL_WINDOW"
  shows "\<exists>t. handle_channel_data cr pl (9 + length data) s = Some t
    \<and> cin_ok t \<and> keystrokes t = keystrokes s @ take (255 - length (keystrokes s)) data
    \<and> SSH_LOCAL_WINDOW div 2 \<le> unat (local_window t) \<and> unat (local_window t) \<le> SSH_LOCAL_WINDOW"
  by (rule channel_data_lemma [OF assms])

theorem channel_data_delivers_witness:
  "\<exists>t. handle_channel_data toy_crypto ([94] @ be32 0 @ put_str (str ''dir'') @ []) 12 ssh_zero = Some t
    \<and> keystrokes t = str ''dir''"
proof -
  have z: "cin_ok ssh_zero" "keystrokes ssh_zero = []" "unat (local_window ssh_zero) \<le> SSH_LOCAL_WINDOW"
    by (simp_all add: cin_ok_def keystrokes_def ring_used_def ring_list_def ssh_zero_def ssh_conn_zero_def
        ssh_conn.defs ssh.defs SSH_CIN_SZ_def)
  show ?thesis
    using channel_data_delivers [of "[94] @ be32 0 @ put_str (str ''dir'') @ []" 0 "str ''dir''" "[]" ssh_zero toy_crypto] z
    by (auto simp: str_def)
qed

end
