(* ===== verification/Sshtick.thy ===== *)
theory Sshtick
  imports Dosshd
begin

text \<open>
  What the tick of \<open>dosshd.c\<close> does with the output of the SSH server: \<open>ssh_pump_output\<close> moves the
  shared output buffer of \<open>ssh.c\<close> to the send ring of one slot.  The send ring is used through its
  interface \<open>bounded_sink\<close> (interpretation \<open>snd\<close> of theory Tcp).
\<close>

section \<open>Appending to the send ring of a slot\<close>

lemma put_slot_eq:
  "i < length (conns (nt s)) \<Longrightarrow>
     put_slot i b s = s\<lparr>nt := (nt s)\<lparr>conns := (conns (nt s))[i := slot_put b (conns (nt s) ! i)]\<rparr>\<rparr>"
  by (simp add: put_slot_def net_tx_putc_slot_def slot_put_def)

lemma fold_put_slot:
  "i < length (conns (nt s)) \<Longrightarrow>
     fold (put_slot i) bs s = s\<lparr>nt := (nt s)\<lparr>conns := (conns (nt s))[i := fold slot_put bs (conns (nt s) ! i)]\<rparr>\<rparr>"
  by (induction bs arbitrary: s) (simp_all add: put_slot_eq)

lemma room_sring: "i < length (conns n) \<Longrightarrow> net_tx_room_slot i n = SND_SZ - 1 - length (sring (conns n ! i))"
  by (simp add: net_tx_room_slot_def sring_def)

section \<open>Draining the shared output\<close>

lemma take_output_eq:
  assumes "i < length (ssh_slots s)"
  shows "take_output i n s = (take n (g_ob (g_shared s)),
    s\<lparr>g_shared := (at_slot s i)\<lparr>g_ob := drop n (g_ob (g_shared s))\<rparr>\<rparr>)"
proof -
  have "ssh_conn.truncate ((at_slot s i)\<lparr>g_ob := x\<rparr>) = ssh_slots s ! i" for x
    unfolding at_slot_def by (cases "g_shared s"; cases "ssh_slots s ! i") (simp add: ssh_conn.defs)
  then show ?thesis
    using assms by (simp add: take_output_def ssh_output_def set_slot_def)
qed

text \<open>The effect of \<open>ssh_pump_output\<close> on slot \<open>i\<close>: \<open>m\<close> bytes are moved.\<close>

definition pumped :: "nat \<Rightarrow> nat \<Rightarrow> dossh \<Rightarrow> dossh \<Rightarrow> bool" where
  "pumped i m s t \<longleftrightarrow> ssh_slots t = ssh_slots s
     \<and> g_ob (g_shared t) = drop m (g_ob (g_shared s))
     \<and> (\<exists>c. conns (nt t) = (conns (nt s))[i := c] \<and> conn_ok c
          \<and> sring c = sring (conns (nt s) ! i) @ take m (g_ob (g_shared s)))"

lemma pumped_refl: "conn_ok (conns (nt s) ! i) \<Longrightarrow> pumped i 0 s s"
  unfolding pumped_def by (auto intro!: exI [of _ "conns (nt s) ! i"])

lemma pumped_min: "pumped i m s t \<Longrightarrow> pumped i (min m (length (g_ob (g_shared s)))) s t"
  by (cases "m \<le> length (g_ob (g_shared s))") (simp_all add: pumped_def min_def)

lemma pumped_trans:
  assumes "pumped i k s t" "pumped i m t u" "i < length (conns (nt s))" shows "pumped i (k + m) s u"
proof -
  obtain c where c: "conns (nt t) = (conns (nt s))[i := c]" "sring c = sring (conns (nt s) ! i) @ take k (g_ob (g_shared s))"
    using assms(1) unfolding pumped_def by blast
  obtain c' where c': "conns (nt u) = (conns (nt t))[i := c']" "conn_ok c'"
    "sring c' = sring (conns (nt t) ! i) @ take m (g_ob (g_shared t))"
    using assms(2) unfolding pumped_def by blast
  have "sring c' = sring (conns (nt s) ! i) @ take (k + m) (g_ob (g_shared s))"
    using c c'(3) assms(1,3) by (simp add: pumped_def take_add)
  then show ?thesis using assms(1,2) c c' unfolding pumped_def by (auto simp: add.commute)
qed

lemma pumped_step:
  assumes "i < length (conns (nt s))" "i < length (ssh_slots s)" "conn_ok (conns (nt s) ! i)"
    "m \<le> net_tx_room_slot i (nt s)"
  shows "pumped i m s (fold (put_slot i) (fst (take_output i m s)) (snd (take_output i m s)))"
proof -
  let ?bs = "take m (g_ob (g_shared s))" and ?c = "conns (nt s) ! i"
  have "length (sring ?c) + length ?bs \<le> SND_SZ - 1"
    using assms(4) snd.length_contents [OF assms(3)] by (auto simp: room_sring [OF assms(1)])
  then have "sring (fold slot_put ?bs ?c) = sring ?c @ ?bs" by (rule snd.put_all_room [OF assms(3)])
  moreover have "conn_ok (fold slot_put ?bs ?c)" by (rule snd.inv_fold_put [OF assms(3)])
  ultimately show ?thesis
    using assms(1,2) by (simp add: take_output_eq fold_put_slot pumped_def) blast
qed

lemma pumped_room:
  assumes "pumped i m s t" "i < length (conns (nt s))" "m \<le> length (g_ob (g_shared s))"
  shows "net_tx_room_slot i (nt t) = net_tx_room_slot i (nt s) - m"
proof -
  obtain c where c: "conns (nt t) = (conns (nt s))[i := c]" "sring c = sring (conns (nt s) ! i) @ take m (g_ob (g_shared s))"
    using assms(1) unfolding pumped_def by blast
  have "length (sring c) = length (sring (conns (nt s) ! i)) + m" using assms(3) unfolding c(2) by simp
  then show ?thesis using assms(2) c(1) by (simp only: room_sring length_list_update nth_list_update_eq)
qed

lemma pumped_sizes: "pumped i m s t \<Longrightarrow> length (conns (nt t)) = length (conns (nt s)) \<and> length (ssh_slots t) = length (ssh_slots s)
    \<and> (i < length (conns (nt s)) \<longrightarrow> conn_ok (conns (nt t) ! i))"
  unfolding pumped_def by auto

lemma pump_pumped:
  assumes "i < length (conns (nt s))" "i < length (ssh_slots s)" "conn_ok (conns (nt s) ! i)"
  shows "pumped i (min (net_tx_room_slot i (nt s)) (length (g_ob (g_shared s)))) s (ssh_pump_output i s)"
  using assms
proof (induction i s rule: ssh_pump_output.induct)
  case (1 i s)
  let ?room = "net_tx_room_slot i (nt s)" and ?q = "g_ob (g_shared s)"
  define m where "m = min (min ?room 128) (length ?q)"
  define t where "t = fold (put_slot i) (fst (take_output i (min ?room 128) s)) (snd (take_output i (min ?room 128) s))"
  show ?case
  proof (cases "?room = 0 \<or> ?q = []")
    case True
    then have "ssh_pump_output i s = s \<or> ssh_pump_output i s = snd (take_output i (min ?room 128) s)"
      by (subst (1 2) ssh_pump_output.simps) (auto simp: Let_def take_output_eq [OF 1(3)])
    moreover have "pumped i 0 s (snd (take_output i (min ?room 128) s))" if "?q = []"
      using that 1(4) by (simp add: take_output_eq [OF 1(3)] pumped_def) (metis list_update_id)
    moreover have "?room = 0 \<Longrightarrow> ssh_pump_output i s = s" by (subst ssh_pump_output.simps) simp
    ultimately show ?thesis using True pumped_refl [OF 1(4)] by auto
  next
    case False
    have p: "pumped i m s t"
      unfolding m_def t_def by (rule pumped_min [OF pumped_step [OF 1(2-4)]]) simp
    have eq: "ssh_pump_output i s = ssh_pump_output i t"
      using False by (subst ssh_pump_output.simps) (simp add: Let_def case_prod_beta t_def take_output_eq [OF 1(3)] min_def)
    have "pumped i (min (net_tx_room_slot i (nt t)) (length (g_ob (g_shared t)))) t (ssh_pump_output i t)"
      unfolding t_def
      by (rule 1(1) [OF refl _ refl surjective_pairing [symmetric]])
        (use False 1(2-4) pumped_sizes [OF p, unfolded t_def] in \<open>simp_all add: take_output_eq [OF 1(3)]\<close>)
    moreover have le: "m \<le> ?room" "m \<le> length ?q" by (simp_all add: m_def)
    moreover have "net_tx_room_slot i (nt t) = ?room - m" "length (g_ob (g_shared t)) = length ?q - m"
      using pumped_room [OF p 1(2) le(2)] p by (simp_all add: pumped_def)
    moreover from this have "m + min (net_tx_room_slot i (nt t)) (length (g_ob (g_shared t))) = min ?room (length ?q)"
      using le by linarith
    ultimately show ?thesis using pumped_trans [OF p _ 1(2)] eq by metis
  qed
qed

text \<open>C26. Where the SSH output goes.  Pumping the shared output buffer to slot \<open>i\<close> appends to that
  slot's send ring exactly the first bytes of the buffer, as many as the ring has room for, in order,
  and touches no other slot; what does not fit stays in the buffer, and if slot \<open>j\<close> is pumped next
  it is appended to the stream of slot \<open>j\<close>.\<close>

theorem pump_output_exact:
  fixes s i j
  defines "q \<equiv> g_ob (g_shared s)" and "room \<equiv> \<lambda>k. net_tx_room_slot k (nt s)"
    and "t \<equiv> ssh_pump_output i s"
  assumes "i < length (conns (nt s))" "j < length (conns (nt s))" "i \<noteq> j"
    "length (ssh_slots s) = length (conns (nt s))" "net_ok (nt s)"
  shows "\<exists>c. conns (nt t) = (conns (nt s))[i := c] \<and> sring c = sring (conns (nt s) ! i) @ take (room i) q
     \<and> ssh_slots t = ssh_slots s \<and> g_ob (g_shared t) = drop (room i) q
     \<and> (\<exists>d. conns (nt (ssh_pump_output j t)) = (conns (nt s))[i := c, j := d]
          \<and> sring d = sring (conns (nt s) ! j) @ take (room j) (drop (room i) q))"
proof -
  have ok: "conn_ok (conns (nt s) ! i)" "conn_ok (conns (nt s) ! j)" using net_ok_conn assms(4,5,8) by blast+
  have p: "pumped i (min (room i) (length q)) s t"
    unfolding t_def q_def room_def by (rule pump_pumped) (use assms(4,7) ok in simp_all)
  obtain c where c: "conns (nt t) = (conns (nt s))[i := c]" "sring c = sring (conns (nt s) ! i) @ take (room i) q"
    using p unfolding pumped_def q_def [symmetric] by (auto simp: min_def split: if_splits)
  have t: "ssh_slots t = ssh_slots s" "g_ob (g_shared t) = drop (room i) q"
    using p unfolding pumped_def q_def [symmetric] by (auto simp: min_def split: if_splits)
  have r: "net_tx_room_slot j (nt t) = room j" using c(1) assms(5,6) by (simp add: room_def room_sring)
  have "pumped j (min (room j) (length (drop (room i) q))) t (ssh_pump_output j t)"
    using pump_pumped [of j t] c(1) assms(5-7) ok t r by simp
  then obtain d where "conns (nt (ssh_pump_output j t)) = (conns (nt t))[j := d]"
    "sring d = sring (conns (nt s) ! j) @ take (room j) (drop (room i) q)"
    using c(1) t(2) assms(6) unfolding pumped_def by (auto simp: min_def split: if_splits)
  then show ?thesis using c t by (intro exI [of _ c]) auto
qed

definition wit_pump :: dossh where
  "wit_pump = \<lparr>kb = kbd_at, ak = ansikey_zero, scr = render0, nt = wit_stack, tslots = [], tcf = tconf0,
     g_net = True, net_ip = [10, 0, 2, 15], net_port = 22, in_tick = False, g_ssh_mode = True, g_ssh_serial = False,
     g_ssh_ser_started = False, ssh_slots = replicate (length (conns wit_stack)) ssh_conn_zero,
     g_shared = ssh_zero\<lparr>g_ob := [1, 2, 3]\<rparr>,
     ssh_active = [], ssh_ready_seen = [], host_sk = [], host_pk = [], g_ssh_pw = [], g_ssh_have_pw = False,
     authkeys = [], g_ssh_cols = 80, g_ssh_rows = 25, g_ssh_stir = 0, u_rx = [], u_tx = [], u_polls = [], events = []\<rparr>"

theorem pump_output_exact_witness:
  "\<exists>c. conns (nt (ssh_pump_output 0 wit_pump)) = (conns wit_stack)[0 := c]
     \<and> sring c = sring wit_conn @ take (net_tx_room_slot 0 wit_stack) [1, 2, 3]"
proof -
  have w: "nt wit_pump = wit_stack" "g_ob (g_shared wit_pump) = [1, 2, 3]"
    "length (ssh_slots wit_pump) = length (conns wit_stack)"
    by (simp_all add: wit_pump_def)
  have c: "length (conns wit_stack) = 2" "conns wit_stack ! 0 = wit_conn" by (simp_all add: wit_stack_def)
  show ?thesis
    using pump_output_exact [of 0 wit_pump 1] wit_stack_ok unfolding w c by auto
qed

end
