(* ===== verification/Install.thy ===== *)
theory Install
  imports Dosshd Terminal
begin

text \<open>
  The transient part of \<open>dosshd/dosshd.c\<close> (the SSH build): the command line, the presence check over
  INT 2Fh, installation, status and removal.

  The record \<open>dos\<close> is what these functions see of the machine: the two interrupt vectors, what the
  INT 2Fh handler at an address does and what the struct \<open>resident_state\<close> at an address holds, the
  memory control blocks, the files \<open>DOSSHD.KEY\<close> and \<open>AUTHKEYS\<close> (the latter as the text stream the C
  library delivers), the three addresses of this program's own image, and a log of the effects.
  The packet driver is the record \<open>driver\<close>; the Ed25519 key generation is the parameter \<open>key_pair\<close>.
  Message texts are the constructors of \<open>message\<close>.
\<close>

section \<open>State\<close>

type_synonym far = "nat \<times> nat"

record regs =
  r_ah :: byte
  r_al :: byte
  r_cx :: nat
  r_dx :: nat

record resident =
  magic :: "byte list"
  res_psp :: nat
  res_net :: bool
  res_int :: byte
  res_handle :: nat
  old_1c :: far
  old_2f :: far

datatype message =
  BadIP | Usage | AlreadyInstalled | IdTaken | NotInstalled | NoDriver | HookedAfter | Uninstalled
| StatusInstalled bool nat | NewHostKey | EphemeralHostKey | KeysLoaded nat | Resident nat

record dos =
  vec_1c :: far
  vec_2f :: far
  code_2f :: "far \<Rightarrow> regs \<Rightarrow> regs"
  state_at :: "far \<Rightarrow> resident"
  mcb_paras :: "nat \<Rightarrow> nat"
  psp_env :: "nat \<Rightarrow> nat"
  this_psp :: nat
  state_addr :: far
  mpx_addr :: far
  tick_addr :: far
  key_file :: "byte list option"
  can_write :: bool
  authkeys_file :: "byte list option"
  freed :: "nat list"
  released :: "(byte \<times> nat) list"
  kept :: "nat option"
  messages :: "message list"

record driver =
  drv_vects :: "nat \<Rightarrow> byte list option"
  drv_access :: "byte \<Rightarrow> nat option"
  drv_addr :: "byte \<Rightarrow> nat \<Rightarrow> byte list"

definition MPX_ID :: byte where "MPX_ID = 0xD5"
definition STATE_MAGIC :: "byte list" where "STATE_MAGIC = str ''DOSSH1''"

definition say :: "message \<Rightarrow> dos \<Rightarrow> dos" where
  "say m d = d\<lparr>messages := messages d @ [m]\<rparr>"

text \<open>The release calls of \<open>net.c\<close>: \<open>released\<close> records the release_type requests the packet driver gets.\<close>

definition net_pkt_int :: "net \<Rightarrow> byte" where "net_pkt_int s = pkt_int s"
definition net_pkt_handle :: "net \<Rightarrow> nat" where "net_pkt_handle s = pkt_handle s"

definition net_release :: "byte \<Rightarrow> nat \<Rightarrow> dos \<Rightarrow> dos" where
  "net_release int_no handle d = d\<lparr>released := released d @ [(int_no, handle)]\<rparr>"

definition pkt_release :: "net \<Rightarrow> dos \<Rightarrow> dos" where
  "pkt_release s d = d\<lparr>released := released d @ [(pkt_int s, pkt_handle s)]\<rparr>"

definition net_close :: "net \<Rightarrow> dos \<Rightarrow> dos" where
  "net_close s d = (if pkt_int s \<noteq> 0 then pkt_release s d else d)"

section \<open>Presence check\<close>

text \<open>The multiplex handler of a resident copy whose state block is at \<open>addr\<close>; \<open>old\<close> is the handler
  it chains to.\<close>

definition mpx_isr :: "far \<Rightarrow> (regs \<Rightarrow> regs) \<Rightarrow> regs \<Rightarrow> regs" where
  "mpx_isr addr old r =
     (if r_ah r = MPX_ID \<and> r_al r = 0x00 then r\<lparr>r_al := 0xFF, r_cx := fst addr, r_dx := snd addr\<rparr> else old r)"

definition get_psp :: "dos \<Rightarrow> nat" where
  "get_psp d = this_psp d"

definition block_paras :: "dos \<Rightarrow> nat \<Rightarrow> nat" where
  "block_paras d p = mcb_paras d p"

text \<open>The address of the resident state and the \<open>conflict\<close> flag.\<close>

definition find_resident :: "dos \<Rightarrow> far option \<times> bool" where
  "find_resident d =
     (let r = code_2f d (vec_2f d) \<lparr>r_ah = MPX_ID, r_al = 0, r_cx = 0, r_dx = 0\<rparr>
      in if r_al r \<noteq> 0xFF then (None, False)
         else if (r_cx r \<noteq> 0 \<or> r_dx r \<noteq> 0) \<and> magic (state_at d (r_cx r, r_dx r)) = STATE_MAGIC
         then (Some (r_cx r, r_dx r), False)
         else (None, True))"

section \<open>Host key and authorized keys\<close>

definition ssh_load_hostkey :: "crypto \<Rightarrow> (byte list \<Rightarrow> byte list \<times> byte list) \<Rightarrow> dossh \<times> dos \<Rightarrow> dossh \<times> dos" where
  "ssh_load_hostkey cr key_pair sd =
     (let (s, d) = sd;
          (seed, s, d) =
            (case key_file d of
               Some bs \<Rightarrow> if length bs \<ge> 32 then (Some (take 32 bs), s, d) else (None, s, d)
             | None \<Rightarrow> (None, s, d));
          (seed, s, d) =
            (case seed of
               Some bs \<Rightarrow> (bs, s, d)
             | None \<Rightarrow>
                 (let (bs, c) = rand cr 32 (g_shared s)
                  in (bs, s\<lparr>g_shared := c\<rparr>,
                      if can_write d then say NewHostKey (d\<lparr>key_file := Some bs\<rparr>) else say EphemeralHostKey d)));
          (sk, pk) = key_pair seed
      in (s\<lparr>host_sk := sk, host_pk := pk\<rparr>, d))"

text \<open>\<open>fgets(line, 300, f)\<close> on a stream that is not at its end: the C string read, and the rest.\<close>

definition fgets_line :: "byte list \<Rightarrow> byte list \<times> byte list" where
  "fgets_line bs =
     (let n = length (takeWhile (\<lambda>b. b \<noteq> 10) bs); k = min (n + 1) 299
      in (takeWhile (\<lambda>b. b \<noteq> 0) (take k bs), drop k bs))"

function authkeys_loop :: "byte list list \<Rightarrow> byte list \<Rightarrow> byte list list" where
  "authkeys_loop keys bs =
     (if length keys < SSH_MAX_AUTHKEYS \<and> bs \<noteq> [] then
        (let (line, rest) = fgets_line bs
         in authkeys_loop (case ssh_parse_authkey_line line of Some k \<Rightarrow> keys @ [k] | None \<Rightarrow> keys) rest)
      else keys)"
  by pat_completeness auto

termination by (relation "measure (\<lambda>(keys, bs). length bs)") (auto simp: fgets_line_def Let_def)

declare authkeys_loop.simps [simp del]

definition ssh_load_authkeys :: "dossh \<times> dos \<Rightarrow> dossh \<times> dos" where
  "ssh_load_authkeys sd =
     (let (s, d) = sd
      in case authkeys_file d of
           None \<Rightarrow> (s\<lparr>authkeys := []\<rparr>, d)
         | Some bs \<Rightarrow>
             (let keys = authkeys_loop [] bs
              in (s\<lparr>authkeys := keys\<rparr>, if keys \<noteq> [] then say (KeysLoaded (length keys)) d else d)))"

definition ssh_install_setup :: "crypto \<Rightarrow> (byte list \<Rightarrow> byte list \<times> byte list) \<Rightarrow> dossh \<times> dos \<Rightarrow> dossh \<times> dos" where
  "ssh_install_setup cr key_pair sd =
     (let (s, d) = sd;
          s = s\<lparr>g_shared := (g_shared s)\<lparr>g_rng := rng_init (hw cr) (g_rng (g_shared s))\<rparr>\<rparr>
      in ssh_load_authkeys (ssh_load_hostkey cr key_pair (s, d)))"

section \<open>Install, status, uninstall\<close>

definition hook :: "dossh \<Rightarrow> dos \<Rightarrow> dos" where
  "hook s d =
     (let p = get_psp d;
          st = \<lparr>magic = STATE_MAGIC, res_psp = p, res_net = g_net s,
                res_int = (if g_net s then net_pkt_int (nt s) else 0),
                res_handle = (if g_net s then net_pkt_handle (nt s) else 0),
                old_1c = vec_1c d, old_2f = vec_2f d\<rparr>;
          d = d\<lparr>state_at := (state_at d)(state_addr d := st),
                code_2f := (code_2f d)(mpx_addr d := mpx_isr (state_addr d) (code_2f d (vec_2f d)))\<rparr>
      in d\<lparr>vec_2f := mpx_addr d, vec_1c := tick_addr d\<rparr>)"

text \<open>The transport: the packet driver or the UART.\<close>

definition open_link :: "driver \<Rightarrow> dossh \<Rightarrow> bool \<times> dossh" where
  "open_link drv s =
     (if g_net s
      then (let (ok, n) = net_open (drv_vects drv) (drv_access drv) (drv_addr drv) (net_ip s) (net_port s) (nt s)
            in (ok, s\<lparr>nt := n\<rparr>))
      else (True, uart_init s))"

text \<open>The end of \<open>install\<close>: hook the vectors, free the environment, stay resident.\<close>

definition go_resident :: "dossh \<Rightarrow> dos \<Rightarrow> dos" where
  "go_resident s d =
     (let p = get_psp d;
          d = hook s d;
          d = (if psp_env d p \<noteq> 0
               then d\<lparr>freed := freed d @ [psp_env d p], psp_env := (psp_env d)(p := 0)\<rparr> else d);
          paras = block_paras d p
      in say (Resident paras) (d\<lparr>kept := Some paras\<rparr>))"

definition install ::
  "crypto \<Rightarrow> (byte list \<Rightarrow> byte list \<times> byte list) \<Rightarrow> driver \<Rightarrow> vga \<Rightarrow> dossh \<times> dos \<Rightarrow> nat \<times> dossh \<times> dos" where
  "install cr key_pair drv v sd =
     (let (s, d) = sd;
          s = s\<lparr>ak := ansi_key_init (ak s), scr := render_reset v (scr s)\<rparr>;
          (s, d) = (if g_ssh_mode s then ssh_install_setup cr key_pair (s, d) else (s, d));
          (ok, s) = open_link drv s
      in if \<not> ok then (1, s, say NoDriver d) else (0, s, go_resident s d))"

definition uninstall :: "dos \<Rightarrow> nat \<times> dos" where
  "uninstall d =
     (case find_resident d of
        (None, conflict) \<Rightarrow> (1, say (if conflict then IdTaken else NotInstalled) d)
      | (Some a, _) \<Rightarrow>
          (let st = state_at d a;
               rpsp = res_psp st;
               rend = w16 (rpsp + block_paras d rpsp);
               seg1c = fst (vec_1c d);
               seg2f = fst (vec_2f d)
           in if seg1c < rpsp \<or> seg1c \<ge> rend \<or> seg2f < rpsp \<or> seg2f \<ge> rend then (1, say HookedAfter d)
              else
                (let d = d\<lparr>vec_1c := old_1c st, vec_2f := old_2f st\<rparr>;
                     d = (if res_net st then net_release (res_int st) (res_handle st) d else d);
                     d = d\<lparr>freed := freed d @ [rpsp]\<rparr>
                 in (0, say Uninstalled d))))"

definition status :: "dos \<Rightarrow> nat \<times> dos" where
  "status d =
     (case find_resident d of
        (Some a, _) \<Rightarrow> (0, say (StatusInstalled (res_net (state_at d a)) (res_psp (state_at d a))) d)
      | (None, conflict) \<Rightarrow> (1, say (if conflict then IdTaken else NotInstalled) d))"

section \<open>The command line\<close>

text \<open>Arguments are C strings: lists of bytes without a NUL.\<close>

definition lower :: "byte \<Rightarrow> byte" where
  "lower b = (if 65 \<le> b \<and> b \<le> 90 then b + 32 else b)"

definition same_text :: "byte list \<Rightarrow> string \<Rightarrow> bool" where
  "same_text a name \<longleftrightarrow> map lower a = map lower (str name)"

definition slash :: "byte \<Rightarrow> bool" where
  "slash b \<longleftrightarrow> b = 0x2F \<or> b = 0x2D"

definition opt_is :: "byte list \<Rightarrow> string \<Rightarrow> bool" where
  "opt_is a name = (case a of [] \<Rightarrow> False | b # r \<Rightarrow> slash b \<and> same_text r name)"

text \<open>An argument \<open>/P:text\<close>.\<close>

definition pw_arg :: "byte list \<Rightarrow> byte list option" where
  "pw_arg a =
     (if length a \<ge> 3 \<and> slash (a ! 0) \<and> (a ! 1 = 0x50 \<or> a ! 1 = 0x70) \<and> a ! 2 = 0x3A then Some (drop 3 a) else None)"

definition digit :: "byte \<Rightarrow> bool" where
  "digit b \<longleftrightarrow> 48 \<le> b \<and> b \<le> 57"

text \<open>The decimal loop of \<open>parse_ip\<close>, on a 32-bit \<open>long\<close>, and of \<open>atoi\<close>, on a 16-bit \<open>int\<close>.\<close>

fun dec_loop :: "byte list \<Rightarrow> 'w::len word \<Rightarrow> 'w word \<times> byte list" where
  "dec_loop [] v = (v, [])"
| "dec_loop (b # bs) v = (if digit b then dec_loop bs (v * 10 + ucast (b - 48)) else (v, b # bs))"

primrec ip_parts :: "nat \<Rightarrow> byte list \<Rightarrow> byte list option" where
  "ip_parts 0 t = (if t = [] then Some [] else None)"
| "ip_parts (Suc k) t =
     (if t = [] \<or> \<not> digit (hd t) then None
      else
        (let (v, r) = dec_loop t (0 :: u32)
         in if 255 < sint v then None
            else if k = 0 then map_option (\<lambda>q. ucast v # q) (ip_parts k r)
            else if r = [] \<or> hd r \<noteq> 0x2E then None
            else map_option (\<lambda>q. ucast v # q) (ip_parts k (List.tl r))))"

text \<open>\<open>None\<close> is the return value 0; what was stored before is not used then.\<close>

definition parse_ip :: "byte list \<Rightarrow> byte list option" where
  "parse_ip t = ip_parts 4 t"

definition atoi :: "byte list \<Rightarrow> 16 word" where
  "atoi t =
     (let t = dropWhile (\<lambda>b. b = 32 \<or> (9 \<le> b \<and> b \<le> 13)) t
      in case t of
           [] \<Rightarrow> 0
         | b # r \<Rightarrow> if b = 0x2D then - fst (dec_loop r 0) else if b = 0x2B then fst (dec_loop r 0) else fst (dec_loop t 0))"

text \<open>The argument loops of \<open>main\<close>; \<open>pos\<close> counts the positional arguments, \<open>None\<close> is the return for
  a bad address.\<close>

definition positional :: "nat \<Rightarrow> byte list \<Rightarrow> dossh \<Rightarrow> (nat \<times> dossh) option" where
  "positional pos a s =
     (if pos = 0 then map_option (\<lambda>ip. (1, s\<lparr>net_ip := ip\<rparr>)) (parse_ip a)
      else if pos = 1 then Some (2, s\<lparr>net_port := unat (atoi a)\<rparr>)
      else Some (pos, s))"

primrec ssh_args :: "byte list list \<Rightarrow> nat \<Rightarrow> dossh \<Rightarrow> dossh option" where
  "ssh_args [] pos s = Some s"
| "ssh_args (a # as) pos s =
     (case pw_arg a of
        Some pw \<Rightarrow> (let k = take 63 pw in ssh_args as pos (s\<lparr>g_ssh_pw := k, g_ssh_have_pw := (k \<noteq> [])\<rparr>))
      | None \<Rightarrow>
          if opt_is a ''COM'' \<or> opt_is a ''COM1'' \<or> same_text a ''COM1''
          then ssh_args as pos (s\<lparr>g_ssh_serial := True, g_net := False\<rparr>)
          else if opt_is a ''EOF'' then ssh_args as pos (s\<lparr>tcf := (tcf s)\<lparr>g_eof_exit := True\<rparr>\<rparr>)
          else (case positional pos a s of None \<Rightarrow> None | Some (pos, s) \<Rightarrow> ssh_args as pos s))"

primrec net_args :: "byte list list \<Rightarrow> nat \<Rightarrow> dossh \<Rightarrow> dossh option" where
  "net_args [] pos s = Some s"
| "net_args (a # as) pos s =
     (case pw_arg a of
        Some pw \<Rightarrow> net_args as pos (s\<lparr>tcf := telnet_set_password pw (tcf s)\<rparr>)
      | None \<Rightarrow>
          if opt_is a ''EOF'' then net_args as pos (s\<lparr>tcf := (tcf s)\<lparr>g_eof_exit := True\<rparr>\<rparr>)
          else (case positional pos a s of None \<Rightarrow> None | Some (pos, s) \<Rightarrow> net_args as pos s))"

text \<open>The outcome of the option parsing: the program exits with a message, or goes on to install.\<close>

datatype command = DoUninstall | DoStatus | Reject message | Install dossh

definition parse_args :: "byte list list \<Rightarrow> dossh \<Rightarrow> command" where
  "parse_args args s =
     (case args of
        [] \<Rightarrow> Install s
      | a # as \<Rightarrow>
          if opt_is a ''U'' then DoUninstall
          else if opt_is a ''S'' then DoStatus
          else if opt_is a ''SSH'' then
            (case ssh_args as 0 (s\<lparr>g_ssh_mode := True, g_net := True, net_port := 22\<rparr>) of
               None \<Rightarrow> Reject BadIP | Some s \<Rightarrow> Install s)
          else if opt_is a ''NET'' then
            (case net_args as 0 (s\<lparr>g_net := True\<rparr>) of None \<Rightarrow> Reject BadIP | Some s \<Rightarrow> Install s)
          else Reject Usage)"

definition main ::
  "crypto \<Rightarrow> (byte list \<Rightarrow> byte list \<times> byte list) \<Rightarrow> driver \<Rightarrow> vga \<Rightarrow> byte list list \<Rightarrow> dossh \<times> dos \<Rightarrow> nat \<times> dossh \<times> dos" where
  "main cr key_pair drv v args sd =
     (let (s, d) = sd
      in case parse_args args s of
           DoUninstall \<Rightarrow> (let (rc, d) = uninstall d in (rc, s, d))
         | DoStatus \<Rightarrow> (let (rc, d) = status d in (rc, s, d))
         | Reject m \<Rightarrow> (1, s, say m d)
         | Install s \<Rightarrow>
             (case find_resident d of
                (Some _, _) \<Rightarrow> (1, s, say AlreadyInstalled d)
              | (None, True) \<Rightarrow> (1, s, say IdTaken d)
              | (None, False) \<Rightarrow> install cr key_pair drv v (s, d)))"

section \<open>Dotted addresses\<close>

text \<open>The number a string of digits denotes, as the 32-bit \<open>long\<close> holds it.\<close>

definition long_val :: "byte list \<Rightarrow> u32" where
  "long_val g = fold (\<lambda>b v. v * 10 + ucast (b - 48)) g 0"

fun dotted :: "byte list list \<Rightarrow> byte list" where
  "dotted [] = []"
| "dotted [g] = g"
| "dotted (g # gs) = g @ [0x2E] @ dotted gs"

text \<open>A group \<open>parse_ip\<close> accepts: digits whose number, reduced modulo 2 to the 32 and read as a signed \<open>long\<close>,
  is at most 255.\<close>

definition group_num :: "byte list \<Rightarrow> nat" where
  "group_num g = foldl (\<lambda>n b. 10 * n + (unat b - 48)) 0 g"

definition octet_group :: "byte list \<Rightarrow> bool" where
  "octet_group g \<longleftrightarrow> g \<noteq> [] \<and> list_all digit g \<and> sint (of_nat (group_num g) :: u32) \<le> 255"

lemma long_val_num: "list_all digit g \<Longrightarrow> long_val g = of_nat (group_num g)"
proof (induction g rule: rev_induct)
  case (snoc b g)
  have "ucast (b - 48) = (of_nat (unat b - 48) :: u32)" if "digit b"
  proof -
    have "48 \<le> b" using that by (simp add: digit_def)
    then have "unat (b - 48) = unat b - 48" by (simp add: unat_sub)
    then show ?thesis by (metis of_nat_unat)
  qed
  with snoc show ?case by (simp add: long_val_def group_num_def)
qed (simp add: long_val_def group_num_def)

lemma octet_group_long: "octet_group g \<longleftrightarrow> g \<noteq> [] \<and> list_all digit g \<and> sint (long_val g) \<le> 255"
  using long_val_num [of g] by (auto simp: octet_group_def)

text \<open>For a number below 2 to the 31 this is the ordinary bound; a larger one can wrap around.\<close>

lemma octet_group_small:
  assumes "group_num g < 2 ^ 31"
  shows "octet_group g \<longleftrightarrow> g \<noteq> [] \<and> list_all digit g \<and> group_num g \<le> 255"
proof -
  have "sint (of_nat (group_num g) :: u32) = int (group_num g)"
    using assms by (simp add: signed_of_nat signed_take_bit_int_eq_self)
  then show ?thesis by (simp add: octet_group_def)
qed

lemma octet_group_wraps: "octet_group (str ''4294967297'')" "octet_group (str ''3000000000'')"
proof -
  have "group_num (str ''4294967297'') = 4294967297" "group_num (str ''3000000000'') = 3000000000"
    by (simp_all add: group_num_def str_def)
  moreover have "list_all digit (str ''4294967297'')" "list_all digit (str ''3000000000'')"
    by (simp_all add: digit_def str_def)
  ultimately show "octet_group (str ''4294967297'')" "octet_group (str ''3000000000'')"
    by (simp_all add: octet_group_def str_def)
qed

lemma dec_loop_span:
  "dec_loop t v = (fold (\<lambda>b v. v * 10 + ucast (b - 48)) (takeWhile digit t) v, dropWhile digit t)"
  by (induction t v rule: dec_loop.induct) simp_all

lemma dot_no_digit: "\<not> digit 0x2E"
  by (simp add: digit_def)

lemma span_digits:
  assumes "list_all digit g" "r = [] \<or> \<not> digit (hd r)"
  shows "takeWhile digit (g @ r) = g" "dropWhile digit (g @ r) = r"
  using assms by (induction g; cases r; simp)+

lemma ip_parts_last:
  "ip_parts (Suc 0) t = Some ip \<longleftrightarrow> octet_group t \<and> ip = [ucast (long_val t)]"
proof (cases "t \<noteq> [] \<and> list_all digit t")
  case True
  then have "takeWhile digit t = t" "dropWhile digit t = []" and h: "digit (hd t)"
    by (simp_all add: list_all_iff takeWhile_eq_all_conv dropWhile_eq_Nil_conv)
  then have "dec_loop t (0 :: u32) = (long_val t, [])" unfolding dec_loop_span long_val_def by metis
  with True h show ?thesis by (auto simp: octet_group_long not_less simp del: dec_loop.simps)
next
  case False
  then have "t = [] \<or> dropWhile digit t \<noteq> []" by (auto simp: list_all_iff dropWhile_eq_Nil_conv)
  with False show ?thesis by (auto simp: dec_loop_span octet_group_long)
qed

lemma ip_parts_more:
  "ip_parts (Suc (Suc k)) t = Some ip \<longleftrightarrow>
     (\<exists>g r ip'. octet_group g \<and> t = g @ [0x2E] @ r \<and> ip = ucast (long_val g) # ip' \<and> ip_parts (Suc k) r = Some ip')"
proof (intro iffI)
  assume a: "ip_parts (Suc (Suc k)) t = Some ip"
  define g where "g = takeWhile digit t"
  define q where "q = dropWhile digit t"
  have t: "t = g @ q" by (simp add: g_def q_def)
  have g: "list_all digit g" using set_takeWhileD [of _ digit t] by (auto simp: g_def list_all_iff)
  have ne: "g \<noteq> []" using a by (cases t) (auto simp: g_def split: if_splits)
  have v: "dec_loop t (0 :: u32) = (long_val g, q)" by (simp add: dec_loop_span g_def q_def long_val_def)
  obtain ip' where "q \<noteq> []" "hd q = 0x2E" "ip_parts (Suc k) (List.tl q) = Some ip'" "ip = ucast (long_val g) # ip'"
    "sint (long_val g) \<le> 255"
    using a v by (auto simp del: dec_loop.simps simp: not_less split: if_splits)
  moreover from this have "t = g @ [0x2E] @ List.tl q" using t by (cases q) auto
  ultimately show "\<exists>g r ip'. octet_group g \<and> t = g @ [0x2E] @ r \<and> ip = ucast (long_val g) # ip' \<and> ip_parts (Suc k) r = Some ip'"
    using g ne unfolding octet_group_long by blast
next
  assume "\<exists>g r ip'. octet_group g \<and> t = g @ [0x2E] @ r \<and> ip = ucast (long_val g) # ip' \<and> ip_parts (Suc k) r = Some ip'"
  then obtain g r ip' where g: "octet_group g" "t = g @ [0x2E] @ r" "ip = ucast (long_val g) # ip'" "ip_parts (Suc k) r = Some ip'"
    by blast
  have "dec_loop t (0 :: u32) = (long_val g, [0x2E] @ r)"
    using span_digits [of g "[0x2E] @ r"] g(1) dot_no_digit
    by (simp add: g(2) dec_loop_span octet_group_long long_val_def)
  moreover have "t \<noteq> []" "digit (hd t)" using g(1,2) by (cases g; simp add: octet_group_long)+
  ultimately show "ip_parts (Suc (Suc k)) t = Some ip" using g by (simp add: octet_group_long not_less del: dec_loop.simps)
qed

lemma ip_parts_groups:
  "ip_parts (Suc k) t = Some ip \<longleftrightarrow>
     (\<exists>gs. length gs = Suc k \<and> list_all octet_group gs \<and> t = dotted gs \<and> ip = map (\<lambda>g. ucast (long_val g)) gs)"
proof (induction k arbitrary: t ip)
  case 0
  show ?case unfolding ip_parts_last by (auto simp: length_Suc_conv)
next
  case (Suc k)
  have d: "dotted (g # gs) = g @ [0x2E] @ dotted gs" if "length gs = Suc k" for g gs
    using that by (cases gs) simp_all
  show ?case
  proof (intro iffI)
    assume "ip_parts (Suc (Suc k)) t = Some ip"
    then obtain g r ip' where g: "octet_group g" "t = g @ [0x2E] @ r" "ip = ucast (long_val g) # ip'" "ip_parts (Suc k) r = Some ip'"
      unfolding ip_parts_more by blast
    obtain gs where gs: "length gs = Suc k" "list_all octet_group gs" "r = dotted gs" "ip' = map (\<lambda>g. ucast (long_val g)) gs"
      using g(4) unfolding Suc.IH by blast
    show "\<exists>gs. length gs = Suc (Suc k) \<and> list_all octet_group gs \<and> t = dotted gs \<and> ip = map (\<lambda>g. ucast (long_val g)) gs"
      using g gs d [OF gs(1), of g] by (intro exI [of _ "g # gs"]) simp
  next
    assume "\<exists>gs. length gs = Suc (Suc k) \<and> list_all octet_group gs \<and> t = dotted gs \<and> ip = map (\<lambda>g. ucast (long_val g)) gs"
    then obtain g gs where gs: "length gs = Suc k" "list_all octet_group gs" "octet_group g" "t = dotted (g # gs)"
      "ip = ucast (long_val g) # map (\<lambda>g. ucast (long_val g)) gs"
      by (auto simp: length_Suc_conv [of _ "Suc k"] simp del: dotted.simps)
    have "ip_parts (Suc k) (dotted gs) = Some (map (\<lambda>g. ucast (long_val g)) gs)" unfolding Suc.IH using gs by blast
    then show "ip_parts (Suc (Suc k)) t = Some ip" unfolding ip_parts_more using gs d [OF gs(1)] by blast
  qed
qed

text \<open>C28. The address argument.  \<open>parse_ip\<close> accepts exactly four non-empty groups of decimal digits
  joined by single dots, nothing before, between or after, such that each group's number, reduced
  modulo 2 to the 32 and read as a signed \<open>long\<close>, is at most 255, and returns the low bytes of the
  four numbers.  So a group whose number is below 2 to the 31 is accepted exactly up to 255 and read
  correctly, while a longer one may wrap around: 4294967297 is accepted as 1, and 3000000000,
  which the \<open>long\<close> holds as a negative number, passes as well.\<close>

theorem parse_ip_exact:
  "parse_ip t = Some ip \<longleftrightarrow>
     (\<exists>gs. length gs = 4 \<and> list_all octet_group gs \<and> t = dotted gs \<and> ip = map (\<lambda>g. of_nat (group_num g)) gs)"
proof -
  have low: "ucast (of_nat n :: u32) = (of_nat n :: byte)" for n
    by (rule bit_word_eqI) (simp add: bit_simps)
  have "map (\<lambda>g. ucast (long_val g)) gs = (map (\<lambda>g. of_nat (group_num g)) gs :: byte list)" if "list_all octet_group gs" for gs
    using that by (auto simp: list_all_iff octet_group_def long_val_num low)
  with ip_parts_groups [of 3 t ip] show ?thesis by (auto simp: parse_ip_def)
qed

section \<open>Going resident and leaving\<close>

text \<open>Two states of the machine that agree in what another program may change between two runs of
  DOSSHD but has not: the vectors, the code and data of the resident copy, its memory block.\<close>

definition untouched :: "dos \<Rightarrow> dos \<Rightarrow> bool" where
  "untouched d e \<longleftrightarrow> vec_1c e = vec_1c d \<and> vec_2f e = vec_2f d \<and> code_2f e = code_2f d
     \<and> state_at e = state_at d \<and> mcb_paras e = mcb_paras d"

definition image_ok :: "dos \<Rightarrow> bool" where
  "image_ok d \<longleftrightarrow> this_psp d + mcb_paras d (this_psp d) < 65536 \<and> state_addr d \<noteq> (0, 0)
     \<and> this_psp d \<le> fst (mpx_addr d) \<and> fst (mpx_addr d) < this_psp d + mcb_paras d (this_psp d)
     \<and> this_psp d \<le> fst (tick_addr d) \<and> fst (tick_addr d) < this_psp d + mcb_paras d (this_psp d)"

definition own_state :: "dossh \<Rightarrow> dos \<Rightarrow> resident" where
  "own_state s d = \<lparr>magic = STATE_MAGIC, res_psp = this_psp d, res_net = g_net s,
     res_int = (if g_net s then pkt_int (nt s) else 0), res_handle = (if g_net s then pkt_handle (nt s) else 0),
     old_1c = vec_1c d, old_2f = vec_2f d\<rparr>"

text \<open>The machine after \<open>hook\<close>, whatever was logged before and after.\<close>

definition hooked :: "dossh \<Rightarrow> dos \<Rightarrow> dos \<Rightarrow> bool" where
  "hooked s d e \<longleftrightarrow> vec_1c e = tick_addr d \<and> vec_2f e = mpx_addr d \<and> mcb_paras e = mcb_paras d
     \<and> state_at e = (state_at d)(state_addr d := own_state s d)
     \<and> code_2f e = (code_2f d)(mpx_addr d := mpx_isr (state_addr d) (code_2f d (vec_2f d)))"

lemma say_fields [simp]:
  "vec_1c (say m d) = vec_1c d" "vec_2f (say m d) = vec_2f d" "code_2f (say m d) = code_2f d"
  "state_at (say m d) = state_at d" "mcb_paras (say m d) = mcb_paras d" "this_psp (say m d) = this_psp d"
  "state_addr (say m d) = state_addr d" "mpx_addr (say m d) = mpx_addr d" "tick_addr (say m d) = tick_addr d"
  "freed (say m d) = freed d" "released (say m d) = released d" "kept (say m d) = kept d"
  by (simp_all add: say_def)

definition same_machine :: "dos \<Rightarrow> dos \<Rightarrow> bool" where
  "same_machine d e \<longleftrightarrow> untouched d e \<and> this_psp e = this_psp d \<and> state_addr e = state_addr d
     \<and> mpx_addr e = mpx_addr d \<and> tick_addr e = tick_addr d"

lemma setup_machine: "same_machine d (snd (ssh_install_setup cr kp (s, d)))"
  by (simp add: ssh_install_setup_def ssh_load_hostkey_def ssh_load_authkeys_def Let_def case_prod_beta
      same_machine_def untouched_def split: option.splits)

lemma setup_net: "g_net (fst (ssh_install_setup cr kp (s, d))) = g_net s"
  by (simp add: ssh_install_setup_def ssh_load_hostkey_def ssh_load_authkeys_def Let_def case_prod_beta
      split: option.splits)

lemma resident_hooked: "same_machine d e \<Longrightarrow> hooked s d (go_resident s e)"
  by (simp add: go_resident_def hook_def hooked_def same_machine_def untouched_def own_state_def get_psp_def net_pkt_int_def net_pkt_handle_def Let_def)

lemma install_hooked:
  assumes "install cr kp drv v (s, d) = (0, s1, d1)" shows "hooked s1 d d1 \<and> g_net s1 = g_net s"
proof -
  define s0 where "s0 = s\<lparr>ak := ansi_key_init (ak s), scr := render_reset v (scr s)\<rparr>"
  define sd where "sd = (if g_ssh_mode s0 then ssh_install_setup cr kp (s0, d) else (s0, d))"
  have m: "same_machine d (snd sd)" and g: "g_net (fst sd) = g_net s"
    using setup_machine [of d cr kp s0] setup_net [of cr kp s0 d]
    by (auto simp: sd_def same_machine_def untouched_def s0_def)
  have "s1 = snd (open_link drv (fst sd))" "d1 = go_resident s1 (snd sd)"
    using assms unfolding install_def Let_def prod.case s0_def [symmetric] sd_def [symmetric]
    by (auto simp: case_prod_beta split: if_splits)
  moreover have "g_net (snd (open_link drv (fst sd))) = g_net s"
    using g by (simp add: open_link_def uart_init_def case_prod_beta Let_def)
  ultimately show ?thesis using resident_hooked [OF m, of s1] by simp
qed

lemma hooked_found:
  assumes "hooked s d e" "state_addr d \<noteq> (0, 0)" "untouched e e'" shows "find_resident e' = (Some (state_addr d), False)"
proof -
  obtain a b where "state_addr d = (a, b)" by (cases "state_addr d")
  with assms show ?thesis
    by (simp add: find_resident_def hooked_def untouched_def mpx_isr_def MPX_ID_def own_state_def Let_def)
qed

lemma hooked_removed:
  assumes "hooked s d e" "image_ok d" "untouched e e'"
  shows "uninstall e' = (0, say Uninstalled (e'\<lparr>vec_1c := vec_1c d, vec_2f := vec_2f d,
     released := released e' @ (if g_net s then [(pkt_int (nt s), pkt_handle (nt s))] else []), freed := freed e' @ [this_psp d]\<rparr>))"
proof -
  have f: "find_resident e' = (Some (state_addr d), False)" using hooked_found [OF assms(1) _ assms(3)] assms(2) by (simp add: image_ok_def)
  have st: "state_at e' (state_addr d) = own_state s d" "vec_1c e' = tick_addr d" "vec_2f e' = mpx_addr d" "mcb_paras e' = mcb_paras d"
    using assms(1,3) by (simp_all add: hooked_def untouched_def)
  show ?thesis using assms(2)
    by (simp add: uninstall_def net_release_def f st own_state_def image_ok_def block_paras_def Let_def)
qed

lemma not_found: "find_resident d = (None, False) \<longleftrightarrow> r_al (code_2f d (vec_2f d) \<lparr>r_ah = MPX_ID, r_al = 0, r_cx = 0, r_dx = 0\<rparr>) \<noteq> 0xFF"
  by (simp add: find_resident_def Let_def)

lemma main_install:
  assumes "main cr kp drv v args (s, d) = (0, s1, d1)" "parse_args args s = Install s0"
  shows "find_resident d = (None, False) \<and> hooked s1 d d1 \<and> g_net s1 = g_net s0"
  using assms install_hooked [of cr kp drv v s0 d s1 d1]
  by (auto simp: main_def split: option.splits prod.splits bool.splits)

text \<open>C27. Installing and removing.  Suppose an installing command line succeeds on a machine whose
  program image lies below segment FFFFh, and no other program hooks the vectors or touches the
  resident block afterwards.  Then the presence check finds exactly this copy, a second installation
  is refused and changes nothing, and \<open>/U\<close> restores both interrupt vectors to what they were before
  the installation, releases the packet driver handle of the network modes and nothing in the serial
  modes, frees the resident block, and leaves a machine on which DOSSHD is not installed.\<close>

theorem install_uninstall:
  assumes "main cr kp drv v args (s, d) = (0, s1, d1)" "parse_args args s = Install s0"
    "image_ok d" "vec_2f d \<noteq> mpx_addr d" "untouched d1 d2" "parse_args args' s' = Install s0'"
  shows "find_resident d2 = (Some (state_addr d), False)
    \<and> main cr kp drv v args' (s', d2) = (1, s0', say AlreadyInstalled d2)
    \<and> (\<exists>d3. main cr kp drv v [str ''/u''] (s', d2) = (0, s', d3)
        \<and> vec_1c d3 = vec_1c d \<and> vec_2f d3 = vec_2f d
        \<and> released d3 = released d2 @ (if g_net s0 then [(pkt_int (nt s1), pkt_handle (nt s1))] else [])
        \<and> freed d3 = freed d2 @ [this_psp d] \<and> find_resident d3 = (None, False))"
proof -
  have m: "find_resident d = (None, False)" "hooked s1 d d1" "g_net s1 = g_net s0" using main_install [OF assms(1,2)] by simp_all
  have f: "find_resident d2 = (Some (state_addr d), False)"
    using hooked_found [OF m(2) _ assms(5)] assms(3) by (simp add: image_ok_def)
  note u = hooked_removed [OF m(2) assms(3,5)]
  have "code_2f d2 (vec_2f d) = code_2f d (vec_2f d)" using m(2) assms(4,5) by (simp add: hooked_def untouched_def)
  then have n: "find_resident (snd (uninstall d2)) = (None, False)" using m(1) by (simp add: u not_found)
  have a: "parse_args [str ''/u''] s' = DoUninstall" by (simp add: parse_args_def opt_is_def slash_def same_text_def lower_def str_def)
  define d3 where "d3 = snd (uninstall d2)"
  have "vec_1c d3 = vec_1c d" "vec_2f d3 = vec_2f d" "freed d3 = freed d2 @ [this_psp d]"
    "released d3 = released d2 @ (if g_net s0 then [(pkt_int (nt s1), pkt_handle (nt s1))] else [])"
    using m(3) by (simp_all add: d3_def u)
  moreover have "main cr kp drv v [str ''/u''] (s', d2) = (0, s', d3)"
    unfolding main_def Let_def prod.case a command.case d3_def u by simp
  moreover have "main cr kp drv v args' (s', d2) = (1, s0', say AlreadyInstalled d2)"
    by (simp add: main_def assms(6) f)
  ultimately show ?thesis using f n [folded d3_def] by blast
qed

definition wit_dos :: dos where
  "wit_dos = \<lparr>vec_1c = (0xF000, 0xFF53), vec_2f = (0x0123, 0x0456), code_2f = (\<lambda>_ r. r),
     state_at = (\<lambda>_. \<lparr>magic = [], res_psp = 0, res_net = False, res_int = 0, res_handle = 0, old_1c = (0, 0), old_2f = (0, 0)\<rparr>),
     mcb_paras = (\<lambda>_. 0x900), psp_env = (\<lambda>_. 0), this_psp = 0x1000, state_addr = (0x1800, 0x20), mpx_addr = (0x1010, 0x300),
     tick_addr = (0x1010, 0x200), key_file = None, can_write = False, authkeys_file = None,
     freed = [], released = [], kept = None, messages = []\<rparr>"

definition wit_dossh :: dossh where
  "wit_dossh = \<lparr>kb = kbd_at, ak = ansikey_zero, scr = render0, nt = wit_stack, tslots = replicate 4 tslot0, tcf = tconf0,
     g_net = False, net_ip = [10, 0, 2, 15], net_port = 23, in_tick = False, g_ssh_mode = False, g_ssh_serial = False,
     g_ssh_ser_started = False, ssh_slots = replicate 4 ssh_conn_zero, g_shared = ssh_zero,
     ssh_active = replicate 4 False, ssh_ready_seen = replicate 4 False, host_sk = [], host_pk = [],
     g_ssh_pw = [], g_ssh_have_pw = False, authkeys = [], g_ssh_cols = 80, g_ssh_rows = 25, g_ssh_stir = 0,
     u_rx = [], u_tx = [], u_polls = [], events = []\<rparr>"

definition wit_driver :: driver where
  "wit_driver = \<lparr>drv_vects = (\<lambda>_. None), drv_access = (\<lambda>_. None), drv_addr = (\<lambda>_ _. [])\<rparr>"

theorem install_uninstall_witness:
  "let r = main toy_crypto (\<lambda>k. (k, k)) wit_driver wit_vga [] (wit_dossh, wit_dos)
   in fst r = 0 \<and> find_resident (snd (snd r)) = (Some (0x1800, 0x20), False)
     \<and> (\<exists>d3. main toy_crypto (\<lambda>k. (k, k)) wit_driver wit_vga [str ''/u''] (wit_dossh, snd (snd r)) = (0, wit_dossh, d3)
         \<and> vec_1c d3 = (0xF000, 0xFF53) \<and> vec_2f d3 = (0x0123, 0x0456))"
proof -
  let ?m = "main toy_crypto (\<lambda>k. (k, k)) wit_driver wit_vga [] (wit_dossh, wit_dos)"
  obtain rc s1 d1 where r: "?m = (rc, s1, d1)" by (cases ?m)
  have "rc = 0"
    using r by (simp add: main_def parse_args_def find_resident_def wit_dos_def install_def open_link_def wit_dossh_def Let_def)
  moreover have p: "parse_args [] wit_dossh = Install wit_dossh" by (simp add: parse_args_def)
  moreover have "image_ok wit_dos" "vec_2f wit_dos \<noteq> mpx_addr wit_dos" by (simp_all add: image_ok_def wit_dos_def)
  moreover have "untouched d1 d1" by (simp add: untouched_def)
  ultimately show ?thesis
    using install_uninstall [of toy_crypto "\<lambda>k. (k, k)" wit_driver wit_vga "[]" wit_dossh wit_dos s1 d1 wit_dossh d1 "[]" wit_dossh wit_dossh] r
    by (auto simp: wit_dos_def)
qed

end
