(* ===== verification/X25519.thy ===== *)
theory X25519
  imports Fe25519
begin

text \<open>
  The X25519 key agreement of \<open>crypto/monocypher.c\<close>: inversion, the Montgomery ladder
  (\<open>scalarmult\<close>), \<open>crypto_x25519\<close> and its wrappers in \<open>crypto/crypto.c\<close>.  The reference is RFC 7748 on
  integers modulo \<open>2 ^ 255 - 19\<close>: a ladder that doubles one of two points and adds them, without
  the conditional swaps and the delayed last swap of the code.
\<close>

section \<open>Operations\<close>

text \<open>\<open>invsqrt\<close> returns its flag and the root.  Where the code passes the same array as result and
  argument, every limb is read before any is written, so the functional form is the same.\<close>

definition invsqrt :: "fe \<Rightarrow> i32 \<times> fe" where
  "invsqrt x =
     (let t0 = fe_sq x;
          t1 = fe_sq t0; t1 = fe_sq t1; t1 = fe_mul x t1;
          t0 = fe_mul t0 t1;
          t0 = fe_sq t0; t0 = fe_mul t1 t0;
          t1 = fe_sq t0; t1 = (fe_sq ^^ 4) t1; t0 = fe_mul t1 t0;
          t1 = fe_sq t0; t1 = (fe_sq ^^ 9) t1; t1 = fe_mul t1 t0;
          t2 = fe_sq t1; t2 = (fe_sq ^^ 19) t2; t1 = fe_mul t2 t1;
          t1 = fe_sq t1; t1 = (fe_sq ^^ 9) t1; t0 = fe_mul t1 t0;
          t1 = fe_sq t0; t1 = (fe_sq ^^ 49) t1; t1 = fe_mul t1 t0;
          t2 = fe_sq t1; t2 = (fe_sq ^^ 99) t2; t1 = fe_mul t2 t1;
          t1 = fe_sq t1; t1 = (fe_sq ^^ 49) t1; t0 = fe_mul t1 t0;
          t0 = fe_sq t0; t0 = (fe_sq ^^ 1) t0; t0 = fe_mul t0 x;
          quartic = fe_sq t0; quartic = fe_mul quartic x;
          z0 = fe_isequal x fe_0;
          p1 = fe_isequal quartic fe_1;
          m1 = fe_isequal quartic (fe_neg fe_1);
          ms = fe_isequal quartic (fe_neg sqrtm1);
          isr = fe_mul t0 sqrtm1;
          isr = fe_ccopy isr t0 (1 - (m1 OR ms))
      in (p1 OR m1 OR z0, isr))"

definition fe_invert :: "fe \<Rightarrow> fe" where
  "fe_invert x =
     (let tmp = fe_sq x; tmp = snd (invsqrt tmp); tmp = fe_sq tmp in fe_mul tmp x)"

definition crypto_eddsa_trim_scalar :: "byte list \<Rightarrow> byte list" where
  "crypto_eddsa_trim_scalar inp =
     (let out = inp; out = out[0 := out ! 0 AND 248]; out = out[31 := out ! 31 AND 127]
      in out[31 := out ! 31 OR 64])"

text \<open>A negative position gives 0; positions of the ladder are not negative.\<close>

definition scalar_bit :: "byte list \<Rightarrow> int \<Rightarrow> i32" where
  "scalar_bit s i =
     (if i < 0 then 0 else ucast (drop_bit (nat i mod 8) (s ! (nat i div 8)) AND 1))"

type_synonym ladder = "fe \<times> fe \<times> fe \<times> fe \<times> i32"

definition ladder_step :: "fe \<Rightarrow> i32 \<Rightarrow> ladder \<Rightarrow> ladder" where
  "ladder_step x1 b st =
     (let (x2, z2, x3, z3, swap) = st;
          swap = swap XOR b;
          (x2, x3) = fe_cswap x2 x3 swap;
          (z2, z3) = fe_cswap z2 z3 swap;
          swap = b;
          t0 = fe_sub x3 z3;
          t1 = fe_sub x2 z2;
          x2 = fe_add x2 z2;
          z2 = fe_add x3 z3;
          z3 = fe_mul t0 x2;
          z2 = fe_mul z2 t1;
          t0 = fe_sq t1;
          t1 = fe_sq x2;
          x3 = fe_add z3 z2;
          z2 = fe_sub z3 z2;
          x2 = fe_mul t1 t0;
          t1 = fe_sub t1 t0;
          z2 = fe_sq z2;
          z3 = fe_mul_small t1 121666;
          x3 = fe_sq x3;
          t0 = fe_add t0 z3;
          z3 = fe_mul x1 z2;
          z2 = fe_mul t1 t0
      in (x2, z2, x3, z3, swap))"

primrec ladder_loop :: "fe \<Rightarrow> byte list \<Rightarrow> nat \<Rightarrow> ladder \<Rightarrow> ladder" where
  "ladder_loop x1 scalar 0 st = st"
| "ladder_loop x1 scalar (Suc pos) st =
     ladder_loop x1 scalar pos (ladder_step x1 (scalar_bit scalar (int pos)) st)"

definition scalarmult :: "byte list \<Rightarrow> byte list \<Rightarrow> nat \<Rightarrow> byte list" where
  "scalarmult scalar p nb_bits =
     (let x1 = fe_frombytes p;
          (x2, z2, x3, z3, swap) = ladder_loop x1 scalar nb_bits (fe_1, fe_0, x1, fe_1, 0);
          (x2, x3) = fe_cswap x2 x3 swap;
          (z2, z3) = fe_cswap z2 z3 swap;
          z2 = fe_invert z2;
          x2 = fe_mul x2 z2
      in fe_tobytes x2)"

definition crypto_x25519 :: "byte list \<Rightarrow> byte list \<Rightarrow> byte list" where
  "crypto_x25519 your_secret_key their_public_key =
     (let e = crypto_eddsa_trim_scalar your_secret_key in scalarmult e their_public_key 255)"

definition crypto_x25519_public_key :: "byte list \<Rightarrow> byte list" where
  "crypto_x25519_public_key secret_key = crypto_x25519 secret_key (9 # replicate 31 0)"

definition dossh_x25519 :: "byte list \<Rightarrow> byte list \<Rightarrow> byte list" where
  "dossh_x25519 scalar point = crypto_x25519 scalar point"

definition dossh_x25519_public_key :: "byte list \<Rightarrow> byte list" where
  "dossh_x25519_public_key secret = crypto_x25519_public_key secret"

section \<open>The reference\<close>

text \<open>Points are x-coordinates in projective form.\<close>

definition xz_double :: "int \<times> int \<Rightarrow> int \<times> int" where
  "xz_double P =
     (let (x, z) = P; aa = (x + z) ^ 2; bb = (x - z) ^ 2; e = aa - bb
      in ((aa * bb) mod p25519, (e * (aa + 121665 * e)) mod p25519))"

definition xz_add :: "int \<Rightarrow> int \<times> int \<Rightarrow> int \<times> int \<Rightarrow> int \<times> int" where
  "xz_add x1 P Q =
     (let (x2, z2) = P; (x3, z3) = Q; da = (x3 - z3) * (x2 + z2); cb = (x3 + z3) * (x2 - z2)
      in ((da + cb) ^ 2 mod p25519, (x1 * (da - cb) ^ 2) mod p25519))"

primrec mont :: "int \<Rightarrow> nat \<Rightarrow> nat \<Rightarrow> (int \<times> int) \<times> (int \<times> int) \<Rightarrow> (int \<times> int) \<times> (int \<times> int)" where
  "mont x1 k 0 R = R"
| "mont x1 k (Suc t) R =
     mont x1 k t (if bit k t then (xz_add x1 (fst R) (snd R), xz_double (snd R))
                  else (xz_double (fst R), xz_add x1 (fst R) (snd R)))"

text \<open>\<open>decodeScalar25519\<close>, \<open>decodeUCoordinate\<close> and the function \<open>X25519\<close> of RFC 7748, section 5.\<close>

definition decode_scalar :: "byte list \<Rightarrow> nat" where
  "decode_scalar k = 2 ^ 254 + 8 * (le_num k mod 2 ^ 254 div 8)"

definition x25519_point :: "byte list \<Rightarrow> byte list \<Rightarrow> int \<times> int" where
  "x25519_point k u =
     (let x1 = int (le_num u mod 2 ^ 255) in fst (mont x1 (decode_scalar k) 255 ((1, 0), (x1, 1))))"

definition x25519_rfc :: "byte list \<Rightarrow> byte list \<Rightarrow> byte list" where
  "x25519_rfc k u = (let (x2, z2) = x25519_point k u in le_bytes 32 (nat (x2 * z2 ^ (2 ^ 255 - 21) mod p25519)))"

section \<open>Powers\<close>

lemma sq_pow: "carried f (x ^ a) \<Longrightarrow> carried (fe_sq f) (x ^ (2 * a))"
  using fe_sq_correct [OF carried_usable] by (metis mult_2 power_add)

lemma mul_pow: "carried f (x ^ a) \<Longrightarrow> carried g (x ^ b) \<Longrightarrow> carried (fe_mul f g) (x ^ (a + b))"
  using fe_mul_correct [OF carried_usable carried_usable] by (metis power_add)

lemma iter_pow: "carried f (x ^ a) \<Longrightarrow> carried ((fe_sq ^^ n) f) (x ^ (2 ^ n * a))"
proof (induction n)
  case (Suc n)
  then show ?case using sq_pow [of "(fe_sq ^^ n) f" x "2 ^ n * a"] by (simp add: mult.assoc)
qed simp

definition i25519 :: int where
  "i25519 = 19681161376707505956807079304988542015446066515923890162744021073123829784752"

lemma sqrtm1_correct: "carried sqrtm1 i25519" "(i25519 * i25519) mod p25519 = (- 1) mod p25519"
proof -
  have "sqrtm1 = map of_int [-32595792, -7943725, 9377950, 3500415, 12389472, -272473, -25146209, -2005654, 326686, 11406482]"
    by (simp add: sqrtm1_def)
  then show "carried sqrtm1 i25519" unfolding carried_def
    by (intro exI [of _ "[-32595792, -7943725, 9377950, 3500415, 12389472, -272473, -25146209, -2005654, 326686, 11406482]"])
      (simp add: tight_def fnum_def fval_def i25519_def)
  have "i25519 * i25519 = - 1 + p25519 * 6690407189080634018507799843845558368979872843924222843531373839242004886245"
    unfolding i25519_def p25519_def by simp
  then show "(i25519 * i25519) mod p25519 = (- 1) mod p25519" by (simp only: mod_mult_self2)
qed

lemma root_power:
  assumes "carried x X"
  shows "\<exists>t. carried t (X ^ (2 ^ 252 - 3)) \<and> invsqrt x =
    (let quartic = fe_mul (fe_sq t) x; p1 = fe_isequal quartic fe_1; m1 = fe_isequal quartic (fe_neg fe_1); ms = fe_isequal quartic (fe_neg sqrtm1)
     in (p1 OR m1 OR fe_isequal x fe_0, fe_ccopy (fe_mul t sqrtm1) t (1 - (m1 OR ms))))"
proof -
  have x: "carried x (X ^ 1)" using assms by simp
  define a0 where "a0 = fe_sq x"
  have p0: "carried a0 (X ^ 2)" using sq_pow [OF x] by (simp add: a0_def)
  define a1 where "a1 = fe_mul x (fe_sq (fe_sq a0))"
  have p1: "carried a1 (X ^ 9)" using mul_pow [OF x sq_pow [OF sq_pow [OF p0]]] by (simp add: a1_def)
  define a2 where "a2 = fe_mul a1 (fe_sq (fe_mul a0 a1))"
  have p2: "carried a2 (X ^ (2 ^ 5 - 1))" using mul_pow [OF p1 sq_pow [OF mul_pow [OF p0 p1]]] by (simp add: a2_def)
  define a3 where "a3 = fe_mul ((fe_sq ^^ 4) (fe_sq a2)) a2"
  have p3: "carried a3 (X ^ (2 ^ 10 - 1))" using mul_pow [OF iter_pow [OF sq_pow [OF p2], of 4] p2] by (simp add: a3_def)
  define a4 where "a4 = fe_mul ((fe_sq ^^ 9) (fe_sq a3)) a3"
  have p4: "carried a4 (X ^ (2 ^ 20 - 1))" using mul_pow [OF iter_pow [OF sq_pow [OF p3], of 9] p3] by (simp add: a4_def)
  define a5 where "a5 = fe_mul ((fe_sq ^^ 19) (fe_sq a4)) a4"
  have p5: "carried a5 (X ^ (2 ^ 40 - 1))" using mul_pow [OF iter_pow [OF sq_pow [OF p4], of 19] p4] by (simp add: a5_def)
  define a6 where "a6 = fe_mul ((fe_sq ^^ 9) (fe_sq a5)) a3"
  have p6: "carried a6 (X ^ (2 ^ 50 - 1))" using mul_pow [OF iter_pow [OF sq_pow [OF p5], of 9] p3] by (simp add: a6_def)
  define a7 where "a7 = fe_mul ((fe_sq ^^ 49) (fe_sq a6)) a6"
  have p7: "carried a7 (X ^ (2 ^ 100 - 1))" using mul_pow [OF iter_pow [OF sq_pow [OF p6], of 49] p6] by (simp add: a7_def)
  define a8 where "a8 = fe_mul ((fe_sq ^^ 99) (fe_sq a7)) a7"
  have p8: "carried a8 (X ^ (2 ^ 200 - 1))" using mul_pow [OF iter_pow [OF sq_pow [OF p7], of 99] p7] by (simp add: a8_def)
  define a9 where "a9 = fe_mul ((fe_sq ^^ 49) (fe_sq a8)) a6"
  have p9: "carried a9 (X ^ (2 ^ 250 - 1))" using mul_pow [OF iter_pow [OF sq_pow [OF p8], of 49] p6] by (simp add: a9_def)
  define a10 where "a10 = fe_mul ((fe_sq ^^ 1) (fe_sq a9)) x"
  have p10: "carried a10 (X ^ (2 ^ 252 - 3))" using mul_pow [OF iter_pow [OF sq_pow [OF p9], of 1] x] by (simp add: a10_def)
  have "invsqrt x = (let quartic = fe_mul (fe_sq a10) x; p1 = fe_isequal quartic fe_1; m1 = fe_isequal quartic (fe_neg fe_1);
       ms = fe_isequal quartic (fe_neg sqrtm1)
     in (p1 OR m1 OR fe_isequal x fe_0, fe_ccopy (fe_mul a10 sqrtm1) a10 (1 - (m1 OR ms))))"
    unfolding invsqrt_def a10_def a9_def a8_def a7_def a6_def a5_def a4_def a3_def a2_def a1_def a0_def
    by (simp only: Let_def)
  then show ?thesis using p10 by blast
qed

lemma bit_or: "(if a then 1 else 0) OR (if b then 1 else 0) = (if a \<or> b then 1 else 0 :: i32)"
  by simp

lemma invsqrt_correct:
  assumes "carried x X"
  defines "q \<equiv> X ^ (2 ^ 253 - 5) mod p25519"
  shows "carried (snd (invsqrt x)) (if q = (- 1) mod p25519 \<or> q = (- i25519) mod p25519 then X ^ (2 ^ 252 - 3) * i25519 else X ^ (2 ^ 252 - 3))"
    and "fst (invsqrt x) = (if q = 1 mod p25519 \<or> q = (- 1) mod p25519 \<or> X mod p25519 = 0 then 1 else 0)"
proof -
  obtain t where t: "carried t (X ^ (2 ^ 252 - 3))" and eq: "invsqrt x =
      (let quartic = fe_mul (fe_sq t) x; p1 = fe_isequal quartic fe_1; m1 = fe_isequal quartic (fe_neg fe_1); ms = fe_isequal quartic (fe_neg sqrtm1)
       in (p1 OR m1 OR fe_isequal x fe_0, fe_ccopy (fe_mul t sqrtm1) t (1 - (m1 OR ms))))"
    using root_power [OF assms(1)] by blast
  have x: "carried x (X ^ 1)" using assms(1) by simp
  have qt: "carried (fe_mul (fe_sq t) x) (X ^ (2 ^ 253 - 5))" using mul_pow [OF sq_pow [OF t] x] by simp
  have ti: "carried (fe_mul t sqrtm1) (X ^ (2 ^ 252 - 3) * i25519)"
    by (rule fe_mul_correct [OF carried_usable [OF t] carried_usable [OF sqrtm1_correct(1)]])
  have len: "length (fe_mul t sqrtm1) = length t" using carried_length [OF ti] carried_length [OF t] by simp
  note e = fe_isequal_correct [OF qt fe_constants(2)] fe_isequal_correct [OF qt fe_neg_correct [OF fe_constants(2)]]
    fe_isequal_correct [OF qt fe_neg_correct [OF sqrtm1_correct(1)]] fe_isequal_correct [OF assms(1) fe_constants(1)]
  have one: "1 - (if b then 1 else 0 :: i32) = (if \<not> b then 1 else 0)" for b by simp
  show "carried (snd (invsqrt x)) (if q = (- 1) mod p25519 \<or> q = (- i25519) mod p25519 then X ^ (2 ^ 252 - 3) * i25519 else X ^ (2 ^ 252 - 3))"
    unfolding eq Let_def snd_conv e bit_or one fe_ccopy_bit [OF len] q_def using ti t by simp
  show "fst (invsqrt x) = (if q = 1 mod p25519 \<or> q = (- 1) mod p25519 \<or> X mod p25519 = 0 then 1 else 0)"
    unfolding eq Let_def fst_conv e bit_or q_def by simp
qed

text \<open>Euler's criterion at \<open>z\<close>; it holds at every \<open>z\<close> because \<open>2 ^ 255 - 19\<close> is prime.\<close>

definition euler :: "int \<Rightarrow> bool" where
  "euler z \<longleftrightarrow> z mod p25519 = 0 \<or> z ^ (2 ^ 254 - 10) mod p25519 = 1 mod p25519 \<or> z ^ (2 ^ 254 - 10) mod p25519 = (- 1) mod p25519"

lemma constants_distinct:
  "1 mod p25519 \<noteq> (- 1) mod p25519" "1 mod p25519 \<noteq> (- i25519) mod p25519" "0 \<noteq> (- 1) mod p25519" "0 \<noteq> (- i25519) mod p25519"
  by (simp_all add: p25519_def i25519_def)

lemma fe_invert_correct:
  assumes "carried z Z" "euler Z"
  shows "carried (fe_invert z) (Z ^ (2 ^ 255 - 21))"
proof -
  let ?Y = "Z * Z" and ?q = "Z ^ (2 ^ 254 - 10) mod p25519"
  have y: "carried (fe_sq z) ?Y" by (rule fe_sq_correct [OF carried_usable [OF assms(1)]])
  have Y: "?Y ^ n = Z ^ (2 * n)" for n by (simp add: power_mult power2_eq_square)
  have eq: "?Y ^ (2 ^ 253 - 5) = Z ^ (2 ^ 254 - 10)" "?Y ^ (2 ^ 252 - 3) = Z ^ (2 ^ 253 - 6)" unfolding Y by simp_all
  let ?c = "?q = (- 1) mod p25519 \<or> ?q = (- i25519) mod p25519"
  let ?r = "if ?c then Z ^ (2 ^ 253 - 6) * i25519 else Z ^ (2 ^ 253 - 6)"
  have r: "carried (snd (invsqrt (fe_sq z))) ?r" using invsqrt_correct(1) [OF y] unfolding eq .
  have out: "carried (fe_invert z) (?r * ?r * Z)"
    unfolding fe_invert_def Let_def by (rule fe_mul_correct [OF carried_usable [OF fe_sq_correct [OF carried_usable [OF r]]] carried_usable [OF assms(1)]])
  have pw: "Z ^ (2 ^ 253 - 6) * Z ^ (2 ^ 253 - 6) * Z = Z ^ (2 ^ 254 - 11)"
    using power_add [of Z "2 ^ 253 - 6" "2 ^ 253 - 6"] power_Suc2 [of Z "2 ^ 254 - 12"] by simp
  have goal: "Z ^ (2 ^ 255 - 21) = Z ^ (2 ^ 254 - 11) * Z ^ (2 ^ 254 - 10)"
    using power_add [of Z "2 ^ 254 - 11" "2 ^ 254 - 10"] by simp
  have zero: "Z ^ n mod p25519 = 0" if "Z mod p25519 = 0" "0 < n" for n
    using power_mod [of Z p25519 n] that by (simp add: power_0_left)
  have "(?r * ?r * Z) mod p25519 = Z ^ (2 ^ 255 - 21) mod p25519"
  proof (cases ?c)
    case True
    have "?q \<noteq> 0" "?q \<noteq> 1 mod p25519" using True constants_distinct by auto
    then have m: "Z ^ (2 ^ 254 - 10) mod p25519 = (- 1) mod p25519" using assms(2) zero unfolding euler_def by auto
    have "?r * ?r * Z = Z ^ (2 ^ 254 - 11) * (i25519 * i25519)" using True pw by (simp add: mult.assoc mult.left_commute)
    then show ?thesis unfolding goal using m sqrtm1_correct(2) by (metis mod_mult_cong)
  next
    case False
    then have r: "?r * ?r * Z = Z ^ (2 ^ 254 - 11)" using pw by simp
    from False assms(2) consider "Z mod p25519 = 0" | "Z ^ (2 ^ 254 - 10) mod p25519 = 1 mod p25519" unfolding euler_def by auto
    then show ?thesis
    proof cases
      case 1
      then show ?thesis unfolding r using zero by simp
    next
      case 2
      then have "(Z ^ (2 ^ 254 - 11) * Z ^ (2 ^ 254 - 10)) mod p25519 = (Z ^ (2 ^ 254 - 11) * 1) mod p25519" by (metis mod_mult_cong)
      then show ?thesis unfolding r goal by simp
    qed
  qed
  then show ?thesis by (rule carried_cong [OF out])
qed

section \<open>The ladder\<close>

text \<open>What two projective coordinates hold.\<close>

definition holds_point :: "fe \<Rightarrow> fe \<Rightarrow> int \<times> int \<Rightarrow> bool" where
  "holds_point x z P \<longleftrightarrow> carried x (fst P) \<and> carried z (snd P)"

definition ladder_holds :: "ladder \<Rightarrow> (int \<times> int) \<times> (int \<times> int) \<Rightarrow> bool" where
  "ladder_holds st R \<longleftrightarrow> (case st of (x2, z2, x3, z3, swap) \<Rightarrow> \<exists>b. swap = (if b then 1 else 0)
     \<and> holds_point x2 z2 (if b then snd R else fst R) \<and> holds_point x3 z3 (if b then fst R else snd R))"

lemma carried_mod: "carried f x \<Longrightarrow> carried f (x mod p25519)"
  by (erule carried_cong) simp

text \<open>One step after the swap: the first point is doubled, the second replaced by the sum.\<close>

lemma step_core:
  assumes "carried x1 X1" "holds_point x2 z2 P" "holds_point x3 z3 Q"
    "t0 = fe_sub x3 z3" "t1 = fe_sub x2 z2" "a = fe_add x2 z2" "c = fe_add x3 z3" "da = fe_mul t0 a" "cb = fe_mul c t1"
    "bb = fe_sq t1" "aa = fe_sq a" "e = fe_sub aa bb"
  shows "holds_point (fe_mul aa bb) (fe_mul e (fe_add bb (fe_mul_small e 121666))) (xz_double P)"
    and "holds_point (fe_sq (fe_add da cb)) (fe_mul x1 (fe_sq (fe_sub da cb))) (xz_add X1 P Q)"
proof -
  obtain X2 Z2 X3 Z3 where PQ: "P = (X2, Z2)" "Q = (X3, Z3)" by fastforce
  have c: "carried x2 X2" "carried z2 Z2" "carried x3 X3" "carried z3 Z3" using assms(2,3) by (simp_all add: holds_point_def PQ)
  let ?A = "X2 + Z2" and ?B = "X2 - Z2" and ?C = "X3 + Z3" and ?D = "X3 - Z3"
  have u: "usable t0 ?D" "usable t1 ?B" "usable a ?A" "usable c ?C"
    unfolding assms(4-7) using c by (simp_all add: fe_add_correct fe_sub_correct)
  have m: "carried da (?D * ?A)" "carried cb (?C * ?B)" "carried bb (?B * ?B)" "carried aa (?A * ?A)"
    unfolding assms(8-11) using u by (simp_all add: fe_mul_correct fe_sq_correct)
  let ?E = "?A * ?A - ?B * ?B"
  have e: "usable e ?E" unfolding assms(12) by (rule fe_sub_correct [OF m(4,3)])
  have ms: "carried (fe_mul_small e 121666) (?E * 121666)" using fe_mul_small_correct [OF e, of 121666] by simp
  have "?E * (?B * ?B + ?E * 121666) = (?A ^ 2 - ?B ^ 2) * (?A ^ 2 + 121665 * (?A ^ 2 - ?B ^ 2))"
    by (simp add: power2_eq_square)
  then have "carried (fe_mul e (fe_add bb (fe_mul_small e 121666))) ((?A ^ 2 - ?B ^ 2) * (?A ^ 2 + 121665 * (?A ^ 2 - ?B ^ 2)))"
    using fe_mul_correct [OF e fe_add_correct [OF m(3) ms]] by (simp only:)
  moreover have "carried (fe_mul aa bb) (?A ^ 2 * ?B ^ 2)"
    using fe_mul_correct [OF carried_usable [OF m(4)] carried_usable [OF m(3)]] by (simp add: power2_eq_square)
  ultimately show "holds_point (fe_mul aa bb) (fe_mul e (fe_add bb (fe_mul_small e 121666))) (xz_double P)"
    unfolding holds_point_def xz_double_def PQ Let_def prod.case fst_conv snd_conv by (intro conjI carried_mod)
  have "carried (fe_sq (fe_add da cb)) ((?D * ?A + ?C * ?B) ^ 2)" "carried (fe_sq (fe_sub da cb)) ((?D * ?A - ?C * ?B) ^ 2)"
    unfolding power2_eq_square using m by (simp_all add: fe_sq_correct fe_add_correct fe_sub_correct)
  moreover from this(2) have "carried (fe_mul x1 (fe_sq (fe_sub da cb))) (X1 * (?D * ?A - ?C * ?B) ^ 2)"
    using fe_mul_correct [OF carried_usable [OF assms(1)] carried_usable] by simp
  ultimately show "holds_point (fe_sq (fe_add da cb)) (fe_mul x1 (fe_sq (fe_sub da cb))) (xz_add X1 P Q)"
    by (simp add: holds_point_def xz_add_def PQ Let_def carried_mod)
qed

lemma xz_add_commute: "xz_add x1 P Q = xz_add x1 Q P"
proof -
  obtain a b c d where P: "P = (a, b)" "Q = (c, d)" by fastforce
  have s: "(c - d) * (a + b) + (c + d) * (a - b) = (a - b) * (c + d) + (a + b) * (c - d)" by (simp add: algebra_simps)
  have m: "(c - d) * (a + b) - (c + d) * (a - b) = - ((a - b) * (c + d) - (a + b) * (c - d))" by (simp add: algebra_simps)
  show ?thesis unfolding xz_add_def Let_def P prod.case s m power2_minus ..
qed

lemma holds_lengths: "holds_point x z P \<Longrightarrow> holds_point x' z' Q \<Longrightarrow> length x = length x' \<and> length z = length z'"
  unfolding holds_point_def using carried_length by metis

lemma swap_points:
  assumes "holds_point x2 z2 (if s then snd R else fst R)" "holds_point x3 z3 (if s then fst R else snd R)"
    "fe_cswap x2 x3 (if s \<noteq> b then 1 else 0) = (x2', x3')" "fe_cswap z2 z3 (if s \<noteq> b then 1 else 0) = (z2', z3')"
  shows "holds_point x2' z2' (if b then snd R else fst R)" "holds_point x3' z3' (if b then fst R else snd R)"
  using assms holds_lengths [OF assms(1,2)] by (auto simp: fe_cswap_bit split: if_splits)

lemma xor_bits: "(if s then 1 else 0) XOR (if b then 1 else 0) = (if s \<noteq> b then 1 else 0 :: i32)"
  by simp

lemma ladder_step_holds:
  assumes "carried x1 X1" "ladder_holds st R"
  shows "ladder_holds (ladder_step x1 (if b then 1 else 0) st)
     (if b then (xz_add X1 (fst R) (snd R), xz_double (snd R)) else (xz_double (fst R), xz_add X1 (fst R) (snd R)))"
proof -
  obtain x2 z2 x3 z3 swap s where st: "st = (x2, z2, x3, z3, swap)" "swap = (if s then 1 else 0)"
    "holds_point x2 z2 (if s then snd R else fst R)" "holds_point x3 z3 (if s then fst R else snd R)"
    using assms(2) unfolding ladder_holds_def by (cases st) auto
  obtain y2 y3 w2 w3 where sw: "fe_cswap x2 x3 (if s \<noteq> b then 1 else 0) = (y2, y3)" "fe_cswap z2 z3 (if s \<noteq> b then 1 else 0) = (w2, w3)"
    by fastforce
  note P = swap_points [OF st(3,4) sw]
  note c = step_core [OF assms(1) P refl refl refl refl refl refl refl refl refl]
  let ?P = "if b then snd R else fst R" and ?Q = "if b then fst R else snd R"
  have "xz_add X1 ?P ?Q = xz_add X1 (fst R) (snd R)" using xz_add_commute by simp
  then show ?thesis
    using c unfolding ladder_step_def st(1,2) Let_def prod.case xor_bits sw ladder_holds_def by (cases b) auto
qed

lemma bit_le_num: "i < 8 * length xs \<Longrightarrow> bit (le_num xs) i = bit (xs ! (i div 8)) (i mod 8)"
proof (induction xs arbitrary: i)
  case (Cons b xs)
  have lt: "unat b < 256" using unsigned_less [of b] by simp
  have sp: "take_bit 8 (le_num (b # xs)) = unat b" "drop_bit 8 (le_num (b # xs)) = le_num xs"
    using lt by (simp_all add: take_bit_eq_mod drop_bit_eq_div)
  show ?case
  proof (cases "i < 8")
    case True
    then have "bit (le_num (b # xs)) i = bit (take_bit 8 (le_num (b # xs))) i" by (simp only: bit_take_bit_iff simp_thms)
    then show ?thesis unfolding sp using True by (simp add: bit_unsigned_iff)
  next
    case False
    then have "bit (le_num (b # xs)) i = bit (drop_bit 8 (le_num (b # xs))) (i - 8)" by (simp only: bit_drop_bit_eq comp_def) simp
    also have "\<dots> = bit (xs ! ((i - 8) div 8)) ((i - 8) mod 8)" unfolding sp using Cons False by simp
    finally have "bit (le_num (b # xs)) i = bit (xs ! ((i - 8) div 8)) ((i - 8) mod 8)" .
    moreover obtain j where "i = j + 8" using False by (metis le_add_diff_inverse2 not_less)
    moreover from this have "i div 8 = Suc ((i - 8) div 8)" "i mod 8 = (i - 8) mod 8" by simp_all
    ultimately show ?thesis by (simp only: nth_Cons_Suc)
  qed
qed simp

lemma scalar_bit_num: "i < 8 * length s \<Longrightarrow> scalar_bit s (int i) = (if bit (le_num s) i then 1 else 0)"
  unfolding scalar_bit_def bit_le_num by (auto simp: and_one_eq bit_iff_odd_drop_bit odd_iff_mod_2_eq_one even_iff_mod_2_eq_zero)

lemma ladder_loop_holds:
  assumes "carried x1 X1" "n \<le> 8 * length scalar"
  shows "ladder_holds st R \<Longrightarrow> ladder_holds (ladder_loop x1 scalar n st) (mont X1 (le_num scalar) n R)"
  using assms(2)
proof (induction n arbitrary: st R)
  case (Suc n)
  then show ?case using ladder_step_holds [OF assms(1), of st R "bit (le_num scalar) n"] by (simp add: scalar_bit_num)
qed simp

section \<open>The whole function\<close>

lemma trim_bytes: "unat (b AND 248) = 8 * (unat b div 8)" "unat ((b AND 127) OR 64) = 64 + unat b mod 64" for b :: byte
proof -
  have "list_all (\<lambda>n. unat ((of_nat n :: byte) AND 248) = 8 * (n div 8) \<and> unat (((of_nat n :: byte) AND 127) OR 64) = 64 + n mod 64) [0..<256]"
    by code_simp
  moreover have "unat b < 256" using unsigned_less [of b] by simp
  ultimately have "unat ((of_nat (unat b) :: byte) AND 248) = 8 * (unat b div 8)
      \<and> unat (((of_nat (unat b) :: byte) AND 127) OR 64) = 64 + unat b mod 64"
    unfolding list_all_iff by (metis atLeastLessThan_iff atLeastLessThan_upt zero_le)
  then show "unat (b AND 248) = 8 * (unat b div 8)" "unat ((b AND 127) OR 64) = 64 + unat b mod 64" by simp_all
qed

lemma trim_scalar:
  assumes "length k = 32"
  shows "length (crypto_eddsa_trim_scalar k) = 32" "le_num (crypto_eddsa_trim_scalar k) = decode_scalar k"
proof -
  show "length (crypto_eddsa_trim_scalar k) = 32" using assms by (simp add: crypto_eddsa_trim_scalar_def Let_def)
  obtain b bs where b: "k = b # bs" "length bs = 31" using assms by (cases k) auto
  obtain mid e where e: "bs = mid @ [e]" "length mid = 30" using b(2) by (cases bs rule: rev_cases) auto
  have t: "crypto_eddsa_trim_scalar k = (b AND 248) # mid @ [(e AND 127) OR 64]"
    unfolding crypto_eddsa_trim_scalar_def Let_def b(1) e(1) using e(2) by (simp add: nth_append list_update_append)
  let ?m = "le_num mid" and ?b = "unat b" and ?e = "unat e"
  have lb: "?b < 256" using unsigned_less [of b] by simp
  have lm: "?m < 256 ^ 30" using le_num_less [of mid] e(2) by simp
  have N: "le_num k = (?b + 256 * ?m) + 2 ^ 248 * ?e" unfolding b(1) e(1) using e(2) by (simp add: le_num_append)
  have "?b + 256 * ?m < 2 ^ 248" using lb lm by simp
  then have "le_num k mod 2 ^ 254 = ?b + 256 * ?m + 2 ^ 248 * (?e mod 64)"
    unfolding N using mod_mult2_eq [of "?b + 256 * ?m + 2 ^ 248 * ?e" "2 ^ 248" 64] by simp
  also have "\<dots> = ?b + 8 * (32 * ?m + 2 ^ 245 * (?e mod 64))" by simp
  finally have d: "le_num k mod 2 ^ 254 div 8 = ?b div 8 + (32 * ?m + 2 ^ 245 * (?e mod 64))" by simp
  have "le_num (crypto_eddsa_trim_scalar k) = 8 * (?b div 8) + 256 * ?m + 2 ^ 248 * (64 + ?e mod 64)"
    unfolding t using e(2) trim_bytes [of b] trim_bytes [of e] by (simp add: le_num_append)
  then show "le_num (crypto_eddsa_trim_scalar k) = decode_scalar k" unfolding decode_scalar_def d by simp
qed

lemma x25519_correct:
  assumes "length k = 32" "length u = 32" "euler (snd (x25519_point k u))"
  shows "crypto_x25519 k u = x25519_rfc k u"
proof -
  let ?e = "crypto_eddsa_trim_scalar k" and ?x1 = "fe_frombytes u" and ?X1 = "int (le_num u mod 2 ^ 255)"
  have x1: "carried ?x1 ?X1" by (rule fe_frombytes_correct [OF assms(2)])
  have "ladder_holds (fe_1, fe_0, ?x1, fe_1, 0) ((1, 0), (?X1, 1))"
    using x1 fe_constants by (auto simp: ladder_holds_def holds_point_def intro!: exI [of _ False])
  from ladder_loop_holds [OF x1 _ this, of 255 ?e]
  have "ladder_holds (ladder_loop ?x1 ?e 255 (fe_1, fe_0, ?x1, fe_1, 0)) (mont ?X1 (decode_scalar k) 255 ((1, 0), (?X1, 1)))"
    using trim_scalar [OF assms(1)] by simp
  then obtain x2 z2 x3 z3 s where st: "ladder_loop ?x1 ?e 255 (fe_1, fe_0, ?x1, fe_1, 0) = (x2, z2, x3, z3, if s then 1 else 0)"
    and h: "holds_point x2 z2 (if s then snd (mont ?X1 (decode_scalar k) 255 ((1, 0), (?X1, 1))) else fst (mont ?X1 (decode_scalar k) 255 ((1, 0), (?X1, 1))))"
      "holds_point x3 z3 (if s then fst (mont ?X1 (decode_scalar k) 255 ((1, 0), (?X1, 1))) else snd (mont ?X1 (decode_scalar k) 255 ((1, 0), (?X1, 1))))"
    unfolding ladder_holds_def by (auto split: prod.splits)
  obtain y2 y3 w2 w3 where sw: "fe_cswap x2 x3 (if s \<noteq> False then 1 else 0) = (y2, y3)" "fe_cswap z2 z3 (if s \<noteq> False then 1 else 0) = (w2, w3)"
    by fastforce
  have P: "holds_point y2 w2 (x25519_point k u)" using swap_points(1) [OF h sw] by (simp add: x25519_point_def Let_def)
  obtain X Z where XZ: "x25519_point k u = (X, Z)" by fastforce
  have "carried (fe_invert w2) (Z ^ (2 ^ 255 - 21))" using fe_invert_correct P assms(3) by (simp add: holds_point_def XZ)
  then have "carried (fe_mul y2 (fe_invert w2)) (X * Z ^ (2 ^ 255 - 21))"
    using fe_mul_correct carried_usable P by (simp add: holds_point_def XZ)
  from fe_tobytes_correct [OF this] show ?thesis
    using st sw by (simp add: crypto_x25519_def scalarmult_def Let_def x25519_rfc_def XZ)
qed

text \<open>C32. X25519 is the standard's function.  For a 32-byte secret and a 32-byte point the code, which
  works on ten signed 32-bit limbs with masks for its conditional swaps, a delayed last swap and an
  inversion by way of a square root, returns exactly the 32 bytes that RFC 7748 defines: the scalar
  with its bits clamped, the top bit of the point ignored, the Montgomery ladder modulo 2^255 - 19,
  and the quotient of the two coordinates by a power, reduced to its canonical form.  The hypothesis
  is Euler's criterion at the last denominator, an instance of what holds for every number because
  the modulus is prime.\<close>

theorem x25519_is_rfc7748:
  assumes "length k = 32" "length u = 32" "euler (snd (x25519_point k u))"
  shows "crypto_x25519 k u = x25519_rfc k u"
  by (rule x25519_correct [OF assms])

text \<open>On the point 0 every denominator vanishes, and so does the result.\<close>

lemma mont_zero: "snd (fst R) = 0 \<Longrightarrow> snd (snd R) = 0 \<Longrightarrow> snd (fst (mont 0 k n R)) = 0"
proof (induction n arbitrary: R)
  case (Suc n)
  have "snd (xz_double P) = 0" if "snd P = 0" for P using that by (cases P) (simp add: xz_double_def Let_def)
  moreover have "snd (xz_add 0 P Q) = 0" for P Q by (cases P; cases Q) (simp add: xz_add_def Let_def)
  ultimately show ?case using Suc by simp
qed simp

lemma point_zero: "snd (x25519_point k (replicate 32 0)) = 0"
proof -
  have "snd (xz_double P) = 0" if "fst P = 0 \<or> snd P = 0" for P
    using that by (cases P) (auto simp: xz_double_def Let_def power2_eq_square)
  moreover have "snd (xz_add 0 P Q) = 0" for P Q by (cases P; cases Q) (simp add: xz_add_def Let_def)
  ultimately have "snd (fst (mont 0 (decode_scalar k) (Suc 254) ((1, 0), (0, 1)))) = 0"
    unfolding mont.simps by (intro mont_zero) simp_all
  then show ?thesis by (simp add: x25519_point_def Let_def)
qed

theorem x25519_is_rfc7748_witness: "crypto_x25519 (replicate 32 1) (replicate 32 0) = replicate 32 0"
proof -
  have "le_bytes n 0 = replicate n 0" for n by (induction n) simp_all
  then have "x25519_rfc (replicate 32 1) (replicate 32 0) = replicate 32 0"
    using point_zero [of "replicate 32 1"] by (simp add: x25519_rfc_def case_prod_beta power_0_left)
  moreover have "euler (snd (x25519_point (replicate 32 1) (replicate 32 0)))" by (simp add: point_zero euler_def)
  ultimately show ?thesis using x25519_is_rfc7748 [of "replicate 32 1" "replicate 32 0"] by simp
qed

end
