(* ===== verification/Sha512.thy ===== *)
theory Sha512
  imports Poly1305
begin

text \<open>
  The SHA-512 of \<open>crypto/monocypher-ed25519.c\<close>, the hash inside the server's Ed25519 signatures.  The
  context is the record \<open>sha512_ctx\<close>; the block is kept as sixteen 64-bit words into which single bytes
  are or-ed, and the message schedule is computed in place in these sixteen words.  The lemmas show
  that the in-place schedule is the eighty-word schedule of FIPS 180-4 and that the streaming
  interface, with its byte, word and block paths, hashes the concatenation of the pieces.
\<close>

section \<open>The compression function\<close>

text \<open>\<open>align\<close> with \<open>size_t\<close> of 16 bits.\<close>

definition align :: "nat \<Rightarrow> nat \<Rightarrow> nat" where
  "align x pow_2 = unat ((NOT (of_nat x) + 1) AND (of_nat pow_2 - 1) :: 16 word)"

definition load64_be :: "byte list \<Rightarrow> u64" where
  "load64_be s = push_bit 56 (ucast (s ! 0)) OR push_bit 48 (ucast (s ! 1)) OR push_bit 40 (ucast (s ! 2))
     OR push_bit 32 (ucast (s ! 3)) OR push_bit 24 (ucast (s ! 4)) OR push_bit 16 (ucast (s ! 5))
     OR push_bit 8 (ucast (s ! 6)) OR ucast (s ! 7)"

definition store64_be :: "u64 \<Rightarrow> byte list" where
  "store64_be v = map (\<lambda>k. ucast (drop_bit k v AND 0xff)) [56, 48, 40, 32, 24, 16, 8, 0]"

text \<open>\<open>load64_be_buf (dst + i, src, n)\<close>: the words of \<open>dst\<close> from index \<open>i\<close> on are overwritten.\<close>

definition load64_be_buf :: "nat \<Rightarrow> byte list \<Rightarrow> nat \<Rightarrow> u64 list \<Rightarrow> u64 list" where
  "load64_be_buf i src n dst =
     take i dst @ map (\<lambda>k. load64_be (drop (8 * k) src)) [0..<n] @ drop (i + n) dst"

definition rot :: "u64 \<Rightarrow> nat \<Rightarrow> u64" where "rot x c = drop_bit c x OR push_bit (64 - c) x"
definition ch :: "u64 \<Rightarrow> u64 \<Rightarrow> u64 \<Rightarrow> u64" where "ch x y z = (x AND y) XOR (NOT x AND z)"
definition maj :: "u64 \<Rightarrow> u64 \<Rightarrow> u64 \<Rightarrow> u64" where "maj x y z = (x AND y) XOR (x AND z) XOR (y AND z)"
definition big_sigma0 :: "u64 \<Rightarrow> u64" where "big_sigma0 x = rot x 28 XOR rot x 34 XOR rot x 39"
definition big_sigma1 :: "u64 \<Rightarrow> u64" where "big_sigma1 x = rot x 14 XOR rot x 18 XOR rot x 41"
definition lit_sigma0 :: "u64 \<Rightarrow> u64" where "lit_sigma0 x = rot x 1 XOR rot x 8 XOR drop_bit 7 x"
definition lit_sigma1 :: "u64 \<Rightarrow> u64" where "lit_sigma1 x = rot x 19 XOR rot x 61 XOR drop_bit 6 x"

definition sha512_K :: "u64 list" where
  "sha512_K = concat [
     [0x428a2f98d728ae22, 0x7137449123ef65cd, 0xb5c0fbcfec4d3b2f, 0xe9b5dba58189dbbc],
     [0x3956c25bf348b538, 0x59f111f1b605d019, 0x923f82a4af194f9b, 0xab1c5ed5da6d8118],
     [0xd807aa98a3030242, 0x12835b0145706fbe, 0x243185be4ee4b28c, 0x550c7dc3d5ffb4e2],
     [0x72be5d74f27b896f, 0x80deb1fe3b1696b1, 0x9bdc06a725c71235, 0xc19bf174cf692694],
     [0xe49b69c19ef14ad2, 0xefbe4786384f25e3, 0x0fc19dc68b8cd5b5, 0x240ca1cc77ac9c65],
     [0x2de92c6f592b0275, 0x4a7484aa6ea6e483, 0x5cb0a9dcbd41fbd4, 0x76f988da831153b5],
     [0x983e5152ee66dfab, 0xa831c66d2db43210, 0xb00327c898fb213f, 0xbf597fc7beef0ee4],
     [0xc6e00bf33da88fc2, 0xd5a79147930aa725, 0x06ca6351e003826f, 0x142929670a0e6e70],
     [0x27b70a8546d22ffc, 0x2e1b21385c26c926, 0x4d2c6dfc5ac42aed, 0x53380d139d95b3df],
     [0x650a73548baf63de, 0x766a0abb3c77b2a8, 0x81c2c92e47edaee6, 0x92722c851482353b],
     [0xa2bfe8a14cf10364, 0xa81a664bbc423001, 0xc24b8b70d0f89791, 0xc76c51a30654be30],
     [0xd192e819d6ef5218, 0xd69906245565a910, 0xf40e35855771202a, 0x106aa07032bbd1b8],
     [0x19a4c116b8d2d0c8, 0x1e376c085141ab53, 0x2748774cdf8eeb99, 0x34b0bcb5e19b48a8],
     [0x391c0cb3c5c95a63, 0x4ed8aa4ae3418acb, 0x5b9cca4f7763e373, 0x682e6ff3d6b2b8a3],
     [0x748f82ee5defb2fc, 0x78a5636f43172f60, 0x84c87814a1f0ab72, 0x8cc702081a6439ec],
     [0x90befffa23631e28, 0xa4506cebde82bde9, 0xbef9a3f7b2c67915, 0xc67178f2e372532b],
     [0xca273eceea26619c, 0xd186b8c721c0c207, 0xeada7dd6cde0eb1e, 0xf57d4f7fee6ed178],
     [0x06f067aa72176fba, 0x0a637dc5a2c898a6, 0x113f9804bef90dae, 0x1b710b35131c471b],
     [0x28db77f523047d84, 0x32caab7b40c72493, 0x3c9ebe0a15c9bebc, 0x431d67c49c100d4c],
     [0x4cc5d4becb3e42b6, 0x597f299cfc657e2a, 0x5fcb6fab3ad6faec, 0x6c44198c4a475817]]"

type_synonym regs64 = "u64 \<times> u64 \<times> u64 \<times> u64 \<times> u64 \<times> u64 \<times> u64 \<times> u64"

fun sha512_round :: "u64 \<Rightarrow> regs64 \<Rightarrow> regs64" where
  "sha512_round inp (a, b, c, d, e, f, g, h) =
     (let t1 = big_sigma1 e + ch e f g + h + inp;
          t2 = big_sigma0 a + maj a b c
      in (t1 + t2, a, b, c, d + t1, e, f, g))"

text \<open>One step of the rounds 16 to 79: \<open>(j - 2) & 15\<close>, \<open>(j - 15) & 15\<close> and \<open>(j - 7) & 15\<close> are
  \<open>(j + 14) mod 16\<close>, \<open>(j + 1) mod 16\<close> and \<open>(j + 9) mod 16\<close>.\<close>

definition sha512_step :: "nat \<Rightarrow> nat \<Rightarrow> u64 list \<times> regs64 \<Rightarrow> u64 list \<times> regs64" where
  "sha512_step i16 j st =
     (let (inp, rs) = st;
          inp = inp[j := inp ! j + lit_sigma1 (inp ! ((j + 14) mod 16))];
          inp = inp[j := inp ! j + lit_sigma0 (inp ! ((j + 1) mod 16))];
          inp = inp[j := inp ! j + inp ! ((j + 9) mod 16)]
      in (inp, sha512_round (sha512_K ! (i16 + j) + inp ! j) rs))"

record sha512_ctx =
  s5_hash :: regs64
  s5_input :: "u64 list"
  s5_size0 :: u64
  s5_size1 :: u64
  s5_idx :: nat

fun regs64_add :: "regs64 \<Rightarrow> regs64 \<Rightarrow> regs64" where
  "regs64_add (a, b, c, d, e, f, g, h) (a', b', c', d', e', f', g', h') =
     (a + a', b + b', c + c', d + d', e + e', f + f', g + g', h + h')"

definition sha512_compress :: "sha512_ctx \<Rightarrow> sha512_ctx" where
  "sha512_compress ctx =
     (let rs = fold (\<lambda>j. sha512_round (sha512_K ! j + s5_input ctx ! j)) [0..<16] (s5_hash ctx);
          (inp, rs) = fold (\<lambda>i. fold (sha512_step (16 * i)) [0..<16]) [1..<5] (s5_input ctx, rs)
      in ctx\<lparr>s5_hash := regs64_add (s5_hash ctx) rs, s5_input := inp\<rparr>)"

section \<open>The streaming interface\<close>

definition sha512_set_input :: "byte \<Rightarrow> sha512_ctx \<Rightarrow> sha512_ctx" where
  "sha512_set_input b ctx =
     (let word = s5_idx ctx div 8; byte = s5_idx ctx mod 8
      in ctx\<lparr>s5_input := (s5_input ctx)[word := s5_input ctx ! word OR push_bit (8 * (7 - byte)) (ucast b)]\<rparr>)"

definition sha512_incr :: "u64 \<Rightarrow> sha512_ctx \<Rightarrow> sha512_ctx" where
  "sha512_incr y ctx =
     (let ctx = ctx\<lparr>s5_size1 := s5_size1 ctx + y\<rparr>
      in if s5_size1 ctx < y then ctx\<lparr>s5_size0 := s5_size0 ctx + 1\<rparr> else ctx)"

definition sha512_H0 :: regs64 where
  "sha512_H0 = (0x6a09e667f3bcc908, 0xbb67ae8584caa73b, 0x3c6ef372fe94f82b, 0xa54ff53a5f1d36f1,
     0x510e527fade682d1, 0x9b05688c2b3e6c1f, 0x1f83d9abfb41bd6b, 0x5be0cd19137e2179)"

definition crypto_sha512_init :: "sha512_ctx \<Rightarrow> sha512_ctx" where
  "crypto_sha512_init ctx = ctx\<lparr>s5_hash := sha512_H0, s5_size0 := 0, s5_size1 := 0, s5_idx := 0, s5_input := replicate 16 0\<rparr>"

text \<open>The byte loops of \<open>crypto_sha512_update\<close>, its word loads, and the compression of a full block.\<close>

definition sha512_bytes :: "byte list \<Rightarrow> sha512_ctx \<Rightarrow> sha512_ctx" where
  "sha512_bytes bs ctx = fold (\<lambda>b ctx. (sha512_set_input b ctx)\<lparr>s5_idx := s5_idx ctx + 1\<rparr>) bs ctx"

definition sha512_next :: "sha512_ctx \<Rightarrow> sha512_ctx" where
  "sha512_next ctx = (sha512_compress (sha512_incr 1024 ctx))\<lparr>s5_idx := 0, s5_input := replicate 16 0\<rparr>"

primrec sha512_blocks :: "nat \<Rightarrow> byte list \<Rightarrow> sha512_ctx \<Rightarrow> sha512_ctx" where
  "sha512_blocks 0 message ctx = ctx"
| "sha512_blocks (Suc n) message ctx =
     sha512_blocks n (drop 128 message) (sha512_next (ctx\<lparr>s5_input := load64_be_buf 0 message 16 (s5_input ctx)\<rparr>))"

definition sha512_to_word :: "byte list \<Rightarrow> sha512_ctx \<Rightarrow> byte list \<times> sha512_ctx" where
  "sha512_to_word message ctx =
     (if s5_idx ctx mod 8 \<noteq> 0 then
        (let nb_bytes = min (align (s5_idx ctx) 8) (length message)
         in (drop nb_bytes message, sha512_bytes (take nb_bytes message) ctx))
      else (message, ctx))"

definition sha512_to_block :: "byte list \<Rightarrow> sha512_ctx \<Rightarrow> byte list \<times> sha512_ctx" where
  "sha512_to_block message ctx =
     (if s5_idx ctx mod 128 \<noteq> 0 then
        (let nb_words = min (align (s5_idx ctx) 128) (length message) div 8
         in (drop (8 * nb_words) message,
             ctx\<lparr>s5_input := load64_be_buf (s5_idx ctx div 8) message nb_words (s5_input ctx), s5_idx := s5_idx ctx + 8 * nb_words\<rparr>))
      else (message, ctx))"

definition sha512_rest :: "byte list \<Rightarrow> sha512_ctx \<Rightarrow> sha512_ctx" where
  "sha512_rest message ctx =
     (if message \<noteq> [] then
        (let nb_words = length message div 8;
             ctx = ctx\<lparr>s5_input := load64_be_buf 0 message nb_words (s5_input ctx), s5_idx := s5_idx ctx + 8 * nb_words\<rparr>
         in sha512_bytes (drop (8 * nb_words) message) ctx)
      else ctx)"

definition crypto_sha512_update :: "byte list \<Rightarrow> sha512_ctx \<Rightarrow> sha512_ctx" where
  "crypto_sha512_update message ctx =
     (if message = [] then ctx
      else
        (let (message, ctx) = sha512_to_word message ctx;
             (message, ctx) = sha512_to_block message ctx;
             ctx = (if s5_idx ctx = 128 then sha512_next ctx else ctx);
             nb_blocks = length message div 128;
             ctx = sha512_blocks nb_blocks message ctx
         in sha512_rest (drop (128 * nb_blocks) message) ctx))"

fun sha512_digest :: "regs64 \<Rightarrow> byte list" where
  "sha512_digest (a, b, c, d, e, f, g, h) = concat (map store64_be [a, b, c, d, e, f, g, h])"

definition crypto_sha512_final :: "sha512_ctx \<Rightarrow> byte list" where
  "crypto_sha512_final ctx =
     (let ctx = (if s5_idx ctx = 0 then ctx\<lparr>s5_input := replicate 16 0\<rparr> else ctx);
          ctx = sha512_set_input 128 ctx;
          ctx = sha512_incr (of_nat (s5_idx ctx * 8)) ctx;
          ctx = (if s5_idx ctx > 111
                 then (let ctx = sha512_compress ctx
                       in ctx\<lparr>s5_input := replicate 14 0 @ drop 14 (s5_input ctx)\<rparr>)
                 else ctx);
          ctx = ctx\<lparr>s5_input := (s5_input ctx)[14 := s5_size0 ctx, 15 := s5_size1 ctx]\<rparr>;
          ctx = sha512_compress ctx
      in sha512_digest (s5_hash ctx))"

text \<open>A context on the stack: its contents before \<open>crypto_sha512_init\<close> do not matter.\<close>

definition sha512_ctx0 :: sha512_ctx where
  "sha512_ctx0 = \<lparr>s5_hash = (0, 0, 0, 0, 0, 0, 0, 0), s5_input = replicate 16 0, s5_size0 = 0, s5_size1 = 0, s5_idx = 0\<rparr>"

definition crypto_sha512 :: "byte list \<Rightarrow> byte list" where
  "crypto_sha512 message = crypto_sha512_final (crypto_sha512_update message (crypto_sha512_init sha512_ctx0))"

text \<open>The wrapper of \<open>crypto.c\<close>.\<close>

definition dossh_sha512 :: "byte list \<Rightarrow> byte list" where
  "dossh_sha512 msg = crypto_sha512 msg"

section \<open>The specification\<close>

text \<open>FIPS 180-4: eighty schedule words of a block, and the padding to whole blocks of 128 bytes.\<close>

fun words64 :: "byte list \<Rightarrow> u64 list" where
  "words64 xs = (if length xs < 8 then [] else load64_be xs # words64 (drop 8 xs))"

declare words64.simps [simp del]

primrec schedule64 :: "nat \<Rightarrow> u64 list \<Rightarrow> u64 list" where
  "schedule64 0 m = m"
| "schedule64 (Suc k) m =
     (let t = length m
      in schedule64 k (m @ [lit_sigma1 (m ! (t - 2)) + m ! (t - 7) + lit_sigma0 (m ! (t - 15)) + m ! (t - 16)]))"

definition compress64 :: "regs64 \<Rightarrow> byte list \<Rightarrow> regs64" where
  "compress64 st blk =
     regs64_add st (fold (\<lambda>(k, w). sha512_round (k + w)) (zip sha512_K (schedule64 64 (words64 blk))) st)"

function blocks128 :: "byte list \<Rightarrow> byte list list" where
  "blocks128 xs = (if length xs < 128 then [] else take 128 xs # blocks128 (drop 128 xs))"
  by pat_completeness auto
termination by (relation "measure length") auto

declare blocks128.simps [simp del]

definition be128 :: "nat \<Rightarrow> byte list" where
  "be128 n = store64_be (of_nat (n div 2 ^ 64)) @ store64_be (of_nat n)"

definition pad128 :: "byte list \<Rightarrow> byte list" where
  "pad128 msg = msg @ [0x80] @ replicate ((239 - length msg mod 128) mod 128) 0 @ be128 (8 * length msg)"

definition sha512_spec :: "byte list \<Rightarrow> byte list" where
  "sha512_spec msg = sha512_digest (foldl compress64 sha512_H0 (blocks128 (pad128 msg)))"

section \<open>The schedule in place\<close>

lemma length_schedule64 [simp]: "length (schedule64 k m) = length m + k"
  by (induction k arbitrary: m) (simp_all add: Let_def)

lemma schedule64_old: "t < length m \<Longrightarrow> schedule64 k m ! t = m ! t"
  by (induction k arbitrary: m) (simp_all add: Let_def nth_append)

lemma schedule64_new:
  assumes "16 \<le> length m" "length m \<le> t" "t < length m + k"
  shows "schedule64 k m ! t = lit_sigma1 (schedule64 k m ! (t - 2)) + schedule64 k m ! (t - 7)
    + lit_sigma0 (schedule64 k m ! (t - 15)) + schedule64 k m ! (t - 16)"
  using assms
proof (induction k arbitrary: m)
  case (Suc k)
  let ?m = "m @ [lit_sigma1 (m ! (length m - 2)) + m ! (length m - 7) + lit_sigma0 (m ! (length m - 15)) + m ! (length m - 16)]"
  have e: "schedule64 (Suc k) m = schedule64 k ?m" by (simp add: Let_def)
  show ?case
  proof (cases "t = length m")
    case True
    then show ?thesis using Suc.prems by (simp only: e) (auto simp: schedule64_old nth_append)
  next
    case False
    then show ?thesis using Suc.IH [of ?m] Suc.prems by (simp only: e) simp
  qed
qed simp

text \<open>After the rounds below \<open>t\<close> the sixteen words are the last sixteen of the schedule \<open>w\<close>.\<close>

definition window :: "u64 list \<Rightarrow> nat \<Rightarrow> u64 list \<Rightarrow> bool" where
  "window w t inp \<longleftrightarrow> length inp = 16 \<and> (\<forall>s. t \<le> s + 16 \<and> s < t \<longrightarrow> inp ! (s mod 16) = w ! s)"

abbreviation rounds :: "u64 list \<Rightarrow> nat list \<Rightarrow> regs64 \<Rightarrow> regs64" where
  "rounds w \<equiv> fold (\<lambda>t. sha512_round (sha512_K ! t + w ! t))"

lemma mod16_other: "j < 16 \<Longrightarrow> 0 < k \<Longrightarrow> k < 16 \<Longrightarrow> (j + k) mod 16 \<noteq> j" for j k :: nat
proof -
  assume "j < 16" "0 < k" "k < 16"
  moreover from this have "(j + k) mod 16 = (if j + k < 16 then j + k else j + k - 16)" by (simp add: mod_if)
  ultimately show ?thesis by (simp split: if_splits)
qed

lemma step_window:
  assumes w: "w = schedule64 64 m" "length m = 16"
    and t: "t = 16 * i + j" "j < 16" "16 \<le> t" "t < 80" and win: "window w t inp"
  shows "\<exists>inp'. sha512_step (16 * i) j (inp, rs) = (inp', sha512_round (sha512_K ! t + w ! t) rs) \<and> window w (Suc t) inp'"
proof -
  have at: "inp ! (s mod 16) = w ! s" if "t \<le> s + 16" "s < t" for s using win that by (simp add: window_def)
  obtain u where u: "t = u + 16" using t(3) by (metis le_add_diff_inverse2)
  have "(u + 16) mod 16 = j" using t(1,2) u by simp
  then have j: "u mod 16 = j" by simp
  have ix: "(j + 14) mod 16 = (t - 2) mod 16" "(j + 1) mod 16 = (t - 15) mod 16" "(j + 9) mod 16 = (t - 7) mod 16"
    using mod_add_left_eq [of u 16 14] mod_add_left_eq [of u 16 1] mod_add_left_eq [of u 16 9] by (simp_all add: j u add.commute [of _ u])
  have ne: "(j + 14) mod 16 \<noteq> j" "(j + 1) mod 16 \<noteq> j" "(j + 9) mod 16 \<noteq> j" by (rule mod16_other [OF t(2)]; simp)+
  have len: "length inp = 16" using win by (simp add: window_def)
  have old: "inp ! j = w ! (t - 16)" "inp ! ((j + 14) mod 16) = w ! (t - 2)" "inp ! ((j + 1) mod 16) = w ! (t - 15)"
    "inp ! ((j + 9) mod 16) = w ! (t - 7)"
    using at [of u] j at [of "t - 2"] at [of "t - 15"] at [of "t - 7"] u unfolding ix by auto
  have new: "w ! t = w ! (t - 16) + lit_sigma1 (w ! (t - 2)) + lit_sigma0 (w ! (t - 15)) + w ! (t - 7)"
    using schedule64_new [of m t 64] t(3,4) w by (simp add: ac_simps)
  have "sha512_step (16 * i) j (inp, rs) = (inp[j := w ! t], sha512_round (sha512_K ! t + w ! t) rs)"
    using t(1,2) len ne old new by (simp add: sha512_step_def)
  moreover have "window w (Suc t) (inp[j := w ! t])"
  proof -
    have "inp[j := w ! t] ! (s mod 16) = w ! s" if s: "Suc t \<le> s + 16" "s < Suc t" for s
    proof (cases "s = t")
      case True
      then show ?thesis using t len by simp
    next
      case False
      then obtain k where k: "s = u + k" "0 < k" "k < 16" using s u False that [of "s - u"] by linarith
      have "s mod 16 = (j + k) mod 16" using mod_add_left_eq [of u 16 k] by (simp add: j k(1))
      then have "s mod 16 \<noteq> j" using mod16_other [OF t(2) k(2,3)] by simp
      then show ?thesis using at [of s] s False by simp
    qed
    then show ?thesis using len by (simp add: window_def)
  qed
  ultimately show ?thesis by blast
qed

lemma steps_window:
  assumes w: "w = schedule64 64 m" "length m = 16" and i: "1 \<le> i" "i < 5" and win: "window w (16 * i) inp" and n: "n \<le> 16"
  shows "\<exists>inp'. fold (sha512_step (16 * i)) [0..<n] (inp, rs) = (inp', rounds w [16 * i..<16 * i + n] rs) \<and> window w (16 * i + n) inp'"
  using n
proof (induction n)
  case 0
  then show ?case using win by simp
next
  case (Suc n)
  then obtain inp' where f: "fold (sha512_step (16 * i)) [0..<n] (inp, rs) = (inp', rounds w [16 * i..<16 * i + n] rs)"
    and g: "window w (16 * i + n) inp'" by auto
  show ?case using step_window [OF w refl _ _ _ g] i Suc.prems f by simp
qed

lemma stages_window:
  assumes w: "w = schedule64 64 m" "length m = 16" and win: "window w 16 inp" and n: "n \<le> 4"
  shows "\<exists>inp'. fold (\<lambda>i. fold (sha512_step (16 * i)) [0..<16]) [1..<Suc n] (inp, rs) = (inp', rounds w [16..<16 + 16 * n] rs)
    \<and> window w (16 + 16 * n) inp'"
  using n
proof (induction n)
  case 0
  then show ?case using win by simp
next
  case (Suc n)
  then obtain inp' where f: "fold (\<lambda>i. fold (sha512_step (16 * i)) [0..<16]) [1..<Suc n] (inp, rs) = (inp', rounds w [16..<16 + 16 * n] rs)"
    and g: "window w (16 * Suc n) inp'" by auto
  obtain inp'' where h: "fold (sha512_step (16 * Suc n)) [0..<16] (inp', rounds w [16..<16 + 16 * n] rs)
      = (inp'', rounds w [16 * Suc n..<16 * Suc n + 16] (rounds w [16..<16 + 16 * n] rs))" "window w (16 * Suc n + 16) inp''"
    using steps_window [OF w _ _ g, of 16 "rounds w [16..<16 + 16 * n] rs"] Suc.prems by auto
  have "[16..<16 + 16 * Suc n] = [16..<16 + 16 * n] @ [16 * Suc n..<16 * Suc n + 16]"
    using upt_add_eq_append [of 16 "16 + 16 * n" 16] by simp
  then show ?case using f h by (simp add: add.commute)
qed

lemma length_sha512_K: "length sha512_K = 80"
  by (simp add: sha512_K_def)

lemma compress_fold:
  assumes "length m = 16"
  shows "fold (\<lambda>(k, w). sha512_round (k + w)) (zip sha512_K (schedule64 64 m)) st = rounds (schedule64 64 m) [0..<80] st"
proof -
  have "zip sha512_K (schedule64 64 m) = map (\<lambda>t. (sha512_K ! t, schedule64 64 m ! t)) [0..<80]"
    using assms by (intro nth_equalityI) (simp_all add: length_sha512_K)
  then show ?thesis by (simp add: fold_map o_def)
qed

lemma compress_spec:
  assumes "s5_input ctx = words64 blk" "length (words64 blk) = 16"
  shows "\<exists>inp. sha512_compress ctx = ctx\<lparr>s5_hash := compress64 (s5_hash ctx) blk, s5_input := inp\<rparr> \<and> length inp = 16"
proof -
  define w where "w = schedule64 64 (words64 blk)"
  let ?r = "rounds w [0..<16] (s5_hash ctx)"
  have first: "fold (\<lambda>j. sha512_round (sha512_K ! j + s5_input ctx ! j)) [0..<16] (s5_hash ctx) = ?r"
    using assms by (intro fold_cong) (simp_all add: w_def schedule64_old)
  have "window w 16 (words64 blk)" using assms(2) by (simp add: window_def w_def schedule64_old)
  then obtain inp where f: "fold (\<lambda>i. fold (sha512_step (16 * i)) [0..<16]) [1..<5] (words64 blk, ?r) = (inp, rounds w [16..<80] ?r)"
    and l: "length inp = 16"
    using stages_window [OF w_def assms(2), of "words64 blk" 4 ?r] by (auto simp: window_def)
  have "rounds w [16..<80] ?r = rounds w [0..<80] (s5_hash ctx)"
    using upt_add_eq_append [of 0 16 64] by simp
  then have "compress64 (s5_hash ctx) blk = regs64_add (s5_hash ctx) (rounds w [16..<80] ?r)"
    by (simp only: compress64_def compress_fold [OF assms(2)] w_def)
  then show ?thesis using first f l by (intro exI [of _ inp]) (simp add: sha512_compress_def assms(1) Let_def)
qed

section \<open>Bytes and words of a block\<close>

lemma align_exact: "x < 128 \<Longrightarrow> align x 8 = (8 - x mod 8) mod 8" "x < 128 \<Longrightarrow> align x 128 = (128 - x) mod 128"
proof -
  have "list_all (\<lambda>x. align x 8 = (8 - x mod 8) mod 8 \<and> align x 128 = (128 - x) mod 128) [0..<128]"
    unfolding align_def by code_simp
  then show "x < 128 \<Longrightarrow> align x 8 = (8 - x mod 8) mod 8" "x < 128 \<Longrightarrow> align x 128 = (128 - x) mod 128"
    by (simp_all add: list_all_iff)
qed

lemma load64_be_cong: "(\<And>i. i < 8 \<Longrightarrow> xs ! i = ys ! i) \<Longrightarrow> load64_be xs = load64_be ys"
  by (simp add: load64_be_def)

lemma length_words64 [simp]: "length (words64 xs) = length xs div 8"
  by (induction xs rule: words64.induct) (subst words64.simps, simp add: le_div_geq not_less)

lemma words64_append: "8 dvd length xs \<Longrightarrow> words64 (xs @ ys) = words64 xs @ words64 ys"
proof (induction xs rule: words64.induct)
  case (1 xs)
  show ?case
  proof (cases "length xs < 8")
    case True
    with 1(2) have "xs = []" by (auto dest: dvd_imp_le)
    then show ?thesis by (simp add: words64.simps)
  next
    case False
    then have "load64_be (xs @ ys) = load64_be xs" by (intro load64_be_cong) (simp add: nth_append)
    then show ?thesis using 1 False
      by (simp add: words64.simps [of xs] words64.simps [of "xs @ ys"] dvd_minus_self)
  qed
qed

lemma words64_nth: "8 * k + 8 \<le> length xs \<Longrightarrow> words64 xs ! k = load64_be (drop (8 * k) xs)"
proof (induction k arbitrary: xs)
  case (Suc k)
  then show ?case using Suc.IH [of "drop 8 xs"] by (simp add: words64.simps [of xs] add.commute)
qed (simp add: words64.simps)

lemma load_words64: "8 * n \<le> length xs \<Longrightarrow> map (\<lambda>k. load64_be (drop (8 * k) xs)) [0..<n] = words64 (take (8 * n) xs)"
  by (intro nth_equalityI) (auto simp: words64_nth intro!: load64_be_cong)

text \<open>Or-ing a byte into a word whose byte there is zero stores it.\<close>

lemma or_byte:
  assumes "r < length xs" "xs ! r = 0" "8 dvd length xs"
  shows "words64 (xs[r := b])
    = (words64 xs)[r div 8 := words64 xs ! (r div 8) OR push_bit (8 * (7 - r mod 8)) (ucast b)]"
proof (rule nth_equalityI)
  fix k assume "k < length (words64 (xs[r := b]))"
  then have k: "8 * k + 8 \<le> length xs" using assms(3) by (auto elim!: dvdE)
  show "words64 (xs[r := b]) ! k = (words64 xs)[r div 8 := words64 xs ! (r div 8) OR push_bit (8 * (7 - r mod 8)) (ucast b)] ! k"
  proof (cases "k = r div 8")
    case False
    have "xs[r := b] ! (8 * k + i) = xs ! (8 * k + i)" if "i < 8" for i using False that by (cases "r = 8 * k + i") auto
    then have "load64_be (drop (8 * k) (xs[r := b])) = load64_be (drop (8 * k) xs)"
      using k by (intro load64_be_cong) simp
    then show ?thesis using False k by (simp add: words64_nth)
  next
    case True
    have r: "r = 8 * k + r mod 8" using True by simp
    have z: "xs ! (8 * k + r mod 8) = 0" using assms(2) r by simp
    have "r mod 8 \<in> {0, 1, 2, 3, 4, 5, 6, 7}" by auto
    then have "load64_be (drop (8 * k) (xs[8 * k + r mod 8 := b])) = load64_be (drop (8 * k) xs) OR push_bit (8 * (7 - r mod 8)) (ucast b)"
      using z k unfolding load64_be_def by (elim insertE emptyE) (simp_all add: ac_simps)
    then show ?thesis using True k r assms(1) by (simp add: words64_nth)
  qed
qed simp

section \<open>What the context holds\<close>

text \<open>The block words are those of the buffered bytes \<open>t\<close>, zeros behind them.\<close>

definition zeros_to :: "nat \<Rightarrow> byte list \<Rightarrow> byte list" where
  "zeros_to n t = t @ replicate (n - length t) 0"

definition buffered :: "byte list \<Rightarrow> sha512_ctx \<Rightarrow> bool" where
  "buffered t ctx \<longleftrightarrow> length t \<le> 128 \<and> s5_idx ctx = length t \<and> s5_input ctx = words64 (zeros_to 128 t)"

definition hashed :: "byte list \<Rightarrow> sha512_ctx \<Rightarrow> bool" where
  "hashed m ctx \<longleftrightarrow> 128 dvd length m \<and> s5_hash ctx = foldl compress64 sha512_H0 (blocks128 m)
     \<and> s5_size1 ctx = of_nat (8 * length m) \<and> s5_size0 ctx = of_nat (8 * length m div 18446744073709551616)"

lemma zeros_to_snoc: "length t < n \<Longrightarrow> zeros_to n (t @ [b]) = (zeros_to n t)[length t := b]"
proof -
  assume "length t < n"
  then have "n - length t = Suc (n - Suc (length t))" by simp
  then show ?thesis by (simp add: zeros_to_def)
qed

lemma length_zeros_to [simp]: "length t \<le> n \<Longrightarrow> length (zeros_to n t) = n"
  by (simp add: zeros_to_def)

lemma buffered_byte:
  assumes "buffered t ctx" "length t < 128"
  shows "buffered (t @ [b]) ((sha512_set_input b ctx)\<lparr>s5_idx := s5_idx ctx + 1\<rparr>)"
  using assms or_byte [of "length t" "zeros_to 128 t" b]
  by (simp add: buffered_def sha512_set_input_def Let_def zeros_to_snoc) (simp add: zeros_to_def nth_append)

lemma buffered_bytes:
  assumes "buffered t ctx" "length t + length bs \<le> 128"
  shows "buffered (t @ bs) (sha512_bytes bs ctx)"
  using assms
proof (induction bs arbitrary: t ctx)
  case (Cons b bs)
  from Cons.IH [OF buffered_byte [OF Cons.prems(1)], of b] Cons.prems(2) show ?case by (simp add: sha512_bytes_def)
qed (simp add: sha512_bytes_def)

lemma buffered_words:
  assumes "buffered t ctx" "length t = 8 * k" "8 * k + 8 * n \<le> 128" "8 * n \<le> length msg"
  shows "buffered (t @ take (8 * n) msg) (ctx\<lparr>s5_input := load64_be_buf k msg n (s5_input ctx), s5_idx := s5_idx ctx + 8 * n\<rparr>)"
proof -
  have z: "replicate (128 - 8 * k) (0 :: byte) = replicate (8 * n) 0 @ replicate (128 - 8 * k - 8 * n) 0"
    using assms(3) by (simp add: replicate_add [symmetric])
  have "zeros_to 128 t = t @ replicate (8 * n) 0 @ replicate (128 - 8 * k - 8 * n) 0"
    unfolding zeros_to_def assms(2) z ..
  then have "words64 (zeros_to 128 t) = words64 t @ words64 (replicate (8 * n) 0) @ words64 (replicate (128 - 8 * k - 8 * n) 0)"
    using assms(2) by (simp add: words64_append)
  moreover have "zeros_to 128 (t @ take (8 * n) msg) = t @ take (8 * n) msg @ replicate (128 - 8 * k - 8 * n) 0"
    using assms(2-4) by (simp add: zeros_to_def)
  ultimately have "words64 (zeros_to 128 (t @ take (8 * n) msg)) = load64_be_buf k msg n (words64 (zeros_to 128 t))"
    using assms(2,4) by (simp add: words64_append load64_be_buf_def load_words64)
  then show ?thesis using assms by (simp add: buffered_def)
qed

lemma hashed_frame:
  "hashed m (sha512_set_input b ctx) = hashed m ctx" "hashed m (ctx\<lparr>s5_idx := i\<rparr>) = hashed m ctx"
  "hashed m (ctx\<lparr>s5_input := w\<rparr>) = hashed m ctx"
  by (simp_all add: hashed_def sha512_set_input_def Let_def)

lemma hashed_bytes: "hashed m (sha512_bytes bs ctx) = hashed m ctx"
  by (induction bs arbitrary: ctx) (simp_all add: sha512_bytes_def hashed_frame)

lemma incr_exact:
  assumes "s5_size1 ctx = of_nat n" "s5_size0 ctx = of_nat (n div 18446744073709551616)" "k < 18446744073709551616"
  shows "sha512_incr (of_nat k) ctx
    = ctx\<lparr>s5_size1 := of_nat (n + k), s5_size0 := of_nat ((n + k) div 18446744073709551616)\<rparr>"
proof -
  let ?M = "18446744073709551616 :: nat"
  have u: "unat (of_nat n + of_nat k :: u64) = (n + k) mod ?M"
    by (simp only: of_nat_add [symmetric] unat_of_nat) simp
  have k: "unat (of_nat k :: u64) = k" using assms(3) by (simp add: unat_of_nat)
  have c: "(n + k) mod ?M < k \<longleftrightarrow> n mod ?M + k \<ge> ?M"
  proof (cases "n mod ?M + k < ?M")
    case True
    then have "(n + k) mod ?M = n mod ?M + k" by (metis mod_add_left_eq mod_less)
    then show ?thesis using True by simp
  next
    case False
    have "(n + k) mod ?M = (n mod ?M + k) mod ?M" by (simp add: mod_add_left_eq)
    also have "\<dots> = n mod ?M + k - ?M" using False assms(3) mod_less_divisor [of ?M n] le_mod_geq [of ?M "n mod ?M + k"] by simp
    finally show ?thesis using False assms(3) mod_less_divisor [of ?M n] by linarith
  qed
  have d: "(n + k) div ?M = (if (n + k) mod ?M < k then n div ?M + 1 else n div ?M)"
  proof (cases "n mod ?M + k < ?M")
    case True
    then show ?thesis unfolding c using div_add1_eq [of n k ?M] assms(3) by simp
  next
    case False
    then have "(n mod ?M + k) div ?M = 1"
      using assms(3) mod_less_divisor [of ?M n] le_div_geq [of ?M "n mod ?M + k"] by simp
    then show ?thesis unfolding c using False div_add1_eq [of n k ?M] assms(3) by simp
  qed
  show ?thesis unfolding sha512_incr_def Let_def using assms(1,2) d
    by (simp add: word_less_nat_alt u k)
qed

lemma blocks128_short: "length xs < 128 \<Longrightarrow> blocks128 xs = []"
  by (simp add: blocks128.simps)

lemma blocks128_append: "128 dvd length xs \<Longrightarrow> blocks128 (xs @ ys) = blocks128 xs @ blocks128 ys"
proof (induction xs rule: blocks128.induct)
  case (1 xs)
  show ?case
  proof (cases "length xs < 128")
    case True
    with 1(2) have "xs = []" by (auto dest: dvd_imp_le)
    then show ?thesis by (simp add: blocks128_short)
  next
    case False
    then have "128 dvd length (drop 128 xs)" using 1(2) by (simp add: dvd_minus_self)
    with 1 False show ?thesis by (simp add: blocks128.simps [of xs] blocks128.simps [of "xs @ ys"])
  qed
qed

lemma blocks128_one: "length xs = 128 \<Longrightarrow> blocks128 xs = [xs]"
  by (simp add: blocks128.simps [of xs] blocks128_short)

lemma words64_zeros: "words64 (replicate (8 * n) 0) = replicate n 0"
proof (induction n)
  case (Suc n)
  have "load64_be (replicate 8 0) = 0" by (simp add: load64_be_def)
  then have "words64 (replicate 8 0) = [0]" by (simp add: words64.simps)
  then show ?case using words64_append [of "replicate 8 0" "replicate (8 * n) 0"] Suc.IH by (simp add: replicate_add)
qed (simp add: words64.simps)

lemma buffered_Nil: "buffered [] (ctx\<lparr>s5_idx := 0, s5_input := replicate 16 0\<rparr>)"
  using words64_zeros [of 16] by (simp add: buffered_def zeros_to_def)

lemma hashed_next:
  assumes "hashed m ctx" "s5_input ctx = words64 t" "length t = 128"
  shows "hashed (m @ t) (sha512_next ctx)" "buffered [] (sha512_next ctx)"
proof -
  define c where "c = sha512_incr (of_nat 1024) ctx"
  have i: "c = ctx\<lparr>s5_size1 := of_nat (8 * length m + 1024), s5_size0 := of_nat ((8 * length m + 1024) div 18446744073709551616)\<rparr>"
    unfolding c_def using assms(1) by (intro incr_exact) (simp_all add: hashed_def)
  then have "s5_input c = words64 t" using assms(2) by simp
  then obtain inp where "sha512_compress c = c\<lparr>s5_hash := compress64 (s5_hash c) t, s5_input := inp\<rparr>"
    using compress_spec [of c t] assms(3) by auto
  then show "hashed (m @ t) (sha512_next ctx)" using assms i
    by (simp add: hashed_def sha512_next_def c_def blocks128_append blocks128_one)
  show "buffered [] (sha512_next ctx)" unfolding sha512_next_def by (rule buffered_Nil)
qed

section \<open>Absorbing a piece\<close>

text \<open>The context stands for the message \<open>m @ t\<close>: \<open>m\<close> is hashed, \<open>t\<close> waits.\<close>

definition stands_for :: "byte list \<Rightarrow> sha512_ctx \<Rightarrow> bool" where
  "stands_for msg ctx \<longleftrightarrow> (\<exists>m t. msg = m @ t \<and> hashed m ctx \<and> buffered t ctx \<and> length t < 128)"

lemma hashed_blocks:
  "hashed m ctx \<Longrightarrow> buffered [] ctx \<Longrightarrow> 128 * n \<le> length msg \<Longrightarrow>
   hashed (m @ take (128 * n) msg) (sha512_blocks n msg ctx) \<and> buffered [] (sha512_blocks n msg ctx)"
proof (induction n arbitrary: m msg ctx)
  case (Suc n)
  let ?c = "ctx\<lparr>s5_input := load64_be_buf 0 msg 16 (s5_input ctx)\<rparr>"
  have "load64_be_buf 0 msg 16 (s5_input ctx) = words64 (take 128 msg)"
    using Suc.prems load_words64 [of 16 msg] by (simp add: load64_be_buf_def buffered_def)
  then have "hashed (m @ take 128 msg) (sha512_next ?c)" "buffered [] (sha512_next ?c)"
    using hashed_next [of m ?c "take 128 msg"] Suc.prems by (simp_all add: hashed_frame)
  moreover have "take (128 * Suc n) msg = take 128 msg @ take (128 * n) (drop 128 msg)" by (simp add: take_add)
  ultimately show ?case using Suc.IH [of "m @ take 128 msg" "sha512_next ?c" "drop 128 msg"] Suc.prems(3) by simp
qed simp

lemma to_word_absorbs:
  assumes "hashed m ctx" "buffered t ctx" "length t < 128" "sha512_to_word msg ctx = (msg', ctx')"
  shows "\<exists>x. msg = x @ msg' \<and> hashed m ctx' \<and> buffered (t @ x) ctx' \<and> (8 dvd length (t @ x) \<or> msg' = [])"
proof (cases "length t mod 8 = 0")
  case True
  then show ?thesis using assms by (auto simp: sha512_to_word_def buffered_def)
next
  case False
  let ?n = "min (8 - length t mod 8) (length msg)"
  have al: "align (length t) 8 = 8 - length t mod 8"
    using align_exact(1) [OF assms(3)] False mod_less_divisor [of 8 "length t"] by simp
  have idx: "s5_idx ctx = length t" using assms(2) by (simp add: buffered_def)
  have up: "length t + (8 - length t mod 8) = 8 * (length t div 8 + 1)"
  proof -
    define q r where "q = length t div 8" and "r = length t mod 8"
    have "length t = 8 * q + r" "r < 8" by (simp_all add: q_def r_def)
    then show ?thesis unfolding q_def [symmetric] r_def [symmetric] by simp
  qed
  moreover have "length t div 8 < 16" using assms(3) by simp
  ultimately have le: "length t + (8 - length t mod 8) \<le> 128" by (simp only: up) simp
  have e: "msg' = drop ?n msg" "ctx' = sha512_bytes (take ?n msg) ctx"
    using assms(4) False by (simp_all add: sha512_to_word_def idx al Let_def)
  have "buffered (t @ take ?n msg) ctx'" unfolding e using le by (intro buffered_bytes assms(2)) simp
  moreover have "8 dvd length (t @ take ?n msg) \<or> msg' = []"
  proof (cases "8 - length t mod 8 \<le> length msg")
    case True
    then have "length (t @ take ?n msg) = 8 * (length t div 8 + 1)" using up by simp
    then show ?thesis by simp
  qed (simp add: e)
  moreover have "hashed m ctx'" unfolding e by (simp add: hashed_bytes assms(1))
  ultimately show ?thesis by (intro exI [of _ "take ?n msg"]) (simp add: e)
qed

lemma to_block_absorbs:
  assumes "hashed m ctx" "buffered t ctx" "8 dvd length t \<or> msg = []" "sha512_to_block msg ctx = (msg', ctx')"
  shows "\<exists>x. msg = x @ msg' \<and> hashed m ctx' \<and> buffered (t @ x) ctx'
     \<and> (t @ x = [] \<or> length (t @ x) = 128 \<or> length (t @ x) + length msg' < 128 \<and> length msg' < 8)"
proof (cases "length t mod 128 = 0")
  case True
  then have "t = [] \<or> length t = 128" using assms(2) mod_less [of "length t" 128] by (fastforce simp: buffered_def)
  then show ?thesis using assms True by (auto simp: sha512_to_block_def buffered_def)
next
  case False
  then have lt: "length t < 128" using assms(2) by (cases "length t = 128") (auto simp: buffered_def)
  have idx: "s5_idx ctx = length t" using assms(2) by (simp add: buffered_def)
  show ?thesis
  proof (cases "8 dvd length t")
    case True
    then obtain k where k: "length t = 8 * k" by (auto elim: dvdE)
    have al: "align (length t) 128 = 8 * (16 - k)" using align_exact(2) [OF lt] False k by (simp add: diff_mult_distrib2)
    define n where "n = min (8 * (16 - k)) (length msg) div 8"
    have n: "8 * n \<le> length msg" "8 * k + 8 * n \<le> 128" using lt k unfolding n_def by auto
    have e: "msg' = drop (8 * n) msg"
      "ctx' = ctx\<lparr>s5_input := load64_be_buf k msg n (s5_input ctx), s5_idx := s5_idx ctx + 8 * n\<rparr>"
      using assms(4) False al by (simp_all add: sha512_to_block_def idx k Let_def n_def)
    have "buffered (t @ take (8 * n) msg) ctx'" unfolding e by (rule buffered_words [OF assms(2) k n(2,1)])
    moreover have "length (t @ take (8 * n) msg) = 128
        \<or> length (t @ take (8 * n) msg) + length msg' < 128 \<and> length msg' < 8"
    proof (cases "8 * (16 - k) \<le> length msg")
      case True
      then have "n = 16 - k" by (simp add: n_def min_def)
      then show ?thesis using True k lt by (simp add: diff_mult_distrib2)
    next
      case False
      then have "n = length msg div 8" by (simp add: n_def min_def)
      then show ?thesis using False k lt n by (simp add: e) linarith
    qed
    ultimately show ?thesis using assms(1)
      by (intro exI [of _ "take (8 * n) msg"]) (simp add: e(1), simp add: e(2) hashed_frame)
  next
    case no: False
    then have "msg = []" using assms(3) by simp
    then have "msg' = []" "ctx' = ctx\<lparr>s5_input := load64_be_buf (length t div 8) [] 0 (s5_input ctx)\<rparr>"
      using assms(4) False by (simp_all add: sha512_to_block_def idx Let_def) (simp_all add: idx [symmetric])
    then show ?thesis using assms(1,2) lt \<open>msg = []\<close>
      by (intro exI [of _ "[]"]) (simp add: load64_be_buf_def)
  qed
qed

lemma rest_absorbs:
  assumes "hashed m ctx" "buffered t ctx" "t = [] \<and> length msg < 128 \<or> length t + length msg < 128 \<and> length msg < 8"
  shows "hashed m (sha512_rest msg ctx) \<and> buffered (t @ msg) (sha512_rest msg ctx)"
proof -
  define n where "n = length msg div 8"
  define c where "c = ctx\<lparr>s5_input := load64_be_buf 0 msg n (s5_input ctx), s5_idx := s5_idx ctx + 8 * n\<rparr>"
  have r: "msg \<noteq> [] \<Longrightarrow> sha512_rest msg ctx = sha512_bytes (drop (8 * n) msg) c"
    by (simp add: sha512_rest_def Let_def n_def c_def)
  have le: "8 * n \<le> length msg" by (simp add: n_def)
  have "buffered (t @ take (8 * n) msg) c"
  proof (cases "t = []")
    case True
    then show ?thesis unfolding c_def using assms(2,3) le by (intro buffered_words) auto
  next
    case False
    then have "n = 0" using assms(3) by (auto simp: n_def)
    then show ?thesis using assms(2) by (simp add: c_def load64_be_buf_def)
  qed
  then have "buffered (t @ msg) (sha512_bytes (drop (8 * n) msg) c)"
    using buffered_bytes [of "t @ take (8 * n) msg" c "drop (8 * n) msg"] assms(3) le by auto
  moreover have "hashed m (sha512_bytes (drop (8 * n) msg) c)" by (simp add: hashed_bytes c_def hashed_frame assms(1))
  moreover have "sha512_rest [] ctx = ctx" by (simp add: sha512_rest_def)
  ultimately show ?thesis using r assms(1,2) by (cases "msg = []") simp_all
qed

lemma update_stands:
  assumes "stands_for msg ctx"
  shows "stands_for (msg @ data) (crypto_sha512_update data ctx)"
proof (cases "data = []")
  case True
  then show ?thesis using assms by (simp add: crypto_sha512_update_def)
next
  case False
  obtain m t where s: "msg = m @ t" "hashed m ctx" "buffered t ctx" "length t < 128"
    using assms by (auto simp: stands_for_def)
  obtain d1 c1 where w: "sha512_to_word data ctx = (d1, c1)" by fastforce
  obtain x where x: "data = x @ d1" "hashed m c1" "buffered (t @ x) c1" "8 dvd length (t @ x) \<or> d1 = []"
    using to_word_absorbs [OF s(2-4) w] by blast
  obtain d2 c2 where b: "sha512_to_block d1 c1 = (d2, c2)" by fastforce
  obtain y where y: "d1 = y @ d2" "hashed m c2" "buffered (t @ x @ y) c2"
    "t @ x @ y = [] \<or> length (t @ x @ y) = 128 \<or> length (t @ x @ y) + length d2 < 128 \<and> length d2 < 8"
    using to_block_absorbs [OF x(2-4) b] by auto
  define n where "n = length d2 div 128"
  define c3 where "c3 = (if s5_idx c2 = 128 then sha512_next c2 else c2)"
  have e: "crypto_sha512_update data ctx = sha512_rest (drop (128 * n) d2) (sha512_blocks n d2 c3)"
    using False w b by (simp add: crypto_sha512_update_def Let_def n_def c3_def)
  have idx: "s5_idx c2 = length (t @ x @ y)" using y(3) by (simp add: buffered_def)
  have all: "msg @ data = m @ (t @ x @ y) @ d2" by (simp add: s(1) x(1) y(1))
  show ?thesis
  proof (cases "length (t @ x @ y) = 0 \<or> length (t @ x @ y) = 128")
    case True
    have c3: "hashed (m @ t @ x @ y) c3 \<and> buffered [] c3"
    proof (cases "length (t @ x @ y) = 128")
      case True
      then have "s5_input c2 = words64 (t @ x @ y)" using y(3) by (simp add: buffered_def zeros_to_def)
      then show ?thesis using hashed_next [OF y(2) _ True] True idx by (simp add: c3_def)
    next
      case False
      then show ?thesis using True y(2,3) idx by (simp add: c3_def)
    qed
    let ?r = "drop (128 * n) d2"
    have "length ?r < 128" by (simp add: n_def minus_mult_div_eq_mod)
    moreover have "hashed (m @ (t @ x @ y) @ take (128 * n) d2) (sha512_blocks n d2 c3) \<and> buffered [] (sha512_blocks n d2 c3)"
      using hashed_blocks [of "m @ t @ x @ y" c3 n d2] c3 by (simp add: n_def)
    ultimately have "hashed (m @ (t @ x @ y) @ take (128 * n) d2) (crypto_sha512_update data ctx)
        \<and> buffered ?r (crypto_sha512_update data ctx)"
      unfolding e using rest_absorbs [of "m @ (t @ x @ y) @ take (128 * n) d2" "sha512_blocks n d2 c3" "[]" ?r] by simp
    moreover have "msg @ data = (m @ (t @ x @ y) @ take (128 * n) d2) @ ?r" unfolding all by simp
    ultimately show ?thesis using \<open>length ?r < 128\<close> unfolding stands_for_def by blast
  next
    case other: False
    then have l: "length (t @ x @ y) + length d2 < 128 \<and> length d2 < 8" using y(4) by auto
    then have n0: "n = 0" by (simp add: n_def)
    have c3: "c3 = c2" using idx other by (simp add: c3_def)
    have "hashed m (crypto_sha512_update data ctx) \<and> buffered ((t @ x @ y) @ d2) (crypto_sha512_update data ctx)"
      unfolding e n0 c3 using rest_absorbs [OF y(2,3)] l by simp
    moreover have "msg @ data = m @ ((t @ x @ y) @ d2)" using all by simp
    moreover have "length ((t @ x @ y) @ d2) < 128" using l by simp
    ultimately show ?thesis unfolding stands_for_def by blast
  qed
qed

lemma init_stands: "stands_for [] (crypto_sha512_init ctx)"
proof -
  have "buffered [] (crypto_sha512_init ctx)"
    using buffered_Nil [of "ctx\<lparr>s5_hash := sha512_H0, s5_size0 := 0, s5_size1 := 0\<rparr>"] by (simp add: crypto_sha512_init_def)
  moreover have "hashed [] (crypto_sha512_init ctx)" by (simp add: hashed_def crypto_sha512_init_def blocks128_short)
  ultimately show ?thesis unfolding stands_for_def by (intro exI [of _ "[]"]) simp
qed

section \<open>Padding\<close>

lemma ucast_low: "(ucast (v AND 0xff) :: byte) = ucast (v :: u64)"
proof -
  have m: "(0xff :: u64) = mask 8" by (simp add: mask_numeral)
  show ?thesis unfolding m by (intro bit_word_eqI) (simp add: bit_simps)
qed

lemma load_store64: "load64_be (store64_be v @ r) = v"
proof (rule bit_word_eqI)
  fix n assume "n < LENGTH(64)"
  then have n: "n < 64" by simp
  then consider "n < 8" | "8 \<le> n" "n < 16" | "16 \<le> n" "n < 24" | "24 \<le> n" "n < 32"
    | "32 \<le> n" "n < 40" | "40 \<le> n" "n < 48" | "48 \<le> n" "n < 56" | "56 \<le> n" by linarith
  then show "bit (load64_be (store64_be v @ r)) n = bit v n"
    using n by cases (auto simp: load64_be_def store64_be_def ucast_low bit_or_iff bit_push_bit_iff bit_ucast_iff bit_drop_bit_eq)
qed

lemma length_store64 [simp]: "length (store64_be v) = 8"
  by (simp add: store64_be_def)

lemma words64_be128: "words64 (be128 n) = [of_nat (n div 18446744073709551616), of_nat n]"
proof -
  have "words64 (store64_be v) = [v]" for v using load_store64 [of v "[]"] by (simp add: words64.simps)
  then show ?thesis by (simp add: be128_def words64_append)
qed

lemma length_be128 [simp]: "length (be128 n) = 16"
  by (simp add: be128_def)

lemma pad128_blocks:
  assumes "128 dvd length m" "length t < 128"
  shows "blocks128 (pad128 (m @ t)) = blocks128 m @
     (if length t \<le> 111 then [zeros_to 112 (t @ [0x80]) @ be128 (8 * length (m @ t))]
      else [zeros_to 128 (t @ [0x80]), replicate 112 0 @ be128 (8 * length (m @ t))])"
proof -
  define z where "z = (239 - length t) mod 128"
  have md: "length (m @ t) mod 128 = length t" using assms by (auto elim!: dvdE)
  have p: "pad128 (m @ t) = m @ t @ [0x80] @ replicate z 0 @ be128 (8 * length (m @ t))"
    unfolding pad128_def md z_def by simp
  show ?thesis
  proof (cases "length t \<le> 111")
    case True
    then have "239 - length t = (111 - length t) + 128" by simp
    then have "z = 111 - length t" unfolding z_def by (simp only: mod_add_self2) simp
    then have "t @ [0x80] @ replicate z 0 = zeros_to 112 (t @ [0x80])" by (simp add: zeros_to_def)
    then have "pad128 (m @ t) = m @ (zeros_to 112 (t @ [0x80]) @ be128 (8 * length (m @ t)))" using p by simp
    then show ?thesis using True assms(1) by (simp add: blocks128_append blocks128_one)
  next
    case False
    then have "z = (127 - length t) + 112" using assms(2) by (simp add: z_def)
    then have "t @ [0x80] @ replicate z 0 = zeros_to 128 (t @ [0x80]) @ replicate 112 0"
      by (simp add: zeros_to_def replicate_add)
    then have e: "pad128 (m @ t) = m @ zeros_to 128 (t @ [0x80]) @ (replicate 112 0 @ be128 (8 * length (m @ t)))" using p by simp
    show ?thesis unfolding e using False assms by (simp add: blocks128_append blocks128_one)
  qed
qed

lemma set_length_words:
  assumes "length inp = 14" "length w = 2"
  shows "(inp @ w)[14 := of_nat (n div 18446744073709551616), 15 := of_nat n] = inp @ words64 (be128 n)"
proof -
  obtain a b where "w = [a, b]" using assms(2) by (auto simp: numeral_2_eq_2 length_Suc_conv)
  then show ?thesis using assms by (simp add: words64_be128 list_update_append)
qed

lemma words_short_block:
  assumes "length u \<le> 112"
  shows "(words64 (zeros_to 128 u))[14 := of_nat (n div 18446744073709551616), 15 := of_nat n]
    = words64 (zeros_to 112 u @ be128 n)"
proof -
  have "replicate (128 - length u) (0 :: byte) = replicate (112 - length u) 0 @ replicate 16 0"
    using assms by (simp add: replicate_add [symmetric])
  then have "zeros_to 128 u = zeros_to 112 u @ replicate 16 0" by (simp add: zeros_to_def)
  then show ?thesis using assms set_length_words [of "words64 (zeros_to 112 u)" "words64 (replicate 16 0)" n]
    by (simp add: words64_append)
qed

lemma final_hash:
  assumes "hashed m ctx" "buffered t ctx" "length t < 128"
  shows "crypto_sha512_final ctx = sha512_spec (m @ t)"
proof -
  let ?n = "8 * length (m @ t)" and ?u = "t @ [0x80]"
  define c where "c = sha512_incr (of_nat (8 * length t)) (sha512_set_input 128 ctx)"
  have idx: "s5_idx ctx = length t" and inp: "s5_input ctx = words64 (zeros_to 128 t)" using assms(2) by (simp_all add: buffered_def)
  have z: "ctx\<lparr>s5_input := replicate 16 0\<rparr> = ctx" if "length t = 0"
    using that inp words64_zeros [of 16] by (simp add: zeros_to_def)
  have "s5_input (sha512_set_input 128 ctx) = words64 (zeros_to 128 ?u)"
    using buffered_byte [OF assms(2,3), of 128] by (simp add: buffered_def)
  moreover have "c = (sha512_set_input 128 ctx)\<lparr>s5_size1 := of_nat (8 * length m + 8 * length t),
      s5_size0 := of_nat ((8 * length m + 8 * length t) div 18446744073709551616)\<rparr>"
    unfolding c_def using assms(1,3)
    by (intro incr_exact) (simp_all add: hashed_def sha512_set_input_def Let_def)
  ultimately have c: "s5_input c = words64 (zeros_to 128 ?u)" "s5_size1 c = of_nat ?n" "s5_size0 c = of_nat (?n div 18446744073709551616)"
      "s5_hash c = s5_hash ctx" "s5_idx c = length t"
    by (simp_all add: sha512_set_input_def Let_def distrib_left idx)
  have c0: "sha512_incr (of_nat (s5_idx (sha512_set_input 128 ctx) * 8)) (sha512_set_input 128 ctx) = c"
    by (simp add: c_def sha512_set_input_def Let_def idx mult.commute)
  have h: "s5_hash ctx = foldl compress64 sha512_H0 (blocks128 m)" using assms(1) by (simp add: hashed_def)
  define d where "d = (if length t > 111 then (sha512_compress c)\<lparr>s5_input := replicate 14 0 @ drop 14 (s5_input (sha512_compress c))\<rparr> else c)"
  have f: "crypto_sha512_final ctx = sha512_digest (s5_hash (sha512_compress
      (d\<lparr>s5_input := (s5_input d)[14 := s5_size0 d, 15 := s5_size1 d]\<rparr>)))"
    using z c0 c(5) by (simp add: crypto_sha512_final_def Let_def idx d_def)
  show ?thesis
  proof (cases "length t \<le> 111")
    case True
    let ?c = "c\<lparr>s5_input := words64 (zeros_to 112 ?u @ be128 ?n)\<rparr>"
    have e: "d\<lparr>s5_input := (s5_input d)[14 := s5_size0 d, 15 := s5_size1 d]\<rparr> = ?c"
      using True words_short_block [of ?u ?n] by (simp add: d_def c)
    obtain i where "sha512_compress ?c = ?c\<lparr>s5_hash := compress64 (s5_hash ?c) (zeros_to 112 ?u @ be128 ?n), s5_input := i\<rparr>"
      using compress_spec [of ?c "zeros_to 112 ?u @ be128 ?n"] True by auto
    then show ?thesis unfolding f e using True assms(1,3)
      by (simp add: sha512_spec_def pad128_blocks hashed_def c h)
  next
    case False
    obtain i where i: "sha512_compress c = c\<lparr>s5_hash := compress64 (s5_hash c) (zeros_to 128 ?u), s5_input := i\<rparr>" "length i = 16"
      using compress_spec [OF c(1)] assms(3) by auto
    let ?c = "c\<lparr>s5_hash := compress64 (s5_hash c) (zeros_to 128 ?u), s5_input := words64 (replicate 112 0 @ be128 ?n)\<rparr>"
    have "words64 (replicate 112 0 @ be128 ?n) = replicate 14 0 @ words64 (be128 ?n)"
      using words64_append [of "replicate 112 0" "be128 ?n"] words64_zeros [of 14] by simp
    then have e: "d\<lparr>s5_input := (s5_input d)[14 := s5_size0 d, 15 := s5_size1 d]\<rparr> = ?c"
      using False i set_length_words [of "replicate 14 0" "drop 14 i" ?n] by (simp add: d_def c)
    obtain k where "sha512_compress ?c = ?c\<lparr>s5_hash := compress64 (s5_hash ?c) (replicate 112 0 @ be128 ?n), s5_input := k\<rparr>"
      using compress_spec [of ?c "replicate 112 0 @ be128 ?n"] by auto
    then show ?thesis unfolding f e using False assms(1,3)
      by (simp add: sha512_spec_def pad128_blocks hashed_def c h)
  qed
qed

lemma final_stands: "stands_for msg ctx \<Longrightarrow> crypto_sha512_final ctx = sha512_spec msg"
  by (auto simp: stands_for_def final_hash)

interpretation sha5: streaming stands_for crypto_sha512_update crypto_sha512_final sha512_spec
  by unfold_locales (simp_all add: update_stands final_stands)

lemma sha512_pieces:
  "crypto_sha512_final (fold crypto_sha512_update pieces (crypto_sha512_init ctx)) = sha512_spec (concat pieces)"
  using sha5.digest_pieces [OF init_stands, of pieces] by simp

lemma crypto_sha512_spec: "crypto_sha512 msg = sha512_spec msg"
  using sha512_pieces [of "[msg]" sha512_ctx0] by (simp add: crypto_sha512_def)

lemma length_sha512_digest [simp]: "length (sha512_digest rs) = 64"
  by (cases rs rule: sha512_digest.cases) simp

lemma length_sha512_spec [simp]: "length (sha512_spec msg) = 64"
  by (simp add: sha512_spec_def)

text \<open>C31. The streaming SHA-512 of the vendored library computes the digest of FIPS 180-4: whatever the
  context held before, initialising it, absorbing the pieces of a message in any splitting (through
  its byte, word and block paths) and finalising yields the digest of the concatenation of the
  pieces.  The sixteen schedule words updated in place are the eighty words of the standard, and the
  128-bit length is exact.\<close>

theorem sha512_stream_correct:
  "crypto_sha512_final (fold crypto_sha512_update pieces (crypto_sha512_init ctx)) = sha512_spec (concat pieces)"
  by (rule sha512_pieces)

end
