(* ===== verification/Modl.thy ===== *)
theory Modl
  imports Poly1305
begin

text \<open>
  Arithmetic modulo the order of the base point (the section of that name in \<open>crypto/monocypher.c\<close>):
  schoolbook multiplication on 32-bit limbs, Barrett reduction of a 512-bit number and the
  conditional subtraction, with 64-bit carries as in the code.  The lemmas show that no carry wraps,
  that the quotient estimate is at most one too small, and so that \<open>crypto_eddsa_reduce\<close> and
  \<open>crypto_eddsa_mul_add\<close> are reduction and multiply-add modulo \<open>L\<close>.
\<close>

section \<open>The code\<close>

definition L :: "u32 list" where
  "L = [0x5cf5d3ed, 0x5812631a, 0xa2f79cd6, 0x14def9de, 0x00000000, 0x00000000, 0x00000000, 0x10000000]"

text \<open>The inner loop of the multiplications: \<open>carry += p[i+j] + (u64)a[i] * b[j]; p[i+j] = (u32)carry;
  carry >>= 32\<close> for the words of \<open>b\<close> and the words of \<open>p\<close> from \<open>i\<close> on.\<close>

fun mul_row :: "u32 \<Rightarrow> u32 list \<Rightarrow> u32 list \<Rightarrow> u64 \<Rightarrow> u32 list \<times> u64" where
  "mul_row a (b # bs) (p # ps) carry =
     (let carry = carry + (ucast p + ucast a * ucast b);
          (rs, carry') = mul_row a bs ps (drop_bit 32 carry)
      in (ucast carry # rs, carry'))"
| "mul_row a _ _ carry = ([], carry)"

text \<open>One pass of the outer loop: the last carry is stored behind the row.\<close>

definition mul_at :: "u32 list \<Rightarrow> u32 list \<Rightarrow> nat \<Rightarrow> u32 list \<Rightarrow> u32 list" where
  "mul_at a b i p =
     (let (rs, carry) = mul_row (a ! i) b (drop i p) 0
      in take i p @ rs @ [ucast carry] @ drop (i + length b + 1) p)"

definition multiply :: "u32 list \<Rightarrow> u32 list \<Rightarrow> u32 list \<Rightarrow> u32 list" where
  "multiply p a b = fold (mul_at a b) [0..<8] p"

text \<open>The carry loops of the additions: \<open>carry += (u64)x[i] + y; r[i] = (u32)carry; carry >>= 32\<close>.\<close>

fun add_row :: "u32 list \<Rightarrow> u32 list \<Rightarrow> u64 \<Rightarrow> u32 list \<times> u64" where
  "add_row (x # xs) (y # ys) carry =
     (let carry = carry + (ucast x + ucast y);
          (rs, carry') = add_row xs ys (drop_bit 32 carry)
      in (ucast carry # rs, carry'))"
| "add_row _ _ carry = ([], carry)"

definition is_above_l :: "u32 list \<Rightarrow> u64" where
  "is_above_l x = snd (add_row x (map (\<lambda>l. NOT l AND 0xffffffff) L) 1)"

definition remove_l :: "u32 list \<Rightarrow> u32 list" where
  "remove_l x =
     (let carry = is_above_l x;
          mask = NOT (ucast carry) + 1
      in fst (add_row x (map (\<lambda>l. NOT l AND mask) L) carry))"

definition barrett_r :: "u32 list" where
  "barrett_r = [0x0a2c131b, 0xed9ce5a3, 0x086329a7, 0x2106215d, 0xffffffeb, 0xffffffff, 0xffffffff, 0xffffffff, 0xf]"

text \<open>\<open>xr = floor (xr / 2^512) * L\<close>, the first 256 bits only: row \<open>i\<close> stops at word 7 and its carry is dropped.\<close>

definition low_at :: "nat \<Rightarrow> u32 list \<Rightarrow> u32 list" where
  "low_at i xr =
     (let (rs, _) = mul_row (xr ! (i + 16)) (take (8 - i) L) (drop i xr) 0
      in take i xr @ rs @ drop 8 xr)"

definition mod_l :: "u32 list \<Rightarrow> byte list" where
  "mod_l x =
     (let xr = fold (mul_at barrett_r x) [0..<9] (replicate 25 0);
          xr = replicate 8 0 @ drop 8 xr;
          xr = fold low_at [0..<8] xr;
          xr = fst (add_row (take 8 x) (map (\<lambda>w. NOT w AND 0xffffffff) (take 8 xr)) 1)
      in concat (map store32_le (remove_l xr)))"

definition crypto_eddsa_reduce :: "byte list \<Rightarrow> byte list" where
  "crypto_eddsa_reduce expanded = mod_l (load32_le_buf (take 64 expanded))"

definition crypto_eddsa_mul_add :: "byte list \<Rightarrow> byte list \<Rightarrow> byte list \<Rightarrow> byte list" where
  "crypto_eddsa_mul_add a b c =
     mod_l (multiply (load32_le_buf (take 32 c) @ replicate 8 0) (load32_le_buf (take 32 a)) (load32_le_buf (take 32 b)))"

section \<open>The rows\<close>

lemma unat_limb: "unat (w :: u32) < limb32"
  using unsigned_less [of w] by (simp add: limb32_def)

lemma limbs_less: "limbs ws < limb32 ^ length ws"
proof (induction ws)
  case (Cons w ws)
  have "limbs (w # ws) + 1 \<le> limb32 * (limbs ws + 1)" using unat_limb [of w] by (simp add: algebra_simps)
  also have "\<dots> \<le> limb32 * limb32 ^ length ws" using Cons by (intro mult_le_mono) simp_all
  finally show ?case by simp
qed simp

lemma limbs_append: "limbs (xs @ ys) = limbs xs + limb32 ^ length xs * limbs ys"
  by (induction xs) (simp_all add: algebra_simps)

lemma limbs_take_drop: "n \<le> length xs \<Longrightarrow> limbs xs = limbs (take n xs) + limb32 ^ n * limbs (drop n xs)"
  using limbs_append [of "take n xs" "drop n xs"] by simp

text \<open>A carry below \<open>2 ^ 32\<close>, a word and a product of two words do not overflow 64 bits.\<close>

lemma row_step:
  assumes "v < limb32 * limb32"
  shows "unat (ucast (of_nat v :: u64) :: u32) + limb32 * unat (drop_bit 32 (of_nat v :: u64)) = v"
    "drop_bit 32 (of_nat v :: u64) = of_nat (v div limb32)" "v div limb32 < limb32"
proof -
  have v: "v < 18446744073709551616" using assms by (simp add: limb32_def)
  show d: "drop_bit 32 (of_nat v :: u64) = of_nat (v div limb32)" using drop_nat64 [OF v, of 32] by (simp add: limb32_exp)
  show lt: "v div limb32 < limb32" using assms by (simp add: limb32_def)
  have "unat (of_nat v :: u32) = v mod limb32" by (simp add: unat_of_nat limb32_def)
  moreover have "unat (of_nat (v div limb32) :: u64) = v div limb32" using lt by (intro unat_small64) (simp add: limb32_def)
  ultimately show "unat (ucast (of_nat v :: u64) :: u32) + limb32 * unat (drop_bit 32 (of_nat v :: u64)) = v"
    unfolding d ucast_of_nat64 by simp
qed

lemma mul_bound:
  assumes "a < limb32" "b < limb32" "p < limb32" "c < limb32"
  shows "c + (p + a * b) < limb32 * limb32"
proof -
  have "a * b \<le> (limb32 - 1) * (limb32 - 1)" using assms by (intro mult_le_mono) simp_all
  then show ?thesis using assms by (simp add: limb32_def)
qed

lemma mul_row_correct:
  "length bs \<le> length ps \<Longrightarrow> c < limb32 \<Longrightarrow> mul_row a bs ps (of_nat c) = (rs, cy) \<Longrightarrow>
   length rs = length bs \<and> unat cy < limb32
   \<and> limbs rs + limb32 ^ length bs * unat cy = limbs (take (length bs) ps) + unat a * limbs bs + c"
proof (induction bs arbitrary: ps c rs)
  case Nil
  then show ?case by (auto simp: limb32_def unat_of_nat)
next
  case (Cons b bs)
  obtain p ps' where ps: "ps = p # ps'" using Cons.prems(1) by (cases ps) auto
  define v where "v = c + (unat p + unat a * unat b)"
  have v: "v < limb32 * limb32" unfolding v_def using Cons.prems(2) by (intro mul_bound unat_limb)
  have w: "(of_nat c :: u64) + (ucast p + ucast a * ucast b) = of_nat v" by (simp only: v_def ucast_nat64 of_nat_add of_nat_mult)
  obtain rs' where r: "mul_row a bs ps' (of_nat (v div limb32)) = (rs', cy)" "rs = ucast (of_nat v :: u64) # rs'"
    using Cons.prems(3) unfolding ps mul_row.simps Let_def w row_step(2) [OF v] by (auto split: prod.splits)
  have ih: "length rs' = length bs" "unat cy < limb32"
    "limbs rs' + limb32 ^ length bs * unat cy = limbs (take (length bs) ps') + unat a * limbs bs + v div limb32"
    using Cons.IH [OF _ row_step(3) [OF v] r(1)] Cons.prems(1) by (simp_all add: ps)
  have "limbs rs + limb32 ^ length (b # bs) * unat cy
      = unat (ucast (of_nat v :: u64) :: u32) + limb32 * (limbs rs' + limb32 ^ length bs * unat cy)"
    by (simp add: r(2) algebra_simps)
  also have "\<dots> = (unat (ucast (of_nat v :: u64) :: u32) + limb32 * (v div limb32)) + limb32 * (limbs (take (length bs) ps') + unat a * limbs bs)"
    unfolding ih(3) by (simp add: algebra_simps)
  also have "unat (ucast (of_nat v :: u64) :: u32) + limb32 * (v div limb32) = v"
    using row_step(1,2) [OF v] row_step(3) [OF v] by (simp add: unat_small64 limb32_def)
  finally show ?case using ih(1,2) by (simp add: r(2) ps v_def algebra_simps)
qed

lemma add_row_correct:
  "length xs = length ys \<Longrightarrow> c < limb32 \<Longrightarrow> add_row xs ys (of_nat c) = (rs, cy) \<Longrightarrow>
   length rs = length xs \<and> limbs rs + limb32 ^ length xs * unat cy = limbs xs + limbs ys + c"
proof (induction xs ys arbitrary: c rs rule: list_induct2)
  case Nil
  then show ?case by (auto simp: limb32_def unat_of_nat)
next
  case (Cons x xs y ys)
  define v where "v = c + (unat x + unat y)"
  have v: "v < limb32 * limb32" unfolding v_def using unat_limb [of x] unat_limb [of y] Cons.prems(1) by (simp add: limb32_def)
  have w: "(of_nat c :: u64) + (ucast x + ucast y) = of_nat v" by (simp only: v_def ucast_nat64 of_nat_add of_nat_mult)
  obtain rs' where r: "add_row xs ys (of_nat (v div limb32)) = (rs', cy)" "rs = ucast (of_nat v :: u64) # rs'"
    using Cons.prems(2) unfolding add_row.simps Let_def w row_step(2) [OF v] by (auto split: prod.splits)
  have ih: "length rs' = length xs" "limbs rs' + limb32 ^ length xs * unat cy = limbs xs + limbs ys + v div limb32"
    using Cons.IH [OF row_step(3) [OF v] r(1)] by simp_all
  have "limbs rs + limb32 ^ length (x # xs) * unat cy
      = unat (ucast (of_nat v :: u64) :: u32) + limb32 * (limbs rs' + limb32 ^ length xs * unat cy)"
    by (simp add: r(2) algebra_simps)
  also have "\<dots> = (unat (ucast (of_nat v :: u64) :: u32) + limb32 * (v div limb32)) + limb32 * (limbs xs + limbs ys)"
    unfolding ih(2) by (simp add: algebra_simps)
  also have "unat (ucast (of_nat v :: u64) :: u32) + limb32 * (v div limb32) = v"
    using row_step(1,2) [OF v] row_step(3) [OF v] by (simp add: unat_small64 limb32_def)
  finally show ?case using ih(1) by (simp add: r(2) v_def algebra_simps)
qed

section \<open>Products\<close>

lemma mul_at_correct:
  assumes "i + length b < length p"
  shows "length (mul_at a b i p) = length p"
    "limbs (take (i + length b + 1) (mul_at a b i p)) = limbs (take (i + length b) p) + limb32 ^ i * (unat (a ! i) * limbs b)"
proof -
  obtain rs cy where r: "mul_row (a ! i) b (drop i p) (of_nat 0) = (rs, cy)" by fastforce
  have c: "length rs = length b" "unat cy < limb32"
    "limbs rs + limb32 ^ length b * unat cy = limbs (take (length b) (drop i p)) + unat (a ! i) * limbs b"
    using mul_row_correct [OF _ _ r] assms by (simp_all add: limb32_def)
  have m: "mul_at a b i p = take i p @ rs @ [ucast cy] @ drop (i + length b + 1) p"
    using r by (simp add: mul_at_def)
  show "length (mul_at a b i p) = length p" unfolding m using c(1) assms by simp
  have u: "unat (ucast cy :: u32) = unat cy" using c(2) by (simp add: unsigned_ucast_eq take_bit_eq_mod limb32_def)
  have "limbs (take (i + length b + 1) (mul_at a b i p)) = limbs (take i p) + limb32 ^ i * (limbs rs + limb32 ^ length b * unat cy)"
    unfolding m using c(1) assms by (simp add: limbs_append u)
  also have "\<dots> = limbs (take i p) + limb32 ^ i * limbs (take (length b) (drop i p)) + limb32 ^ i * (unat (a ! i) * limbs b)"
    unfolding c(3) by (simp add: algebra_simps)
  also have "limbs (take i p) + limb32 ^ i * limbs (take (length b) (drop i p)) = limbs (take (i + length b) p)"
    using assms by (simp add: take_add limbs_append)
  finally show "limbs (take (i + length b + 1) (mul_at a b i p))
      = limbs (take (i + length b) p) + limb32 ^ i * (unat (a ! i) * limbs b)" .
qed

lemma mul_rows_correct:
  assumes "k \<le> length a" "k + length b \<le> length p"
  shows "length (fold (mul_at a b) [0..<k] p) = length p \<and>
    limbs (take (k + length b) (fold (mul_at a b) [0..<k] p)) = limbs (take (length b) p) + limbs (take k a) * limbs b"
  using assms
proof (induction k)
  case (Suc k)
  let ?p = "fold (mul_at a b) [0..<k] p"
  have ih: "length ?p = length p" "limbs (take (k + length b) ?p) = limbs (take (length b) p) + limbs (take k a) * limbs b"
    using Suc by simp_all
  have "limbs (take (Suc k) a) = limbs (take k a) + limb32 ^ k * unat (a ! k)"
    using Suc.prems(1) by (simp add: take_Suc_conv_app_nth limbs_append)
  then show ?case using mul_at_correct [of k b ?p a] ih Suc.prems by (simp add: algebra_simps)
qed simp

lemma mul_all_rows:
  assumes "length p = length a + length b" "k = length a"
  shows "length (fold (mul_at a b) [0..<k] p) = length p"
    "limbs (fold (mul_at a b) [0..<k] p) = limbs (take (length b) p) + limbs a * limbs b"
proof -
  let ?f = "fold (mul_at a b) [0..<k] p"
  have r: "length ?f = length p \<and> limbs (take (k + length b) ?f) = limbs (take (length b) p) + limbs (take k a) * limbs b"
    using assms by (intro mul_rows_correct) simp_all
  then show l: "length ?f = length p" ..
  have "take (k + length b) ?f = ?f" "take k a = a" using l assms by (auto intro!: take_all)
  with r show "limbs ?f = limbs (take (length b) p) + limbs a * limbs b" by metis
qed

lemma multiply_correct:
  assumes "length a = 8" "length b = 8" "length c = 8"
  shows "length (multiply (c @ replicate 8 0) a b) = 16"
    "limbs (multiply (c @ replicate 8 0) a b) = limbs a * limbs b + limbs c"
proof -
  have l: "length (c @ replicate 8 0) = length a + length b" "8 = length a" "take (length b) (c @ replicate 8 0) = c"
    using assms by simp_all
  show "length (multiply (c @ replicate 8 0) a b) = 16"
    unfolding multiply_def mul_all_rows(1) [OF l(1,2)] using assms by simp
  show "limbs (multiply (c @ replicate 8 0) a b) = limbs a * limbs b + limbs c"
    unfolding multiply_def mul_all_rows(2) [OF l(1,2)] l(3) by simp
qed

text \<open>The truncated product, modulo \<open>2 ^ 256\<close>.\<close>

lemma length_L [simp]: "length L = 8"
  by (simp add: L_def)

lemma low_at_correct:
  assumes "length xr = 25" "i < 8"
  shows "length (low_at i xr) = 25" "drop 8 (low_at i xr) = drop 8 xr"
    "limbs (take 8 (low_at i xr)) mod limb32 ^ 8 = (limbs (take 8 xr) + limb32 ^ i * (unat (xr ! (i + 16)) * limbs L)) mod limb32 ^ 8"
proof -
  let ?q = "xr ! (i + 16)" and ?b = "take (8 - i) L"
  obtain rs cy where r: "mul_row ?q ?b (drop i xr) (of_nat 0) = (rs, cy)" by fastforce
  have c: "length rs = 8 - i" "limbs rs + limb32 ^ (8 - i) * unat cy = limbs (take (8 - i) (drop i xr)) + unat ?q * limbs ?b"
    using mul_row_correct [OF _ _ r] assms by (simp_all add: limb32_def)
  have m: "low_at i xr = take i xr @ rs @ drop 8 xr" using r by (simp add: low_at_def)
  show "length (low_at i xr) = 25" "drop 8 (low_at i xr) = drop 8 xr" unfolding m using c(1) assms by simp_all
  have B: "limb32 ^ i * limb32 ^ (8 - i) = limb32 ^ 8" using assms(2) by (simp add: power_add [symmetric])
  have Lsplit: "limbs L = limbs ?b + limb32 ^ (8 - i) * limbs (drop (8 - i) L)" by (rule limbs_take_drop) simp
  have t8: "limbs (take 8 xr) = limbs (take i xr) + limb32 ^ i * limbs (take (8 - i) (drop i xr))"
    using assms take_add [of i "8 - i" xr] by (simp add: limbs_append)
  have "limbs (take 8 (low_at i xr)) = limbs (take i xr) + limb32 ^ i * limbs rs"
    unfolding m using c(1) assms by (simp add: limbs_append)
  then have "limbs (take 8 (low_at i xr)) + limb32 ^ 8 * unat cy
      = limbs (take i xr) + limb32 ^ i * (limbs rs + limb32 ^ (8 - i) * unat cy)"
    by (simp add: B [symmetric] algebra_simps)
  also have "\<dots> = limbs (take 8 xr) + limb32 ^ i * (unat ?q * limbs ?b)"
    unfolding c(2) t8 by (simp add: algebra_simps)
  finally have "limbs (take 8 (low_at i xr)) + limb32 ^ 8 * (unat cy + unat ?q * limbs (drop (8 - i) L))
      = limbs (take 8 xr) + limb32 ^ i * (unat ?q * limbs L)"
    unfolding Lsplit B [symmetric] by (simp add: algebra_simps)
  then show "limbs (take 8 (low_at i xr)) mod limb32 ^ 8 = (limbs (take 8 xr) + limb32 ^ i * (unat ?q * limbs L)) mod limb32 ^ 8"
    by (metis mod_mult_self2)
qed

lemma low_rows_correct:
  assumes "length xr = 25" "k \<le> 8"
  shows "length (fold low_at [0..<k] xr) = 25 \<and> drop 8 (fold low_at [0..<k] xr) = drop 8 xr \<and>
    limbs (take 8 (fold low_at [0..<k] xr)) mod limb32 ^ 8
      = (limbs (take 8 xr) + limbs (take k (drop 16 xr)) * limbs L) mod limb32 ^ 8"
  using assms(2)
proof (induction k)
  case (Suc k)
  let ?p = "fold low_at [0..<k] xr"
  have ih: "length ?p = 25" "drop 8 ?p = drop 8 xr"
    "limbs (take 8 ?p) mod limb32 ^ 8 = (limbs (take 8 xr) + limbs (take k (drop 16 xr)) * limbs L) mod limb32 ^ 8"
    using Suc by simp_all
  have "?p ! (k + 16) = drop 8 ?p ! (k + 8)" using ih(1) Suc.prems by (simp add: add.commute)
  also have "\<dots> = drop 16 xr ! k" unfolding ih(2) using assms(1) Suc.prems by (simp add: add.commute)
  finally have q: "?p ! (k + 16) = drop 16 xr ! k" .
  have e: "limbs (take (Suc k) (drop 16 xr)) = limbs (take k (drop 16 xr)) + limb32 ^ k * unat (drop 16 xr ! k)"
    using Suc.prems assms(1) by (simp add: take_Suc_conv_app_nth limbs_append)
  have "limbs (take 8 (low_at k ?p)) mod limb32 ^ 8
      = (limbs (take 8 ?p) mod limb32 ^ 8 + limb32 ^ k * (unat (drop 16 xr ! k) * limbs L)) mod limb32 ^ 8"
    using low_at_correct(3) [OF ih(1), of k] Suc.prems q by (simp add: mod_add_left_eq)
  also have "\<dots> = (limbs (take 8 xr) + limbs (take (Suc k) (drop 16 xr)) * limbs L) mod limb32 ^ 8"
    unfolding ih(3) e mod_add_left_eq by (simp add: algebra_simps)
  finally show ?case using low_at_correct(1,2) [OF ih(1), of k] Suc.prems ih(2) by simp
qed (simp add: assms(1))

section \<open>Subtractions\<close>

definition Lnum :: nat where
  "Lnum = 2 ^ 252 + 27742317777372353535851937790883648493"

abbreviation B256 :: nat where "B256 \<equiv> limb32 ^ 8"

lemma limbs_L: "limbs L = Lnum"
  by (simp add: L_def Lnum_def limb32_def)

lemma and_ones: "w AND 0xffffffff = (w :: u32)"
proof -
  have "(0xffffffff :: u32) = - 1" by simp
  then show ?thesis by (simp only: and.right_neutral)
qed

lemma unat_not: "unat (NOT w) = limb32 - 1 - unat (w :: u32)"
proof -
  have "NOT w = of_nat (limb32 - 1 - unat w)"
    using unat_limb [of w] by (simp add: not_eq_complement of_nat_diff limb32_def)
  then show ?thesis by (simp only:) (simp add: unat_of_nat limb32_def)
qed

lemma limbs_not: "limbs (map NOT ws) + limbs ws + 1 = limb32 ^ length ws"
proof (induction ws)
  case (Cons w ws)
  have "limbs (map NOT (w # ws)) + limbs (w # ws) + 1 = (unat (NOT w) + unat w + 1) + limb32 * (limbs (map NOT ws) + limbs ws)"
    by (simp add: algebra_simps)
  also have "unat (NOT w) + unat w + 1 = limb32" using unat_limb [of w] by (simp add: unat_not)
  finally show ?case using Cons by (metis One_nat_def add.commute add_mult_distrib2 length_Cons mult.right_neutral power_Suc)
qed simp

text \<open>Adding the complement and one: the carry out tells whether the subtraction borrows.\<close>

lemma sub_row:
  assumes "length xs = 8" "length ys = 8" "add_row xs (map (\<lambda>w. NOT w AND 0xffffffff) ys) 1 = (rs, cy)"
  shows "length rs = 8" "limbs rs + limbs ys + B256 * unat cy = limbs xs + B256"
    "unat cy = (if limbs ys \<le> limbs xs then 1 else 0)"
proof -
  have m: "add_row xs (map NOT ys) (of_nat 1) = (rs, cy)" using assms(3) by (simp add: and_ones)
  have r: "length rs = 8" "limbs rs + B256 * unat cy = limbs xs + limbs (map NOT ys) + 1"
    using add_row_correct [OF _ _ m] assms(1,2) by (simp_all add: limb32_def)
  show "length rs = 8" by (rule r(1))
  have n: "limbs (map NOT ys) + limbs ys + 1 = B256" using limbs_not [of ys] assms(2) by simp
  show e: "limbs rs + limbs ys + B256 * unat cy = limbs xs + B256" using r(2) n by linarith
  have b: "limbs rs < B256" "limbs xs < B256" "limbs ys < B256" using limbs_less [of rs] limbs_less [of xs] limbs_less [of ys] r(1) assms by simp_all
  have "unat cy < 2"
  proof (rule ccontr)
    assume "\<not> unat cy < 2"
    then have "B256 * 2 \<le> B256 * unat cy" by (intro mult_le_mono2) simp
    then show False using e b by linarith
  qed
  then consider "unat cy = 0" | "unat cy = 1" by linarith
  then show "unat cy = (if limbs ys \<le> limbs xs then 1 else 0)" using e b by cases auto
qed

lemma is_above_l_iff: "length x = 8 \<Longrightarrow> unat (is_above_l x) = (if Lnum \<le> limbs x then 1 else 0)"
  using sub_row(3) [of x L] by (cases "add_row x (map (\<lambda>w. NOT w AND 0xffffffff) L) 1") (simp add: is_above_l_def limbs_L)

lemma remove_l_correct:
  assumes "length x = 8" "limbs x < 2 * Lnum"
  shows "length (remove_l x) = 8" "limbs (remove_l x) = limbs x mod Lnum"
proof -
  have L0: "0 < Lnum" "2 * Lnum < B256" by (simp_all add: Lnum_def limb32_def)
  have "length (remove_l x) = 8 \<and> limbs (remove_l x) = limbs x mod Lnum"
  proof (cases "Lnum \<le> limbs x")
    case True
    then have c: "is_above_l x = 1" using is_above_l_iff [OF assms(1)] by (simp add: word_unat_eq_iff)
    obtain rs cy where r: "add_row x (map (\<lambda>w. NOT w AND 0xffffffff) L) 1 = (rs, cy)" by fastforce
    have "remove_l x = rs" using r by (simp add: remove_l_def c and_ones)
    moreover have "limbs rs + Lnum = limbs x"
      using sub_row(2,3) [OF assms(1) length_L r] True by (simp add: limbs_L)
    moreover have "limbs x mod Lnum = limbs x - Lnum" using True assms(2) by (simp add: le_mod_geq)
    ultimately show ?thesis using sub_row(1) [OF assms(1) length_L r] by simp
  next
    case False
    then have c: "is_above_l x = 0" using is_above_l_iff [OF assms(1)] by (simp add: word_unat_eq_iff)
    obtain rs cy where r: "add_row x (map (\<lambda>_. 0) L) (of_nat 0) = (rs, cy)" by fastforce
    have z: "limbs (map (\<lambda>_. 0) ws) = 0" for ws :: "u32 list" by (induction ws) simp_all
    have e: "length rs = 8" "limbs rs + B256 * unat cy = limbs x"
      using add_row_correct [OF _ _ r] assms(1) z [of L] by (simp_all add: limb32_def)
    have "limbs x < B256" using assms(2) L0(2) by simp
    have "unat cy = 0"
    proof (rule ccontr)
      assume "unat cy \<noteq> 0"
      then have "B256 * 1 \<le> B256 * unat cy" by (intro mult_le_mono2) simp
      then show False using e(2) \<open>limbs x < B256\<close> by linarith
    qed
    moreover have "remove_l x = rs" using r by (simp add: remove_l_def c)
    ultimately show ?thesis using e False by simp
  qed
  then show "length (remove_l x) = 8" "limbs (remove_l x) = limbs x mod Lnum" by simp_all
qed

section \<open>Barrett reduction\<close>

lemma barrett_constant: "limbs barrett_r * Lnum \<le> 2 ^ 512" "2 ^ 512 < (limbs barrett_r + 1) * Lnum"
  by (simp_all add: barrett_r_def Lnum_def limb32_def)

text \<open>The estimated quotient is the true one or one less.\<close>

lemma barrett_quotient:
  fixes x r l N :: nat
  assumes "r * l \<le> N" "N < (r + 1) * l" "x < N"
  shows "x * r div N * l \<le> x" "x < x * r div N * l + 2 * l"
proof -
  have N: "0 < N" using assms(3) by simp
  define q where "q = x * r div N"
  have q: "q * N \<le> x * r" "x * r < (q + 1) * N" using N dividend_less_div_times [of N "x * r"]
    by (simp_all add: q_def div_times_less_eq_dividend algebra_simps)
  have "q * l * N \<le> x * (r * l)" using mult_le_mono1 [OF q(1), of l] by (simp add: ac_simps)
  also have "\<dots> \<le> x * N" using assms(1) by simp
  finally show "x * r div N * l \<le> x" using N by (simp add: q_def [symmetric])
  have l: "0 < l" using assms(2) by (cases l) auto
  have "x * N \<le> x * ((r + 1) * l)" using assms(2) by (intro mult_le_mono) simp_all
  also have "\<dots> = x * r * l + x * l" by (simp add: algebra_simps)
  also have "\<dots> < (q + 1) * N * l + N * l" using q(2) assms(3) l by (intro add_strict_mono) simp_all
  also have "\<dots> = (q * l + 2 * l) * N" by (simp add: algebra_simps)
  finally show "x < x * r div N * l + 2 * l" using N by (simp add: q_def [symmetric])
qed

lemma limbs_div: "n \<le> length xs \<Longrightarrow> limbs xs div limb32 ^ n = limbs (drop n xs)"
  using limbs_take_drop [of n xs] limbs_less [of "take n xs"] by (simp add: div_add1_eq limb32_def)

lemma limbs_mod: "n \<le> length xs \<Longrightarrow> limbs xs mod limb32 ^ n = limbs (take n xs)"
  using limbs_take_drop [of n xs] limbs_less [of "take n xs"] by simp

lemma store_limbs: "concat (map store32_le ws) = le_bytes (4 * length ws) (limbs ws)"
proof (induction ws)
  case (Cons w ws)
  have w: "w = of_nat (unat w)" by simp
  have l: "limb32 = 256 ^ 4" by (simp add: limb32_def)
  have "limbs (w # ws) mod 256 ^ 4 = unat w" "limbs (w # ws) div 256 ^ 4 = limbs ws"
    using unat_limb [of w] unfolding l by (simp_all add: limb32_def)
  then have "le_bytes 4 (limbs (w # ws)) = store32_le w" "limbs (w # ws) div 256 ^ 4 = limbs ws"
    using le_bytes_mod [of 4 "limbs (w # ws)"] store_le_bytes [of "unat w"] w by metis+
  then show ?case using le_bytes_add [of 4 "4 * length ws" "limbs (w # ws)"] Cons by simp
qed simp

lemma mod_add_cancel_less:
  fixes a b c n :: nat
  assumes "(a + c) mod n = (b + c) mod n" "a < n" "b < n"
  shows "a = b"
proof -
  have "a \<le> b" if "(a + c) mod n = (b + c) mod n" "a < n" for a b
  proof (rule ccontr)
    assume "\<not> a \<le> b"
    then have "n dvd (a + c) - (b + c)" using that(1) mod_eq_dvd_iff_nat [of "b + c" "a + c" n] by simp
    then show False using \<open>\<not> a \<le> b\<close> that(2) by (auto dest: dvd_imp_le)
  qed
  from this [of a b] this [of b a] show ?thesis using assms by simp
qed

lemma mod_l_correct:
  assumes "length x = 16"
  shows "mod_l x = le_bytes 32 (limbs x mod Lnum)"
proof -
  let ?r = "limbs barrett_r" and ?N = "limb32 ^ 16" and ?x = "limbs x"
  have N: "?N = 2 ^ 512" by (simp add: limb32_def)
  have x: "?x < ?N" using limbs_less [of x] assms by simp
  define q where "q = ?x * ?r div ?N"
  have q: "q * Lnum \<le> ?x" "?x < q * Lnum + 2 * Lnum"
    using barrett_quotient [of ?r Lnum ?N ?x] barrett_constant x unfolding q_def N by simp_all
  define xr where "xr = fold (mul_at barrett_r x) [0..<9] (replicate 25 0)"
  have lr: "length barrett_r = 9" by (simp add: barrett_r_def)
  have z: "limbs (replicate n 0) = 0" for n by (induction n) simp_all
  have l: "length (replicate 25 (0 :: u32)) = length barrett_r + length x" "9 = length barrett_r"
    "take (length x) (replicate 25 (0 :: u32)) = replicate 16 0"
    using assms lr by simp_all
  have lx: "length xr = 25" unfolding xr_def mul_all_rows(1) [OF l(1,2)] by simp
  have "limbs xr = ?x * ?r" unfolding xr_def mul_all_rows(2) [OF l(1,2)] l(3) z by simp
  then have d: "limbs (drop 16 xr) = q" using limbs_div [of 16 xr] lx by (simp add: q_def)
  define y where "y = fold low_at [0..<8] (replicate 8 0 @ drop 8 xr)"
  have dd: "drop 16 (replicate 8 0 @ drop 8 xr) = drop 16 xr" by simp
  have "limbs (take 8 y) mod B256 = limbs (take 8 (drop 16 xr)) * Lnum mod B256" "length y = 25"
    using low_rows_correct [of "replicate 8 0 @ drop 8 xr" 8] lx z [of 8] unfolding y_def dd by (simp_all add: limbs_L)
  moreover have "limbs (take 8 (drop 16 xr)) = q mod B256" using limbs_mod [of 8 "drop 16 xr"] lx d by simp
  ultimately have y: "limbs (take 8 y) mod B256 = q * Lnum mod B256" "length y = 25" by (simp_all add: mod_mult_left_eq)
  obtain rs cy where r: "add_row (take 8 x) (map (\<lambda>w. NOT w AND 0xffffffff) (take 8 y)) 1 = (rs, cy)" by fastforce
  have rs: "length rs = 8" "limbs rs + limbs (take 8 y) + B256 * unat cy = limbs (take 8 x) + B256"
    using sub_row(1,2) [OF _ _ r] assms y(2) by simp_all
  have "(limbs rs + q * Lnum) mod B256 = ?x mod B256"
  proof -
    have "(limbs rs + q * Lnum) mod B256 = (limbs rs + limbs (take 8 y) + B256 * unat cy) mod B256"
      using y(1) by (metis mod_add_right_eq mod_mult_self2)
    also have "\<dots> = ?x mod B256" unfolding rs(2) using limbs_mod [of 8 x] limbs_less [of "take 8 x"] assms by simp
    finally show ?thesis .
  qed
  moreover have "limbs rs < B256" "?x - q * Lnum < B256" using limbs_less [of rs] rs(1) q by (simp_all add: Lnum_def limb32_def)
  moreover have "(?x - q * Lnum + q * Lnum) mod B256 = ?x mod B256" using q(1) by simp
  ultimately have e: "limbs rs = ?x - q * Lnum" using mod_add_cancel_less [of "limbs rs" "q * Lnum" B256] by simp
  then have "limbs (remove_l rs) = ?x mod Lnum" "length (remove_l rs) = 8"
    using remove_l_correct [OF rs(1)] q mod_mult_self2 [of "?x - q * Lnum" Lnum q] by (simp_all add: mult.commute)
  moreover have "mod_l x = concat (map store32_le (remove_l rs))"
    using r by (simp add: mod_l_def Let_def xr_def [symmetric] y_def [symmetric])
  ultimately show ?thesis by (simp add: store_limbs)
qed

lemma reduce_correct: "length bs = 64 \<Longrightarrow> crypto_eddsa_reduce bs = le_bytes 32 (le_num bs mod Lnum)"
  by (simp add: crypto_eddsa_reduce_def mod_l_correct length_load limbs_load)

lemma mul_add_correct:
  assumes "length a = 32" "length b = 32" "length c = 32"
  shows "crypto_eddsa_mul_add a b c = le_bytes 32 ((le_num a * le_num b + le_num c) mod Lnum)"
  using multiply_correct [of "load32_le_buf a" "load32_le_buf b" "load32_le_buf c"] assms
  by (simp add: crypto_eddsa_mul_add_def mod_l_correct length_load limbs_load)

lemma le_num_bytes_less: "v < 256 ^ n \<Longrightarrow> le_num (le_bytes n v) = v"
proof (induction n arbitrary: v)
  case (Suc n)
  then have "v div 256 < 256 ^ n" by (simp add: less_mult_imp_div_less mult.commute)
  then show ?case using Suc.IH by (simp add: unat_of_nat)
qed simp

text \<open>The scalar arithmetic of the signatures is arithmetic modulo the group order \<open>L\<close>: the Barrett
  reduction of a 64-byte digest and the multiply-add of three 32-byte scalars return the little-endian
  bytes of the exact residues, for all inputs.\<close>

theorem eddsa_scalars_mod_l:
  assumes "length bs = 64" "length a = 32" "length b = 32" "length c = 32"
  shows "crypto_eddsa_reduce bs = le_bytes 32 (le_num bs mod Lnum)
    \<and> crypto_eddsa_mul_add a b c = le_bytes 32 ((le_num a * le_num b + le_num c) mod Lnum)"
  using assms reduce_correct mul_add_correct by simp

theorem eddsa_scalars_mod_l_witness:
  "crypto_eddsa_reduce (le_bytes 64 Lnum) = replicate 32 0
    \<and> crypto_eddsa_mul_add (le_bytes 32 2) (le_bytes 32 3) (le_bytes 32 5) = le_bytes 32 11"
proof -
  have l: "le_num (le_bytes 64 Lnum) = Lnum" "le_num (le_bytes 32 2) = 2" "le_num (le_bytes 32 3) = 3" "le_num (le_bytes 32 5) = 5"
    by (rule le_num_bytes_less, simp add: Lnum_def)+
  have z: "le_bytes n 0 = replicate n 0" for n by (induction n) simp_all
  have "crypto_eddsa_reduce (le_bytes 64 Lnum) = le_bytes 32 (Lnum mod Lnum)
    \<and> crypto_eddsa_mul_add (le_bytes 32 2) (le_bytes 32 3) (le_bytes 32 5) = le_bytes 32 ((2 * 3 + 5) mod Lnum)"
    using eddsa_scalars_mod_l [of "le_bytes 64 Lnum" "le_bytes 32 2" "le_bytes 32 3" "le_bytes 32 5"] unfolding l by simp
  moreover have "(2 * 3 + 5) mod Lnum = 11" by (simp add: Lnum_def)
  ultimately show ?thesis by (simp add: z)
qed

end
