(* ===== verification/Edcurve.thy ===== *)
theory Edcurve
  imports Ed25519
begin

text \<open>
  The point arithmetic of \<open>Ed25519\<close> against the curve.  A point of the code holds an affine point
  \<open>(x, y)\<close> when its coordinates are \<open>x Z\<close>, \<open>y Z\<close>, \<open>Z\<close> and \<open>x y Z\<close> modulo \<open>2 ^ 255 - 19\<close>.  The addition
  law of the twisted Edwards curve is stated with its denominators cleared, so that everything is an
  identity of the ring of integers modulo the prime.
\<close>

section \<open>The curve\<close>

definition ed_num :: int where
  "ed_num = 37095705934669439343138083508754565189542113879843219016388785533085940283555"

lemma ed_num_quotient: "(ed_num * 121666) mod p25519 = (- 121665) mod p25519"
proof -
  have "ed_num * 121666 = - 121665 + p25519 * 77955" unfolding ed_num_def p25519_def by simp
  then show ?thesis by (simp only: mod_mult_self2)
qed

definition on_curve :: "int \<times> int \<Rightarrow> bool" where
  "on_curve P \<longleftrightarrow> (case P of (x, y) \<Rightarrow> (y * y - x * x) mod p25519 = (1 + ed_num * (x * x * (y * y))) mod p25519)"

definition ed_product :: "int \<times> int \<Rightarrow> int \<times> int \<Rightarrow> int" where
  "ed_product P Q = ed_num * (fst P * fst Q * (snd P * snd Q))"

text \<open>\<open>P + Q = R\<close>, the addition law of RFC 8032 without divisions.\<close>

definition edwards :: "int \<times> int \<Rightarrow> int \<times> int \<Rightarrow> int \<times> int \<Rightarrow> bool" where
  "edwards P Q R \<longleftrightarrow>
     (fst R * (1 + ed_product P Q)) mod p25519 = (fst P * snd Q + fst Q * snd P) mod p25519
     \<and> (snd R * (1 - ed_product P Q)) mod p25519 = (snd P * snd Q + fst P * fst Q) mod p25519"

definition ed_neg :: "int \<times> int \<Rightarrow> int \<times> int" where
  "ed_neg P = (- fst P, snd P)"

definition ge_holds :: "ge \<Rightarrow> int \<times> int \<Rightarrow> int \<Rightarrow> bool" where
  "ge_holds g P Z \<longleftrightarrow> carried (gX g) (fst P * Z) \<and> carried (gY g) (snd P * Z) \<and> carried (gZ g) Z
     \<and> carried (gT g) (fst P * snd P * Z)"

definition cached_holds :: "ge_cached \<Rightarrow> int \<times> int \<Rightarrow> int \<Rightarrow> bool" where
  "cached_holds c P Z \<longleftrightarrow> usable (cYp c) ((snd P + fst P) * Z) \<and> usable (cYm c) ((snd P - fst P) * Z) \<and> carried (cZ c) Z
     \<and> carried (cT2 c) (2 * ed_num * (fst P * snd P * Z))"

definition precomp_holds :: "ge_precomp \<Rightarrow> int \<times> int \<Rightarrow> bool" where
  "precomp_holds q P \<longleftrightarrow> usable (pYp q) (snd P + fst P) \<and> usable (pYm q) (snd P - fst P)
     \<and> carried (pT2 q) (2 * ed_num * (fst P * snd P))"

lemma ed_constants: "carried ed_d ed_num" "carried ed_D2 (2 * ed_num)"
proof -
  let ?d = "[-10913610, 13857413, -15372611, 6949391, 114729, -8787816, -6275908, -3247719, -18696448, -12055116] :: int list"
  let ?D = "[-21827239, -5839606, -30745221, 13898782, 229458, 15978800, -12551817, -6495438, 29715968, 9444199] :: int list"
  have "ed_d = map of_int ?d" "ed_D2 = map of_int ?D" by (simp_all add: ed_d_def ed_D2_def)
  moreover have "tight ?d" "tight ?D" by (simp_all add: tight_def)
  moreover have "fnum ?d = ed_num + p25519 * (- 1)" "fnum ?D = 2 * ed_num + p25519 * (- 1)"
    by (simp_all add: fnum_def fval_def ed_num_def p25519_def)
  then have "fnum ?d mod p25519 = ed_num mod p25519" "fnum ?D mod p25519 = (2 * ed_num) mod p25519"
    by (simp_all only: mod_mult_self2)
  ultimately show "carried ed_d ed_num" "carried ed_D2 (2 * ed_num)" unfolding carried_def by blast+
qed

text \<open>Three-term sums reach the bound of the multiplications exactly.\<close>

definition wide :: "fe \<Rightarrow> int \<Rightarrow> bool" where
  "wide f x \<longleftrightarrow> (\<exists>xs. f = map of_int xs \<and> length xs = 10 \<and> alternate 73819750 36909874 xs \<and> fnum xs mod p25519 = x mod p25519)"

lemma fe_wide:
  assumes "carried f x" "carried g y"
  shows "wide (fe_add f g) (x + y)" "wide (fe_sub f g) (x - y)"
proof -
  obtain fs gs where fg: "f = map of_int fs" "tight fs" "fnum fs mod p25519 = x mod p25519"
    "g = map of_int gs" "tight gs" "fnum gs mod p25519 = y mod p25519"
    using assms unfolding carried_def by blast
  obtain f0 f1 f2 f3 f4 f5 f6 f7 f8 f9 where f: "fs = [f0, f1, f2, f3, f4, f5, f6, f7, f8, f9]" using fg(2) by (auto simp: tight_def elim: list10)
  obtain g0 g1 g2 g3 g4 g5 g6 g7 g8 g9 where g: "gs = [g0, g1, g2, g3, g4, g5, g6, g7, g8, g9]" using fg(5) by (auto simp: tight_def elim: list10)
  have "fe_add f g = map of_int (map2 (+) fs gs)" "fe_sub f g = map of_int (map2 (-) fs gs)"
    by (simp_all add: fe_add_def fe_sub_def fg(1,4) f g)
  moreover have "alternate 73819750 36909874 (map2 (+) fs gs)" "alternate 73819750 36909874 (map2 (-) fs gs)"
    using alternate_add [of 36909875 18454937 fs 36909875 18454937 gs] alternate_sub [of 36909875 18454937 fs 36909875 18454937 gs] fg(2,5)
    unfolding tight_def by simp_all
  moreover have "fnum (map2 (+) fs gs) = fnum fs + fnum gs" "fnum (map2 (-) fs gs) = fnum fs - fnum gs"
    unfolding fnum_def f g list.map zip_Cons_Cons prod.case nth10 fval_def by (simp_all add: algebra_simps)
  then have "fnum (map2 (+) fs gs) mod p25519 = (x + y) mod p25519" "fnum (map2 (-) fs gs) mod p25519 = (x - y) mod p25519"
    using fg(3,6) by (metis mod_add_cong, metis mod_diff_cong)
  moreover have "length (map2 (+) fs gs) = 10" "length (map2 (-) fs gs) = 10" by (simp_all add: f g)
  ultimately show "wide (fe_add f g) (x + y)" "wide (fe_sub f g) (x - y)" unfolding wide_def by blast+
qed

lemma fe_sub_wide:
  assumes "carried f x" "wide g y"
  shows "usable (fe_sub f g) (x - y)" and wide_sub: "usable (fe_sub g f) (y - x)" and wide_add: "usable (fe_add g f) (y + x)"
proof -
  obtain fs gs where fg: "f = map of_int fs" "tight fs" "fnum fs mod p25519 = x mod p25519"
    "g = map of_int gs" "length gs = 10" "alternate 73819750 36909874 gs" "fnum gs mod p25519 = y mod p25519"
    using assms unfolding carried_def wide_def by blast
  obtain f0 f1 f2 f3 f4 f5 f6 f7 f8 f9 where f: "fs = [f0, f1, f2, f3, f4, f5, f6, f7, f8, f9]" using fg(2) by (auto simp: tight_def elim: list10)
  obtain g0 g1 g2 g3 g4 g5 g6 g7 g8 g9 where g: "gs = [g0, g1, g2, g3, g4, g5, g6, g7, g8, g9]" using fg(5) by (auto elim: list10)
  have "fe_sub f g = map of_int (map2 (-) fs gs)" "fe_sub g f = map of_int (map2 (-) gs fs)" "fe_add g f = map of_int (map2 (+) gs fs)"
    by (simp_all add: fe_add_def fe_sub_def fg(1,4) f g)
  moreover have "loose (map2 (-) fs gs)" "loose (map2 (-) gs fs)" "loose (map2 (+) gs fs)"
    using alternate_mono [OF alternate_sub, of 36909875 18454937 fs 73819750 36909874 gs 110729625 55364812]
      alternate_mono [OF alternate_sub, of 73819750 36909874 gs 36909875 18454937 fs 110729625 55364812]
      alternate_mono [OF alternate_add, of 73819750 36909874 gs 36909875 18454937 fs 110729625 55364812] fg(2,5,6)
    unfolding tight_def loose_def by simp_all
  moreover have "fnum (map2 (-) fs gs) = fnum fs - fnum gs" "fnum (map2 (-) gs fs) = fnum gs - fnum fs" "fnum (map2 (+) gs fs) = fnum gs + fnum fs"
    unfolding fnum_def f g list.map zip_Cons_Cons prod.case nth10 fval_def by (simp_all add: algebra_simps)
  then have "fnum (map2 (-) fs gs) mod p25519 = (x - y) mod p25519" "fnum (map2 (-) gs fs) mod p25519 = (y - x) mod p25519"
    "fnum (map2 (+) gs fs) mod p25519 = (y + x) mod p25519"
    using fg(3,7) by (metis mod_diff_cong, metis mod_diff_cong, metis mod_add_cong)
  ultimately show "usable (fe_sub f g) (x - y)" "usable (fe_sub g f) (y - x)" "usable (fe_add g f) (y + x)" unfolding usable_def by blast+
qed

section \<open>The formulas\<close>

lemmas fe_ops = fe_mul_correct fe_sq_correct fe_add_correct fe_sub_correct carried_usable

lemma cache_holds:
  assumes "ge_holds p P Z"
  shows "cached_holds (ge_cache p) P Z"
proof -
  have c: "carried (gX p) (fst P * Z)" "carried (gY p) (snd P * Z)" "carried (gZ p) Z" "carried (gT p) (fst P * snd P * Z)"
    using assms by (simp_all add: ge_holds_def)
  have "usable (fe_add (gY p) (gX p)) ((snd P + fst P) * Z)" "usable (fe_sub (gY p) (gX p)) ((snd P - fst P) * Z)"
    using fe_add_correct [OF c(2,1)] fe_sub_correct [OF c(2,1)] by (simp_all add: algebra_simps)
  moreover have "carried (fe_mul (gT p) ed_D2) (2 * ed_num * (fst P * snd P * Z))"
    using fe_mul_correct [OF carried_usable [OF c(4)] carried_usable [OF ed_constants(2)]] by (simp add: ac_simps)
  ultimately show ?thesis using c(3) by (simp add: cached_holds_def ge_cache_def)
qed

text \<open>From \<open>E, F, G, H\<close> of the unified formulas to the coordinates of the sum.\<close>

lemma unified:
  assumes "edwards P Q R" and m: "E = m * (fst P * snd Q + fst Q * snd P)" "H = m * (snd P * snd Q + fst P * fst Q)"
    "F = m * (1 - ed_product P Q)" "G = m * (1 + ed_product P Q)"
  shows "(E * F) mod p25519 = (fst R * (G * F)) mod p25519" "(H * G) mod p25519 = (snd R * (G * F)) mod p25519"
    "(E * H) mod p25519 = (fst R * snd R * (G * F)) mod p25519"
proof -
  have x: "(fst P * snd Q + fst Q * snd P) mod p25519 = (fst R * (1 + ed_product P Q)) mod p25519"
    and y: "(snd P * snd Q + fst P * fst Q) mod p25519 = (snd R * (1 - ed_product P Q)) mod p25519"
    using assms(1) by (simp_all add: edwards_def)
  have e: "E mod p25519 = (fst R * G) mod p25519" "H mod p25519 = (snd R * F) mod p25519"
    unfolding m using mod_mult_cong [OF refl x, of m] mod_mult_cong [OF refl y, of m] by (simp_all add: ac_simps)
  show "(E * F) mod p25519 = (fst R * (G * F)) mod p25519" using mod_mult_cong [OF e(1) refl, of F] by (simp add: ac_simps)
  show "(H * G) mod p25519 = (snd R * (G * F)) mod p25519" using mod_mult_cong [OF e(2) refl, of G] by (simp add: ac_simps)
  show "(E * H) mod p25519 = (fst R * snd R * (G * F)) mod p25519" using mod_mult_cong [OF e] by (simp add: ac_simps)
qed

lemma ge_add_holds:
  assumes "ge_holds p P Z" "cached_holds q Q W" "edwards P Q R"
  shows "ge_holds (ge_add p q) R (4 * (Z * W) ^ 2 * (1 - ed_product P Q) * (1 + ed_product P Q))"
proof -
  have c: "carried (gX p) (fst P * Z)" "carried (gY p) (snd P * Z)" "carried (gZ p) Z" "carried (gT p) (fst P * snd P * Z)"
    using assms(1) by (simp_all add: ge_holds_def)
  have q: "usable (cYp q) ((snd Q + fst Q) * W)" "usable (cYm q) ((snd Q - fst Q) * W)" "carried (cZ q) W"
    "carried (cT2 q) (2 * ed_num * (fst Q * snd Q * W))"
    using assms(2) by (simp_all add: cached_holds_def)
  define a b z t where "a = fe_mul (fe_add (gY p) (gX p)) (cYp q)" and "b = fe_mul (fe_sub (gY p) (gX p)) (cYm q)"
    and "z = fe_mul (fe_add (gZ p) (gZ p)) (cZ q)" and "t = fe_mul (gT p) (cT2 q)"
  define A B D C where "A = (snd P * Z + fst P * Z) * ((snd Q + fst Q) * W)" and "B = (snd P * Z - fst P * Z) * ((snd Q - fst Q) * W)"
    and "D = (Z + Z) * W" and "C = fst P * snd P * Z * (2 * ed_num * (fst Q * snd Q * W))"
  have v: "carried a A" "carried b B" "carried z D" "carried t C"
    unfolding a_def b_def z_def t_def A_def B_def D_def C_def by (rule fe_ops c q | assumption)+
  let ?m = "2 * (Z * W)"
  have m: "A - B = ?m * (fst P * snd Q + fst Q * snd P)" "A + B = ?m * (snd P * snd Q + fst P * fst Q)"
    "D - C = ?m * (1 - ed_product P Q)" "D + C = ?m * (1 + ed_product P Q)"
    unfolding A_def B_def C_def D_def ed_product_def by (simp_all add: algebra_simps)
  have Z: "(D + C) * (D - C) = 4 * (Z * W) ^ 2 * (1 - ed_product P Q) * (1 + ed_product P Q)"
    unfolding m by (simp add: power2_eq_square algebra_simps)
  note u = unified [OF assms(3) m]
  have "carried (fe_mul (fe_sub a b) (fe_sub z t)) ((A - B) * (D - C))" "carried (fe_mul (fe_add a b) (fe_add z t)) ((A + B) * (D + C))"
    "carried (fe_mul (fe_add z t) (fe_sub z t)) ((D + C) * (D - C))" "carried (fe_mul (fe_sub a b) (fe_add a b)) ((A - B) * (A + B))"
    using v by (simp_all add: fe_ops)
  moreover have "ge_add p q = \<lparr>gX = fe_mul (fe_sub a b) (fe_sub z t), gY = fe_mul (fe_add a b) (fe_add z t),
      gZ = fe_mul (fe_add z t) (fe_sub z t), gT = fe_mul (fe_sub a b) (fe_add a b)\<rparr>"
    by (simp add: ge_add_def Let_def a_def b_def z_def t_def)
  ultimately show ?thesis unfolding Z [symmetric] using u by (auto simp: ge_holds_def intro: carried_cong)
qed

lemma cached_neg:
  assumes "cached_holds q Q W"
  shows "cached_holds \<lparr>cYp = cYm q, cYm = cYp q, cZ = cZ q, cT2 = fe_neg (cT2 q)\<rparr> (ed_neg Q) W"
  using assms fe_neg_correct [of "cT2 q" "2 * ed_num * (fst Q * snd Q * W)"]
  by (simp add: cached_holds_def ed_neg_def)

lemma ge_sub_holds:
  assumes "ge_holds p P Z" "cached_holds q Q W" "edwards P (ed_neg Q) R"
  shows "ge_holds (ge_sub p q) R (4 * (Z * W) ^ 2 * (1 - ed_product P (ed_neg Q)) * (1 + ed_product P (ed_neg Q)))"
  unfolding ge_sub_def by (rule ge_add_holds [OF assms(1) cached_neg [OF assms(2)] assms(3)])

text \<open>\<open>ge_madd\<close> is \<open>ge_add\<close> with \<open>Z = 1\<close>; the doubled \<open>Z\<close> is not multiplied, so its sums have three terms.\<close>

lemma ge_madd_holds:
  assumes "ge_holds p P Z" "precomp_holds q Q" "edwards P Q R"
  shows "ge_holds (ge_madd p q) R (4 * Z ^ 2 * (1 - ed_product P Q) * (1 + ed_product P Q))"
proof -
  have c: "carried (gX p) (fst P * Z)" "carried (gY p) (snd P * Z)" "carried (gZ p) Z" "carried (gT p) (fst P * snd P * Z)"
    using assms(1) by (simp_all add: ge_holds_def)
  have q: "usable (pYp q) (snd Q + fst Q)" "usable (pYm q) (snd Q - fst Q)" "carried (pT2 q) (2 * ed_num * (fst Q * snd Q))"
    using assms(2) by (simp_all add: precomp_holds_def)
  define a b z t where "a = fe_mul (fe_add (gY p) (gX p)) (pYp q)" and "b = fe_mul (fe_sub (gY p) (gX p)) (pYm q)"
    and "z = fe_add (gZ p) (gZ p)" and "t = fe_mul (gT p) (pT2 q)"
  define A B D C where "A = (snd P * Z + fst P * Z) * (snd Q + fst Q)" and "B = (snd P * Z - fst P * Z) * (snd Q - fst Q)"
    and "D = Z + Z" and "C = fst P * snd P * Z * (2 * ed_num * (fst Q * snd Q))"
  have v: "carried a A" "carried b B" "carried t C"
    unfolding a_def b_def t_def A_def B_def C_def by (rule fe_ops c q | assumption)+
  have w: "wide z D" unfolding z_def D_def by (rule fe_wide [OF c(3,3)])
  have zt: "usable (fe_add z t) (D + C)" "usable (fe_sub z t) (D - C)" by (rule wide_add [OF v(3) w], rule wide_sub [OF v(3) w])
  let ?m = "2 * Z"
  have m: "A - B = ?m * (fst P * snd Q + fst Q * snd P)" "A + B = ?m * (snd P * snd Q + fst P * fst Q)"
    "D - C = ?m * (1 - ed_product P Q)" "D + C = ?m * (1 + ed_product P Q)"
    unfolding A_def B_def C_def D_def ed_product_def by (simp_all add: algebra_simps)
  have Z: "(D + C) * (D - C) = 4 * Z ^ 2 * (1 - ed_product P Q) * (1 + ed_product P Q)"
    unfolding m by (simp add: power2_eq_square algebra_simps)
  note u = unified [OF assms(3) m]
  have "carried (fe_mul (fe_sub a b) (fe_sub z t)) ((A - B) * (D - C))" "carried (fe_mul (fe_add a b) (fe_add z t)) ((A + B) * (D + C))"
    "carried (fe_mul (fe_add z t) (fe_sub z t)) ((D + C) * (D - C))" "carried (fe_mul (fe_sub a b) (fe_add a b)) ((A - B) * (A + B))"
    using v zt by (simp_all add: fe_ops)
  moreover have "ge_madd p q = \<lparr>gX = fe_mul (fe_sub a b) (fe_sub z t), gY = fe_mul (fe_add a b) (fe_add z t),
      gZ = fe_mul (fe_add z t) (fe_sub z t), gT = fe_mul (fe_sub a b) (fe_add a b)\<rparr>"
    by (simp add: ge_madd_def Let_def a_def b_def z_def t_def)
  ultimately show ?thesis unfolding Z [symmetric] using u by (auto simp: ge_holds_def intro: carried_cong)
qed

lemma precomp_neg:
  assumes "precomp_holds q Q"
  shows "precomp_holds \<lparr>pYp = pYm q, pYm = pYp q, pT2 = fe_neg (pT2 q)\<rparr> (ed_neg Q)"
  using assms fe_neg_correct [of "pT2 q" "2 * ed_num * (fst Q * snd Q)"]
  by (simp add: precomp_holds_def ed_neg_def)

lemma ge_msub_holds:
  assumes "ge_holds p P Z" "precomp_holds q Q" "edwards P (ed_neg Q) R"
  shows "ge_holds (ge_msub p q) R (4 * Z ^ 2 * (1 - ed_product P (ed_neg Q)) * (1 + ed_product P (ed_neg Q)))"
  unfolding ge_msub_def by (rule ge_madd_holds [OF assms(1) precomp_neg [OF assms(2)] assms(3)])

lemma ge_double_holds:
  assumes "ge_holds p P Z" "on_curve P" "edwards P P R"
  shows "ge_holds (ge_double p) R (Z ^ 4 * (1 - ed_product P P) * (1 + ed_product P P))"
proof -
  obtain x y where P: "P = (x, y)" by fastforce
  have c: "carried (gX p) (x * Z)" "carried (gY p) (y * Z)" "carried (gZ p) Z"
    using assms(1) by (simp_all add: ge_holds_def P)
  define qX qY qZ qT sT where "qX = fe_sq (gX p)" and "qY = fe_sq (gY p)" and "qZ = fe_mul_small (fe_sq (gZ p)) 2"
    and "qT = fe_add qY qX" and "sT = fe_sq (fe_add (gX p) (gY p))"
  define A B C S where "A = x * Z * (x * Z)" and "B = y * Z * (y * Z)" and "C = Z * Z * 2" and "S = (x * Z + y * Z) * (x * Z + y * Z)"
  have v: "carried qX A" "carried qY B" "carried sT S"
    unfolding qX_def qY_def sT_def A_def B_def S_def by (rule fe_ops c | assumption)+
  have z: "carried qZ C" unfolding qZ_def C_def
    using fe_mul_small_correct [OF carried_usable [OF fe_sq_correct [OF carried_usable [OF c(3)]]], of 2] by simp
  have w: "usable qT (B + A)" "usable (fe_sub qY qX) (B - A)" "usable (fe_sub sT qT) (S - (B + A))" "usable (fe_sub qZ (fe_sub qY qX)) (C - (B - A))"
    unfolding qT_def using v z by (simp_all add: fe_ops fe_sub_wide fe_wide)
  have g: "(B - A) mod p25519 = (Z ^ 2 * (1 + ed_product P P)) mod p25519"
  proof -
    have "(y * y - x * x) mod p25519 = (1 + ed_product P P) mod p25519"
      using assms(2) by (simp add: on_curve_def ed_product_def P ac_simps)
    from mod_mult_cong [OF refl this, of "Z ^ 2"] show ?thesis
      by (simp add: A_def B_def power2_eq_square algebra_simps)
  qed
  have f: "(C - (B - A)) mod p25519 = (Z ^ 2 * (1 - ed_product P P)) mod p25519"
    using mod_diff_cong [OF refl g, of C] by (simp add: C_def power2_eq_square algebra_simps)
  let ?E = "Z ^ 2 * (fst P * snd P + fst P * snd P)" and ?H = "Z ^ 2 * (snd P * snd P + fst P * fst P)"
    and ?F = "Z ^ 2 * (1 - ed_product P P)" and ?G = "Z ^ 2 * (1 + ed_product P P)"
  have eh: "S - (B + A) = ?E" "B + A = ?H"
    by (simp_all add: S_def A_def B_def P power2_eq_square algebra_simps)
  note u = unified [OF assms(3), of ?E "Z ^ 2" ?H ?F ?G, OF refl refl refl refl]
  have Z: "?G * ?F = Z ^ 4 * (1 - ed_product P P) * (1 + ed_product P P)"
    by (simp add: power2_eq_square numeral_eq_Suc algebra_simps)
  have "carried (fe_mul (fe_sub sT qT) (fe_sub qZ (fe_sub qY qX))) (?E * (C - (B - A)))" "carried (fe_mul qT (fe_sub qY qX)) (?H * (B - A))"
    "carried (fe_mul (fe_sub qY qX) (fe_sub qZ (fe_sub qY qX))) ((B - A) * (C - (B - A)))" "carried (fe_mul (fe_sub sT qT) qT) (?E * ?H)"
    unfolding eh [symmetric] using w by (simp_all add: fe_mul_correct)
  moreover have "(?E * (C - (B - A))) mod p25519 = (fst R * (?G * ?F)) mod p25519" using u(1) mod_mult_cong [OF refl f, of ?E] by simp
  moreover have "(?H * (B - A)) mod p25519 = (snd R * (?G * ?F)) mod p25519" using u(2) mod_mult_cong [OF refl g, of ?H] by simp
  moreover have "((B - A) * (C - (B - A))) mod p25519 = (?G * ?F) mod p25519" by (rule mod_mult_cong [OF g f])
  moreover have "ge_double p = \<lparr>gX = fe_mul (fe_sub sT qT) (fe_sub qZ (fe_sub qY qX)), gY = fe_mul qT (fe_sub qY qX),
      gZ = fe_mul (fe_sub qY qX) (fe_sub qZ (fe_sub qY qX)), gT = fe_mul (fe_sub sT qT) qT\<rparr>"
    by (simp add: ge_double_def Let_def qX_def qY_def qZ_def qT_def sT_def)
  ultimately show ?thesis unfolding Z [symmetric] using u(3) by (auto simp: ge_holds_def intro: carried_cong)
qed

section \<open>Encoded points\<close>

lemma fe_isodd_correct:
  assumes "carried f x"
  shows "fe_isodd f = (if odd (x mod p25519) then 1 else 0)"
proof -
  have p: "0 \<le> x mod p25519" by (simp add: p25519_def)
  have z: "le_bytes 32 v ! 0 = of_nat v" for v using le_bytes_add [of 1 31 v] by simp
  have "fe_isodd f = of_nat (nat (x mod p25519)) AND 1"
    unfolding fe_isodd_def fe_tobytes_correct [OF assms] z ..
  also have "\<dots> = of_bool (odd (nat (x mod p25519)))"
    by (simp add: and_one_eq mod_2_eq_odd)
  finally show ?thesis using p by (simp add: even_nat_iff)
qed

lemma root_correct:
  assumes "carried f X" "X mod p25519 \<noteq> 0" "fst (invsqrt f) \<noteq> 0"
  obtains r where "carried (snd (invsqrt f)) r" "(r * r * X) mod p25519 = 1 mod p25519"
proof -
  let ?q = "X ^ (2 ^ 253 - 5) mod p25519" and ?t = "X ^ (2 ^ 252 - 3)"
  have q: "?q = 1 mod p25519 \<or> ?q = (- 1) mod p25519"
    using invsqrt_correct(2) [OF assms(1)] assms(2,3) by (auto split: if_splits)
  have pw: "?t * ?t * X = X ^ (2 ^ 253 - 5)"
    using power_add [of X "2 ^ 252 - 3" "2 ^ 252 - 3"] power_Suc2 [of X "2 ^ 253 - 6"] by simp
  have c: "carried (snd (invsqrt f)) (if ?q = (- 1) mod p25519 \<or> ?q = (- i25519) mod p25519 then ?t * i25519 else ?t)"
    by (rule invsqrt_correct(1) [OF assms(1)])
  show thesis
  proof (cases "?q = (- 1) mod p25519")
    case True
    have "(?t * i25519 * (?t * i25519) * X) = X ^ (2 ^ 253 - 5) * (i25519 * i25519)" unfolding pw [symmetric] by (simp add: ac_simps)
    moreover have "(X ^ (2 ^ 253 - 5) * (i25519 * i25519)) mod p25519 = ((- 1) * (- 1)) mod p25519"
      by (rule mod_mult_cong [OF True sqrtm1_correct(2)])
    ultimately have "(?t * i25519 * (?t * i25519) * X) mod p25519 = 1 mod p25519" by (simp only: minus_mult_minus mult_1)
    moreover have "carried (snd (invsqrt f)) (?t * i25519)" using c True by (simp only: simp_thms if_True)
    ultimately show ?thesis using that by blast
  next
    case False
    then have one: "?q = 1 mod p25519" using q by simp
    then have "\<not> (?q = (- 1) mod p25519 \<or> ?q = (- i25519) mod p25519)" using constants_distinct(1,2) by simp
    then have "carried (snd (invsqrt f)) ?t" using c by (simp only: if_False)
    then show ?thesis using one that [of ?t] unfolding pw by blast
  qed
qed

lemma neg_parity: "x mod p25519 \<noteq> 0 \<Longrightarrow> odd ((- x) mod p25519) \<longleftrightarrow> even (x mod p25519)"
proof -
  assume x: "x mod p25519 \<noteq> 0"
  have "(- x) mod p25519 = p25519 - x mod p25519" using x by (simp add: zmod_zminus1_eq_if)
  moreover have "odd p25519" by (simp add: p25519_def)
  ultimately show ?thesis by simp
qed

definition ed_y :: "byte list \<Rightarrow> int" where
  "ed_y s = int (le_num (take 32 s) mod 2 ^ 255)"

lemma frombytes_take: "32 \<le> length s \<Longrightarrow> fe_frombytes s = fe_frombytes (take 32 s)"
  by (simp add: fe_frombytes_def fe_frombytes_mask_def load24_le_def load32_le_def Let_def)

lemma top_bit: "drop_bit 7 b = (if bit b 7 then 1 else 0)" for b :: byte
proof (rule bit_word_eqI)
  fix n assume "n < LENGTH(8)"
  then show "bit (drop_bit 7 b) n = bit (if bit b 7 then 1 else 0 :: byte) n"
    using bit_imp_le_length [of b "7 + n"] by (cases n) (auto simp: bit_simps bit_1_iff)
qed

lemma decode_holds:
  assumes "ge_frombytes_neg_vartime s = Some h" "32 \<le> length s"
    "((ed_y s * ed_y s - 1) * (ed_num * (ed_y s * ed_y s) + 1)) mod p25519 \<noteq> 0"
  shows "\<exists>x. ge_holds h (x, ed_y s) 1 \<and> on_curve (x, ed_y s) \<and> (odd (x mod p25519) \<longleftrightarrow> \<not> bit (s ! 31) 7)"
proof -
  define y where "y = ed_y s"
  let ?N = "y * y - 1" and ?D = "y * y * ed_num + 1"
  define f where "f = fe_mul (fe_sub (fe_sq (fe_frombytes s)) fe_1) (fe_add (fe_mul (fe_sq (fe_frombytes s)) ed_d) fe_1)"
  have cy: "carried (fe_frombytes s) y"
    using fe_frombytes_correct [of "take 32 s"] frombytes_take [OF assms(2)] assms(2) by (simp add: y_def ed_y_def)
  have ct: "usable (fe_sub (fe_sq (fe_frombytes s)) fe_1) ?N" using cy fe_constants by (simp add: fe_ops)
  have cf: "carried f (?N * ?D)" unfolding f_def using cy fe_constants ed_constants by (simp add: fe_ops)
  have nz: "(?N * ?D) mod p25519 \<noteq> 0" using assms(3) unfolding y_def [symmetric] by (simp add: mult.commute)
  have ns: "fst (invsqrt f) \<noteq> 0" using assms(1)
    unfolding ge_frombytes_neg_vartime_def Let_def f_def [symmetric] case_prod_beta by (auto split: if_splits)
  obtain r where r: "carried (snd (invsqrt f)) r" "(r * r * (?N * ?D)) mod p25519 = 1 mod p25519"
    using root_correct [OF cf nz ns] by blast
  define g where "g = fe_mul (fe_sub (fe_sq (fe_frombytes s)) fe_1) (snd (invsqrt f))"
  have cg: "carried g (?N * r)" unfolding g_def by (rule fe_mul_correct [OF ct carried_usable [OF r(1)]])
  have sq: "(?N * r * (?N * r) * ?D) mod p25519 = ?N mod p25519"
    using mod_mult_cong [OF refl r(2), of ?N] by (simp add: ac_simps)
  have x0: "(?N * r) mod p25519 \<noteq> 0"
  proof
    assume "(?N * r) mod p25519 = 0"
    then have "p25519 dvd ?N * r * (?N * r) * ?D" by auto
    then have "p25519 dvd ?N" using sq by (simp add: dvd_eq_mod_eq_0)
    then show False using nz by (auto simp: dvd_eq_mod_eq_0 [symmetric])
  qed
  have h: "h = (let x = (if fe_isodd g = drop_bit 7 (s ! 31) then fe_neg g else g)
      in \<lparr>gX = x, gY = fe_frombytes s, gZ = fe_1, gT = fe_mul x (fe_frombytes s)\<rparr>)"
    using assms(1) ns unfolding ge_frombytes_neg_vartime_def Let_def f_def [symmetric] case_prod_beta g_def [symmetric] by simp
  have eq: "fe_isodd g = drop_bit 7 (s ! 31) \<longleftrightarrow> (odd ((?N * r) mod p25519) \<longleftrightarrow> bit (s ! 31) 7)"
    unfolding fe_isodd_correct [OF cg] top_bit by simp
  define x where "x = (if fe_isodd g = drop_bit 7 (s ! 31) then - (?N * r) else ?N * r)"
  have cx: "carried (if fe_isodd g = drop_bit 7 (s ! 31) then fe_neg g else g) x"
    unfolding x_def using cg fe_neg_correct [OF cg] by simp
  have xx: "x * x = ?N * r * (?N * r)" unfolding x_def by simp
  have "ge_holds h (x, y) 1"
    using cx cy fe_constants(2) fe_mul_correct [OF carried_usable [OF cx] carried_usable [OF cy]]
    by (simp add: ge_holds_def h Let_def)
  moreover have "on_curve (x, y)"
  proof -
    have "(x * x * ?D + (1 - x * x)) mod p25519 = (?N + (1 - x * x)) mod p25519"
      using sq unfolding xx [symmetric] by (rule mod_add_cong) simp
    moreover have "x * x * ?D + (1 - x * x) = 1 + ed_num * (x * x * (y * y))" "?N + (1 - x * x) = y * y - x * x"
      by (simp_all add: algebra_simps)
    ultimately show ?thesis unfolding on_curve_def prod.case by (simp only:)
  qed
  moreover have "odd (x mod p25519) \<longleftrightarrow> \<not> bit (s ! 31) 7"
    unfolding x_def eq using neg_parity [OF x0] by auto
  ultimately show ?thesis unfolding y_def by blast
qed

lemma euler_square:
  assumes "euler w" "X mod p25519 = (w * w) mod p25519" "X mod p25519 \<noteq> 0"
  shows "X ^ (2 ^ 253 - 5) mod p25519 = 1 mod p25519 \<or> X ^ (2 ^ 253 - 5) mod p25519 = (- 1) mod p25519"
proof -
  have "X ^ (2 ^ 253 - 5) mod p25519 = (w * w) ^ (2 ^ 253 - 5) mod p25519" using assms(2) by (metis power_mod)
  also have "(w * w) ^ (2 ^ 253 - 5) = w ^ (2 ^ 254 - 10)"
    using power_mult [of w 2 "2 ^ 253 - 5"] by (simp add: power2_eq_square)
  finally have e: "X ^ (2 ^ 253 - 5) mod p25519 = w ^ (2 ^ 254 - 10) mod p25519" .
  have "w mod p25519 \<noteq> 0" using assms(2,3) by (metis mod_mult_eq mult_zero_left mod_0)
  then show ?thesis using assms(1) unfolding e euler_def by blast
qed

lemma decode_accepts:
  assumes "32 \<le> length s" "((ed_y s * ed_y s - 1) * (ed_num * (ed_y s * ed_y s) + 1)) mod p25519 \<noteq> 0"
    "on_curve (x, ed_y s)" "euler (x * (ed_num * (ed_y s * ed_y s) + 1))"
  shows "ge_frombytes_neg_vartime s \<noteq> None"
proof -
  define y where "y = ed_y s"
  let ?N = "y * y - 1" and ?D = "y * y * ed_num + 1"
  define f where "f = fe_mul (fe_sub (fe_sq (fe_frombytes s)) fe_1) (fe_add (fe_mul (fe_sq (fe_frombytes s)) ed_d) fe_1)"
  have cy: "carried (fe_frombytes s) y"
    using fe_frombytes_correct [of "take 32 s"] frombytes_take [OF assms(1)] assms(1) by (simp add: y_def ed_y_def)
  have cf: "carried f (?N * ?D)" unfolding f_def using cy fe_constants ed_constants by (simp add: fe_ops)
  have nz: "(?N * ?D) mod p25519 \<noteq> 0" using assms(2) unfolding y_def [symmetric] by (simp add: mult.commute)
  have "?N mod p25519 = (x * x * ?D) mod p25519"
  proof -
    have "(y * y - x * x + (x * x - 1)) mod p25519 = (1 + ed_num * (x * x * (y * y)) + (x * x - 1)) mod p25519"
      using assms(3) unfolding on_curve_def prod.case y_def [symmetric] by (rule mod_add_cong) simp
    moreover have "y * y - x * x + (x * x - 1) = ?N" "1 + ed_num * (x * x * (y * y)) + (x * x - 1) = x * x * ?D" by (simp_all add: algebra_simps)
    ultimately show ?thesis by (simp only:)
  qed
  from mod_mult_cong [OF this refl, of ?D] have "(?N * ?D) mod p25519 = (x * ?D * (x * ?D)) mod p25519" by (simp add: ac_simps)
  moreover have "euler (x * ?D)" using assms(4) unfolding y_def [symmetric] by (simp add: mult.commute)
  ultimately have "fst (invsqrt f) = 1"
    using invsqrt_correct(2) [OF cf] euler_square [of "x * ?D" "?N * ?D"] nz by (simp only: if_True simp_thms)
  then show ?thesis unfolding ge_frombytes_neg_vartime_def Let_def f_def [symmetric] case_prod_beta by simp
qed

lemma low_xor: "n < 128 \<Longrightarrow> of_nat n XOR push_bit 7 (1 :: byte) = of_nat (n + 128)"
proof -
  assume "n < 128"
  moreover have "list_all (\<lambda>n. of_nat n XOR push_bit 7 (1 :: byte) = of_nat (n + 128)) [0..<128]" by code_simp
  ultimately show ?thesis by (simp add: list_all_iff)
qed

lemma tobytes_holds:
  assumes "ge_holds g (x, y) Z" "euler Z" "Z mod p25519 \<noteq> 0"
  shows "ge_tobytes g = le_bytes 32 (nat (y mod p25519) + (if odd (x mod p25519) then 2 ^ 255 else 0))"
proof -
  let ?i = "Z ^ (2 ^ 255 - 21)" and ?v = "nat (y mod p25519)"
  have c: "carried (gX g) (x * Z)" "carried (gY g) (y * Z)" "carried (gZ g) Z" using assms(1) by (simp_all add: ge_holds_def)
  have inv: "carried (fe_invert (gZ g)) ?i" by (rule fe_invert_correct [OF c(3) assms(2)])
  have "Z * ?i = Z ^ (2 ^ 254 - 10) * Z ^ (2 ^ 254 - 10)"
    using power_add [of Z "2 ^ 254 - 10" "2 ^ 254 - 10"] power_Suc [of Z "2 ^ 255 - 21"] by simp
  moreover have "(Z ^ (2 ^ 254 - 10) * Z ^ (2 ^ 254 - 10)) mod p25519 = 1 mod p25519"
    using assms(2,3) mod_mult_cong [of "Z ^ (2 ^ 254 - 10)" p25519 1 "Z ^ (2 ^ 254 - 10)" 1]
      mod_mult_cong [of "Z ^ (2 ^ 254 - 10)" p25519 "- 1" "Z ^ (2 ^ 254 - 10)" "- 1"] unfolding euler_def by fastforce
  ultimately have one: "(Z * ?i) mod p25519 = 1 mod p25519" by (simp only:)
  have xy: "(u * Z * ?i) mod p25519 = u mod p25519" for u
    using mod_mult_cong [OF refl one, of u] by (simp only: mult.assoc mult_1_right)
  have cx: "carried (fe_mul (gX g) (fe_invert (gZ g))) x" "carried (fe_mul (gY g) (fe_invert (gZ g))) y"
    using fe_mul_correct [OF carried_usable [OF c(1)] carried_usable [OF inv]] fe_mul_correct [OF carried_usable [OF c(2)] carried_usable [OF inv]]
      xy carried_cong by blast+
  have lt: "?v < 2 ^ 255"
  proof -
    have "y mod p25519 < p25519" by (simp add: p25519_def)
    then have "y mod p25519 < 2 ^ 255" by (simp add: p25519_def)
    then show ?thesis by simp
  qed
  then have "?v div 256 ^ 31 < 128" by (intro less_mult_imp_div_less) simp
  then have ob: "of_nat (?v div 256 ^ 31) XOR push_bit 7 (1 :: byte) = of_nat (?v div 256 ^ 31 + 128)"
    by (rule low_xor)
  have e: "le_bytes 32 w = le_bytes 31 w @ [of_nat (w div 256 ^ 31)]" for w using le_bytes_add [of 31 1 w] by simp
  have "le_bytes 31 (?v + 2 ^ 255) = le_bytes 31 ?v"
  proof -
    have "(?v + 2 ^ 255) mod 256 ^ 31 = ?v mod 256 ^ 31" using mod_mult_self2 [of ?v "256 ^ 31" 128] by simp
    then show ?thesis by (metis le_bytes_mod)
  qed
  moreover have "(?v + 2 ^ 255) div 256 ^ 31 = ?v div 256 ^ 31 + 128" using div_mult_self2 [of "256 ^ 31" ?v 128] by simp
  ultimately have s: "le_bytes 32 (?v + 2 ^ 255) = le_bytes 31 ?v @ [of_nat (?v div 256 ^ 31 + 128)]" unfolding e by (simp only:)
  have "ge_tobytes g = (le_bytes 32 ?v)[31 := le_bytes 32 ?v ! 31 XOR push_bit 7 (if odd (x mod p25519) then 1 else 0)]"
    by (simp only: ge_tobytes_def Let_def fe_tobytes_correct [OF cx(2)] fe_isodd_correct [OF cx(1)])
  also have "\<dots> = le_bytes 31 ?v @ [of_nat (?v div 256 ^ 31) XOR push_bit 7 (if odd (x mod p25519) then 1 else 0)]"
    unfolding e by (simp add: nth_append list_update_append)
  also have "\<dots> = le_bytes 32 (?v + (if odd (x mod p25519) then 2 ^ 255 else 0))"
    using ob s e [of ?v] by (cases "odd (x mod p25519)") (simp_all only: if_True if_False, simp_all)
  finally show ?thesis .
qed

section \<open>The properties\<close>

text \<open>C36. The point formulas of the signature code are the addition law of the curve.  If two points of
  the code hold the affine points \<open>P\<close> and \<open>Q\<close>, then \<open>ge_add\<close>, \<open>ge_sub\<close> and \<open>ge_double\<close> hold their sum,
  difference and double (\<open>P\<close> on the curve for the dedicated doubling), with the stated
  denominators, and no limb exceeds the bounds of the multiplications.\<close>

theorem edwards_formulas:
  assumes "ge_holds p P Z" "ge_holds q Q W" "edwards P Q R" "edwards P (ed_neg Q) S" "edwards P P T" "on_curve P"
  shows "ge_holds (ge_add p (ge_cache q)) R (4 * (Z * W) ^ 2 * (1 - ed_product P Q) * (1 + ed_product P Q))
    \<and> ge_holds (ge_sub p (ge_cache q)) S (4 * (Z * W) ^ 2 * (1 - ed_product P (ed_neg Q)) * (1 + ed_product P (ed_neg Q)))
    \<and> ge_holds (ge_double p) T (Z ^ 4 * (1 - ed_product P P) * (1 + ed_product P P))"
  using ge_add_holds [OF assms(1) cache_holds [OF assms(2)] assms(3)] ge_sub_holds [OF assms(1) cache_holds [OF assms(2)] assms(4)]
    ge_double_holds [OF assms(1,6,5)] by blast

text \<open>The point \<open>(i, 0)\<close> of order four: twice it is \<open>(0, -1)\<close>, and it minus itself is \<open>(0, 1)\<close>.\<close>

definition quarter_point :: ge where
  "quarter_point = \<lparr>gX = sqrtm1, gY = fe_0, gZ = fe_1, gT = fe_0\<rparr>"

lemma quarter_point_holds:
  "ge_holds quarter_point (i25519, 0) 1" "on_curve (i25519, 0)"
  "edwards (i25519, 0) (i25519, 0) (0, - 1)" "edwards (i25519, 0) (ed_neg (i25519, 0)) (0, 1)"
proof -
  show "ge_holds quarter_point (i25519, 0) 1"
    using sqrtm1_correct(1) fe_constants by (simp add: ge_holds_def quarter_point_def)
  have m: "(i25519 * i25519) mod p25519 = (- 1) mod p25519" by (rule sqrtm1_correct(2))
  have n: "(- (i25519 * i25519)) mod p25519 = 1 mod p25519" using mod_diff_cong [OF refl m, of 0] by simp
  show "on_curve (i25519, 0)" using n by (simp add: on_curve_def)
  show "edwards (i25519, 0) (i25519, 0) (0, - 1)" using m by (simp add: edwards_def ed_product_def)
  show "edwards (i25519, 0) (ed_neg (i25519, 0)) (0, 1)" using n by (simp add: edwards_def ed_product_def ed_neg_def)
qed

theorem edwards_formulas_witness:
  "ge_holds (ge_add quarter_point (ge_cache quarter_point)) (0, - 1) 4
    \<and> ge_holds (ge_sub quarter_point (ge_cache quarter_point)) (0, 1) 4
    \<and> ge_holds (ge_double quarter_point) (0, - 1) 1"
  using edwards_formulas [OF quarter_point_holds(1,1,3,4,3,2)] by (simp add: ed_product_def)

text \<open>C37. Point decoding is exact.  Whatever \<open>ge_frombytes_neg_vartime\<close> accepts is the negative of a
  point on the curve: its \<open>y\<close> is the encoded one, its \<open>x\<close> has the parity opposite to the sign bit.  And
  every encoded \<open>y\<close> that belongs to a point of the curve is accepted (where Euler's criterion holds,
  which it does for every number modulo a prime).  The zeros of the radicand, \<open>y\<close> equal to plus or minus
  one, are left out.\<close>

theorem decode_exact:
  assumes "32 \<le> length s" "((ed_y s * ed_y s - 1) * (ed_num * (ed_y s * ed_y s) + 1)) mod p25519 \<noteq> 0"
  shows "(ge_frombytes_neg_vartime s = None
      \<or> (\<exists>h x. ge_frombytes_neg_vartime s = Some h \<and> ge_holds h (x, ed_y s) 1 \<and> on_curve (x, ed_y s)
          \<and> (odd (x mod p25519) \<longleftrightarrow> \<not> bit (s ! 31) 7)))
    \<and> (\<forall>x. on_curve (x, ed_y s) \<longrightarrow> euler (x * (ed_num * (ed_y s * ed_y s) + 1)) \<longrightarrow> ge_frombytes_neg_vartime s \<noteq> None)"
  using decode_holds [OF _ assms] decode_accepts [OF assms] by (cases "ge_frombytes_neg_vartime s") auto

lemma euler_i: "euler i25519"
proof -
  have "i25519 ^ (2 ^ 254 - 10) = (i25519 * i25519) ^ (2 ^ 253 - 5)"
    using power_mult [of i25519 2 "2 ^ 253 - 5"] by (simp add: power2_eq_square)
  moreover have "(i25519 * i25519) ^ (2 ^ 253 - 5) mod p25519 = (- 1) ^ (2 ^ 253 - 5) mod p25519"
    using sqrtm1_correct(2) by (metis power_mod)
  moreover have "(- 1 :: int) ^ (2 ^ 253 - 5) = - 1" by simp
  ultimately show ?thesis unfolding euler_def by (simp only: simp_thms)
qed

theorem decode_exact_witness:
  "\<exists>h x. ge_frombytes_neg_vartime (replicate 32 0) = Some h \<and> ge_holds h (x, 0) 1 \<and> on_curve (x, 0) \<and> odd (x mod p25519)"
proof -
  have y: "ed_y (replicate 32 0) = 0" by (simp add: ed_y_def)
  have b: "\<not> bit (replicate 32 (0 :: byte) ! 31) 7" by simp
  have "(- 1 :: int) mod p25519 \<noteq> 0" by (simp add: p25519_def)
  then show ?thesis
    using decode_exact [of "replicate 32 0"] quarter_point_holds(2) euler_i b unfolding y by auto
qed

end
