(* ===== verification/Edslide.thy ===== *)
theory Edslide
  imports Edcurve
begin

text \<open>
  The signed sliding windows of \<open>crypto_eddsa_check_equation\<close> (\<open>slide_init\<close>, \<open>slide_step\<close>): the digits the two
  scalars are recoded to on the fly.  The lemmas show that the digits, read with their powers of two,
  are the scalar, and that every digit is odd and small enough to index its table.
\<close>

section \<open>The digits\<close>

text \<open>The digits at the positions \<open>n - 1\<close> down to 0, and their value.\<close>

primrec slide_digits :: "int \<Rightarrow> byte list \<Rightarrow> nat \<Rightarrow> slide_ctx \<Rightarrow> int list" where
  "slide_digits width s 0 ctx = []"
| "slide_digits width s (Suc i) ctx =
     (let (d, ctx) = slide_step width (int i) s ctx in d # slide_digits width s i ctx)"

primrec digits_value :: "int list \<Rightarrow> int" where
  "digits_value [] = 0"
| "digits_value (d # ds) = d * 2 ^ length ds + digits_value ds"

definition small_digit :: "int \<Rightarrow> int \<Rightarrow> bool" where
  "small_digit width d \<longleftrightarrow> d = 0 \<or> odd d \<and> \<bar>d\<bar> < 2 ^ nat (width - 1)"

text \<open>What the loop of the verification does with them: double, then add the two digits' table entries.\<close>

fun horner :: "ge_cached list \<Rightarrow> int list \<Rightarrow> int list \<Rightarrow> ge \<Rightarrow> ge" where
  "horner lut (a # as) (b # bs) acc = horner lut as bs (add_digits lut a b (ge_double acc))"
| "horner lut _ _ acc = acc"

lemma check_loop_horner:
  "check_loop lut h s n hc sc acc = horner lut (slide_digits P_W_WIDTH h n hc) (slide_digits B_W_WIDTH s n sc) acc"
  by (induction n arbitrary: hc sc acc) (simp_all add: Let_def case_prod_beta)

lemma length_slide_digits [simp]: "length (slide_digits width s n ctx) = n"
  by (induction n arbitrary: ctx) (simp_all add: Let_def case_prod_beta)

section \<open>One window\<close>

definition nbit :: "nat \<Rightarrow> int \<Rightarrow> int" where
  "nbit S i = (if 0 \<le> i \<and> bit S (nat i) then 1 else 0)"

lemma scalar_bit_nbit: "length s = 32 \<Longrightarrow> i < 256 \<Longrightarrow> sint (scalar_bit s i) = nbit (le_num s) i"
  using scalar_bit_num [of "nat i" s] by (cases "0 \<le> i") (simp_all add: nbit_def scalar_bit_def [of s i])

lemma scalar_bit_eq: "length s = 32 \<Longrightarrow> i < 256 \<Longrightarrow> j < 256 \<Longrightarrow> scalar_bit s i = scalar_bit s j \<longleftrightarrow> nbit (le_num s) i = nbit (le_num s) j"
  using scalar_bit_nbit [of s i] scalar_bit_nbit [of s j] by (metis sint_up_scast signed_word_eqI)

text \<open>\<open>high S c\<close>: the part of the scalar above position \<open>c\<close>, with the bit at \<open>c\<close> carried in.\<close>

definition high :: "nat \<Rightarrow> int \<Rightarrow> int" where
  "high S c = int (drop_bit (nat (c + 1)) S) + nbit S c"

lemma window_bits:
  assumes "length s = 32" "0 \<le> a" "a + int m \<le> 256"
  shows "fold (\<lambda>j v. v + push_bit j (sint (scalar_bit s (a + int j)))) [0..<m] v0 = v0 + int (take_bit m (drop_bit (nat a) (le_num s)))"
  using assms(3)
proof (induction m)
  case (Suc m)
  have "push_bit m (sint (scalar_bit s (a + int m))) = int (2 ^ m * of_bool (bit (drop_bit (nat a) (le_num s)) m))"
    using scalar_bit_nbit [OF assms(1), of "a + int m"] Suc.prems assms(2)
    by (simp add: nbit_def bit_simps push_bit_eq_mult nat_add_distrib)
  then show ?case using Suc by (simp add: take_bit_Suc_from_most)
qed simp

lemma slide_value_high:
  assumes "length s = 32" "1 \<le> w" "w \<le> i + 1" "i < 255"
  shows "high (le_num s) (i - w) = 2 ^ nat w * high (le_num s) i + slide_value s i w"
    "\<bar>slide_value s i w\<bar> \<le> 2 ^ nat (w - 1)"
proof -
  let ?S = "le_num s" and ?a = "i - (w - 1)"
  define m where "m = nat (w - 1)"
  have w: "nat w = Suc m" "w - 1 = int m" using assms(2) by (simp_all add: m_def)
  let ?low = "take_bit m (drop_bit (nat ?a) ?S)"
  have v: "slide_value s i w = - (2 ^ m * nbit ?S i) + int ?low + nbit ?S (i - w)"
  proof -
    have le: "0 \<le> ?a" "?a + int m \<le> 256" using assms(2-4) by (simp_all add: m_def)
    have b: "sint (scalar_bit s i) = nbit ?S i" "sint (scalar_bit s (i - w)) = nbit ?S (i - w)"
      using scalar_bit_nbit [OF assms(1), of i] scalar_bit_nbit [OF assms(1), of "i - w"] assms(2,4) by simp_all
    show ?thesis
      unfolding slide_value_def m_def [symmetric] Let_def window_bits [OF assms(1) le] b by (simp add: push_bit_eq_mult mult.commute)
  qed
  have na: "nat ?a + m = nat i" "nat ?a = nat (i - w + 1)" "nat ?a + Suc m = nat (i + 1)" using assms(2,3) by (simp_all add: m_def)
  have "drop_bit (nat ?a) ?S = 2 ^ Suc m * drop_bit (nat (i + 1)) ?S + take_bit (Suc m) (drop_bit (nat ?a) ?S)"
    using mult_div_mod_eq [of "2 ^ Suc m" "drop_bit (nat ?a) ?S"] na(3)
    by (simp only: take_bit_eq_mod drop_bit_eq_div div_mult2_eq [symmetric] power_add [symmetric])
  moreover have "bit (drop_bit (nat ?a) ?S) m = bit ?S (nat i)" using na(1) by (simp add: bit_simps)
  ultimately have "drop_bit (nat ?a) ?S = 2 ^ Suc m * drop_bit (nat (i + 1)) ?S + (2 ^ m * of_bool (bit ?S (nat i)) + ?low)"
    by (simp only: take_bit_Suc_from_most)
  from arg_cong [OF this, of int]
  have d: "int (drop_bit (nat ?a) ?S) = 2 ^ Suc m * int (drop_bit (nat (i + 1)) ?S) + 2 ^ m * nbit ?S i + int ?low"
    using assms(2,3) by (simp add: nbit_def)
  show "high ?S (i - w) = 2 ^ nat w * high ?S i + slide_value s i w"
    unfolding high_def v w(1) na(2) [symmetric] d by (simp add: algebra_simps)
  have "int ?low < 2 ^ m" using take_bit_nat_less_exp [of m "drop_bit (nat ?a) ?S"] by (metis of_nat_less_numeral_power_cancel_iff)
  moreover have "\<bar>- (2 ^ m * x) + l + y\<bar> \<le> 2 ^ m" if "0 \<le> l" "l < 2 ^ m" "x \<in> {0, 1}" "y \<in> {0, 1}" for l x y :: int
    using that by auto
  ultimately show "\<bar>slide_value s i w\<bar> \<le> 2 ^ nat (w - 1)"
    unfolding v m_def [symmetric] by (simp add: nbit_def)
qed

lemma slide_shift_exact:
  assumes "v \<noteq> 0" "\<bar>v\<bar> \<le> 16"
  shows "v = drop_bit (slide_shift v) v * 2 ^ slide_shift v" "odd (drop_bit (slide_shift v) v)"
proof -
  have "list_all (\<lambda>v. v = 0 \<or> v = drop_bit (slide_shift v) v * 2 ^ slide_shift v \<and> odd (drop_bit (slide_shift v) v)) [-16..16]"
    unfolding slide_shift_def by code_simp
  moreover have "v \<in> set [-16..16]" unfolding set_upto atLeastAtMost_iff using assms(2) by linarith
  ultimately show "v = drop_bit (slide_shift v) v * 2 ^ slide_shift v" "odd (drop_bit (slide_shift v) v)"
    using assms(1) by (auto simp: list_all_iff)
qed

section \<open>All windows\<close>

text \<open>The state before position \<open>n - 1\<close>: no window starts above \<open>c\<close>, and a digit that is pending lies
  between \<open>c\<close> and \<open>n\<close>.\<close>

definition slide_ok :: "int \<Rightarrow> nat \<Rightarrow> int \<Rightarrow> slide_ctx \<Rightarrow> bool" where
  "slide_ok width n c ctx \<longleftrightarrow> - 1 \<le> c \<and> c < int n \<and> next_check ctx = of_int c
     \<and> (0 \<le> next_index ctx \<and> next_index ctx < int n \<longrightarrow> c < next_index ctx \<and> small_digit width (next_digit ctx))"

definition pending :: "nat \<Rightarrow> slide_ctx \<Rightarrow> int" where
  "pending n ctx = (if 0 \<le> next_index ctx \<and> next_index ctx < int n then next_digit ctx * 2 ^ nat (next_index ctx) else 0)"

lemma check_position:
  assumes "next_check ctx = of_int c" "- 1 \<le> c" "c < int n" "i < 255" "n \<le> 255"
  shows "int i = uint (next_check ctx) \<longleftrightarrow> int i = c"
proof (cases "c = - 1")
  case True
  then have "uint (next_check ctx) = 255" using assms(1) by (simp add: unsigned_minus_1_eq_mask mask_numeral)
  then show ?thesis using True assms(4) by simp
next
  case False
  then have "uint (next_check ctx) = c" using assms by (simp add: uint_word_of_int_eq take_bit_int_eq_self)
  then show ?thesis by simp
qed

text \<open>A window that starts where two bits differ is not zero.\<close>

lemma window_nonzero:
  assumes "length s = 32" "nbit (le_num s) i \<noteq> nbit (le_num s) (i - 1)" "1 \<le> w" "w \<le> i + 1" "i < 255"
  shows "slide_value s i w \<noteq> 0"
proof
  assume z: "slide_value s i w = 0"
  have "high (le_num s) (i - 1) = 2 * high (le_num s) i + (nbit (le_num s) (i - 1) - nbit (le_num s) i)"
    using slide_value_high(1) [OF assms(1), of 1 i] assms(3-5) scalar_bit_nbit [OF assms(1), of i] scalar_bit_nbit [OF assms(1), of "i - 1"]
    by (simp add: slide_value_def)
  then have d: "high (le_num s) (i - 1) \<noteq> 2 * high (le_num s) i" using assms(2) by simp
  have e: "high (le_num s) (i - w) = 2 ^ nat w * high (le_num s) i" using slide_value_high(1) [OF assms(1,3,4,5)] z by simp
  show False
  proof (cases "w = 1")
    case True
    then show ?thesis using d e by simp
  next
    case False
    then have w: "1 \<le> w - 1" "w - 1 \<le> i - 1 + 1" "i - 1 < 255" "nat w = Suc (nat (w - 1))" using assms(3-5) by simp_all
    have f: "high (le_num s) (i - w) = 2 ^ nat (w - 1) * high (le_num s) (i - 1) + slide_value s (i - 1) (w - 1)"
      "\<bar>slide_value s (i - 1) (w - 1)\<bar> \<le> 2 ^ nat (w - 1 - 1)"
      using slide_value_high [OF assms(1) w(1-3)] by simp_all
    have "slide_value s (i - 1) (w - 1) = 2 ^ nat (w - 1) * (2 * high (le_num s) i - high (le_num s) (i - 1))"
      using e f(1) unfolding w(4) by (simp add: algebra_simps)
    moreover have "1 \<le> \<bar>2 * high (le_num s) i - high (le_num s) (i - 1)\<bar>" using d by simp
    ultimately have "2 ^ nat (w - 1) * 1 \<le> \<bar>slide_value s (i - 1) (w - 1)\<bar>"
      unfolding abs_mult by (simp add: abs_mult)
    also have "\<dots> \<le> 2 ^ nat (w - 1 - 1)" by (rule f(2))
    also have "\<dots> < (2 :: int) ^ nat (w - 1)" using w(1) by (intro power_strict_increasing) simp_all
    finally show False by simp
  qed
qed

lemma window_step:
  assumes "length s = 32" "2 \<le> width" "width \<le> 5" "i < 255"
    "nbit (le_num s) (int i) \<noteq> nbit (le_num s) (int i - 1)"
  defines "w \<equiv> min width (int i + 1)"
  defines "v \<equiv> slide_value s (int i) w"
  defines "k \<equiv> int i - (w - 1) + int (slide_shift v)" and "d \<equiv> drop_bit (slide_shift v) v"
  shows "int i - w < k" "k \<le> int i" "small_digit width d" "\<bar>d\<bar> \<le> 16" "1 \<le> w" "w \<le> int i + 1"
    "2 ^ nat (int i + 1) * high (le_num s) (int i) + d * 2 ^ nat k = 2 ^ nat (int i - w + 1) * high (le_num s) (int i - w)"
proof -
  let ?S = "le_num s" and ?i = "int i"
  show w1: "1 \<le> w" and w2: "w \<le> ?i + 1" using assms(2) by (simp_all add: w_def)
  have i: "?i < 255" using assms(4) by simp
  note hv = slide_value_high [OF assms(1) w1 w2 i, folded v_def]
  have "(2 :: int) ^ nat (w - 1) \<le> 2 ^ 4" using assms(3) by (intro power_increasing) (simp_all add: w_def)
  then have v16: "\<bar>v\<bar> \<le> 16" using hv(2) by simp
  have v0: "v \<noteq> 0" unfolding v_def by (rule window_nonzero [OF assms(1,5) w1 w2 i])
  note sh = slide_shift_exact [OF v0 v16, folded d_def]
  have "\<bar>d * 2 ^ slide_shift v\<bar> = \<bar>d\<bar> * 2 ^ slide_shift v" by (simp add: abs_mult)
  then have a: "\<bar>v\<bar> = \<bar>d\<bar> * 2 ^ slide_shift v" unfolding sh(1) [symmetric] .
  have "d \<noteq> 0" using sh(2) by auto
  then have "1 * 2 ^ slide_shift v \<le> \<bar>d\<bar> * 2 ^ slide_shift v" by (intro mult_right_mono) simp_all
  then have le: "2 ^ slide_shift v \<le> \<bar>v\<bar>" unfolding a [symmetric] by simp
  then have "(2 :: int) ^ slide_shift v \<le> 2 ^ nat (w - 1)" using hv(2) by (rule order_trans)
  then have s1: "int (slide_shift v) \<le> w - 1" using w1 by (simp add: le_nat_iff)
  show "?i - w < k" "k \<le> ?i" using s1 by (simp_all add: k_def)
  have "\<bar>d\<bar> * 1 \<le> \<bar>d\<bar> * 2 ^ slide_shift v" by (intro mult_left_mono) simp_all
  then have ad: "\<bar>d\<bar> \<le> \<bar>v\<bar>" unfolding a [symmetric] by simp
  then show "\<bar>d\<bar> \<le> 16" using v16 by simp
  have "(2 :: int) ^ nat (w - 1) \<le> 2 ^ nat (width - 1)" by (intro power_increasing) (simp_all add: w_def)
  then have dw: "\<bar>d\<bar> \<le> 2 ^ nat (width - 1)" using ad hv(2) by linarith
  have "\<bar>d\<bar> \<noteq> 2 ^ nat (width - 1)"
  proof
    assume "\<bar>d\<bar> = 2 ^ nat (width - 1)"
    moreover have "even ((2 :: int) ^ nat (width - 1))" using assms(2) by simp
    ultimately show False using sh(2) by (metis dvd_abs_iff)
  qed
  with dw sh(2) show "small_digit width d" by (simp add: small_digit_def)
  have k: "nat k = nat (?i - w + 1) + slide_shift v" using w2 by (simp add: k_def nat_add_distrib)
  have p: "nat (?i + 1) = nat (?i - w + 1) + nat w" using w1 w2 by (simp add: nat_add_distrib [symmetric])
  have "d * 2 ^ nat k = 2 ^ nat (?i - w + 1) * v" using sh(1) unfolding k power_add by (simp add: ac_simps)
  then show "2 ^ nat (?i + 1) * high ?S ?i + d * 2 ^ nat k = 2 ^ nat (?i - w + 1) * high ?S (?i - w)"
    unfolding hv(1) p power_add by (simp add: algebra_simps)
qed

text \<open>One step keeps the invariant, and what is pending plus what is above the next window changes by
  the digit the step returns.\<close>

lemma slide_step_ok:
  assumes "length s = 32" "2 \<le> width" "width \<le> 5" "n = Suc i" "n \<le> 255" "slide_ok width n c ctx"
    and step: "slide_step width (int i) s ctx = (d, ctx')"
  shows "\<exists>c'. slide_ok width i c' ctx' \<and> small_digit width d
    \<and> pending n ctx - 2 ^ nat (c + 1) * high (le_num s) c = d * 2 ^ i + pending i ctx' - 2 ^ nat (c' + 1) * high (le_num s) c'"
proof (cases "int i = c")
  case False
  have ok: "- 1 \<le> c" "c < int i" "next_check ctx = of_int c"
    "0 \<le> next_index ctx \<Longrightarrow> next_index ctx < int n \<Longrightarrow> c < next_index ctx \<and> small_digit width (next_digit ctx)"
    using assms(4,6) False by (auto simp: slide_ok_def)
  have "\<not> int i = uint (next_check ctx)" using check_position [OF ok(3,1), of n i] ok(2) False assms(4,5) by simp
  then have e: "ctx' = ctx" "d = (if int i = next_index ctx then next_digit ctx else 0)"
    using step by (auto simp: slide_step_def)
  have "small_digit width d" using ok(4) assms(4) by (auto simp: e(2) small_digit_def)
  moreover have "pending n ctx = d * 2 ^ i + pending i ctx" using assms(4) by (auto simp: e(2) pending_def)
  moreover have "slide_ok width i c ctx" using ok assms(4) by (simp add: slide_ok_def)
  ultimately show ?thesis unfolding e(1) by (intro exI [of _ c]) simp
next
  case c: True
  have ok: "next_check ctx = of_int c" "\<not> (0 \<le> next_index ctx \<and> next_index ctx < int n)"
    using assms(4,6) c by (auto simp: slide_ok_def)
  have i: "i < 255" using assms(4,5) by simp
  have eq: "int i = uint (next_check ctx)" using check_position [OF ok(1), of n i] c assms(4,5) by simp
  have p0: "pending n ctx = 0" using ok(2) unfolding pending_def by (simp only: if_False)
  show ?thesis
  proof (cases "nbit (le_num s) (int i) = nbit (le_num s) (int i - 1)")
    case True
    then have "scalar_bit s (int i) = scalar_bit s (int i - 1)" using scalar_bit_eq [OF assms(1), of "int i" "int i - 1"] i by simp
    then have e: "ctx' = ctx\<lparr>next_check := next_check ctx - 1\<rparr>" "d = 0"
      using step eq ok(2) assms(4) by (auto simp: slide_step_def)
    have "high (le_num s) (int i - 1) = 2 * high (le_num s) (int i)"
      using slide_value_high(1) [OF assms(1), of 1 "int i"] i True scalar_bit_nbit [OF assms(1), of "int i"] scalar_bit_nbit [OF assms(1), of "int i - 1"]
      by (simp add: slide_value_def)
    moreover have "nat (int i + 1) = Suc i" by simp
    ultimately have "2 ^ nat (int i - 1 + 1) * high (le_num s) (int i - 1) = 2 ^ nat (c + 1) * high (le_num s) c" by (simp add: c [symmetric])
    moreover have "slide_ok width i (int i - 1) ctx'" "pending i ctx' = 0"
      using ok assms(4) c by (auto simp: slide_ok_def e(1) pending_def)
    ultimately show ?thesis using p0 e(2) by (intro exI [of _ "int i - 1"]) (simp add: small_digit_def)
  next
    case False
    define w v where "w = min width (int i + 1)" and "v = slide_value s (int i) w"
    define k t where "k = int i - (w - 1) + int (slide_shift v)" and "t = drop_bit (slide_shift v) v"
    note ws = window_step [OF assms(1-3) i False, folded w_def, folded v_def, folded k_def t_def]
    have ne: "scalar_bit s (int i) \<noteq> scalar_bit s (int i - 1)" using scalar_bit_eq [OF assms(1), of "int i" "int i - 1"] i False by simp
    have st: "signed_take_bit 15 k = k" "signed_take_bit 7 t = t"
      using ws(1,2,4,6) i by (simp_all add: signed_take_bit_int_eq_self)
    have e: "ctx' = ctx\<lparr>next_index := k, next_digit := t, next_check := next_check ctx - of_int w\<rparr>"
      "d = (if int i = k then t else 0)"
      using step [unfolded slide_step_def Let_def if_P [OF eq] if_not_P [OF ne], folded w_def, folded v_def, folded k_def t_def, unfolded st]
      by auto
    have "small_digit width d" using ws(3) by (simp add: e(2) small_digit_def)
    moreover have "slide_ok width i (int i - w) ctx'" using ws(1,3,5,6) ok(1) c by (simp add: slide_ok_def e(1))
    moreover have "d * 2 ^ i + pending i ctx' = t * 2 ^ nat k" using ws(1,2,6) by (auto simp: e pending_def)
    moreover have "2 ^ nat (c + 1) * high (le_num s) c + t * 2 ^ nat k = 2 ^ nat (int i - w + 1) * high (le_num s) (int i - w)"
      using ws(7) by (simp add: c)
    ultimately show ?thesis using p0 by (intro exI [of _ "int i - w"]) (simp add: algebra_simps)
  qed
qed

lemma slide_digits_value:
  assumes "length s = 32" "2 \<le> width" "width \<le> 5" "n \<le> 255" "slide_ok width n c ctx"
  shows "digits_value (slide_digits width s n ctx) = pending n ctx + int (le_num s) - 2 ^ nat (c + 1) * high (le_num s) c
    \<and> list_all (small_digit width) (slide_digits width s n ctx)"
  using assms(4,5)
proof (induction n arbitrary: c ctx)
  case 0
  then have "c = - 1" by (simp add: slide_ok_def)
  then show ?case by (simp add: pending_def high_def nbit_def)
next
  case (Suc i)
  obtain d ctx' where st: "slide_step width (int i) s ctx = (d, ctx')" by fastforce
  obtain c' where c': "slide_ok width i c' ctx'" "small_digit width d"
    "pending (Suc i) ctx - 2 ^ nat (c + 1) * high (le_num s) c = d * 2 ^ i + pending i ctx' - 2 ^ nat (c' + 1) * high (le_num s) c'"
    using slide_step_ok [OF assms(1-3) refl Suc.prems st] by blast
  show ?case using Suc.IH [OF _ c'(1)] Suc.prems(1) c'(2,3) st by (simp add: Let_def)
qed

lemma slide_top_bits: "slide_top s n \<le> n \<and> (\<forall>j. slide_top s n < j \<and> j \<le> n \<longrightarrow> scalar_bit s (int j) = 0)"
  by (induction n) (auto simp: le_Suc_eq)

lemma slide_init_ok:
  assumes "length s = 32" "le_num s < 2 ^ 253"
  defines "c \<equiv> int (slide_top s 252) + 1"
  shows "c \<le> 253" "uint (next_check (slide_init s)) = c" "c < int n \<Longrightarrow> slide_ok width n c (slide_init s)"
    "pending n (slide_init s) = 0" "high (le_num s) c = 0"
proof -
  let ?t = "slide_top s 252"
  have t: "?t \<le> 252" "\<And>j. ?t < j \<Longrightarrow> j \<le> 252 \<Longrightarrow> scalar_bit s (int j) = 0" using slide_top_bits [of s 252] by auto
  show c: "c \<le> 253" using t(1) by (simp add: c_def)
  have ini: "slide_init s = \<lparr>next_index = - 1, next_digit = - 1, next_check = of_nat (?t + 1)\<rparr>" by (simp add: slide_init_def Let_def)
  have ch: "next_check (slide_init s) = of_int c" by (simp add: ini c_def)
  show "uint (next_check (slide_init s)) = c" unfolding ch uint_word_of_int_eq using c
    by (intro take_bit_int_eq_self) (simp_all add: c_def)
  show "c < int n \<Longrightarrow> slide_ok width n c (slide_init s)" unfolding slide_ok_def ch by (simp add: ini c_def)
  show "pending n (slide_init s) = 0" by (simp add: pending_def ini)
  have z: "\<not> bit (le_num s) j" if "?t < j" for j
  proof (cases "j \<le> 252")
    case True
    then show ?thesis using t(2) [OF that True] scalar_bit_num [of j s] assms(1) by (simp split: if_splits)
  next
    case False
    then have "le_num s < 2 ^ j" using assms(2) power_increasing [of 253 j "2 :: nat"] by simp
    then show ?thesis by (simp add: bit_iff_odd)
  qed
  have "drop_bit (nat (c + 1)) (le_num s) = 0" using z by (intro bit_eqI) (simp add: bit_simps c_def)
  moreover have "nbit (le_num s) c = 0" using z by (simp add: nbit_def c_def)
  ultimately show "high (le_num s) c = 0" by (simp add: high_def)
qed

text \<open>C38. The sliding windows recode a scalar exactly.  For every scalar below \<open>2 ^ 253\<close> and a window width
  from 2 to 5, the digits \<open>slide_step\<close> returns from any start above the top bit down to position 0
  have the scalar as their value, and each is zero or odd and below half the window, so that
  half of it indexes the table of \<open>2 ^ (width - 2)\<close> points.\<close>

theorem slide_recodes:
  assumes "length s = 32" "le_num s < 2 ^ 253" "2 \<le> width" "width \<le> 5"
    "unat (next_check (slide_init s)) < n" "n \<le> 255"
  shows "digits_value (slide_digits width s n (slide_init s)) = int (le_num s)
    \<and> list_all (\<lambda>d. d = 0 \<or> odd d \<and> \<bar>d\<bar> < 2 ^ nat (width - 1)) (slide_digits width s n (slide_init s))"
proof -
  let ?c = "int (slide_top s 252) + 1"
  note ini = slide_init_ok [OF assms(1,2)]
  have "?c < int n" using ini(2) assms(5) by (simp add: unat_eq_nat_uint)
  from slide_digits_value [OF assms(1,3,4,6) ini(3) [OF this]]
  show ?thesis unfolding ini(4,5) small_digit_def [symmetric] by (simp add: small_digit_def [abs_def])
qed

theorem slide_recodes_witness:
  "digits_value (slide_digits 5 (77 # replicate 31 0) 9 (slide_init (77 # replicate 31 0))) = 77"
proof -
  let ?s = "77 # replicate 31 0 :: byte list"
  have v: "le_num ?s = 77" by simp
  have "unat (next_check (slide_init ?s)) < 9"
  proof -
    have z: "scalar_bit ?s (int j) = 0" if "7 \<le> j" "j \<le> 252" for j
    proof -
      have "(2 :: nat) ^ 7 \<le> 2 ^ j" using that(1) by (intro power_increasing) simp_all
      then have "\<not> bit (77 :: nat) j" by (simp add: bit_iff_odd)
      then show ?thesis using that(2) scalar_bit_num [of j ?s] unfolding v by simp
    qed
    have "slide_top ?s j \<le> 7" if "j \<le> 252" for j using that
    proof (induction j)
      case (Suc j)
      then show ?case using z [of "Suc j"] by (cases "7 \<le> Suc j") auto
    qed simp
    from this [of 252] show ?thesis using slide_init_ok(2) [of ?s] unfolding v by (simp add: unat_eq_nat_uint)
  qed
  then show ?thesis using slide_recodes [of ?s 5 9] v by simp
qed

end
