(* ===== verification/Edsign.thy ===== *)
theory Edsign
  imports Edslide
begin

text \<open>
  Signing and verification of \<open>crypto/monocypher-ed25519.c\<close> against RFC 8032: the bytes that are hashed, the
  scalar equation of a signature, and the group equation the verification evaluates, with the digits
  of the two scalars.
\<close>

section \<open>Hashing\<close>

lemma hash_reduce_spec: "hash_reduce a b c d = le_bytes 32 (le_num (sha512_spec (a @ b @ c @ d)) mod Lnum)"
proof -
  have "hash_reduce a b c d = crypto_eddsa_reduce (crypto_sha512_final (fold crypto_sha512_update [a, b, c, d] (crypto_sha512_init sha512_ctx0)))"
    by (simp add: hash_reduce_def Let_def)
  then show ?thesis unfolding sha512_pieces by (simp add: reduce_correct)
qed

lemma Lnum_less: "0 < Lnum" "Lnum < 2 ^ 253" "Lnum < 256 ^ 32"
  by (simp_all add: Lnum_def)

lemma le_num_mod_L: "le_num (le_bytes 32 (v mod Lnum)) = v mod Lnum"
  using le_num_bytes_less [of "v mod Lnum" 32] mod_less_divisor [OF Lnum_less(1), of v] Lnum_less(3) by simp

section \<open>Signing\<close>

text \<open>The signature of RFC 8032, section 5.1.6, with a hash \<open>H\<close> of 64 bytes; \<open>A\<close> is the encoded public key and
  \<open>base\<close> multiplies the base point and encodes the result.\<close>

definition rfc8032_sign :: "(byte list \<Rightarrow> byte list) \<Rightarrow> (byte list \<Rightarrow> byte list) \<Rightarrow> byte list \<Rightarrow> byte list \<Rightarrow> byte list \<Rightarrow> byte list" where
  "rfc8032_sign H base seed A M =
     (let d = H seed;
          a = decode_scalar (take 32 d);
          r = le_num (H (drop 32 d @ M)) mod Lnum;
          R = base (le_bytes 32 r);
          k = le_num (H (R @ A @ M)) mod Lnum
      in R @ le_bytes 32 ((k * a + r) mod Lnum))"

lemma trim_append: "length xs = 32 \<Longrightarrow> crypto_eddsa_trim_scalar (xs @ ys) = crypto_eddsa_trim_scalar xs @ ys"
  by (simp add: crypto_eddsa_trim_scalar_def Let_def nth_append list_update_append)

lemma trim_long: "32 \<le> length H \<Longrightarrow> crypto_eddsa_trim_scalar H = crypto_eddsa_trim_scalar (take 32 H) @ drop 32 H"
  using trim_append [of "take 32 H" "drop 32 H"] by simp

lemma trimmed_digest:
  assumes "length d = 64"
  shows "take 32 (crypto_eddsa_trim_scalar d) = crypto_eddsa_trim_scalar (take 32 d)"
    "take 32 (drop 32 (crypto_eddsa_trim_scalar d)) = drop 32 d"
    "length (crypto_eddsa_trim_scalar (take 32 d)) = 32"
    "le_num (crypto_eddsa_trim_scalar (take 32 d)) = decode_scalar (take 32 d)"
  using trim_long [of d] trim_scalar [of "take 32 d"] assms by simp_all

lemma sign_rfc8032:
  assumes "length seed = 32" "length A = 32"
  shows "crypto_ed25519_sign (seed @ A) M = rfc8032_sign sha512_spec crypto_eddsa_scalarbase seed A M"
proof -
  define d where "d = sha512_spec seed"
  have "length d = 64" by (simp add: d_def)
  note t = trimmed_digest [OF this]
  have sh: "crypto_sha512 (take 32 (seed @ A)) = d" using assms(1) by (simp add: crypto_sha512_spec d_def)
  show ?thesis
    unfolding crypto_ed25519_sign_def ed25519_dom_sign_def Let_def sh t(1,2) hash_reduce_spec rfc8032_sign_def d_def [symmetric]
    using assms t(3,4) by (simp add: mul_add_correct le_num_mod_L)
qed

section \<open>Verification\<close>

definition verify_point :: "ge \<Rightarrow> ge \<Rightarrow> int list \<Rightarrow> int list \<Rightarrow> ge" where
  "verify_point minus_A minus_R ad sd =
     ge_double (ge_double (ge_double (ge_add (horner (lutA minus_A) ad sd ge_zero) (ge_cache minus_R))))"

text \<open>The decision: both points decode, \<open>S\<close> is reduced, and eight times \<open>[S]B - [h]A - R\<close> is the neutral point.\<close>

definition verify_decision :: "byte list \<Rightarrow> byte list \<Rightarrow> int list \<Rightarrow> int list \<Rightarrow> bool" where
  "verify_decision sig A ad sd \<longleftrightarrow>
     le_num (take 32 (drop 32 sig)) < Lnum
     \<and> (case ge_frombytes_neg_vartime A of None \<Rightarrow> False
        | Some minus_A \<Rightarrow>
            (case ge_frombytes_neg_vartime sig of None \<Rightarrow> False
             | Some minus_R \<Rightarrow> ge_tobytes (verify_point minus_A minus_R ad sd) = 1 # replicate 31 0))"

lemma le_num_ones: "le_num (replicate n 255) + 1 = 256 ^ n"
  by (induction n) simp_all

lemma length_ge_tobytes: "length (ge_tobytes g) = 32"
  by (simp add: ge_tobytes_def Let_def fe_tobytes_def store32_le_def)

lemma check_equation_lemma:
  assumes "length sig = 64" "k < Lnum"
  shows "\<exists>ad sd. length ad = length sd \<and> list_all (small_digit 3) ad \<and> list_all (small_digit 5) sd
    \<and> digits_value ad = int k \<and> (digits_value sd = int (le_num (drop 32 sig)) \<or> Lnum \<le> le_num (drop 32 sig))
    \<and> crypto_eddsa_check_equation sig A (le_bytes 32 k) = (if verify_decision sig A ad sd then 0 else - 1)"
proof -
  define h where "h = le_bytes 32 k"
  let ?s = "drop 32 sig"
  have h: "length h = 32" "le_num h = k" "le_num h < 2 ^ 253"
    using le_num_mod_L [of k] assms(2) Lnum_less(2) by (simp_all add: h_def)
  have ls: "length ?s = 32" using assms(1) by simp
  define n where "n = max (unat (next_check (slide_init h))) (unat (next_check (slide_init ?s))) + 1"
  define ad sd where "ad = slide_digits P_W_WIDTH h n (slide_init h)" and "sd = slide_digits B_W_WIDTH ?s n (slide_init ?s)"
  have above: "is_above_l (load32_le_buf (take 32 ?s)) \<noteq> 0 \<longleftrightarrow> Lnum \<le> le_num ?s"
  proof -
    have "length (load32_le_buf ?s) = 8" "limbs (load32_le_buf ?s) = le_num ?s" using ls by (simp_all add: length_load limbs_load)
    then have "unat (is_above_l (load32_le_buf ?s)) = (if Lnum \<le> le_num ?s then 1 else 0)" using is_above_l_iff by simp
    then show ?thesis using ls by (simp add: unat_eq_zero [symmetric] split: if_splits)
  qed
  have ver: "crypto_verify32 (ge_tobytes g) (1 # replicate 31 0) = (if ge_tobytes g = 1 # replicate 31 0 then 0 else - 1)" for g
    by (rule verify32_correct) (simp_all add: length_ge_tobytes)
  have chk: "crypto_eddsa_check_equation sig A h = (if verify_decision sig A ad sd then 0 else - 1)"
    unfolding crypto_eddsa_check_equation_def Let_def verify_decision_def check_loop_horner
      n_def [symmetric] ad_def [symmetric] sd_def [symmetric] verify_point_def [symmetric] ver
    using above ls by (auto split: option.splits)
  show ?thesis
  proof (cases "Lnum \<le> le_num ?s")
    case True
    have "\<not> verify_decision sig A ad' sd'" for ad' sd' using True ls by (simp add: verify_decision_def)
    moreover have "\<exists>ad'. list_all (small_digit 3) ad' \<and> digits_value ad' = int k"
    proof -
      note ini = slide_init_ok [OF h(1,3)]
      have "slide_ok 3 254 (int (slide_top h 252) + 1) (slide_init h)" using ini(1) by (intro ini(3)) simp
      from slide_digits_value [OF h(1) _ _ _ this] have "digits_value (slide_digits 3 h 254 (slide_init h)) = int k
          \<and> list_all (small_digit 3) (slide_digits 3 h 254 (slide_init h))"
        using ini(5) unfolding ini(4) h(2) by simp
      then show ?thesis by blast
    qed
    then obtain ad' where ad': "list_all (small_digit 3) ad'" "digits_value ad' = int k" by blast
    moreover have "list_all (small_digit 5) (replicate (length ad') 0)" by (simp add: list_all_iff small_digit_def)
    ultimately show ?thesis using True chk unfolding h_def [symmetric]
      by (intro exI [of _ ad'] exI [of _ "replicate (length ad') 0"]) simp
  next
    case False
    then have s: "le_num ?s < 2 ^ 253" using Lnum_less(2) by simp
    note ih = slide_init_ok [OF h(1,3)] and it = slide_init_ok [OF ls s]
    have n: "int (slide_top h 252) + 1 < int n" "int (slide_top ?s 252) + 1 < int n" "n \<le> 255"
      using ih(1,2) it(1,2) by (auto simp: n_def unat_eq_nat_uint nat_le_iff)
    have "digits_value ad = int k \<and> list_all (small_digit 3) ad" "digits_value sd = int (le_num ?s) \<and> list_all (small_digit 5) sd"
      using slide_digits_value [OF h(1) _ _ n(3) ih(3) [OF n(1)], of 3] slide_digits_value [OF ls _ _ n(3) it(3) [OF n(2)], of 5]
      using ih(5) it(5) unfolding ih(4) it(4) h(2) ad_def sd_def P_W_WIDTH_def B_W_WIDTH_def by simp_all
    then show ?thesis using chk unfolding h_def [symmetric]
      by (intro exI [of _ ad] exI [of _ sd]) (simp add: ad_def sd_def)
  qed
qed

lemma verify_lemma:
  assumes "length sig = 64" "length A = 32"
  shows "\<exists>ad sd. length ad = length sd \<and> list_all (small_digit 3) ad \<and> list_all (small_digit 5) sd
    \<and> digits_value ad = int (le_num (sha512_spec (take 32 sig @ A @ M)) mod Lnum)
    \<and> (digits_value sd = int (le_num (drop 32 sig)) \<or> Lnum \<le> le_num (drop 32 sig))
    \<and> crypto_ed25519_check sig A M = (if verify_decision sig A ad sd then 0 else - 1)"
proof -
  have "crypto_ed25519_check sig A M
      = crypto_eddsa_check_equation sig A (le_bytes 32 (le_num (sha512_spec (take 32 sig @ A @ M)) mod Lnum))"
    using assms(2) by (simp add: crypto_ed25519_check_def hash_reduce_spec)
  then show ?thesis using check_equation_lemma [OF assms(1) mod_less_divisor [OF Lnum_less(1)]] by simp
qed

text \<open>C34. Signing is RFC 8032: with the 64-byte secret key laid out as seed and public key, the signature the code
  writes is R followed by (k a + r) mod L, where r and k are the SHA-512 digests of the nonce half and the
  message and of R, the public key and the message, reduced modulo the group order, and a is the clamped scalar.\<close>

theorem ed25519_sign_rfc8032:
  assumes "length seed = 32" "length A = 32"
  shows "crypto_ed25519_sign (seed @ A) M = rfc8032_sign sha512_spec crypto_eddsa_scalarbase seed A M"
  by (rule sign_rfc8032 [OF assms])

theorem ed25519_sign_rfc8032_witness:
  "length (replicate 32 (7 :: byte)) = 32 \<and>
   crypto_ed25519_sign (replicate 32 7 @ replicate 32 9) [1, 2] = rfc8032_sign sha512_spec crypto_eddsa_scalarbase (replicate 32 7) (replicate 32 9) [1, 2]"
  using ed25519_sign_rfc8032 [of "replicate 32 7" "replicate 32 9" "[1, 2]"] by simp

text \<open>C33. Verification decides exactly one equation: the two scalars are recoded into digits of the allowed sizes whose
  values are the reduced hash of R, the key and the message, and S; the check returns 0 if S is below the group
  order, both points decode, and the point computed from those digits, multiplied by the cofactor, encodes as the
  neutral element; in every other case it returns -1.\<close>

theorem verify_equation:
  assumes "length sig = 64" "length A = 32"
  shows "\<exists>ad sd. length ad = length sd \<and> list_all (small_digit 3) ad \<and> list_all (small_digit 5) sd
    \<and> digits_value ad = int (le_num (sha512_spec (take 32 sig @ A @ M)) mod Lnum)
    \<and> (digits_value sd = int (le_num (drop 32 sig)) \<or> Lnum \<le> le_num (drop 32 sig))
    \<and> crypto_ed25519_check sig A M = (if verify_decision sig A ad sd then 0 else - 1)"
  by (rule verify_lemma [OF assms])

theorem verify_equation_witness:
  "length (replicate 64 (255 :: byte)) = 64 \<and> crypto_ed25519_check (replicate 64 255) (replicate 32 0) [] = - 1"
proof -
  have "le_num (replicate 32 255) = 256 ^ 32 - 1" using le_num_ones [of 32] by simp
  then have "\<not> verify_decision (replicate 64 255) (replicate 32 0) ad sd" for ad sd
    by (simp add: verify_decision_def Lnum_def)
  then show ?thesis using verify_equation [of "replicate 64 255" "replicate 32 0" "[]"] by auto
qed

end
