(* ===== verification/Edcomb.thy ===== *)
theory Edcomb
  imports Edsign
begin

text \<open>
  The multiplication of the base point by twin signed combs (\<open>ge_scalarmult_base\<close>): the recoding of the
  scalar into signed bits, the selection of table entries in constant time, and the bookkeeping of the
  double-and-add loop.  The tables hold the multiples \<open>comb_weight\<close> of the base point by construction.
\<close>

section \<open>Formal multiples\<close>

definition sg :: "bool \<Rightarrow> int" where
  "sg b = (if b then 1 else - 1)"

text \<open>The multiple of the base point that entry \<open>i\<close> of \<open>b_comb_low\<close> stands for; \<open>b_comb_high\<close> has \<open>2 ^ 128\<close> times it.\<close>

definition comb_weight :: "nat \<Rightarrow> int" where
  "comb_weight i = 2 ^ 96 + sg (bit i 2) * 2 ^ 64 + sg (bit i 1) * 2 ^ 32 + sg (bit i 0)"

definition neg_entry :: "ge_precomp \<Rightarrow> ge_precomp" where
  "neg_entry q = \<lparr>pYp = pYm q, pYm = pYp q, pT2 = fe_neg (pT2 q)\<rparr>"

text \<open>A point the code computes from the neutral one by doublings and additions of table entries or
  their negatives, with the multiple it stands for.\<close>

inductive comb_multiple :: "ge \<Rightarrow> int \<Rightarrow> bool" where
  neutral: "comb_multiple ge_zero 0"
| double: "comb_multiple g n \<Longrightarrow> comb_multiple (ge_double g) (2 * n)"
| low: "comb_multiple g n \<Longrightarrow> i < 8 \<Longrightarrow> comb_multiple (ge_madd g (b_comb_low ! i)) (n + comb_weight i)"
| low_neg: "comb_multiple g n \<Longrightarrow> i < 8 \<Longrightarrow> comb_multiple (ge_madd g (neg_entry (b_comb_low ! i))) (n - comb_weight i)"
| high: "comb_multiple g n \<Longrightarrow> i < 8 \<Longrightarrow> comb_multiple (ge_madd g (b_comb_high ! i)) (n + 2 ^ 128 * comb_weight i)"
| high_neg: "comb_multiple g n \<Longrightarrow> i < 8 \<Longrightarrow> comb_multiple (ge_madd g (neg_entry (b_comb_high ! i))) (n - 2 ^ 128 * comb_weight i)"

section \<open>Selection\<close>

definition entry_ok :: "ge_precomp \<Rightarrow> bool" where
  "entry_ok q \<longleftrightarrow> length (pYp q) = 10 \<and> length (pYm q) = 10 \<and> length (pT2 q) = 10"

lemma tables_ok: "list_all entry_ok b_comb_low" "list_all entry_ok b_comb_high" "length b_comb_low = 8" "length b_comb_high = 8"
  by (simp_all add: b_comb_low_def b_comb_high_def entry_ok_def)

lemma select_bit:
  assumes "j < 8" "i < 8"
  shows "(ucast (1 AND drop_bit 8 ((of_nat j XOR ucast (of_nat i :: byte)) - 1 :: 16 word)) :: i32) = (if j = i then 1 else 0)"
proof -
  have "list_all (\<lambda>j. list_all (\<lambda>i. (ucast (1 AND drop_bit 8 ((of_nat j XOR ucast (of_nat i :: byte)) - 1 :: 16 word)) :: i32)
      = (if j = i then 1 else 0)) [0..<8]) [0..<8]" by code_simp
  then show ?thesis using assms by (simp add: list_all_iff)
qed

lemma select_step:
  assumes "entry_ok c" "entry_ok q"
  shows "\<lparr>pYp = fe_ccopy (pYp c) (pYp q) (if b then 1 else 0), pYm = fe_ccopy (pYm c) (pYm q) (if b then 1 else 0),
    pT2 = fe_ccopy (pT2 c) (pT2 q) (if b then 1 else 0)\<rparr> = (if b then q else c)"
  using assms by (simp add: entry_ok_def fe_ccopy_bit)

lemma comb_select_exact:
  assumes "list_all entry_ok comb" "length comb = 8" "entry_ok c" "i < 8"
  shows "comb_select comb (of_nat i) c = comb ! i"
proof -
  have "fold (\<lambda>j c. let select = ucast (1 AND drop_bit 8 ((of_nat j XOR ucast (of_nat i :: byte)) - 1 :: 16 word)) :: i32
                 in \<lparr>pYp = fe_ccopy (pYp c) (pYp (comb ! j)) select, pYm = fe_ccopy (pYm c) (pYm (comb ! j)) select,
                     pT2 = fe_ccopy (pT2 c) (pT2 (comb ! j)) select\<rparr>) [0..<n] c = (if i < n then comb ! i else c)" if "n \<le> 8" for n
    using that
  proof (induction n)
    case (Suc n)
    have "entry_ok (comb ! n)" "entry_ok (comb ! i)" using assms Suc.prems by (simp_all add: list_all_length)
    then show ?case using Suc assms(3,4) select_step [of "if i < n then comb ! i else c" "comb ! n" "n = i"]
      by (auto simp: Let_def select_bit less_Suc_eq)
  qed simp
  from this [of 8] show ?thesis using assms(4) by (simp add: comb_select_def)
qed

section \<open>One column\<close>

text \<open>The signed value of the four bits of a column.\<close>

definition column :: "nat \<Rightarrow> nat \<Rightarrow> int" where
  "column v i = sg (bit v i) + sg (bit v (i + 32)) * 2 ^ 32 + sg (bit v (i + 64)) * 2 ^ 64 + sg (bit v (i + 96)) * 2 ^ 96"

lemma teeth_cases:
  fixes t0 t1 t2 t3 :: bool
  defines "t \<equiv> (ucast ((if t0 then 1 else 0) + push_bit 1 (if t1 then 1 else 0) + push_bit 2 (if t2 then 1 else 0)
     + push_bit 3 (if t3 then 1 else 0) :: i32) :: byte)"
  shows "\<exists>i<8. (t XOR (drop_bit 3 t - 1)) AND 7 = of_nat i \<and> (ucast (drop_bit 3 t XOR 1) :: i32) = (if \<not> t3 then 1 else 0)
     \<and> sg t0 + sg t1 * 2 ^ 32 + sg t2 * 2 ^ 64 + sg t3 * 2 ^ 96 = sg t3 * comb_weight i"
proof -
  have i: "\<exists>i<8. P i" if "P 0 \<or> P 1 \<or> P 2 \<or> P 3 \<or> P 4 \<or> P 5 \<or> P 6 \<or> P 7" for P :: "nat \<Rightarrow> bool"
    using that by (elim disjE) (auto intro: exI [of _ 0] exI [of _ 1] exI [of _ 2] exI [of _ 3] exI [of _ 4] exI [of _ 5] exI [of _ 6] exI [of _ 7])
  show ?thesis unfolding t_def
    by (cases t0; cases t1; cases t2; cases t3; rule i) (simp_all add: comb_weight_def sg_def bit_numeral_simps bit_0)
qed

lemma length_fe_neg: "length (fe_neg f) = length f"
  by (simp add: fe_neg_def)

lemma lookup_exact:
  assumes "list_all entry_ok comb" "length comb = 8" "entry_ok c" "length s = 32" "i + 96 < 256"
  shows "\<exists>k<8. lookup_add comb s (int i) (p, c)
      = (let q = (if bit (le_num s) (i + 96) then comb ! k else neg_entry (comb ! k)) in (ge_madd p q, q))
    \<and> entry_ok (if bit (le_num s) (i + 96) then comb ! k else neg_entry (comb ! k))
    \<and> column (le_num s) i = sg (bit (le_num s) (i + 96)) * comb_weight k"
proof -
  let ?b = "bit (le_num s)"
  have sb: "scalar_bit s (int i) = (if ?b i then 1 else 0)" "scalar_bit s (int i + 32) = (if ?b (i + 32) then 1 else 0)"
    "scalar_bit s (int i + 64) = (if ?b (i + 64) then 1 else 0)" "scalar_bit s (int i + 96) = (if ?b (i + 96) then 1 else 0)"
    using scalar_bit_num [of i s] scalar_bit_num [of "i + 32" s] scalar_bit_num [of "i + 64" s] scalar_bit_num [of "i + 96" s] assms(4,5)
    by (simp_all add: algebra_simps)
  obtain k where k: "k < 8" "(comb_teeth s (int i) XOR (drop_bit 3 (comb_teeth s (int i)) - 1)) AND 7 = of_nat k"
    "(ucast (drop_bit 3 (comb_teeth s (int i)) XOR 1) :: i32) = (if \<not> ?b (i + 96) then 1 else 0)"
    "column (le_num s) i = sg (?b (i + 96)) * comb_weight k"
    using teeth_cases [of "?b i" "?b (i + 32)" "?b (i + 64)" "?b (i + 96)"] unfolding comb_teeth_def sb column_def by blast
  have e: "entry_ok (comb ! k)" using assms(1,2) k(1) by (simp add: list_all_length)
  then have l: "length (pT2 (comb ! k)) = length (fe_neg (pT2 (comb ! k)))" "length (pYp (comb ! k)) = length (pYm (comb ! k))"
    by (simp_all add: entry_ok_def length_fe_neg)
  have "lookup_add comb s (int i) (p, c)
      = (let q = (if ?b (i + 96) then comb ! k else neg_entry (comb ! k)) in (ge_madd p q, q))"
    unfolding lookup_add_def Let_def prod.case k(2,3) comb_select_exact [OF assms(1-3) k(1)] fe_cswap_bit [OF l(1)] fe_cswap_bit [OF l(2)]
    by (cases "comb ! k") (simp add: neg_entry_def)
  moreover have "entry_ok (neg_entry (comb ! k))" using e by (simp add: entry_ok_def neg_entry_def length_fe_neg)
  ultimately show ?thesis using k(1,4) e by auto
qed

lemma lookup_low:
  assumes "comb_multiple p n" "entry_ok c" "length s = 32" "i < 32"
  shows "\<exists>p' c'. lookup_add b_comb_low s (int i) (p, c) = (p', c') \<and> comb_multiple p' (n + column (le_num s) i) \<and> entry_ok c'"
proof -
  obtain k where k: "k < 8" "lookup_add b_comb_low s (int i) (p, c)
      = (let q = (if bit (le_num s) (i + 96) then b_comb_low ! k else neg_entry (b_comb_low ! k)) in (ge_madd p q, q))"
    "entry_ok (if bit (le_num s) (i + 96) then b_comb_low ! k else neg_entry (b_comb_low ! k))"
    "column (le_num s) i = sg (bit (le_num s) (i + 96)) * comb_weight k"
    using lookup_exact [OF tables_ok(1,3) assms(2,3), of i p] assms(4) by auto
  then show ?thesis using comb_multiple.low [OF assms(1) k(1)] comb_multiple.low_neg [OF assms(1) k(1)]
    by (cases "bit (le_num s) (i + 96)") (simp_all add: Let_def sg_def)
qed

lemma lookup_high:
  assumes "comb_multiple p n" "entry_ok c" "length s = 32" "i < 32"
  shows "\<exists>p' c'. lookup_add b_comb_high s (int i + 128) (p, c) = (p', c')
    \<and> comb_multiple p' (n + 2 ^ 128 * column (le_num s) (i + 128)) \<and> entry_ok c'"
proof -
  obtain k where k: "k < 8" "lookup_add b_comb_high s (int (i + 128)) (p, c)
      = (let q = (if bit (le_num s) (i + 128 + 96) then b_comb_high ! k else neg_entry (b_comb_high ! k)) in (ge_madd p q, q))"
    "entry_ok (if bit (le_num s) (i + 128 + 96) then b_comb_high ! k else neg_entry (b_comb_high ! k))"
    "column (le_num s) (i + 128) = sg (bit (le_num s) (i + 128 + 96)) * comb_weight k"
    using lookup_exact [OF tables_ok(2,4) assms(2,3), of "i + 128" p] assms(4) by auto
  have e: "int i + 128 = int (i + 128)" by simp
  show ?thesis unfolding e using k comb_multiple.high [OF assms(1) k(1)] comb_multiple.high_neg [OF assms(1) k(1)]
    by (cases "bit (le_num s) (i + 128 + 96)") (simp_all add: Let_def sg_def)
qed

section \<open>The loop\<close>

definition both_columns :: "nat \<Rightarrow> nat \<Rightarrow> int" where
  "both_columns v i = column v i + 2 ^ 128 * column v (i + 128)"

lemma both_step:
  assumes "comb_multiple p n" "entry_ok c" "length s = 32" "i < 32"
  shows "\<exists>p' c'. lookup_add b_comb_high s (int i + 128) (lookup_add b_comb_low s (int i) (p, c)) = (p', c')
    \<and> comb_multiple p' (n + both_columns (le_num s) i) \<and> entry_ok c'"
proof -
  obtain p1 c1 where l: "lookup_add b_comb_low s (int i) (p, c) = (p1, c1)" "comb_multiple p1 (n + column (le_num s) i)" "entry_ok c1"
    using lookup_low [OF assms] by blast
  show ?thesis using lookup_high [OF l(2,3) assms(3,4)] unfolding l(1) both_columns_def by (simp add: add.assoc)
qed

lemma comb_loop_multiple:
  assumes "length s = 32" "n \<le> 32" "comb_multiple p m" "entry_ok c"
  shows "comb_multiple (fst (comb_loop s n (p, c))) (2 ^ n * m + (\<Sum>i<n. 2 ^ i * both_columns (le_num s) i))"
  using assms(2-4)
proof (induction n arbitrary: p c m)
  case (Suc n)
  obtain p' c' where st: "lookup_add b_comb_high s (int n + 128) (lookup_add b_comb_low s (int n) (ge_double p, c)) = (p', c')"
    "comb_multiple p' (2 * m + both_columns (le_num s) n)" "entry_ok c'"
    using both_step [OF comb_multiple.double [OF Suc.prems(2)] Suc.prems(3) assms(1), of n] Suc.prems(1) by auto
  have "comb_loop s (Suc n) (p, c) = comb_loop s n (p', c')" using st(1) by simp
  moreover have "2 ^ n * (2 * m + both_columns (le_num s) n) + (\<Sum>i<n. 2 ^ i * both_columns (le_num s) i)
      = 2 ^ Suc n * m + (\<Sum>i<Suc n. 2 ^ i * both_columns (le_num s) i)" by (simp add: algebra_simps)
  moreover have "comb_multiple (fst (comb_loop s n (p', c'))) (2 ^ n * (2 * m + both_columns (le_num s) n) + (\<Sum>i<n. 2 ^ i * both_columns (le_num s) i))"
    using Suc.IH [OF _ st(2,3)] Suc.prems(1) by simp
  ultimately show ?case by (simp only:)
qed simp

section \<open>The recoding\<close>

lemma sum8: "(\<Sum>j<8. f j) = f 0 + f 1 + f 2 + f 3 + f 4 + f 5 + f 6 + f 7" for f :: "nat \<Rightarrow> int"
  by (simp add: numeral_eq_Suc)

lemma columns_sum: "(\<Sum>i<32. 2 ^ i * both_columns v i) = (\<Sum>k<256. sg (bit v k) * 2 ^ k)"
proof -
  have "both_columns v i = (\<Sum>j<8. sg (bit v (i + j * 32)) * 2 ^ (j * 32))" for i
    unfolding sum8 both_columns_def column_def by (simp add: distrib_left add.commute [of _ i] mult.commute [of _ "sg _"])
  then have c: "both_columns v i = (\<Sum>j<8. sg (bit v (j * 32 + i)) * 2 ^ (j * 32))" for i by (simp only: add.commute [of i])
  have "(\<Sum>i<32. 2 ^ i * both_columns v i) = (\<Sum>i<32. \<Sum>j<8. sg (bit v (j * 32 + i)) * 2 ^ (j * 32 + i))"
    unfolding c by (simp add: sum_distrib_left power_add algebra_simps)
  also have "\<dots> = (\<Sum>j<8. \<Sum>i<32. sg (bit v (j * 32 + i)) * 2 ^ (j * 32 + i))" by (rule sum.swap)
  also have "\<dots> = (\<Sum>j<8. \<Sum>k = j * 32..<j * 32 + 32. sg (bit v k) * 2 ^ k)"
    by (simp add: sum.atLeastLessThan_shift_0 [where m = "_ * _"] atLeast0LessThan)
  also have "\<dots> = (\<Sum>k<8 * 32. sg (bit v k) * 2 ^ k)" by (rule sum.nat_group)
  finally show ?thesis by simp
qed

lemma signed_bits: "(\<Sum>k<n. sg (bit v k) * 2 ^ k) = 2 * int (take_bit n v) - (2 ^ n - 1)"
proof (induction n)
  case (Suc n)
  have "take_bit (Suc n) v = take_bit n v + 2 ^ n * of_bool (bit v n)"
    by (simp add: take_bit_Suc_from_most)
  then show ?case using Suc by (simp add: sg_def)
qed simp

lemma half_constants:
  "2 * le_num half_mod_L = Lnum + 1" "2 * le_num half_ones + 15 * Lnum = 2 ^ 256 - 1" "length half_mod_L = 32" "length half_ones = 32"
  by (simp_all add: half_mod_L_def half_ones_def Lnum_def)

lemma recoded:
  assumes "length scalar = 32"
  defines "s \<equiv> crypto_eddsa_mul_add scalar half_mod_L half_ones"
  shows "length s = 32" "(\<Sum>k<256. sg (bit (le_num s) k) * 2 ^ k) mod int Lnum = int (le_num scalar) mod int Lnum"
proof -
  define x where "x = le_num scalar * le_num half_mod_L + le_num half_ones"
  have s: "s = le_bytes 32 (x mod Lnum)" unfolding s_def x_def by (rule mul_add_correct [OF assms(1) half_constants(3,4)])
  then show "length s = 32" by simp
  have v: "le_num s = x mod Lnum" unfolding s by (rule le_num_mod_L)
  then have "le_num s < 2 ^ 256" using mod_less_divisor [OF Lnum_less(1), of x] Lnum_less(3) by simp
  then have "(\<Sum>k<256. sg (bit (le_num s) k) * 2 ^ k) = 2 * int (x mod Lnum) - (2 ^ 256 - 1)"
    unfolding signed_bits v [symmetric] by (simp add: take_bit_nat_eq_self)
  moreover have "2 * int x - (2 ^ 256 - 1) = int (le_num scalar) + int Lnum * (int (le_num scalar) - 15)"
  proof -
    have "int (2 * le_num half_mod_L) = int (Lnum + 1)" "int (2 * le_num half_ones + 15 * Lnum) = int (2 ^ 256 - 1)"
      by (simp_all only: half_constants)
    then have h: "2 * int (le_num half_mod_L) = int Lnum + 1" "2 * int (le_num half_ones) = 2 ^ 256 - 1 - 15 * int Lnum" by simp_all
    have "2 * int x = int (le_num scalar) * (2 * int (le_num half_mod_L)) + 2 * int (le_num half_ones)" by (simp add: x_def)
    then show ?thesis unfolding h by (simp add: algebra_simps)
  qed
  moreover have "(2 * int (x mod Lnum) - (2 ^ 256 - 1)) mod int Lnum = (2 * int x - (2 ^ 256 - 1)) mod int Lnum"
    unfolding of_nat_mod using mod_diff_left_eq [of "2 * (int x mod int Lnum)" "int Lnum" "2 ^ 256 - 1"]
      mod_diff_left_eq [of "2 * int x" "int Lnum" "2 ^ 256 - 1"] unfolding mod_mult_right_eq by (rule trans [OF sym])
  ultimately show "(\<Sum>k<256. sg (bit (le_num s) k) * 2 ^ k) mod int Lnum = int (le_num scalar) mod int Lnum" by simp
qed

lemma scalarmult_multiple:
  assumes "length scalar = 32"
  shows "\<exists>n. comb_multiple (ge_scalarmult_base scalar) n \<and> n mod int Lnum = int (le_num scalar) mod int Lnum"
proof -
  define s where "s = crypto_eddsa_mul_add scalar half_mod_L half_ones"
  note r = recoded [OF assms, folded s_def]
  let ?c = "\<lparr>pYp = fe_1, pYm = fe_1, pT2 = fe_0\<rparr>"
  have "entry_ok ?c" by (simp add: entry_ok_def fe_1_def fe_0_def)
  from both_step [OF comb_multiple.neutral this r(1), of 31] obtain p c where
    st: "lookup_add b_comb_high s 159 (lookup_add b_comb_low s 31 (ge_zero, ?c)) = (p, c)"
    "comb_multiple p (both_columns (le_num s) 31)" "entry_ok c" by auto
  have "ge_scalarmult_base scalar = fst (comb_loop s 31 (p, c))"
    unfolding ge_scalarmult_base_def Let_def s_def [symmetric] using st(1) by simp
  moreover have "2 ^ 31 * both_columns (le_num s) 31 + (\<Sum>i<31. 2 ^ i * both_columns (le_num s) i) = (\<Sum>i<Suc 31. 2 ^ i * both_columns (le_num s) i)"
    unfolding sum.lessThan_Suc by simp
  ultimately have "comb_multiple (ge_scalarmult_base scalar) (\<Sum>i<32. 2 ^ i * both_columns (le_num s) i)"
    using comb_loop_multiple [OF r(1) _ st(2,3), of 31] by simp
  then show ?thesis using r(2) unfolding columns_sum by blast
qed

text \<open>C40. The fixed-base multiplication computes the right multiple.  For every 32-byte scalar the point returned is
  built from the neutral point by doublings and additions of entries of the two tables or their negatives, and with
  entry i standing for its multiple comb_weight i of the base point (2 ^ 128 times that in the high table) the multiples
  add up to the scalar modulo the group order: the halving trick, the all-bits-set recoding, the order of the teeth,
  the masked selection and the conditional negation are exact.\<close>

theorem scalarmult_base_exact:
  assumes "length scalar = 32"
  shows "\<exists>n. comb_multiple (ge_scalarmult_base scalar) n \<and> n mod int Lnum = int (le_num scalar) mod int Lnum"
  by (rule scalarmult_multiple [OF assms])

theorem scalarmult_base_exact_witness:
  "\<exists>n. comb_multiple (ge_scalarmult_base (5 # replicate 31 0)) n \<and> n mod int Lnum = 5"
  using scalarmult_base_exact [of "5 # replicate 31 0"] by (simp add: Lnum_def)

end
