(* ===== verification/Aead.thy ===== *)
theory Aead
  imports Fe25519
begin

text \<open>
  The authenticated encryption of \<open>crypto/monocypher.c\<close> and the two wrappers of \<open>crypto/crypto.c\<close>.
  A context encrypts one message after the other, taking its next key from the second half of the
  block that gives the authentication key.  The reference is the construction of RFC 8439; the
  result on the wire is proved equal to it, and reading undoes writing in step with the writer.
\<close>

section \<open>Operations\<close>

record aead_ctx =
  aead_counter :: u64
  aead_key :: "byte list"
  aead_nonce :: "byte list"

definition store64_le :: "u64 \<Rightarrow> byte list" where
  "store64_le v = store32_le (ucast v) @ store32_le (ucast (drop_bit 32 v))"

definition crypto_verify16 :: "byte list \<Rightarrow> byte list \<Rightarrow> i32" where
  "crypto_verify16 a b = neq0 (x16 a b)"

definition crypto_chacha20_x ::
  "byte list option \<Rightarrow> nat \<Rightarrow> byte list \<Rightarrow> byte list \<Rightarrow> u64 \<Rightarrow> byte list \<times> u64" where
  "crypto_chacha20_x plain_text text_size key nonce ctr =
     (let sub_key = crypto_chacha20_h key (take 16 nonce)
      in crypto_chacha20_djb plain_text text_size sub_key (drop 16 nonce) ctr)"

definition lock_auth :: "byte list \<Rightarrow> byte list \<Rightarrow> byte list \<Rightarrow> byte list" where
  "lock_auth auth_key ad cipher_text =
     (let sizes = store64_le (of_nat (length ad)) @ store64_le (of_nat (length cipher_text));
          ctx = crypto_poly1305_init auth_key poly_ctx0;
          ctx = crypto_poly1305_update ad ctx;
          ctx = crypto_poly1305_update (replicate (gap (length ad) 16) 0) ctx;
          ctx = crypto_poly1305_update cipher_text ctx;
          ctx = crypto_poly1305_update (replicate (gap (length cipher_text) 16) 0) ctx;
          ctx = crypto_poly1305_update sizes ctx
      in crypto_poly1305_final ctx)"

definition crypto_aead_init_x :: "byte list \<Rightarrow> byte list \<Rightarrow> aead_ctx" where
  "crypto_aead_init_x key nonce =
     \<lparr>aead_counter = 0, aead_key = crypto_chacha20_h key (take 16 nonce), aead_nonce = take 8 (drop 16 nonce)\<rparr>"

definition crypto_aead_init_djb :: "byte list \<Rightarrow> byte list \<Rightarrow> aead_ctx" where
  "crypto_aead_init_djb key nonce = \<lparr>aead_counter = 0, aead_key = take 32 key, aead_nonce = take 8 nonce\<rparr>"

definition crypto_aead_init_ietf :: "byte list \<Rightarrow> byte list \<Rightarrow> aead_ctx" where
  "crypto_aead_init_ietf key nonce =
     \<lparr>aead_counter = push_bit 32 (ucast (load32_le nonce)), aead_key = take 32 key, aead_nonce = take 8 (drop 4 nonce)\<rparr>"

text \<open>The cipher text, the tag and the context with its next key.\<close>

definition crypto_aead_write :: "byte list \<Rightarrow> byte list \<Rightarrow> aead_ctx \<Rightarrow> byte list \<times> byte list \<times> aead_ctx" where
  "crypto_aead_write ad plain_text ctx =
     (let auth_key = fst (crypto_chacha20_djb None 64 (aead_key ctx) (aead_nonce ctx) (aead_counter ctx));
          cipher_text = fst (crypto_chacha20_djb (Some plain_text) (length plain_text)
                               (aead_key ctx) (aead_nonce ctx) (aead_counter ctx + 1));
          mac = lock_auth (take 32 auth_key) ad cipher_text
      in (cipher_text, mac, ctx\<lparr>aead_key := take 32 (drop 32 auth_key)\<rparr>))"

text \<open>The result code, what is written to the output buffer (\<open>None\<close> when it is left alone) and the context.\<close>

definition crypto_aead_read ::
  "byte list \<Rightarrow> byte list \<Rightarrow> byte list \<Rightarrow> aead_ctx \<Rightarrow> i32 \<times> byte list option \<times> aead_ctx" where
  "crypto_aead_read mac ad cipher_text ctx =
     (let auth_key = fst (crypto_chacha20_djb None 64 (aead_key ctx) (aead_nonce ctx) (aead_counter ctx));
          real_mac = lock_auth (take 32 auth_key) ad cipher_text;
          mismatch = crypto_verify16 mac real_mac
      in if mismatch = 0 then
           (mismatch,
            Some (fst (crypto_chacha20_djb (Some cipher_text) (length cipher_text)
                         (aead_key ctx) (aead_nonce ctx) (aead_counter ctx + 1))),
            ctx\<lparr>aead_key := take 32 (drop 32 auth_key)\<rparr>)
         else (mismatch, None, ctx))"

definition crypto_aead_lock :: "byte list \<Rightarrow> byte list \<Rightarrow> byte list \<Rightarrow> byte list \<Rightarrow> byte list \<times> byte list" where
  "crypto_aead_lock key nonce ad plain_text =
     (case crypto_aead_write ad plain_text (crypto_aead_init_x key nonce) of (cipher_text, mac, _) \<Rightarrow> (cipher_text, mac))"

definition crypto_aead_unlock ::
  "byte list \<Rightarrow> byte list \<Rightarrow> byte list \<Rightarrow> byte list \<Rightarrow> byte list \<Rightarrow> i32 \<times> byte list option" where
  "crypto_aead_unlock mac key nonce ad cipher_text =
     (case crypto_aead_read mac ad cipher_text (crypto_aead_init_x key nonce) of (mismatch, plain_text, _) \<Rightarrow> (mismatch, plain_text))"

definition dossh_aead_lock :: "byte list \<Rightarrow> byte list \<Rightarrow> byte list \<Rightarrow> byte list \<Rightarrow> byte list \<times> byte list" where
  "dossh_aead_lock key nonce ad plain =
     (case crypto_aead_write ad plain (crypto_aead_init_ietf key nonce) of (cipher, mac, _) \<Rightarrow> (cipher, mac))"

definition dossh_aead_unlock ::
  "byte list \<Rightarrow> byte list \<Rightarrow> byte list \<Rightarrow> byte list \<Rightarrow> byte list \<Rightarrow> i32 \<times> byte list option" where
  "dossh_aead_unlock mac key nonce ad cipher =
     (case crypto_aead_read mac ad cipher (crypto_aead_init_ietf key nonce) of (r, plain, _) \<Rightarrow> (r, plain))"

section \<open>The construction of the standard\<close>

definition pad16 :: "byte list \<Rightarrow> byte list" where
  "pad16 x = replicate ((16 - length x mod 16) mod 16) 0"

definition aead_tag :: "byte list \<Rightarrow> byte list \<Rightarrow> byte list \<Rightarrow> byte list" where
  "aead_tag otk ad ct = poly1305_spec otk (ad @ pad16 ad @ ct @ pad16 ct @ le_bytes 8 (length ad) @ le_bytes 8 (length ct))"

text \<open>Block \<open>c\<close> of the key stream gives the one-time key, the text is encrypted from block \<open>c + 1\<close> on.\<close>

definition aead_seal_spec :: "byte list \<Rightarrow> byte list \<Rightarrow> u64 \<Rightarrow> byte list \<Rightarrow> byte list \<Rightarrow> byte list \<times> byte list" where
  "aead_seal_spec key nonce c ad pt =
     (let ct = xor_bytes (key_stream key nonce (c + 1) (length pt)) pt
      in (ct, aead_tag (take 32 (chacha_block key nonce c)) ad ct))"

section \<open>Lemmas\<close>

lemma gap_mod: "x < 65536 \<Longrightarrow> gap x 16 = (16 - x mod 16) mod 16"
proof -
  assume x: "x < 65536"
  have "(NOT (of_nat x) + 1 :: 16 word) = - of_nat x" by (simp add: minus_eq_not_plus_1)
  then have "gap x 16 = unat ((- of_nat x :: 16 word) AND mask 4)" by (simp add: gap_def mask_eq_exp_minus_1)
  also have "\<dots> = unat (- of_nat x :: 16 word) mod 16" by (simp add: and_mask_mod)
  also have "unat (- of_nat x :: 16 word) = (65536 - x) mod 65536"
  proof -
    have "(of_nat (65536 - x) :: 16 word) = - of_nat x" using x by (simp add: of_nat_diff)
    then have "unat (- of_nat x :: 16 word) = unat (of_nat (65536 - x) :: 16 word)" by simp
    then show ?thesis unfolding unat_of_nat by simp
  qed
  also have "(65536 - x) mod 65536 mod 16 = (65536 - x) mod 16" by (simp add: mod_mod_cancel)
  also have "\<dots> = (16 - x mod 16) mod 16"
  proof -
    define q r where "q = x div 16" and "r = x mod 16"
    have e: "x = 16 * q + r" "r < 16" by (simp_all add: q_def r_def)
    then have "65536 - x = 16 * (4095 - q) + (16 - r)" using x by simp
    then show ?thesis unfolding r_def [symmetric] by simp
  qed
  finally show ?thesis .
qed

lemma store64_bytes: "v < 18446744073709551616 \<Longrightarrow> store64_le (of_nat v) = le_bytes 8 v"
proof -
  assume v: "v < 18446744073709551616"
  have "drop_bit 32 (of_nat v :: u64) = of_nat (v div limb32)" using drop_nat64 [OF v, of 32] by (simp add: limb32_def)
  then have "store64_le (of_nat v) = store32_le (of_nat v) @ store32_le (of_nat (v div limb32))"
    by (simp add: store64_le_def ucast_of_nat64)
  also have "\<dots> = le_bytes 4 v @ le_bytes 4 (v div 256 ^ 4)" unfolding store_le_bytes by (simp add: limb32_def)
  also have "\<dots> = le_bytes 8 v" using le_bytes_add [of 4 4 v] by simp
  finally show ?thesis .
qed

lemma verify16_correct:
  assumes "length a = 16" "length b = 16"
  shows "crypto_verify16 a b = (if a = b then 0 else - 1)"
proof -
  have "a = b \<longleftrightarrow> take 8 a = take 8 b \<and> take 8 (drop 8 a) = take 8 (drop 8 b)"
    using assms by (metis append_take_drop_id length_drop add_diff_cancel_right' numeral_Bit0 order_refl take_all)
  moreover have "x16 a b = 0 \<longleftrightarrow> load64_le a XOR load64_le b = 0 \<and> load64_le (drop 8 a) XOR load64_le (drop 8 b) = 0"
    by (simp add: x16_def or_eq_0_iff)
  ultimately have "x16 a b = 0 \<longleftrightarrow> a = b" using assms by (simp add: load64_inj)
  then show ?thesis by (simp add: crypto_verify16_def neq0_correct)
qed

lemma lock_auth_tag:
  assumes "length k = 32" "length ad < 65536" "length ct < 65536"
  shows "lock_auth k ad ct = aead_tag k ad ct"
proof -
  let ?pieces = "[ad, pad16 ad, ct, pad16 ct, le_bytes 8 (length ad) @ le_bytes 8 (length ct)]"
  have "lock_auth k ad ct = crypto_poly1305_final (fold crypto_poly1305_update ?pieces (crypto_poly1305_init k poly_ctx0))"
    using assms(2,3) by (simp add: lock_auth_def Let_def gap_mod pad16_def store64_bytes)
  also have "\<dots> = poly1305_spec k (concat ?pieces)" by (rule stream_correct [OF assms(1)]) (simp add: poly_ctx0_def)
  finally show ?thesis by (simp add: aead_tag_def)
qed

lemma length_aead_tag [simp]: "length (aead_tag k ad ct) = 16"
  by (simp add: aead_tag_def poly1305_spec_def)

text \<open>A context in use: its key and nonce have their sizes.\<close>

definition aead_ok :: "aead_ctx \<Rightarrow> bool" where
  "aead_ok ctx \<longleftrightarrow> length (aead_key ctx) = 32 \<and> length (aead_nonce ctx) = 8"

definition rekeyed :: "aead_ctx \<Rightarrow> aead_ctx" where
  "rekeyed ctx = ctx\<lparr>aead_key := drop 32 (chacha_block (aead_key ctx) (aead_nonce ctx) (aead_counter ctx))\<rparr>"

lemma one_block: "length key = 32 \<Longrightarrow> length nonce = 8 \<Longrightarrow> key_stream key nonce c 64 = chacha_block key nonce c"
  using partial_block [of key nonce 0 c 1] key_stream_split [of key nonce c 1 0] 
  by (intro nth_equalityI) (simp_all add: key_stream_def)

lemma rekeyed_ok: "aead_ok ctx \<Longrightarrow> aead_ok (rekeyed ctx)"
  by (simp add: aead_ok_def rekeyed_def)

lemma aead_write_spec:
  assumes "aead_ok ctx" "length ad < 65536" "length pt < 65536"
  shows "crypto_aead_write ad pt ctx
    = (case aead_seal_spec (aead_key ctx) (aead_nonce ctx) (aead_counter ctx) ad pt of (ct, mac) \<Rightarrow> (ct, mac, rekeyed ctx))"
proof -
  have k: "length (aead_key ctx) = 32" "length (aead_nonce ctx) = 8" using assms(1) by (simp_all add: aead_ok_def)
  show ?thesis using assms(2,3) k
    by (simp add: crypto_aead_write_def Let_def djb_stream one_block aead_seal_spec_def rekeyed_def lock_auth_tag)
qed

lemma aead_read_spec:
  assumes "aead_ok ctx" "length ad < 65536" "length ct < 65536" "length mac = 16"
  shows "crypto_aead_read mac ad ct ctx
    = (if mac = aead_tag (take 32 (chacha_block (aead_key ctx) (aead_nonce ctx) (aead_counter ctx))) ad ct
       then (0, Some (xor_bytes (key_stream (aead_key ctx) (aead_nonce ctx) (aead_counter ctx + 1) (length ct)) ct), rekeyed ctx)
       else (- 1, None, ctx))"
proof -
  have k: "length (aead_key ctx) = 32" "length (aead_nonce ctx) = 8" using assms(1) by (simp_all add: aead_ok_def)
  show ?thesis using assms(2-4) k
    by (simp add: crypto_aead_read_def Let_def djb_stream one_block rekeyed_def lock_auth_tag verify16_correct)
qed

lemma init_ietf_ok: "length key = 32 \<Longrightarrow> length nonce = 12 \<Longrightarrow> aead_ok (crypto_aead_init_ietf key nonce)"
  by (simp add: aead_ok_def crypto_aead_init_ietf_def)

lemma init_x_ok: "length nonce = 24 \<Longrightarrow> length key = 32 \<Longrightarrow> aead_ok (crypto_aead_init_x key nonce)"
  by (simp add: aead_ok_def crypto_aead_init_x_def crypto_chacha20_h_def Let_def length_store_words length_load32_le_buf length_constant)

lemma read_write:
  assumes "aead_ok ctx" "length ad < 65536" "length pt < 65536"
  shows "crypto_aead_write ad pt ctx = (ct, mac, ctx') \<Longrightarrow> crypto_aead_read mac ad ct ctx = (0, Some pt, ctx')"
  using assms by (auto simp: aead_write_spec aead_seal_spec_def Let_def aead_read_spec xor_bytes_cancel)

lemma seal_size: "length (fst (aead_seal_spec key nonce c ad pt)) = length pt" "length (snd (aead_seal_spec key nonce c ad pt)) = 16"
  by (simp_all add: aead_seal_spec_def Let_def)

section \<open>A session\<close>

text \<open>Messages one after the other with the same context, and the reader's side.\<close>

fun aead_send :: "(byte list \<times> byte list) list \<Rightarrow> aead_ctx \<Rightarrow> (byte list \<times> byte list \<times> byte list) list" where
  "aead_send [] ctx = []"
| "aead_send ((ad, pt) # ms) ctx =
     (case crypto_aead_write ad pt ctx of (ct, mac, ctx') \<Rightarrow> (ad, ct, mac) # aead_send ms ctx')"

fun aead_receive :: "(byte list \<times> byte list \<times> byte list) list \<Rightarrow> aead_ctx \<Rightarrow> byte list option list" where
  "aead_receive [] ctx = []"
| "aead_receive ((ad, ct, mac) # ms) ctx =
     (case crypto_aead_read mac ad ct ctx of (_, pt, ctx') \<Rightarrow> pt # aead_receive ms ctx')"

lemma session_received:
  "aead_ok ctx \<Longrightarrow> list_all (\<lambda>(ad, pt). length ad < 65536 \<and> length pt < 65536) ms \<Longrightarrow>
   aead_receive (aead_send ms ctx) ctx = map (Some \<circ> snd) ms"
proof (induction ms ctx rule: aead_send.induct)
  case (2 ad pt ms ctx)
  obtain ct mac ctx' where w: "crypto_aead_write ad pt ctx = (ct, mac, ctx')" by (metis prod_cases3)
  have "ctx' = rekeyed ctx" using w 2(2,3) by (simp add: aead_write_spec split: prod.splits)
  then have "aead_ok ctx'" using rekeyed_ok 2(2) by simp
  moreover have "crypto_aead_read mac ad ct ctx = (0, Some pt, ctx')" using read_write [OF 2(2) _ _ w] 2(3) by simp
  ultimately show ?case using 2(1) [OF w [symmetric] refl] 2(3) w by simp
qed simp

section \<open>Properties\<close>

text \<open>C39. The authenticated encryption is RFC 8439, and opening is exact.  For a 32-byte key and a 12-byte nonce the lock
  encrypts from block 1 of the IETF key stream and tags data, cipher text, padding and lengths under the
  one-time key of block 0; the unlock of any cipher text under any tag returns 0 and writes the exclusive or with the
  stream exactly when the tag is the right one, and otherwise returns -1 and leaves the output alone.
  What was locked unlocks to the plain text.\<close>

theorem aead_lock_unlock:
  assumes "length key = 32" "length nonce = 12" "length ad < 65536" "length pt < 65536" "length ct < 65536" "length mac = 16"
  defines "c \<equiv> push_bit 32 (ucast (load32_le nonce)) :: u64"
  shows "dossh_aead_lock key nonce ad pt = aead_seal_spec key (drop 4 nonce) c ad pt
    \<and> dossh_aead_unlock mac key nonce ad ct
        = (if mac = aead_tag (take 32 (chacha_block key (drop 4 nonce) c)) ad ct
           then (0, Some (xor_bytes (key_stream key (drop 4 nonce) (c + 1) (length ct)) ct)) else (- 1, None))
    \<and> dossh_aead_unlock (snd (dossh_aead_lock key nonce ad pt)) key nonce ad (fst (dossh_aead_lock key nonce ad pt)) = (0, Some pt)"
proof -
  let ?ctx = "crypto_aead_init_ietf key nonce"
  have ok: "aead_ok ?ctx" by (rule init_ietf_ok [OF assms(1,2)])
  have f: "aead_key ?ctx = key" "aead_nonce ?ctx = drop 4 nonce" "aead_counter ?ctx = c"
    using assms(1,2) by (simp_all add: crypto_aead_init_ietf_def c_def)
  obtain ct' mac' ctx' where w: "crypto_aead_write ad pt ?ctx = (ct', mac', ctx')" by (metis prod_cases3)
  show ?thesis using aead_write_spec [OF ok assms(3,4)] aead_read_spec [OF ok assms(3,5,6)] read_write [OF ok assms(3,4) w] w
    unfolding f by (auto simp: dossh_aead_lock_def dossh_aead_unlock_def split: prod.splits)
qed

theorem aead_lock_unlock_witness:
  "length (replicate 12 (1 :: byte)) = 12 \<and>
   dossh_aead_unlock (snd (dossh_aead_lock (replicate 32 5) (replicate 12 1) [9] [1, 2, 3])) (replicate 32 5) (replicate 12 1) [9]
     (fst (dossh_aead_lock (replicate 32 5) (replicate 12 1) [9] [1, 2, 3])) = (0, Some [1, 2, 3])"
  by (intro conjI conjunct2 [OF conjunct2 [OF aead_lock_unlock [where ct = "[]" and mac = "replicate 16 0"]]]) simp_all

text \<open>A session of the extended-nonce interface stays in step: whatever messages one context writes one after the other,
  each under the key the message before it left, a reader that starts from the same key and nonce
  recovers every one of them.\<close>

theorem aead_session:
  assumes "length key = 32" "length nonce = 24" "list_all (\<lambda>(ad, pt). length ad < 65536 \<and> length pt < 65536) ms"
  shows "aead_receive (aead_send ms (crypto_aead_init_x key nonce)) (crypto_aead_init_x key nonce) = map (Some \<circ> snd) ms"
  by (rule session_received [OF init_x_ok [OF assms(2,1)] assms(3)])

theorem aead_session_witness:
  "aead_receive (aead_send [([1], [2, 3]), ([], [4])] (crypto_aead_init_x (replicate 32 5) (replicate 24 1)))
     (crypto_aead_init_x (replicate 32 5) (replicate 24 1)) = [Some [2, 3], Some [4]]"
  using aead_session [of "replicate 32 5" "replicate 24 1" "[([1], [2, 3]), ([], [4])]"] by simp

end
