(* ===== verification/Blake2b.thy ===== *)
theory Blake2b
  imports X25519 Sha512 Aead
begin

text \<open>
  BLAKE2b of \<open>crypto/monocypher.c\<close>: the compression function, the streaming interface with its lazy
  last block, and the keyed and unkeyed one-shot functions.  The reference is RFC 7693 on the whole
  message; the streaming interface is proved to compute it however the message is cut.
\<close>

section \<open>The compression function\<close>

record blake2b_ctx =
  b2_hash :: "u64 list"
  b2_offset0 :: u64
  b2_offset1 :: u64
  b2_input :: "u64 list"
  b2_idx :: nat
  b2_hash_size :: nat

definition blake2b_iv :: "u64 list" where
  "blake2b_iv = [0x6a09e667f3bcc908, 0xbb67ae8584caa73b, 0x3c6ef372fe94f82b, 0xa54ff53a5f1d36f1,
     0x510e527fade682d1, 0x9b05688c2b3e6c1f, 0x1f83d9abfb41bd6b, 0x5be0cd19137e2179]"

definition sigma :: "nat list list" where
  "sigma = [
     [ 0,  1,  2,  3,  4,  5,  6,  7,  8,  9, 10, 11, 12, 13, 14, 15],
     [14, 10,  4,  8,  9, 15, 13,  6,  1, 12,  0,  2, 11,  7,  5,  3],
     [11,  8, 12,  0,  5,  2, 15, 13, 10, 14,  3,  6,  7,  1,  9,  4],
     [ 7,  9,  3,  1, 13, 12, 11, 14,  2,  6,  5, 10,  4,  0, 15,  8],
     [ 9,  0,  5,  7,  2,  4, 10, 15, 14,  1, 11, 12,  6,  8,  3, 13],
     [ 2, 12,  6, 10,  0, 11,  8,  3,  4, 13,  7,  5, 15, 14,  1,  9],
     [12,  5,  1, 15, 14, 13,  4, 10,  0,  7,  6,  3,  9,  2,  8, 11],
     [13, 11,  7, 14, 12,  1,  3,  9,  5,  0, 15,  4,  8,  6,  2, 10],
     [ 6, 15, 14,  9, 11,  3,  0,  8, 12,  2, 13,  7,  1,  4, 10,  5],
     [10,  2,  8,  4,  7,  6,  1,  5, 15, 11,  9, 14,  3, 12, 13,  0],
     [ 0,  1,  2,  3,  4,  5,  6,  7,  8,  9, 10, 11, 12, 13, 14, 15],
     [14, 10,  4,  8,  9, 15, 13,  6,  1, 12,  0,  2, 11,  7,  5,  3]]"

definition rotr64 :: "u64 \<Rightarrow> nat \<Rightarrow> u64" where
  "rotr64 x n = drop_bit n x XOR push_bit (64 - n) x"

text \<open>The macro on the work vector: positions of \<open>a\<close>, \<open>b\<close>, \<open>c\<close> and \<open>d\<close>, and the two message words.\<close>

definition BLAKE2_G :: "nat \<Rightarrow> nat \<Rightarrow> nat \<Rightarrow> nat \<Rightarrow> u64 \<Rightarrow> u64 \<Rightarrow> u64 list \<Rightarrow> u64 list" where
  "BLAKE2_G ja jb jc jd x y v =
     (let a = v ! ja; b = v ! jb; c = v ! jc; d = v ! jd;
          a = a + (b + x); d = rotr64 (d XOR a) 32;
          c = c + d; b = rotr64 (b XOR c) 24;
          a = a + (b + y); d = rotr64 (d XOR a) 16;
          c = c + d; b = rotr64 (b XOR c) 63
      in v[ja := a, jb := b, jc := c, jd := d])"

definition BLAKE2_ROUND :: "u64 list \<Rightarrow> nat \<Rightarrow> u64 list \<Rightarrow> u64 list" where
  "BLAKE2_ROUND inp i v =
     (let w = \<lambda>j. inp ! (sigma ! i ! j);
          v = BLAKE2_G 0 4 8 12 (w 0) (w 1) v;
          v = BLAKE2_G 1 5 9 13 (w 2) (w 3) v;
          v = BLAKE2_G 2 6 10 14 (w 4) (w 5) v;
          v = BLAKE2_G 3 7 11 15 (w 6) (w 7) v;
          v = BLAKE2_G 0 5 10 15 (w 8) (w 9) v;
          v = BLAKE2_G 1 6 11 12 (w 10) (w 11) v;
          v = BLAKE2_G 2 7 8 13 (w 12) (w 13) v
      in BLAKE2_G 3 4 9 14 (w 14) (w 15) v)"

text \<open>\<open>is_last_block\<close> is an \<open>int\<close> of 16 bits, 0 or 1; the offset is advanced by \<open>input_idx\<close> first.\<close>

definition blake2b_compress :: "blake2b_ctx \<Rightarrow> 16 word \<Rightarrow> blake2b_ctx" where
  "blake2b_compress ctx is_last_block =
     (let y = of_nat (b2_idx ctx);
          ctx = ctx\<lparr>b2_offset0 := b2_offset0 ctx + y\<rparr>;
          ctx = (if b2_offset0 ctx < y then ctx\<lparr>b2_offset1 := b2_offset1 ctx + 1\<rparr> else ctx);
          v = b2_hash ctx @ take 4 blake2b_iv
              @ [blake2b_iv ! 4 XOR b2_offset0 ctx, blake2b_iv ! 5 XOR b2_offset1 ctx,
                 blake2b_iv ! 6 XOR scast (NOT (is_last_block - 1)), blake2b_iv ! 7];
          v = fold (BLAKE2_ROUND (b2_input ctx)) [0..<12] v
      in ctx\<lparr>b2_hash := map2 (XOR) (b2_hash ctx) (map2 (XOR) (take 8 v) (drop 8 v))\<rparr>)"

section \<open>The streaming interface\<close>

text \<open>\<open>load64_le_buf (dst + i, src, n)\<close>: the words of \<open>dst\<close> from index \<open>i\<close> on are overwritten.\<close>

definition load64_le_buf :: "nat \<Rightarrow> byte list \<Rightarrow> nat \<Rightarrow> u64 list \<Rightarrow> u64 list" where
  "load64_le_buf i src n dst =
     take i dst @ map (\<lambda>k. load64_le (drop (8 * k) src)) [0..<n] @ drop (i + n) dst"

definition crypto_blake2b_keyed_init :: "nat \<Rightarrow> byte list \<Rightarrow> blake2b_ctx \<Rightarrow> blake2b_ctx" where
  "crypto_blake2b_keyed_init hash_size key ctx =
     (let ctx = ctx\<lparr>b2_hash := blake2b_iv[0 := blake2b_iv ! 0 XOR (0x01010000 XOR ucast (push_bit 8 (of_nat (length key) :: 16 word))
                                 XOR ucast (of_nat hash_size :: 16 word))],
                    b2_offset0 := 0, b2_offset1 := 0, b2_hash_size := hash_size, b2_idx := 0, b2_input := replicate 16 0\<rparr>
      in if length key > 0 then
           ctx\<lparr>b2_input := load64_le_buf 0 (key @ replicate (128 - length key) 0) 16 (b2_input ctx), b2_idx := 128\<rparr>
         else ctx)"

definition crypto_blake2b_init :: "nat \<Rightarrow> blake2b_ctx \<Rightarrow> blake2b_ctx" where
  "crypto_blake2b_init hash_size ctx = crypto_blake2b_keyed_init hash_size [] ctx"

text \<open>The two byte loops of \<open>crypto_blake2b_update\<close>, the word loads, and the whole blocks.\<close>

definition b2_byte :: "byte \<Rightarrow> blake2b_ctx \<Rightarrow> blake2b_ctx" where
  "b2_byte b ctx =
     (let word = b2_idx ctx div 8; byte = b2_idx ctx mod 8
      in ctx\<lparr>b2_input := (b2_input ctx)[word := b2_input ctx ! word OR push_bit (8 * byte) (ucast b)], b2_idx := b2_idx ctx + 1\<rparr>)"

definition b2_to_word :: "byte list \<Rightarrow> blake2b_ctx \<Rightarrow> byte list \<times> blake2b_ctx" where
  "b2_to_word message ctx =
     (if b2_idx ctx mod 8 \<noteq> 0 then
        (let nb_bytes = min (gap (b2_idx ctx) 8) (length message)
         in (drop nb_bytes message, fold b2_byte (take nb_bytes message) ctx))
      else (message, ctx))"

definition b2_to_block :: "byte list \<Rightarrow> blake2b_ctx \<Rightarrow> byte list \<times> blake2b_ctx" where
  "b2_to_block message ctx =
     (if b2_idx ctx mod 128 \<noteq> 0 then
        (let nb_words = min (gap (b2_idx ctx) 128) (length message) div 8
         in (drop (8 * nb_words) message,
             ctx\<lparr>b2_input := load64_le_buf (b2_idx ctx div 8) message nb_words (b2_input ctx), b2_idx := b2_idx ctx + 8 * nb_words\<rparr>))
      else (message, ctx))"

primrec b2_blocks :: "nat \<Rightarrow> byte list \<Rightarrow> blake2b_ctx \<Rightarrow> blake2b_ctx" where
  "b2_blocks 0 message ctx = ctx"
| "b2_blocks (Suc n) message ctx =
     (let ctx = (if b2_idx ctx = 128 then blake2b_compress ctx 0 else ctx)
      in b2_blocks n (drop 128 message) (ctx\<lparr>b2_input := load64_le_buf 0 message 16 (b2_input ctx), b2_idx := 128\<rparr>))"

definition b2_rest :: "byte list \<Rightarrow> blake2b_ctx \<Rightarrow> blake2b_ctx" where
  "b2_rest message ctx =
     (if message \<noteq> [] then
        (let ctx = (if b2_idx ctx = 128 then (blake2b_compress ctx 0)\<lparr>b2_idx := 0\<rparr> else ctx);
             ctx = (if b2_idx ctx = 0 then ctx\<lparr>b2_input := replicate 16 0\<rparr> else ctx);
             nb_words = length message div 8;
             ctx = ctx\<lparr>b2_input := load64_le_buf 0 message nb_words (b2_input ctx), b2_idx := b2_idx ctx + 8 * nb_words\<rparr>
         in fold b2_byte (drop (8 * nb_words) message) ctx)
      else ctx)"

definition crypto_blake2b_update :: "byte list \<Rightarrow> blake2b_ctx \<Rightarrow> blake2b_ctx" where
  "crypto_blake2b_update message ctx =
     (if message = [] then ctx
      else
        (let (message, ctx) = b2_to_word message ctx;
             (message, ctx) = b2_to_block message ctx;
             nb_blocks = length message div 128;
             ctx = b2_blocks nb_blocks message ctx
         in b2_rest (drop (128 * nb_blocks) message) ctx))"

definition crypto_blake2b_final :: "blake2b_ctx \<Rightarrow> byte list" where
  "crypto_blake2b_final ctx =
     (let ctx = blake2b_compress ctx 1;
          hash_size = min (b2_hash_size ctx) 64;
          nb_words = hash_size div 8
      in concat (map store64_le (take nb_words (b2_hash ctx)))
         @ map (\<lambda>i. ucast (drop_bit (8 * (i mod 8)) (b2_hash ctx ! (i div 8)) AND 0xff)) [8 * nb_words..<hash_size])"

definition blake2b_ctx0 :: blake2b_ctx where
  "blake2b_ctx0 = \<lparr>b2_hash = replicate 8 0, b2_offset0 = 0, b2_offset1 = 0, b2_input = replicate 16 0, b2_idx = 0, b2_hash_size = 0\<rparr>"

definition crypto_blake2b_keyed :: "nat \<Rightarrow> byte list \<Rightarrow> byte list \<Rightarrow> byte list" where
  "crypto_blake2b_keyed hash_size key message =
     crypto_blake2b_final (crypto_blake2b_update message (crypto_blake2b_keyed_init hash_size key blake2b_ctx0))"

definition crypto_blake2b :: "nat \<Rightarrow> byte list \<Rightarrow> byte list" where
  "crypto_blake2b hash_size msg = crypto_blake2b_keyed hash_size [] msg"

section \<open>The standard\<close>

text \<open>The little-endian words of a byte list, and the function F of RFC 7693 with its counter as a number.\<close>

definition words_le :: "byte list \<Rightarrow> u64 list" where
  "words_le xs = map (\<lambda>k. load64_le (drop (8 * k) xs)) [0..<length xs div 8]"

definition blake2b_F :: "u64 list \<Rightarrow> u64 list \<Rightarrow> nat \<Rightarrow> bool \<Rightarrow> u64 list" where
  "blake2b_F h m t f =
     (let v = h @ take 4 blake2b_iv
              @ [blake2b_iv ! 4 XOR of_nat t, blake2b_iv ! 5 XOR of_nat (t div 18446744073709551616),
                 (if f then NOT (blake2b_iv ! 6) else blake2b_iv ! 6), blake2b_iv ! 7];
          v = fold (BLAKE2_ROUND m) [0..<12] v
      in map2 (XOR) h (map2 (XOR) (take 8 v) (drop 8 v)))"

text \<open>All blocks but the last, and the whole message: the last block is padded with zeros, counted by its bytes
  and flagged.\<close>

function blake2b_pre :: "u64 list \<Rightarrow> nat \<Rightarrow> byte list \<Rightarrow> u64 list" where
  "blake2b_pre h n xs =
     (if length xs < 128 then h else blake2b_pre (blake2b_F h (words_le (take 128 xs)) (n + 128) False) (n + 128) (drop 128 xs))"
  by pat_completeness auto
termination by (relation "measure (\<lambda>(_, _, xs). length xs)") auto

function blake2b_rfc :: "u64 list \<Rightarrow> nat \<Rightarrow> byte list \<Rightarrow> u64 list" where
  "blake2b_rfc h n xs =
     (if length xs \<le> 128 then blake2b_F h (words_le (zeros_to 128 xs)) (n + length xs) True
      else blake2b_rfc (blake2b_F h (words_le (take 128 xs)) (n + 128) False) (n + 128) (drop 128 xs))"
  by pat_completeness auto
termination by (relation "measure (\<lambda>(_, _, xs). length xs)") auto

declare blake2b_pre.simps [simp del] blake2b_rfc.simps [simp del]

definition blake2b_h0 :: "nat \<Rightarrow> nat \<Rightarrow> u64 list" where
  "blake2b_h0 nn kk = blake2b_iv[0 := blake2b_iv ! 0 XOR (0x01010000 XOR of_nat (256 * kk) XOR of_nat nn)]"

definition blake2b_spec :: "nat \<Rightarrow> byte list \<Rightarrow> byte list \<Rightarrow> byte list" where
  "blake2b_spec nn key msg =
     take nn (concat (map store64_le (blake2b_rfc (blake2b_h0 nn (length key)) 0 ((if key = [] then [] else zeros_to 128 key) @ msg))))"

section \<open>Words and bytes\<close>

lemma length_words_le [simp]: "length (words_le xs) = length xs div 8"
  by (simp add: words_le_def)

lemma bit_load64: "8 \<le> length s \<Longrightarrow> n < 64 \<Longrightarrow> bit (load64_le s) n = bit (s ! (n div 8)) (n mod 8)"
  using bit_le_num [of n "take 8 s"] by (simp add: load64_num bit_of_nat_iff)

lemma load64_cong: "8 \<le> length xs \<Longrightarrow> 8 \<le> length ys \<Longrightarrow> (\<And>i. i < 8 \<Longrightarrow> xs ! i = ys ! i) \<Longrightarrow> load64_le xs = load64_le ys"
  by (rule bit_word_eqI) (simp add: bit_load64)

lemma words_le_append: "8 dvd length xs \<Longrightarrow> words_le (xs @ ys) = words_le xs @ words_le ys"
proof (rule nth_equalityI)
  assume d: "8 dvd length xs"
  then obtain q where q: "length xs = 8 * q" by (auto elim: dvdE)
  then show "length (words_le (xs @ ys)) = length (words_le xs @ words_le ys)" by simp
  fix k assume "k < length (words_le (xs @ ys))"
  then have k: "8 * k + 8 \<le> length xs + length ys" using q by simp
  show "words_le (xs @ ys) ! k = (words_le xs @ words_le ys) ! k"
  proof (cases "k < q")
    case True
    then have "load64_le (drop (8 * k) (xs @ ys)) = load64_le (drop (8 * k) xs)"
      using q by (intro load64_cong) (auto simp: nth_append)
    then show ?thesis using True q k by (simp add: words_le_def nth_append)
  next
    case False
    then obtain j where j: "k = q + j" using le_Suc_ex [of q k] by auto
    then have "j < length ys div 8" using k q by simp
    then show ?thesis using q j by (simp add: words_le_def nth_append)
  qed
qed

lemma or_byte_le:
  assumes "r < length xs" "xs ! r = 0" "8 dvd length xs"
  shows "words_le (xs[r := b]) = (words_le xs)[r div 8 := words_le xs ! (r div 8) OR push_bit (8 * (r mod 8)) (ucast b)]"
proof (rule nth_equalityI)
  fix k assume "k < length (words_le (xs[r := b]))"
  then have k: "8 * k + 8 \<le> length xs" using assms(3) by (auto elim!: dvdE)
  then have kl: "k < length xs div 8" by simp
  show "words_le (xs[r := b]) ! k = (words_le xs)[r div 8 := words_le xs ! (r div 8) OR push_bit (8 * (r mod 8)) (ucast b)] ! k"
  proof (cases "k = r div 8")
    case False
    have "xs[r := b] ! (8 * k + i) = xs ! (8 * k + i)" if "i < 8" for i using False that by (cases "r = 8 * k + i") auto
    then have "load64_le (drop (8 * k) (xs[r := b])) = load64_le (drop (8 * k) xs)"
      using k by (intro load64_cong) simp_all
    then show ?thesis using False kl by (simp add: words_le_def)
  next
    case True
    define j where "j = r mod 8"
    have r: "r = 8 * k + j" "j < 8" using True by (simp_all add: j_def)
    have "load64_le (drop (8 * k) (xs[r := b])) = load64_le (drop (8 * k) xs) OR push_bit (8 * j) (ucast b)"
    proof (rule bit_word_eqI)
      fix n assume "n < LENGTH(64)"
      then have n: "n < 64" by simp
      then have m: "n div 8 < 8" by simp
      have z: "n div 8 = j \<longleftrightarrow> 8 * j \<le> n \<and> n < 8 * j + 8" by linarith
      have "bit (push_bit (8 * j) (ucast b) :: u64) n \<longleftrightarrow> n div 8 = j \<and> bit b (n mod 8)"
      proof (cases "n div 8 = j")
        case True
        then have "n - 8 * j = n mod 8" using minus_div_mult_eq_mod [of n 8] by (simp add: mult.commute)
        moreover have "n mod 8 < 64" using mod_less_divisor [of 8 n] by linarith
        ultimately show ?thesis using True n z by (simp add: bit_push_bit_iff bit_ucast_iff)
      next
        case False
        then show ?thesis using z bit_imp_le_length [of b "n - 8 * j"] by (auto simp: bit_push_bit_iff bit_ucast_iff)
      qed
      moreover have "bit (xs[r := b] ! (8 * k + n div 8)) (n mod 8) \<longleftrightarrow>
          bit (xs ! (8 * k + n div 8)) (n mod 8) \<or> n div 8 = j \<and> bit b (n mod 8)"
        using assms(1,2) r by (cases "n div 8 = j") (auto simp: nth_list_update)
      ultimately show "bit (load64_le (drop (8 * k) (xs[r := b]))) n
          = bit (load64_le (drop (8 * k) xs) OR push_bit (8 * j) (ucast b)) n"
        using k n m by (simp add: bit_load64 bit_or_iff)
    qed
    then show ?thesis using True kl by (simp add: words_le_def j_def)
  qed
qed simp

lemma words_le_zeros: "words_le (replicate (8 * n) 0) = replicate n 0"
proof (rule nth_equalityI)
  fix k assume "k < length (words_le (replicate (8 * n) 0))"
  then have k: "k < n" by simp
  then have "load64_le (replicate (8 * n - 8 * k) 0) = 0" by (intro bit_word_eqI) (simp add: bit_load64)
  then show "words_le (replicate (8 * n) 0) ! k = replicate n 0 ! k" using k by (simp add: words_le_def)
qed simp

lemma load_words_le: "8 * n \<le> length xs \<Longrightarrow> map (\<lambda>k. load64_le (drop (8 * k) xs)) [0..<n] = words_le (take (8 * n) xs)"
  by (intro nth_equalityI) (auto simp: words_le_def intro!: load64_cong)

section \<open>The reference by blocks\<close>

lemma pre_short: "length xs < 128 \<Longrightarrow> blake2b_pre h n xs = h"
  by (simp add: blake2b_pre.simps)

lemma pre_snoc:
  assumes "128 dvd length m" "length t = 128"
  shows "blake2b_pre h n (m @ t) = blake2b_F (blake2b_pre h n m) (words_le t) (n + length m + 128) False"
  using assms
proof (induction h n m rule: blake2b_pre.induct)
  case (1 h n m)
  show ?case
  proof (cases "length m < 128")
    case True
    then have "m = []" using 1(2) by (auto dest: dvd_imp_le)
    then show ?thesis using 1(3) by (simp add: blake2b_pre.simps [of _ _ t] pre_short)
  next
    case False
    then have "128 dvd length (drop 128 m)" using 1(2) by (simp add: dvd_minus_self)
    from 1(1) [OF False this 1(3)] show ?thesis using False
      by (simp add: blake2b_pre.simps [of h n "m @ t"] blake2b_pre.simps [of h n m])
  qed
qed

lemma rfc_pre:
  assumes "128 dvd length m" "length t \<le> 128" "t = [] \<Longrightarrow> m = []"
  shows "blake2b_rfc h n (m @ t) = blake2b_F (blake2b_pre h n m) (words_le (zeros_to 128 t)) (n + length m + length t) True"
  using assms
proof (induction h n m rule: blake2b_pre.induct)
  case (1 h n m)
  show ?case
  proof (cases "length m < 128")
    case True
    then have "m = []" using 1(2) by (auto dest: dvd_imp_le)
    then show ?thesis using 1(3) by (simp add: blake2b_rfc.simps [of _ _ t] pre_short)
  next
    case False
    then have d: "128 dvd length (drop 128 m)" "t \<noteq> []" using 1(2,4) by (auto simp: dvd_minus_self)
    have "blake2b_rfc h n (m @ t) = blake2b_rfc (blake2b_F h (words_le (take 128 m)) (n + 128) False) (n + 128) (drop 128 m @ t)"
      using False d(2) by (simp add: blake2b_rfc.simps [of h n "m @ t"]) (cases "length t", simp_all)
    then show ?thesis using 1(1) [OF False d(1) 1(3)] d(2) False
      by (simp add: blake2b_pre.simps [of h n m])
  qed
qed

section \<open>The context\<close>

definition b2_hashed :: "u64 list \<Rightarrow> byte list \<Rightarrow> blake2b_ctx \<Rightarrow> bool" where
  "b2_hashed h m ctx \<longleftrightarrow> 128 dvd length m \<and> b2_hash ctx = blake2b_pre h 0 m \<and> b2_offset0 ctx = of_nat (length m)
     \<and> b2_offset1 ctx = of_nat (length m div 18446744073709551616)"

definition b2_buffered :: "byte list \<Rightarrow> blake2b_ctx \<Rightarrow> bool" where
  "b2_buffered t ctx \<longleftrightarrow> length t \<le> 128 \<and> b2_idx ctx = length t \<and> b2_input ctx = words_le (zeros_to 128 t)"

lemma b2_hashed_frame [simp]:
  "b2_hashed h m (ctx\<lparr>b2_input := i\<rparr>) = b2_hashed h m ctx" "b2_hashed h m (ctx\<lparr>b2_idx := k\<rparr>) = b2_hashed h m ctx"
  by (simp_all add: b2_hashed_def)

lemma b2_hashed_bytes [simp]: "b2_hashed h m (fold b2_byte bs ctx) = b2_hashed h m ctx"
  by (induction bs arbitrary: ctx) (simp_all add: b2_byte_def Let_def)

lemma carry_pair:
  fixes n k :: nat
  assumes "k < 18446744073709551616"
  shows "(if (of_nat n + of_nat k :: u64) < of_nat k then of_nat (n div 18446744073709551616) + 1 else of_nat (n div 18446744073709551616))
    = (of_nat ((n + k) div 18446744073709551616) :: u64)"
  using arg_cong [OF incr_exact [of "sha512_ctx0\<lparr>s5_size1 := of_nat n, s5_size0 := of_nat (n div 18446744073709551616)\<rparr>" n k],
      of s5_size0] assms
  by (simp add: sha512_incr_def Let_def split: if_splits)

lemma compress_eq:
  assumes "b2_hashed h m ctx" "b2_buffered t ctx"
  shows "blake2b_compress ctx (if fin then 1 else 0)
    = ctx\<lparr>b2_hash := blake2b_F (blake2b_pre h 0 m) (words_le (zeros_to 128 t)) (length m + length t) fin,
        b2_offset0 := of_nat (length m + length t), b2_offset1 := of_nat ((length m + length t) div 18446744073709551616)\<rparr>"
proof -
  have b: "b2_hash ctx = blake2b_pre h 0 m" "b2_offset0 ctx = of_nat (length m)"
    "b2_offset1 ctx = of_nat (length m div 18446744073709551616)" "b2_idx ctx = length t" "b2_input ctx = words_le (zeros_to 128 t)"
    using assms by (simp_all add: b2_hashed_def b2_buffered_def)
  have f: "x XOR scast (NOT ((if fin then 1 else 0) - 1 :: 16 word)) = (if fin then NOT x else x)" for x :: u64
    by (rule bit_word_eqI) (auto simp: bit_simps)
  have k: "length t < 18446744073709551616" using assms(2) by (simp add: b2_buffered_def)
  show ?thesis unfolding blake2b_compress_def Let_def b f blake2b_F_def
    using carry_pair [OF k, of "length m"] b by (cases ctx) (auto split: if_splits)
qed

lemma compress_full:
  assumes "b2_hashed h m ctx" "b2_buffered t ctx" "length t = 128"
  shows "b2_hashed h (m @ t) (blake2b_compress ctx 0)" "b2_input (blake2b_compress ctx 0) = b2_input ctx"
    "b2_hash_size (blake2b_compress ctx 0) = b2_hash_size ctx"
  using compress_eq [OF assms(1,2), of False] assms pre_snoc [of m t h 0]
  by (simp_all add: b2_hashed_def zeros_to_def)

lemma gap_exact: "x < 128 \<Longrightarrow> gap x 8 = (8 - x mod 8) mod 8" "x < 128 \<Longrightarrow> gap x 128 = (128 - x) mod 128"
  using align_exact [of x] by (simp_all add: gap_def align_def)

lemma b2_byte_buffered: "b2_buffered t ctx \<Longrightarrow> length t < 128 \<Longrightarrow> b2_buffered (t @ [b]) (b2_byte b ctx)"
  using or_byte_le [of "length t" "zeros_to 128 t" b]
  by (simp add: b2_buffered_def b2_byte_def Let_def zeros_to_snoc) (simp add: zeros_to_def nth_append)

lemma b2_bytes_buffered:
  "b2_buffered t ctx \<Longrightarrow> length t + length bs \<le> 128 \<Longrightarrow> b2_buffered (t @ bs) (fold b2_byte bs ctx)"
proof (induction bs arbitrary: t ctx)
  case (Cons b bs)
  from Cons.IH [OF b2_byte_buffered [OF Cons.prems(1)], of b] Cons.prems(2) show ?case by simp
qed simp

lemma b2_words_buffered:
  assumes "b2_buffered t ctx" "length t = 8 * k" "8 * k + 8 * n \<le> 128" "8 * n \<le> length msg"
  shows "b2_buffered (t @ take (8 * n) msg) (ctx\<lparr>b2_input := load64_le_buf k msg n (b2_input ctx), b2_idx := b2_idx ctx + 8 * n\<rparr>)"
proof -
  let ?z = "replicate (128 - 8 * k - 8 * n) (0 :: byte)"
  have z: "replicate (128 - 8 * k) (0 :: byte) = replicate (8 * n) 0 @ ?z" using assms(3) by (simp add: replicate_add [symmetric])
  have "zeros_to 128 t = t @ replicate (8 * n) 0 @ ?z" unfolding zeros_to_def assms(2) z ..
  then have "words_le (zeros_to 128 t) = words_le t @ words_le (replicate (8 * n) 0) @ words_le ?z"
    using assms(2) by (simp add: words_le_append)
  moreover have "zeros_to 128 (t @ take (8 * n) msg) = t @ take (8 * n) msg @ ?z" using assms(2-4) by (simp add: zeros_to_def)
  ultimately have "words_le (zeros_to 128 (t @ take (8 * n) msg)) = load64_le_buf k msg n (words_le (zeros_to 128 t))"
    using assms(2,4) by (simp add: words_le_append load64_le_buf_def load_words_le)
  then show ?thesis using assms by (simp add: b2_buffered_def)
qed

lemma b2_empty: "b2_buffered [] (ctx\<lparr>b2_idx := 0, b2_input := replicate 16 0\<rparr>)"
  using words_le_zeros [of 16] by (simp add: b2_buffered_def zeros_to_def)

section \<open>Absorbing\<close>

lemma word_gap: "r \<noteq> 0 \<Longrightarrow> x mod 8 = r \<Longrightarrow> (8 - r) mod 8 = 8 - r \<and> x + (8 - r) = 8 * (x div 8 + 1)" for x r :: nat
proof -
  assume r: "r \<noteq> 0" "x mod 8 = r"
  then have "r < 8" "x = 8 * (x div 8) + r" by auto
  then show ?thesis using r(1) by simp
qed

lemma b2_to_word_absorbs:
  assumes "b2_hashed h m ctx" "b2_buffered t ctx" "b2_to_word msg ctx = (msg', ctx')"
  shows "\<exists>x. msg = x @ msg' \<and> b2_hashed h m ctx' \<and> b2_buffered (t @ x) ctx' \<and> (8 dvd length (t @ x) \<or> msg' = [])"
proof (cases "length t mod 8 = 0")
  case True
  then show ?thesis using assms by (auto simp: b2_to_word_def b2_buffered_def)
next
  case False
  let ?n = "min (8 - length t mod 8) (length msg)"
  have t: "b2_idx ctx = length t" "length t \<le> 128" using assms(2) by (simp_all add: b2_buffered_def)
  moreover have "length t \<noteq> 128" using False by auto
  ultimately have lt: "length t < 128" by simp
  note g = word_gap [OF False refl]
  have "gap (length t) 8 = 8 - length t mod 8" using gap_exact(1) [OF lt] g by simp
  then have e: "msg' = drop ?n msg" "ctx' = fold b2_byte (take ?n msg) ctx"
    using assms(3) False by (simp_all add: b2_to_word_def t(1) Let_def)
  have "length t div 8 < 16" using lt by simp
  then have "length t + (8 - length t mod 8) \<le> 128" unfolding conjunct2 [OF g] by simp
  then have "b2_buffered (t @ take ?n msg) ctx'" unfolding e by (intro b2_bytes_buffered assms(2)) simp
  moreover have "8 dvd length (t @ take ?n msg) \<or> msg' = []"
  proof (cases "8 - length t mod 8 \<le> length msg")
    case True
    then have "length (t @ take ?n msg) = 8 * (length t div 8 + 1)" using g by simp
    then show ?thesis by simp
  qed (simp add: e)
  ultimately show ?thesis using assms(1) by (intro exI [of _ "take ?n msg"]) (simp add: e)
qed

lemma b2_to_block_absorbs:
  assumes "b2_hashed h m ctx" "b2_buffered t ctx" "8 dvd length t \<or> msg = []" "b2_to_block msg ctx = (msg', ctx')"
  shows "\<exists>x. msg = x @ msg' \<and> b2_hashed h m ctx' \<and> b2_buffered (t @ x) ctx'
     \<and> (t @ x = [] \<or> length (t @ x) = 128 \<or> length (t @ x) + length msg' < 128 \<and> length msg' < 8)"
proof (cases "length t mod 128 = 0")
  case True
  then have "t = [] \<or> length t = 128" using assms(2) mod_less [of "length t" 128] by (fastforce simp: b2_buffered_def)
  then show ?thesis using assms True by (auto simp: b2_to_block_def b2_buffered_def)
next
  case False
  then have lt: "length t < 128" using assms(2) by (cases "length t = 128") (auto simp: b2_buffered_def)
  have idx: "b2_idx ctx = length t" using assms(2) by (simp add: b2_buffered_def)
  show ?thesis
  proof (cases "8 dvd length t")
    case True
    then obtain k where k: "length t = 8 * k" by (auto elim: dvdE)
    have al: "gap (length t) 128 = 8 * (16 - k)" using gap_exact(2) [OF lt] False k by (simp add: diff_mult_distrib2)
    define n where "n = min (8 * (16 - k)) (length msg) div 8"
    have n: "8 * n \<le> length msg" "8 * k + 8 * n \<le> 128" using lt k unfolding n_def by auto
    have e: "msg' = drop (8 * n) msg"
      "ctx' = ctx\<lparr>b2_input := load64_le_buf k msg n (b2_input ctx), b2_idx := b2_idx ctx + 8 * n\<rparr>"
      using assms(4) False al by (simp_all add: b2_to_block_def idx k Let_def n_def)
    have "b2_buffered (t @ take (8 * n) msg) ctx'" unfolding e by (rule b2_words_buffered [OF assms(2) k n(2,1)])
    moreover have "length (t @ take (8 * n) msg) = 128
        \<or> length (t @ take (8 * n) msg) + length msg' < 128 \<and> length msg' < 8"
    proof (cases "8 * (16 - k) \<le> length msg")
      case True
      then have "n = 16 - k" by (simp add: n_def min_def)
      then show ?thesis using True k lt by (simp add: diff_mult_distrib2)
    next
      case False
      then have "n = length msg div 8" by (simp add: n_def min_def)
      then show ?thesis using False k lt n by (simp add: e) linarith
    qed
    ultimately show ?thesis using assms(1) by (intro exI [of _ "take (8 * n) msg"]) (simp add: e(1), simp add: e(2))
  next
    case no: False
    then have "msg = []" using assms(3) by simp
    then have "msg' = []" "ctx' = ctx\<lparr>b2_input := load64_le_buf (length t div 8) [] 0 (b2_input ctx)\<rparr>"
      using assms(4) False by (simp_all add: b2_to_block_def idx Let_def) (simp_all add: idx [symmetric])
    then show ?thesis using assms(1,2) lt \<open>msg = []\<close>
      by (intro exI [of _ "[]"]) (simp add: load64_le_buf_def)
  qed
qed

text \<open>What the context stands for: whole blocks compressed and a non-empty rest waiting, which may be a whole block.\<close>

definition b2_at :: "u64 list \<Rightarrow> byte list \<Rightarrow> byte list \<Rightarrow> blake2b_ctx \<Rightarrow> bool" where
  "b2_at h msg t ctx \<longleftrightarrow> (\<exists>m. msg = m @ t \<and> b2_hashed h m ctx \<and> b2_buffered t ctx \<and> (t = [] \<longrightarrow> m = []))"

lemma b2_load_block:
  assumes "b2_hashed h m ctx" "128 \<le> length d" "length (b2_input ctx) = 16"
  shows "b2_at h (m @ take 128 d) (take 128 d) (ctx\<lparr>b2_input := load64_le_buf 0 d 16 (b2_input ctx), b2_idx := 128\<rparr>)"
proof -
  have "load64_le_buf 0 d 16 (b2_input ctx) = words_le (take 128 d)"
    using load_words_le [of 16 d] assms(2,3) by (simp add: load64_le_buf_def)
  then show ?thesis using assms by (auto simp: b2_at_def b2_buffered_def zeros_to_def)
qed

lemma buffered_words16: "b2_buffered t ctx \<Longrightarrow> length (b2_input ctx) = 16"
  by (simp add: b2_buffered_def)

lemma b2_block_step:
  assumes "b2_at h msg t ctx" "t = [] \<or> length t = 128" "128 \<le> length d"
  shows "b2_at h (msg @ take 128 d) (take 128 d) (let ctx = (if b2_idx ctx = 128 then blake2b_compress ctx 0 else ctx)
     in ctx\<lparr>b2_input := load64_le_buf 0 d 16 (b2_input ctx), b2_idx := 128\<rparr>)"
proof -
  obtain m where m: "msg = m @ t" "b2_hashed h m ctx" "b2_buffered t ctx" using assms(1) by (auto simp: b2_at_def)
  define c where "c = (if b2_idx ctx = 128 then blake2b_compress ctx 0 else ctx)"
  have "b2_hashed h msg c \<and> length (b2_input c) = 16"
  proof (cases "length t = 128")
    case True
    then show ?thesis using compress_full [OF m(2,3)] m buffered_words16 [OF m(3)] by (simp add: c_def b2_buffered_def)
  next
    case False
    then show ?thesis using assms(2) m buffered_words16 [OF m(3)] by (auto simp: c_def b2_buffered_def)
  qed
  then show ?thesis using b2_load_block [of h msg c d] assms(3) by (simp add: c_def Let_def)
qed

lemma b2_blocks_absorb:
  assumes "b2_at h msg t ctx" "t = [] \<or> length t = 128" "128 * n \<le> length d"
  shows "\<exists>t'. b2_at h (msg @ take (128 * n) d) t' (b2_blocks n d ctx) \<and> (t' = [] \<or> length t' = 128)"
  using assms
proof (induction n arbitrary: msg t ctx d)
  case (Suc n)
  have l: "128 \<le> length d" "128 * n \<le> length (drop 128 d)" using Suc.prems(3) by simp_all
  have "take 128 d @ take (128 * n) (drop 128 d) = take (128 * Suc n) d" by (simp add: take_add)
  then show ?case using Suc.IH [OF b2_block_step [OF Suc.prems(1,2) l(1)] _ l(2)] l(1) by (simp add: Let_def)
qed auto

lemma b2_rest_absorbs:
  assumes "b2_at h msg t ctx" "length d < 128" "t = [] \<or> length t = 128 \<or> length t + length d < 128 \<and> length d < 8"
  shows "\<exists>t'. b2_at h (msg @ d) t' (b2_rest d ctx)"
proof (cases "d = []")
  case True
  then show ?thesis using assms(1) by (auto simp: b2_rest_def)
next
  case False
  obtain m where m: "msg = m @ t" "b2_hashed h m ctx" "b2_buffered t ctx" "t = [] \<Longrightarrow> m = []" using assms(1) by (auto simp: b2_at_def)
  define n where "n = length d div 8"
  define c1 where "c1 = (if b2_idx ctx = 128 then (blake2b_compress ctx 0)\<lparr>b2_idx := 0\<rparr> else ctx)"
  define c2 where "c2 = (if b2_idx c1 = 0 then c1\<lparr>b2_input := replicate 16 0\<rparr> else c1)"
  define c3 where "c3 = c2\<lparr>b2_input := load64_le_buf 0 d n (b2_input c2), b2_idx := b2_idx c2 + 8 * n\<rparr>"
  have e: "b2_rest d ctx = fold b2_byte (drop (8 * n) d) c3"
    using False by (simp add: b2_rest_def Let_def n_def c1_def c2_def c3_def)
  have n8: "8 * n \<le> length d" by (simp add: n_def)
  have idx: "b2_idx ctx = length t" using m(3) by (simp add: b2_buffered_def)
  show ?thesis
  proof (cases "t = [] \<or> length t = 128")
    case True
    have "b2_hashed h msg c1 \<and> b2_idx c1 = 0"
    proof (cases "length t = 128")
      case True
      then show ?thesis using compress_full(1) [OF m(2,3)] idx m(1) by (simp add: c1_def)
    next
      case False
      then show ?thesis using \<open>t = [] \<or> length t = 128\<close> m(1,2) idx by (auto simp: c1_def)
    qed
    then have c2: "b2_hashed h msg c2" "b2_buffered [] c2" using words_le_zeros [of 16] by (simp_all add: c2_def b2_buffered_def zeros_to_def)
    have "b2_buffered ([] @ take (8 * n) d) c3"
      unfolding c3_def using n8 assms(2) by (intro b2_words_buffered c2(2)) simp_all
    then have "b2_buffered d (b2_rest d ctx)"
      using b2_bytes_buffered [of "take (8 * n) d" c3 "drop (8 * n) d"] assms(2) by (simp add: e)
    moreover have "b2_hashed h msg (b2_rest d ctx)" using c2(1) by (simp add: e c3_def)
    ultimately have "b2_at h (msg @ d) d (b2_rest d ctx)" using False by (auto simp: b2_at_def)
    then show ?thesis by blast
  next
    case other: False
    then have l: "length t + length d < 128" "length d < 8" using assms(3) by auto
    then have "n = 0" "c2 = ctx" using other idx by (simp_all add: n_def c1_def c2_def)
    then have "c3 = ctx" by (simp add: c3_def load64_le_buf_def)
    then have "b2_buffered (t @ d) (b2_rest d ctx)" "b2_hashed h m (b2_rest d ctx)"
      using b2_bytes_buffered [OF m(3), of d] l m(2) \<open>n = 0\<close> by (simp_all add: e)
    then have "b2_at h (msg @ d) (t @ d) (b2_rest d ctx)" using m(1) False by (auto simp: b2_at_def)
    then show ?thesis by blast
  qed
qed

definition b2_stands :: "u64 list \<Rightarrow> byte list \<Rightarrow> blake2b_ctx \<Rightarrow> bool" where
  "b2_stands h msg ctx \<longleftrightarrow> (\<exists>t. b2_at h msg t ctx)"

lemma b2_update_stands:
  assumes "b2_stands h msg ctx" shows "b2_stands h (msg @ data) (crypto_blake2b_update data ctx)"
proof (cases "data = []")
  case True
  then show ?thesis using assms by (simp add: crypto_blake2b_update_def)
next
  case False
  obtain t m where s: "msg = m @ t" "b2_hashed h m ctx" "b2_buffered t ctx" "t = [] \<longrightarrow> m = []"
    using assms by (auto simp: b2_stands_def b2_at_def)
  obtain d1 c1 where w: "b2_to_word data ctx = (d1, c1)" by fastforce
  obtain x where x: "data = x @ d1" "b2_hashed h m c1" "b2_buffered (t @ x) c1" "8 dvd length (t @ x) \<or> d1 = []"
    using b2_to_word_absorbs [OF s(2,3) w] by blast
  obtain d2 c2 where b: "b2_to_block d1 c1 = (d2, c2)" by fastforce
  obtain y where y: "d1 = y @ d2" "b2_hashed h m c2" "b2_buffered (t @ x @ y) c2"
    "t @ x @ y = [] \<or> length (t @ x @ y) = 128 \<or> length (t @ x @ y) + length d2 < 128 \<and> length d2 < 8"
    using b2_to_block_absorbs [OF x(2-4) b] by auto
  define n where "n = length d2 div 128"
  have e: "crypto_blake2b_update data ctx = b2_rest (drop (128 * n) d2) (b2_blocks n d2 c2)"
    using False w b by (simp add: crypto_blake2b_update_def Let_def n_def)
  have "b2_at h (m @ t @ x @ y) (t @ x @ y) c2" using s(4) y(2,3) by (auto simp: b2_at_def)
  then have "\<exists>t'. b2_at h (m @ (t @ x @ y) @ take (128 * n) d2) t' (b2_blocks n d2 c2)
      \<and> (t' = [] \<or> length t' = 128 \<or> length t' + length (drop (128 * n) d2) < 128 \<and> length (drop (128 * n) d2) < 8)"
  proof (cases "t @ x @ y = [] \<or> length (t @ x @ y) = 128")
    case True
    have "128 * n \<le> length d2" by (simp add: n_def)
    from b2_blocks_absorb [OF \<open>b2_at h (m @ t @ x @ y) (t @ x @ y) c2\<close> True this] show ?thesis by auto
  next
    case no: False
    then have "length (t @ x @ y) + length d2 < 128 \<and> length d2 < 8" using y(4) by auto
    then show ?thesis using \<open>b2_at h (m @ t @ x @ y) (t @ x @ y) c2\<close> by (intro exI [of _ "t @ x @ y"]) (simp add: n_def)
  qed
  then obtain t' where t': "b2_at h (m @ (t @ x @ y) @ take (128 * n) d2) t' (b2_blocks n d2 c2)"
    "t' = [] \<or> length t' = 128 \<or> length t' + length (drop (128 * n) d2) < 128 \<and> length (drop (128 * n) d2) < 8" by blast
  have "length (drop (128 * n) d2) < 128" by (simp add: n_def minus_mult_div_eq_mod)
  from b2_rest_absorbs [OF t'(1) this t'(2)] show ?thesis unfolding b2_stands_def e by (simp add: s(1) x(1) y(1))
qed

section \<open>Finishing\<close>

lemma store64_nth: "j < 8 \<Longrightarrow> store64_le v ! j = ucast (drop_bit (8 * j) v)"
proof -
  assume "j < 8"
  then consider "j = 0" | "j = 1" | "j = 2" | "j = 3" | "j = 4" | "j = 5" | "j = 6" | "j = 7" by linarith
  then show ?thesis
    by cases (auto simp: store64_le_def store32_le_def bit_simps intro!: bit_word_eqI)
qed

lemma length_store64_le [simp]: "length (store64_le v) = 8"
  by (simp add: store64_le_def store32_le_def)

lemma length_stores [simp]: "length (concat (map store64_le ws)) = 8 * length ws"
  by (induction ws) simp_all

lemma stores_nth: "i < 8 * length ws \<Longrightarrow> concat (map store64_le ws) ! i = ucast (drop_bit (8 * (i mod 8)) (ws ! (i div 8)))"
proof (induction ws arbitrary: i)
  case (Cons w ws)
  show ?case
  proof (cases "i < 8")
    case True
    then show ?thesis by (simp add: nth_append store64_nth)
  next
    case False
    then obtain j where j: "i = 8 + j" using le_Suc_ex [of 8 i] by auto
    moreover have "(8 + j) div 8 = Suc (j div 8)" by simp
    moreover have "concat (map store64_le (w # ws)) ! (8 + j) = concat (map store64_le ws) ! j"
      using nth_append_length_plus [of "store64_le w" "concat (map store64_le ws)" j] by simp
    ultimately show ?thesis using Cons.IH [of j] Cons.prems by simp
  qed
qed simp

lemma digest_bytes:
  assumes "length ws = 8" "n \<le> 64"
  shows "concat (map store64_le (take (n div 8) ws)) @ map (\<lambda>i. ucast (drop_bit (8 * (i mod 8)) (ws ! (i div 8)) AND 0xff)) [8 * (n div 8)..<n]
    = take n (concat (map store64_le ws))"
proof (rule nth_equalityI)
  fix i assume "i < length (concat (map store64_le (take (n div 8) ws)) @ map (\<lambda>i. ucast (drop_bit (8 * (i mod 8)) (ws ! (i div 8)) AND 0xff) :: byte) [8 * (n div 8)..<n])"
  then have i: "i < n" using assms by (simp split: nat_diff_split_asm)
  show "(concat (map store64_le (take (n div 8) ws)) @ map (\<lambda>i. ucast (drop_bit (8 * (i mod 8)) (ws ! (i div 8)) AND 0xff)) [8 * (n div 8)..<n]) ! i
      = take n (concat (map store64_le ws)) ! i"
  proof (cases "i < 8 * (n div 8)")
    case False
    then have "[8 * (n div 8)..<n] ! (i - 8 * (n div 8)) = i" using i by (subst nth_upt) simp_all
    then show ?thesis using False i assms by (simp add: nth_append stores_nth ucast_low)
  qed (use i assms in \<open>simp add: nth_append stores_nth\<close>)
qed (use assms in simp)

lemma length_G [simp]: "length (BLAKE2_G a b c d x y v) = length v"
  by (simp add: BLAKE2_G_def Let_def)

lemma length_ROUND [simp]: "length (BLAKE2_ROUND m i v) = length v"
  by (simp add: BLAKE2_ROUND_def Let_def)

lemma length_ROUNDS [simp]: "length (fold (BLAKE2_ROUND m) ks v) = length v"
  by (induction ks arbitrary: v) simp_all

lemma length_F: "length h = 8 \<Longrightarrow> length (blake2b_F h m t f) = 8"
  by (simp add: blake2b_F_def Let_def blake2b_iv_def)

lemma length_rfc: "length h = 8 \<Longrightarrow> length (blake2b_rfc h n xs) = 8"
proof (induction h n xs rule: blake2b_rfc.induct)
  case (1 h n xs)
  then show ?case by (subst blake2b_rfc.simps) (simp add: length_F)
qed

lemma b2_final_stands:
  assumes "b2_stands h msg ctx" "length h = 8" "b2_hash_size ctx \<le> 64"
  shows "crypto_blake2b_final ctx = take (b2_hash_size ctx) (concat (map store64_le (blake2b_rfc h 0 msg)))"
proof -
  obtain m t where m: "msg = m @ t" "b2_hashed h m ctx" "b2_buffered t ctx" "t = [] \<Longrightarrow> m = []"
    using assms(1) by (auto simp: b2_stands_def b2_at_def)
  have d: "128 dvd length m" "length t \<le> 128" using m(2,3) by (simp_all add: b2_hashed_def b2_buffered_def)
  have r: "b2_hash (blake2b_compress ctx 1) = blake2b_rfc h 0 msg" "b2_hash_size (blake2b_compress ctx 1) = b2_hash_size ctx"
    using compress_eq [OF m(2,3), of True] rfc_pre [OF d m(4), of h 0] by (simp_all add: m(1))
  have "length (blake2b_rfc h 0 msg) = 8" by (rule length_rfc [OF assms(2)])
  then show ?thesis unfolding crypto_blake2b_final_def Let_def r using digest_bytes [of "blake2b_rfc h 0 msg" "b2_hash_size ctx"] assms(3) by (simp add: min_def)
qed

lemma b2_init_stands:
  assumes "length key \<le> 64" "hash_size < 65536"
  shows "b2_stands (blake2b_h0 hash_size (length key)) (if key = [] then [] else zeros_to 128 key) (crypto_blake2b_keyed_init hash_size key ctx)"
    "b2_hash_size (crypto_blake2b_keyed_init hash_size key ctx) = hash_size"
proof -
  let ?c = "crypto_blake2b_keyed_init hash_size key ctx" and ?h = "blake2b_h0 hash_size (length key)"
  have w: "(ucast (of_nat k :: 16 word) :: u64) = of_nat k" if "k < 65536" for k
    using that by (simp add: unsigned_of_nat take_bit_nat_eq_self)
  have "push_bit 8 (of_nat (length key) :: 16 word) = of_nat (256 * length key)" by (simp add: push_bit_eq_mult mult.commute)
  then have h: "b2_hash ?c = ?h" using w [of "256 * length key"] w [of hash_size] assms
    by (simp add: crypto_blake2b_keyed_init_def blake2b_h0_def Let_def)
  then have hs: "b2_hashed ?h [] ?c" by (simp add: b2_hashed_def pre_short) (simp add: crypto_blake2b_keyed_init_def Let_def)
  have "b2_buffered (if key = [] then [] else zeros_to 128 key) ?c"
  proof (cases "key = []")
    case True
    then show ?thesis using words_le_zeros [of 16] by (simp add: crypto_blake2b_keyed_init_def Let_def b2_buffered_def zeros_to_def)
  next
    case False
    have "load64_le_buf 0 (key @ replicate (128 - length key) 0) 16 (replicate 16 0) = words_le (zeros_to 128 key)"
      using load_words_le [of 16 "zeros_to 128 key"] assms(1) by (simp add: load64_le_buf_def zeros_to_def)
    then show ?thesis using False assms(1)
      by (simp add: crypto_blake2b_keyed_init_def Let_def b2_buffered_def) (simp add: zeros_to_def)
  qed
  then have "b2_at ?h (if key = [] then [] else zeros_to 128 key) (if key = [] then [] else zeros_to 128 key) ?c"
    using hs unfolding b2_at_def by (intro exI [of _ "[]"]) simp
  then show "b2_stands ?h (if key = [] then [] else zeros_to 128 key) ?c" unfolding b2_stands_def by blast
  show "b2_hash_size ?c = hash_size" by (simp add: crypto_blake2b_keyed_init_def Let_def)
qed

lemma fold_keeps_size [simp]: "b2_hash_size (fold b2_byte bs ctx) = b2_hash_size ctx"
  by (induction bs arbitrary: ctx) (simp_all add: b2_byte_def Let_def)

lemma compress_keeps_size [simp]: "b2_hash_size (blake2b_compress ctx f) = b2_hash_size ctx"
  by (simp add: blake2b_compress_def Let_def)

lemma blocks_keep_size [simp]: "b2_hash_size (b2_blocks n d ctx) = b2_hash_size ctx"
  by (induction n arbitrary: d ctx) (simp_all add: Let_def)

lemma parts_keep_size [simp]:
  "b2_hash_size (snd (b2_to_word d ctx)) = b2_hash_size ctx" "b2_hash_size (snd (b2_to_block d ctx)) = b2_hash_size ctx"
  "b2_hash_size (b2_rest d ctx) = b2_hash_size ctx"
  by (simp_all add: b2_to_word_def b2_to_block_def b2_rest_def Let_def)

lemma update_keeps_size [simp]: "b2_hash_size (crypto_blake2b_update d ctx) = b2_hash_size ctx"
  by (simp add: crypto_blake2b_update_def Let_def case_prod_beta)

interpretation blake: streaming "\<lambda>m ctx. b2_stands h m ctx \<and> length h = 8 \<and> b2_hash_size ctx = nn \<and> nn \<le> 64"
    crypto_blake2b_update crypto_blake2b_final "\<lambda>m. take nn (concat (map store64_le (blake2b_rfc h 0 m)))"
  by unfold_locales (auto simp: b2_update_stands b2_final_stands)

lemma blake2b_pieces:
  assumes "length key \<le> 64" "hash_size \<le> 64"
  shows "crypto_blake2b_final (fold crypto_blake2b_update pieces (crypto_blake2b_keyed_init hash_size key ctx))
    = blake2b_spec hash_size key (concat pieces)"
proof -
  have "hash_size < 65536" using assms(2) by simp
  note i = b2_init_stands [OF assms(1) this, of ctx]
  have "length (blake2b_h0 hash_size (length key)) = 8" by (simp add: blake2b_h0_def blake2b_iv_def)
  then show ?thesis using blake.digest_pieces [of "blake2b_h0 hash_size (length key)" _ _ hash_size] i assms(2)
    by (simp add: blake2b_spec_def)
qed

text \<open>C35. The streaming BLAKE2b is RFC 7693.  For every key and digest of at most 64 bytes, initialising, absorbing the
  pieces of a message in any splitting (the last full block being kept back until more data comes) and
  finishing gives the digest of the standard: the key block, the byte counter with its carry, the
  zero padding and the flag of the last block, and the truncation of the output are exact.\<close>

theorem blake2b_stream_correct:
  assumes "length key \<le> 64" "hash_size \<le> 64"
  shows "crypto_blake2b_final (fold crypto_blake2b_update pieces (crypto_blake2b_keyed_init hash_size key ctx))
    = blake2b_spec hash_size key (concat pieces)"
  by (rule blake2b_pieces [OF assms])

theorem blake2b_stream_correct_witness:
  "crypto_blake2b_final (fold crypto_blake2b_update [[1, 2, 3], [], replicate 200 7] (crypto_blake2b_keyed_init 32 [5, 6] blake2b_ctx0))
    = blake2b_spec 32 [5, 6] ([1, 2, 3] @ replicate 200 7)"
  using blake2b_stream_correct [of "[5, 6]" 32 "[[1, 2, 3], [], replicate 200 7]" blake2b_ctx0] by simp

end
