(* ===== verification/Eddsa.thy ===== *)
theory Eddsa
  imports Edcomb Blake2b
begin

text \<open>
  The EdDSA functions of \<open>crypto/monocypher.c\<close>: the scheme of RFC 8032 on the same curve with BLAKE2b in the
  place of SHA-512.  Signing and verification are shown to be the same scheme with another hash.
\<close>

section \<open>Operations\<close>

text \<open>The seed is wiped; \<open>key_pair\<close> returns the secret key, the public key and the wiped seed.\<close>

definition crypto_eddsa_key_pair :: "byte list \<Rightarrow> byte list \<times> byte list \<times> byte list" where
  "crypto_eddsa_key_pair seed =
     (let a = take 32 seed;
          wiped = replicate 32 0;
          secret = a;
          a = crypto_blake2b 64 a;
          a = crypto_eddsa_trim_scalar a;
          secret = secret @ crypto_eddsa_scalarbase (take 32 a);
          public_key = take 32 (drop 32 secret)
      in (secret, public_key, wiped))"

definition eddsa_hash_reduce :: "byte list \<Rightarrow> byte list \<Rightarrow> byte list \<Rightarrow> byte list" where
  "eddsa_hash_reduce a b c =
     (let ctx = crypto_blake2b_init 64 blake2b_ctx0;
          ctx = crypto_blake2b_update a ctx;
          ctx = crypto_blake2b_update b ctx;
          ctx = crypto_blake2b_update c ctx
      in crypto_eddsa_reduce (crypto_blake2b_final ctx))"

definition crypto_eddsa_sign :: "byte list \<Rightarrow> byte list \<Rightarrow> byte list" where
  "crypto_eddsa_sign secret_key message =
     (let a = crypto_blake2b 64 (take 32 secret_key);
          a = crypto_eddsa_trim_scalar a;
          r = eddsa_hash_reduce (take 32 (drop 32 a)) message [];
          R = crypto_eddsa_scalarbase r;
          h = eddsa_hash_reduce R (take 32 (drop 32 secret_key)) message
      in R @ crypto_eddsa_mul_add h (take 32 a) r)"

definition crypto_eddsa_check :: "byte list \<Rightarrow> byte list \<Rightarrow> byte list \<Rightarrow> i32" where
  "crypto_eddsa_check signature public_key message =
     (let h = eddsa_hash_reduce (take 32 signature) (take 32 public_key) message
      in crypto_eddsa_check_equation signature public_key h)"

section \<open>The scheme\<close>

abbreviation blake64 :: "byte list \<Rightarrow> byte list" where
  "blake64 m \<equiv> blake2b_spec 64 [] m"

lemma crypto_blake2b_spec: "n \<le> 64 \<Longrightarrow> crypto_blake2b n m = blake2b_spec n [] m"
  using blake2b_pieces [of "[]" n "[m]" blake2b_ctx0] by (simp add: crypto_blake2b_def crypto_blake2b_keyed_def)

lemma length_blake64 [simp]: "length (blake64 m) = 64"
  by (simp add: blake2b_spec_def length_rfc blake2b_h0_def blake2b_iv_def)

lemma eddsa_hash_spec: "eddsa_hash_reduce a b c = le_bytes 32 (le_num (blake64 (a @ b @ c)) mod Lnum)"
proof -
  have "eddsa_hash_reduce a b c = crypto_eddsa_reduce (crypto_blake2b_final (fold crypto_blake2b_update [a, b, c] (crypto_blake2b_keyed_init 64 [] blake2b_ctx0)))"
    by (simp add: eddsa_hash_reduce_def crypto_blake2b_init_def Let_def)
  also have "\<dots> = crypto_eddsa_reduce (blake64 (concat [a, b, c]))" using blake2b_pieces [of "[]" 64 "[a, b, c]" blake2b_ctx0] by simp
  finally show ?thesis by (simp add: reduce_correct)
qed

text \<open>The EdDSA functions on BLAKE2b are the scheme of RFC 8032 with that hash: signing writes R and
  (k a + r) mod L for the digests of BLAKE2b, and the check returns 0 exactly when S is reduced, both points decode
  and the verification equation holds on digits of the reduced digest and of S, and -1 otherwise.\<close>

theorem eddsa_blake2b_scheme:
  assumes "length seed = 32" "length A = 32" "length sig = 64"
  shows "crypto_eddsa_sign (seed @ A) M = rfc8032_sign blake64 crypto_eddsa_scalarbase seed A M
    \<and> (\<exists>ad sd. length ad = length sd \<and> list_all (small_digit 3) ad \<and> list_all (small_digit 5) sd
        \<and> digits_value ad = int (le_num (blake64 (take 32 sig @ A @ M)) mod Lnum)
        \<and> (digits_value sd = int (le_num (drop 32 sig)) \<or> Lnum \<le> le_num (drop 32 sig))
        \<and> crypto_eddsa_check sig A M = (if verify_decision sig A ad sd then 0 else - 1))"
proof
  define d where "d = blake64 seed"
  have "length d = 64" by (simp add: d_def)
  note t = trimmed_digest [OF this]
  have b: "crypto_blake2b 64 (take 32 (seed @ A)) = d" using assms(1) by (simp add: crypto_blake2b_spec d_def)
  show "crypto_eddsa_sign (seed @ A) M = rfc8032_sign blake64 crypto_eddsa_scalarbase seed A M"
    unfolding crypto_eddsa_sign_def Let_def b t(1,2) eddsa_hash_spec rfc8032_sign_def d_def [symmetric]
    using assms(1,2) t(3,4) by (simp add: mul_add_correct le_num_mod_L)
  have "crypto_eddsa_check sig A M = crypto_eddsa_check_equation sig A (le_bytes 32 (le_num (blake64 (take 32 sig @ A @ M)) mod Lnum))"
    using assms(2) by (simp add: crypto_eddsa_check_def eddsa_hash_spec)
  then show "\<exists>ad sd. length ad = length sd \<and> list_all (small_digit 3) ad \<and> list_all (small_digit 5) sd
        \<and> digits_value ad = int (le_num (blake64 (take 32 sig @ A @ M)) mod Lnum)
        \<and> (digits_value sd = int (le_num (drop 32 sig)) \<or> Lnum \<le> le_num (drop 32 sig))
        \<and> crypto_eddsa_check sig A M = (if verify_decision sig A ad sd then 0 else - 1)"
    using check_equation_lemma [OF assms(3) mod_less_divisor [OF Lnum_less(1)]] by simp
qed

theorem eddsa_blake2b_scheme_witness:
  "length (replicate 64 (1 :: byte)) = 64 \<and>
   crypto_eddsa_sign (replicate 32 7 @ replicate 32 9) [1, 2] = rfc8032_sign blake64 crypto_eddsa_scalarbase (replicate 32 7) (replicate 32 9) [1, 2]"
  using eddsa_blake2b_scheme [of "replicate 32 7" "replicate 32 9" "replicate 64 1" "[1, 2]"] by simp

end
