(* ===== verification/Hmac.thy ===== *)
theory Hmac
  imports Sha512
begin

text \<open>
  The HMAC and HKDF sections of \<open>crypto/monocypher-ed25519.c\<close>, on the SHA-512 of \<open>Sha512\<close>, against RFC 2104
  and RFC 5869.  The context keeps the padded key already combined with the inner constant; finishing
  turns it into the outer key in place.
\<close>

section \<open>Operations\<close>

record hmac_ctx =
  hm_key :: "byte list"
  hm_ctx :: sha512_ctx

text \<open>A long key is hashed into the first 64 bytes of \<open>ctx->key\<close> and read from there; every byte is read before it is
  overwritten.\<close>

definition crypto_sha512_hmac_init :: "byte list \<Rightarrow> hmac_ctx \<Rightarrow> hmac_ctx" where
  "crypto_sha512_hmac_init key ctx =
     (let key = (if length key > 128 then crypto_sha512 key else key);
          k = map (\<lambda>b. b XOR 0x36) key @ replicate (128 - length key) 0x36
      in ctx\<lparr>hm_key := k, hm_ctx := crypto_sha512_update k (crypto_sha512_init (hm_ctx ctx))\<rparr>)"

definition crypto_sha512_hmac_update :: "byte list \<Rightarrow> hmac_ctx \<Rightarrow> hmac_ctx" where
  "crypto_sha512_hmac_update message ctx = ctx\<lparr>hm_ctx := crypto_sha512_update message (hm_ctx ctx)\<rparr>"

definition crypto_sha512_hmac_final :: "hmac_ctx \<Rightarrow> byte list" where
  "crypto_sha512_hmac_final ctx =
     (let hmac = crypto_sha512_final (hm_ctx ctx);
          k = map (\<lambda>b. b XOR (0x36 XOR 0x5c)) (hm_key ctx);
          c = crypto_sha512_init (hm_ctx ctx);
          c = crypto_sha512_update k c;
          c = crypto_sha512_update hmac c
      in crypto_sha512_final c)"

definition hmac_ctx0 :: hmac_ctx where
  "hmac_ctx0 = \<lparr>hm_key = replicate 128 0, hm_ctx = sha512_ctx0\<rparr>"

definition crypto_sha512_hmac :: "byte list \<Rightarrow> byte list \<Rightarrow> byte list" where
  "crypto_sha512_hmac key message =
     crypto_sha512_hmac_final (crypto_sha512_hmac_update message (crypto_sha512_hmac_init key hmac_ctx0))"

text \<open>The loop of \<open>crypto_sha512_hkdf_expand\<close>: \<open>blk\<close> is the previous block, if any, and the counter a byte.\<close>

function hkdf_loop :: "byte list \<Rightarrow> byte list \<Rightarrow> nat \<Rightarrow> byte list option \<Rightarrow> byte \<Rightarrow> byte list" where
  "hkdf_loop prk info okm_size blk ctr =
     (if okm_size > 0 then
        (let out_size = min okm_size 64;
             ctx = crypto_sha512_hmac_init prk hmac_ctx0;
             ctx = (case blk of Some b \<Rightarrow> crypto_sha512_hmac_update b ctx | None \<Rightarrow> ctx);
             ctx = crypto_sha512_hmac_update info ctx;
             ctx = crypto_sha512_hmac_update [ctr] ctx;
             b = crypto_sha512_hmac_final ctx
         in take out_size b @ hkdf_loop prk info (okm_size - out_size) (Some b) (ctr + 1))
      else [])"
  by pat_completeness auto
termination by (relation "measure (\<lambda>(_, _, n, _, _). n)") auto

definition crypto_sha512_hkdf_expand :: "nat \<Rightarrow> byte list \<Rightarrow> byte list \<Rightarrow> byte list" where
  "crypto_sha512_hkdf_expand okm_size prk info = hkdf_loop prk info okm_size None 1"

definition crypto_sha512_hkdf :: "nat \<Rightarrow> byte list \<Rightarrow> byte list \<Rightarrow> byte list \<Rightarrow> byte list" where
  "crypto_sha512_hkdf okm_size ikm salt info =
     (let prk = crypto_sha512_hmac salt ikm in crypto_sha512_hkdf_expand okm_size prk info)"

section \<open>The standards\<close>

definition pad_key :: "byte list \<Rightarrow> byte list" where
  "pad_key key = (let k = (if length key > 128 then sha512_spec key else key) in k @ replicate (128 - length k) 0)"

text \<open>RFC 2104 with SHA-512.\<close>

definition hmac_spec :: "byte list \<Rightarrow> byte list \<Rightarrow> byte list" where
  "hmac_spec key m = sha512_spec (map (\<lambda>b. b XOR 0x5c) (pad_key key) @ sha512_spec (map (\<lambda>b. b XOR 0x36) (pad_key key) @ m))"

text \<open>RFC 5869: \<open>T(n)\<close>, and the output as a prefix of their concatenation.\<close>

primrec hkdf_T :: "byte list \<Rightarrow> byte list \<Rightarrow> nat \<Rightarrow> byte list" where
  "hkdf_T prk info 0 = []"
| "hkdf_T prk info (Suc n) = hmac_spec prk (hkdf_T prk info n @ info @ [of_nat (Suc n)])"

definition hkdf_spec :: "nat \<Rightarrow> byte list \<Rightarrow> byte list \<Rightarrow> byte list \<Rightarrow> byte list" where
  "hkdf_spec n ikm salt info =
     take n (concat (map (\<lambda>i. hkdf_T (hmac_spec salt ikm) info (Suc i)) [0..<(n + 63) div 64]))"

section \<open>Correctness\<close>

lemma init_key:
  "hm_key (crypto_sha512_hmac_init key ctx) = map (\<lambda>b. b XOR 0x36) (pad_key key)"
  "hm_ctx (crypto_sha512_hmac_init key ctx) = crypto_sha512_update (map (\<lambda>b. b XOR 0x36) (pad_key key)) (crypto_sha512_init (hm_ctx ctx))"
  by (simp_all add: crypto_sha512_hmac_init_def pad_key_def Let_def crypto_sha512_spec)

lemma update_fields:
  "hm_key (fold crypto_sha512_hmac_update ms ctx) = hm_key ctx"
  "hm_ctx (fold crypto_sha512_hmac_update ms ctx) = fold crypto_sha512_update ms (hm_ctx ctx)"
  by (induction ms arbitrary: ctx) (simp_all add: crypto_sha512_hmac_update_def)

lemma outer_key: "map (\<lambda>b. b XOR (0x36 XOR 0x5c)) (map (\<lambda>b. b XOR 0x36) k) = map (\<lambda>b. b XOR (0x5c :: byte)) k"
proof -
  have "(b XOR x) XOR (x XOR y) = b XOR y" for b x y :: byte by (rule bit_word_eqI) (auto simp: bit_xor_iff)
  then show ?thesis by (simp only: map_map comp_def)
qed

lemma hmac_pieces:
  "crypto_sha512_hmac_final (fold crypto_sha512_hmac_update ms (crypto_sha512_hmac_init key ctx)) = hmac_spec key (concat ms)"
proof -
  let ?k = "map (\<lambda>b. b XOR 0x36) (pad_key key)" and ?f = "fold crypto_sha512_hmac_update ms (crypto_sha512_hmac_init key ctx)"
  have inner: "crypto_sha512_final (hm_ctx ?f) = sha512_spec (?k @ concat ms)"
    unfolding update_fields init_key using sha512_pieces [of "?k # ms" "hm_ctx ctx"] by simp
  have key: "map (\<lambda>b. b XOR (0x36 XOR 0x5c)) (hm_key ?f) = map (\<lambda>b. b XOR 0x5c) (pad_key key)"
    unfolding update_fields init_key by (rule outer_key)
  have fin: "crypto_sha512_final (crypto_sha512_update b (crypto_sha512_update a (crypto_sha512_init c))) = sha512_spec (a @ b)" for a b c
    using sha512_pieces [of "[a, b]" c] by simp
  show ?thesis unfolding crypto_sha512_hmac_final_def Let_def inner key fin hmac_spec_def ..
qed

corollary hmac_correct: "crypto_sha512_hmac key m = hmac_spec key m"
  using hmac_pieces [of "[m]" key hmac_ctx0] by (simp add: crypto_sha512_hmac_def)

lemma length_hmac [simp]: "length (hmac_spec key m) = 64"
  by (simp add: hmac_spec_def)

declare hkdf_loop.simps [simp del]

lemma hkdf_block:
  "hkdf_loop prk info n (if i = 0 then None else Some (hkdf_T prk info i)) (of_nat (Suc i))
   = (if n > 0 then take (min n 64) (hkdf_T prk info (Suc i)) @ hkdf_loop prk info (n - min n 64) (Some (hkdf_T prk info (Suc i))) (of_nat (Suc (Suc i)))
      else [])"
proof -
  have "crypto_sha512_hmac_final (crypto_sha512_hmac_update [of_nat (Suc i)] (crypto_sha512_hmac_update info
      (case (if i = 0 then None else Some (hkdf_T prk info i)) of
         Some b \<Rightarrow> crypto_sha512_hmac_update b (crypto_sha512_hmac_init prk hmac_ctx0)
       | None \<Rightarrow> crypto_sha512_hmac_init prk hmac_ctx0)))
    = hkdf_T prk info (Suc i)"
  proof (cases "i = 0")
    case True
    then show ?thesis using hmac_pieces [of "[info, [1]]" prk hmac_ctx0] by simp
  next
    case False
    then show ?thesis using hmac_pieces [of "[hkdf_T prk info i, info, [of_nat (Suc i)]]" prk hmac_ctx0] by simp
  qed
  then show ?thesis unfolding hkdf_loop.simps [of prk info n] Let_def by (simp add: add.commute)
qed

lemma hkdf_blocks:
  "hkdf_loop prk info n (if i = 0 then None else Some (hkdf_T prk info i)) (of_nat (Suc i))
   = take n (concat (map (\<lambda>j. hkdf_T prk info (Suc j)) [i..<i + (n + 63) div 64]))"
proof (induction n arbitrary: i rule: less_induct)
  case (less n)
  show ?case
  proof (cases "n = 0")
    case True
    then show ?thesis unfolding hkdf_block by simp
  next
    case False
    define r where "r = n - min n 64"
    have l: "r < n" using False by (simp add: r_def)
    have h: "length (hkdf_T prk info (Suc i)) = 64" by simp
    have ih: "hkdf_loop prk info r (Some (hkdf_T prk info (Suc i))) (of_nat (Suc (Suc i)))
        = take r (concat (map (\<lambda>j. hkdf_T prk info (Suc j)) [Suc i..<Suc i + (r + 63) div 64]))"
      using less.IH [OF l, of "Suc i"] by simp
    have "(n + 63) div 64 = Suc ((r + 63) div 64)"
    proof (cases "n \<le> 64")
      case True
      then have "r = 0" "n + 63 = (n - 1) + 64" using False by (simp_all add: r_def)
      then show ?thesis using True False by simp
    next
      case no: False
      then have "n + 63 = (r + 63) + 64" by (simp add: r_def)
      then show ?thesis by simp
    qed
    then have "[i..<i + (n + 63) div 64] = i # [Suc i..<Suc i + (r + 63) div 64]" by (simp add: upt_conv_Cons)
    then show ?thesis unfolding hkdf_block r_def [symmetric] ih using False h by (simp add: r_def min_def)
  qed
qed

text \<open>The keyed hash and the key derivation are those of the standards.  Whatever way a message is cut, initialising
  with a key of any length, absorbing the pieces and finishing gives the HMAC of RFC 2104 over SHA-512; and the
  derivation returns, for every output size, salt and info, the prefix of the blocks T(1), T(2), ... of RFC 5869
  under the extracted key, the block number being its byte (RFC 5869 itself stops at 255 blocks).\<close>

theorem hkdf_rfc5869:
  "crypto_sha512_hmac_final (fold crypto_sha512_hmac_update pieces (crypto_sha512_hmac_init key ctx)) = hmac_spec key (concat pieces)
   \<and> crypto_sha512_hkdf n ikm salt info = hkdf_spec n ikm salt info"
  using hmac_pieces [of pieces key ctx] hkdf_blocks [of "hmac_spec salt ikm" info n 0]
  by (simp add: crypto_sha512_hkdf_def crypto_sha512_hkdf_expand_def hkdf_spec_def hmac_correct Let_def)

end
