(* ===== verification/Spec2Isabelle.thy ===== *)
theory Spec2Isabelle
  imports Keyboard Tntick Terminal Netapi Sshhost Sshkeys Sshchan Sshtick Install Eddsa Hmac
begin

text \<open>
  \<^bold>\<open>DOSSH: a remote console for DOS.\<close>  The program (\<open>dosshd/\<close>) is a resident driver: hooked to the
  timer interrupt, it mirrors the VGA text screen to remote clients and feeds their keystrokes into
  the BIOS keyboard ring, over a serial line, telnet or SSH, on its own TCP/IP stack.  It is compiled
  for 16-bit real mode, so \<open>int\<close>, \<open>unsigned\<close> and \<open>size_t\<close> have 16 bits; the model writes the wrap-around
  out (\<open>w16\<close>, \<open>sub16\<close>) wherever the code can meet it, and keeps \<open>uint8_t\<close>, \<open>uint32_t\<close>, \<open>uint64_t\<close> as words.

  \<^bold>\<open>How the parts interact.\<close>  \<open>dosshd.c\<close> installs the program and owns the tick.  A tick polls the
  stack (\<open>net_poll\<close>), hands the bytes of every slot to telnet (\<open>telnet_in\<close>) or to the SSH server
  (\<open>ssh_input\<close>), passes decoded keystrokes through the key mapper (\<open>ansi_key_byte\<close>) to \<open>inject_key\<close>, and
  asks the renderer (\<open>render_next_byte\<close>) for the bytes to broadcast.  \<open>ssh.c\<close> rests on \<open>crypto/\<close>.

  \<^bold>\<open>Theories and sources.\<close>  Records are the C structs or the statics of a file, datatypes its enums;
  definitions carry the names of the functions they translate, and a loop that is a definition of its own
  is named after its function.
  \<^item> \<open>Prelude\<close>: bytes, 16-bit arithmetic, fallible code (\<open>option\<close>, \<open>None\<close> for a read outside a buffer,
    rules \<open>wp\<close>), circular buffers, and the interfaces \<open>bounded_sink\<close> and \<open>bounded_fifo\<close>
    of the rings and \<open>streaming\<close> of the hashes and the authenticator.
  \<^item> \<open>Ansikey\<close> (\<open>ansikey.c\<close>), \<open>Keyboard\<close> (\<open>inject_key\<close> of \<open>dosshd.c\<close>): escape sequences, line ends, the reboot
    sentinel; the BIOS ring is a \<open>bounded_sink\<close>.
  \<^item> \<open>Telnet\<close> (\<open>telnet.c\<close>): option negotiation, decoding, and the password gate.  \<open>Tntick\<close>: the loop of the tick over
    a slot (\<open>net_tick\<close>) refines one telnet session on the bytes received, which ends at the first drop.
  \<^item> \<open>Cp437\<close>, \<open>Render\<close>, \<open>Terminal\<close> (\<open>cp437.c\<close>, \<open>render.c\<close>): the diff-driven renderer, an ANSI terminal as its
    abstract specification, and the refinement: whatever was delivered, refused or reset, a quiet
    renderer means that the terminal shows the screen, if the screen fits the 4000-byte shadow.
  \<^item> \<open>Net\<close>, \<open>Tcp\<close>, \<open>Netapi\<close> (\<open>net.c\<close>): frames, ARP, TCP and the slot API.  The send and receive rings provide
    the ring interfaces; the connection refines a byte stream in both directions under any
    interleaving of segments (FIN included), timers and calls; the stack's invariant and the buffer bounds are kept.
  \<^item> \<open>Sha256\<close> (\<open>sha256.c\<close>), \<open>Chacha\<close>, \<open>Poly1305\<close>, \<open>Fe25519\<close>, \<open>X25519\<close> (\<open>monocypher.c\<close> and the wrappers of \<open>crypto.c\<close>),
    \<open>Sha512\<close> (\<open>monocypher-ed25519.c\<close>), \<open>Aead\<close>, \<open>Rng\<close> (\<open>rng.c\<close>): each routine,
    limb for limb, against the definition of its standard.
  \<^item> \<open>Modl\<close>, \<open>Ed25519\<close> (\<open>monocypher.c\<close>, \<open>monocypher-ed25519.c\<close>): arithmetic modulo the group order, points, tables, key
    generation, signing and verification.  \<open>Edcurve\<close>, \<open>Edslide\<close>, \<open>Edcomb\<close>, \<open>Edsign\<close>: the point formulas and the
    decoding against the curve equation, the recoding of scalars, the comb multiplication, and RFC 8032.
  \<^item> \<open>Blake2b\<close>, \<open>Eddsa\<close>, \<open>Hmac\<close>: the rest of the vendored library that is compiled in, which the program does not call.
  \<^item> \<open>Sshwire\<close>, \<open>Ssh\<close> (\<open>ssh.c\<close>, \<open>ssh.h\<close>): the whole server.  \<open>Sshauth\<close>, \<open>Sshsession\<close>, \<open>Sshinput\<close>: authentication and
    the session gate, packet decoding, and when the input loop ends.  \<open>Sshnego\<close>, \<open>Sshkex\<close>, \<open>Sshseal\<close>, \<open>Sshhost\<close>,
    \<open>Sshkeys\<close>, \<open>Sshchan\<close>: negotiation, key exchange, the encrypted packet, the host key's reply, \<open>authorized_keys\<close> lines and
    the session channel, whose keystroke ring is a \<open>bounded_fifo\<close>.
  \<^item> \<open>Dosshd\<close>, \<open>Sshtick\<close>, \<open>Install\<close> (\<open>dosshd.c\<close>): the tick with its three transports and the shared SSH
    output, and the installer.

  \<^bold>\<open>What the theorems show.\<close>  Safety first: no keystroke passes the telnet gate or the SSH server without the password or an
  authorized signature, and no connection is admitted to the screen without them, with the exact condition; the one way
  round the telnet gate, a new connection of the same host that takes over the slot of an admitted one and keeps its
  admission to the screen broadcast, is a theorem of \<open>Netapi\<close>.  A theorem below restates the SSH condition and the
  proof of the host key for the program's own cryptography; the exchange
  hash, the keys and the packets are those of the RFCs; the streams of the TCP layer are neither reordered nor
  altered; no frame is read outside its buffer.  Functional behaviour, round trips and equivalences cover the rest, and
  where the code departs from its intent (the takeover, a retransmitted SYN that strands a connection, a packet length
  that hangs the input loop, output of one client that reaches another) the departure is a theorem.

  \<^bold>\<open>Bounds and fuel.\<close>  Loops are recursive functions over the data they walk.  Two have fuel.  \<open>ssh_input\<close> gets
  \<open>ssh_fuel\<close>, one iteration more than its buffer holds: every iteration consumes a byte, except for the
  one packet length whose loop never ends, which is proved to be the only exception.  The serial handler follows a finite
  script of arriving bytes and busy polls.  Everything else is total.

  \<^bold>\<open>Parameters.\<close>  Hardware (entropy sources, video memory, BIOS data area, packet driver, DOS calls) enters as
  arguments or records of functions.  The SSH model takes X25519 and Ed25519 as the record \<open>crypto\<close>; its
  theorems hold for every instance, and \<open>dossh_crypto\<close> below is the program's own; the installer takes the generation of a host key pair as
  an argument, which is \<open>dossh_ed25519_key_pair\<close> in the program.  \<open>X25519\<close> uses
  Euler's criterion at the last denominator as a hypothesis, since the primality of \<open>2 ^ 255 - 19\<close> is
  not derived.  C strings are NUL-free byte lists; the data of one \<open>ssh_input\<close> call is shorter than 63 KB.

  \<^bold>\<open>Not modelled.\<close>  Argon2, Elligator and the curve conversions, which the build leaves out (\<open>DOSSH_SSH_SUBSET\<close>); the group laws
  of the curve, so that the verification equation speaks of the digits the code uses; the assembly files
  \<open>pktrecv.asm\<close> and \<open>sshtramp.asm\<close>, whose effects are the input queue of \<open>net_poll\<close> and a change of stack;
  the texts of messages; \<open>crypto_wipe\<close> of dead buffers, which no result depends on; build scripts and tests.
\<close>

section \<open>The server with its own cryptography\<close>

text \<open>The record the SSH model is parametrised with, filled with the program's routines; only the
  entropy sources stay open.  \<open>dossh_ed25519_verify\<close> returns 0 for a good signature.\<close>

definition dossh_crypto :: "rng_hw \<Rightarrow> crypto" where
  "dossh_crypto h = \<lparr>hw = h, x25519 = dossh_x25519, x25519_public_key = dossh_x25519_public_key,
     ed25519_sign = dossh_ed25519_sign, ed25519_verify = (\<lambda>sig pk msg. dossh_ed25519_verify sig pk msg = 0)\<rparr>"

text \<open>What a signature has to satisfy: \<open>S\<close> below the group order, and the verification equation on digits of
  the reduced hash and of \<open>S\<close>.\<close>

definition signature_holds :: "byte list \<Rightarrow> byte list \<Rightarrow> byte list \<Rightarrow> bool" where
  "signature_holds sig A M \<longleftrightarrow> le_num (drop 32 sig) < Lnum
     \<and> (\<exists>ad sd. list_all (small_digit 3) ad \<and> list_all (small_digit 5) sd \<and> length ad = length sd
          \<and> digits_value ad = int (le_num (sha512_spec (take 32 sig @ A @ M)) mod Lnum)
          \<and> digits_value sd = int (le_num (drop 32 sig)) \<and> verify_decision sig A ad sd)"

lemma verify_holds:
  assumes "length sig = 64" "length A = 32" "dossh_ed25519_verify sig A M = 0"
  shows "signature_holds sig A M"
proof -
  obtain ad sd where v: "length ad = length sd" "list_all (small_digit 3) ad" "list_all (small_digit 5) sd"
    "digits_value ad = int (le_num (sha512_spec (take 32 sig @ A @ M)) mod Lnum)"
    "digits_value sd = int (le_num (drop 32 sig)) \<or> Lnum \<le> le_num (drop 32 sig)" "verify_decision sig A ad sd"
    using verify_lemma [OF assms(1,2), of M] assms(3) by (auto simp: dossh_ed25519_verify_def split: if_splits)
  have "le_num (drop 32 sig) < Lnum" using v(6) assms(1) by (simp add: verify_decision_def)
  then show ?thesis using v unfolding signature_holds_def by auto
qed

lemma signed_tail_mono:
  assumes "signed_tail cr s user svc rest"
    and "\<And>sig key m. length sig = 64 \<Longrightarrow> length key = 32 \<Longrightarrow> ed25519_verify cr sig key m \<Longrightarrow> ed25519_verify cr' sig key m"
  shows "signed_tail cr' s user svc rest"
  using assms unfolding signed_tail_def by blast

lemma login_signature:
  assumes "plen \<le> length pl" "plen \<le> 2043" "1 \<le> plen" "\<not> authenticated s" "g_authkeys s \<noteq> []"
  shows "\<exists>s'. handle_userauth_request (dossh_crypto h) pl plen s = Some s'
     \<and> (authenticated s' \<longrightarrow> password_request s (take plen pl)
          \<or> pubkey_request (dossh_crypto h\<lparr>ed25519_verify := signature_holds\<rparr>) s (take plen pl))"
proof -
  have "pubkey_request (dossh_crypto h\<lparr>ed25519_verify := signature_holds\<rparr>) s p" if "pubkey_request (dossh_crypto h) s p" for p
    using that unfolding pubkey_request_def
    by (elim exE conjE) (intro exI conjI, erule signed_tail_mono, simp_all add: dossh_crypto_def verify_holds)
  moreover have "\<not> open_request s p" for p using assms(5) by (simp add: open_request_def)
  ultimately show ?thesis using granted_requests [OF assms(1-4), of "dossh_crypto h"] by blast
qed

text \<open>C10. With the program's own cryptography, a server that has authorized keys lets in only clients with the password
  or with an authorized key and a signature over the session, the user and the service whose S is below the group order
  and which satisfies the verification equation: the digits used have the value of the reduced hash and of S,
  both points decode, and the resulting point is the neutral one.\<close>

theorem login_needs_signature:
  assumes "plen \<le> length pl" "plen \<le> 2043" "1 \<le> plen" "\<not> authenticated s" "g_authkeys s \<noteq> []"
  shows "\<exists>s'. handle_userauth_request (dossh_crypto h) pl plen s = Some s'
     \<and> (authenticated s' \<longrightarrow> password_request s (take plen pl)
          \<or> pubkey_request (dossh_crypto h\<lparr>ed25519_verify := signature_holds\<rparr>) s (take plen pl))"
  by (rule login_signature [OF assms])

text \<open>A well-formed request for an authorized key with an unreduced signature.\<close>

definition wit_blob :: "byte list \<Rightarrow> byte list" where
  "wit_blob field = put_nl ''ssh-ed25519'' @ put_str field"

definition wit_tail :: "byte list" where
  "wit_tail = [1] @ put_nl ''ssh-ed25519'' @ put_str (wit_blob (replicate 32 0)) @ put_str (wit_blob (replicate 64 255))"

definition wit_forged :: "byte list" where
  "wit_forged = 50 # put_nl ''a'' @ put_nl ''ssh-connection'' @ put_nl ''publickey'' @ wit_tail"

lemma wit_length: "length wit_forged \<le> 2043" "1 \<le> length wit_forged" "length wit_tail < 65536"
  by (simp_all add: wit_forged_def wit_tail_def wit_blob_def put_nl_def put_str_def put_u32_def)

lemma forged_fails: "\<not> signature_holds (replicate 64 255) A M"
proof -
  have "le_num (replicate 32 255) = 256 ^ 32 - 1" using le_num_ones [of 32] by simp
  then show ?thesis by (simp add: signature_holds_def Lnum_def)
qed

lemma forged_request: "\<not> pubkey_request (cr\<lparr>ed25519_verify := signature_holds\<rparr>) s wit_forged"
proof
  assume "pubkey_request (cr\<lparr>ed25519_verify := signature_holds\<rparr>) s wit_forged"
  then obtain m user svc t where t: "signed_tail (cr\<lparr>ed25519_verify := signature_holds\<rparr>) s user svc t"
    "wit_forged = [m] @ put_str user @ put_str svc @ put_str (str ''publickey'') @ t"
    by (auto simp: pubkey_request_def put_nl_def)
  have "t = wit_tail"
    using request_prefix [OF wit_forged_def [unfolded put_nl_def] _ t(2)] wit_length(1) by simp
  then obtain sigblob sig r key where p: "put_str (wit_blob (replicate 64 255)) @ [] = put_str sigblob @ r" "ed25519_blob sigblob sig"
    "signature_holds sig key (session_bound s user svc (wit_blob (replicate 32 0)))"
    using t(1) signed_tail_parsed [OF wit_tail_def [unfolded put_nl_def] wit_length(3)] by auto
  have b: "length (wit_blob (replicate 64 255)) + 4 < 65536" by (simp add: wit_blob_def put_nl_def put_str_def put_u32_def)
  have "sigblob = wit_blob (replicate 64 255)" using put_str_prefix [OF p(1)] b by (simp add: put_str_def put_u32_def)
  moreover have "ed25519_blob (wit_blob (replicate 64 255)) (replicate 64 255)" by (simp add: ed25519_blob_def wit_blob_def)
  ultimately have "sig = replicate 64 255" using blob_unique [OF p(2)] b by simp
  then show False using p(3) forged_fails by simp
qed

theorem login_needs_signature_witness:
  "\<exists>s'. handle_userauth_request (dossh_crypto (hw toy_crypto)) wit_forged (length wit_forged)
          (ssh_zero\<lparr>g_authkeys := [replicate 32 0]\<rparr>) = Some s' \<and> \<not> authenticated s'"
proof -
  let ?s = "ssh_zero\<lparr>g_authkeys := [replicate 32 0]\<rparr>"
  have "\<not> password_request ?s p" "\<not> authenticated ?s" for p
    by (simp_all add: password_request_def ssh_zero_def ssh_conn_zero_def ssh_conn.defs ssh.defs)
  moreover have "g_authkeys ?s \<noteq> []" by simp
  ultimately show ?thesis
    using login_needs_signature [of "length wit_forged" wit_forged ?s "hw toy_crypto"] wit_length(1,2) forged_request by force
qed

section \<open>The server proves its host key\<close>

lemma public_key_length: "length (dossh_x25519_public_key k) = 32"
  by (simp add: dossh_x25519_public_key_def crypto_x25519_public_key_def crypto_x25519_def scalarmult_def Let_def
      fe_tobytes_def store32_le_def case_prod_beta)

lemma sign_length: "length (rfc8032_sign sha512_spec crypto_eddsa_scalarbase seed A M) = 64"
  by (simp add: rfc8032_sign_def Let_def crypto_eddsa_scalarbase_def length_ge_tobytes)

lemma kex_reply:
  assumes "\<not> discard_next s" "37 \<le> n" "n \<le> length pl" "rd_len pl 1 = Some 32"
    "rng_ok (g_rng s)" "\<not> send_encrypted s" "length (g_ob s) \<le> 1024"
    "g_hostkey_sk s = seed @ g_hostkey_pk s" "length seed = 32" "length (g_hostkey_pk s) = 32"
  shows "\<exists>u. handle_ecdh_init (dossh_crypto h) pl n s = Some u
    \<and> (if list_all (\<lambda>b. b = 0) (dossh_x25519 (g_eph_sk u) (take 32 (drop 5 pl))) then ssh_st u = SSH_ST_ERROR \<and> g_ob u = g_ob s
       else ssh_st u = SSH_ST_EXPECT_CLIENT_NEWKEYS
         \<and> (\<exists>pad1 pad2. length pad1 = 8 \<and> length pad2 = 10
             \<and> g_ob u = g_ob s @ plain_packet (ecdh_payload (g_hostkey_pk s) (dossh_x25519_public_key (g_eph_sk u))
                   (rfc8032_sign sha512_spec crypto_eddsa_scalarbase seed (g_hostkey_pk s) (g_H u))) pad1 @ plain_packet [21] pad2))"
proof -
  let ?cr = "dossh_crypto h" and ?qc = "take 32 (drop 5 pl)"
  have cr: "x25519 ?cr = dossh_x25519" "x25519_public_key ?cr = dossh_x25519_public_key" "ed25519_sign ?cr = dossh_ed25519_sign"
    by (simp_all add: dossh_crypto_def)
  have sig: "ed25519_sign ?cr (g_hostkey_sk s) m = rfc8032_sign sha512_spec crypto_eddsa_scalarbase seed (g_hostkey_pk s) m" for m
    unfolding cr dossh_ed25519_sign_def assms(8) by (rule sign_rfc8032 [OF assms(9,10)])
  have "handle_ecdh_init ?cr pl n s = Some (ecdh_reply ?cr ?qc s)"
    using assms(1-4) by (simp add: handle_ecdh_init_def slice_def)
  moreover have len: "length (x25519_public_key ?cr k) = 32" "length (ed25519_sign ?cr (g_hostkey_sk s) m) = 64" for k m
    by (simp_all only: sig cr(2) public_key_length sign_length)
  ultimately show ?thesis using reply_output [OF assms(5-7,10) len, where qc = ?qc] unfolding sig unfolding cr by blast
qed

text \<open>C6. The server proves possession of its host key.  On a well-formed KEX_ECDH_INIT, with the program's own
  cryptography and a host key stored as seed and public key, the server either refuses (exactly when the X25519 result
  is zero, with nothing sent) or sends, in the plain-text framing with the required padding, its host key, its ephemeral
  public key and the RFC 8032 signature of the exchange hash under the host key, followed by NEWKEYS.\<close>

theorem host_key_proved:
  assumes "\<not> discard_next s" "37 \<le> n" "n \<le> length pl" "rd_len pl 1 = Some 32"
    "rng_ok (g_rng s)" "\<not> send_encrypted s" "length (g_ob s) \<le> 1024"
    "g_hostkey_sk s = seed @ g_hostkey_pk s" "length seed = 32" "length (g_hostkey_pk s) = 32"
  shows "\<exists>u. handle_ecdh_init (dossh_crypto h) pl n s = Some u
    \<and> (if list_all (\<lambda>b. b = 0) (dossh_x25519 (g_eph_sk u) (take 32 (drop 5 pl))) then ssh_st u = SSH_ST_ERROR \<and> g_ob u = g_ob s
       else ssh_st u = SSH_ST_EXPECT_CLIENT_NEWKEYS
         \<and> (\<exists>pad1 pad2. length pad1 = 8 \<and> length pad2 = 10
             \<and> g_ob u = g_ob s @ plain_packet (ecdh_payload (g_hostkey_pk s) (dossh_x25519_public_key (g_eph_sk u))
                   (rfc8032_sign sha512_spec crypto_eddsa_scalarbase seed (g_hostkey_pk s) (g_H u))) pad1 @ plain_packet [21] pad2))"
  by (rule kex_reply [OF assms])

definition wit_ecdh :: "byte list" where
  "wit_ecdh = [30] @ put_str (replicate 32 9)"

theorem host_key_proved_witness:
  "\<exists>u. handle_ecdh_init (dossh_crypto (hw toy_crypto)) wit_ecdh 37 ssh_zero = Some u
     \<and> (ssh_st u = SSH_ST_ERROR \<or> ssh_st u = SSH_ST_EXPECT_CLIENT_NEWKEYS \<and> length (g_ob u) = 208)"
proof -
  have l: "rd_len wit_ecdh 1 = Some 32" "length wit_ecdh = 37"
    using rd_u32_be32 [of 1 wit_ecdh "of_nat 32" "replicate 32 9"] by (simp_all add: wit_ecdh_def rd_len_def put_str_def put_u32_def)
  have s: "\<not> discard_next ssh_zero" "rng_ok (g_rng ssh_zero)" "\<not> send_encrypted ssh_zero" "g_ob ssh_zero = []"
    "g_hostkey_sk ssh_zero = replicate 32 0 @ g_hostkey_pk ssh_zero" "length (g_hostkey_pk ssh_zero) = 32"
    by (simp_all add: ssh_zero_def ssh_conn_zero_def ssh_conn.defs ssh.defs rng_ok_def rng_zero_def POOL_WORDS_def replicate_add [symmetric])
  have p: "length (ecdh_payload (g_hostkey_pk ssh_zero) (dossh_x25519_public_key k) (rfc8032_sign sha512_spec crypto_eddsa_scalarbase sd A M)) = 179" for k sd A M
    by (rule ecdh_payload_length [OF s(6) public_key_length sign_length])
  have "\<exists>u. handle_ecdh_init (dossh_crypto (hw toy_crypto)) wit_ecdh 37 ssh_zero = Some u
      \<and> (ssh_st u = SSH_ST_ERROR \<or> ssh_st u = SSH_ST_EXPECT_CLIENT_NEWKEYS \<and> length (g_ob u) = 208)"
    using host_key_proved [of ssh_zero 37 wit_ecdh "replicate 32 0" "hw toy_crypto"] s l
    by (auto simp: plain_packet_def p put_u32_def split: if_splits)
  then show ?thesis .
qed

end
